(* ===== verification/Prelude.thy ===== *)
theory Prelude
  imports Main "HOL-Library.Word" "HOL-Library.AList"
begin

unbundle bit_operations_syntax

text \<open>
  Shared vocabulary of the development.

  \<^item> Byte strings (\<^verbatim>\<open>std::string\<close>) are values of type \<^typ>\<open>string\<close>: a \<^typ>\<open>char\<close> is one byte.
  \<^item> \<^verbatim>\<open>uint64_t\<close>, \<^verbatim>\<open>uint32_t\<close> and \<^verbatim>\<open>uint16_t\<close> are words, so that addition wraps as in C++;
    a \<^verbatim>\<open>long long\<close> is an \<^typ>\<open>int\<close> together with the range predicate \<open>i64\<close>, because its
    overflow is undefined behaviour and has to be shown absent.
  \<^item> A \<^verbatim>\<open>std::unordered_map\<close> is an association list with distinct keys. The list order stands
    for the unspecified iteration order: every theorem quantifies over all such lists.
  \<^item> Fixed-width integers copied with \<^verbatim>\<open>memcpy\<close> use the little-endian byte order of the
    supported platform (Linux on x86-64 or AArch64).
\<close>

type_synonym u64 = "64 word"
type_synonym u32 = "32 word"
type_synonym u16 = "16 word"

named_theorems codec_simps \<open>round trips and lengths of the byte codecs\<close>
named_theorems acct_simps \<open>sums over association lists (accounting)\<close>
named_theorems frame_simps \<open>fields an operation leaves unchanged\<close>

section \<open>Signed 64-bit range\<close>

definition i64 :: "int \<Rightarrow> bool" where
  "i64 x \<longleftrightarrow> - (2 ^ 63) \<le> x \<and> x < 2 ^ 63"

abbreviation LLONG_MAX :: int where "LLONG_MAX \<equiv> 9223372036854775807"
abbreviation LLONG_MIN :: int where "LLONG_MIN \<equiv> - 9223372036854775808"

lemma i64_iff: "i64 x \<longleftrightarrow> LLONG_MIN \<le> x \<and> x \<le> LLONG_MAX"
  by (auto simp: i64_def)

lemma sint_word_of_int_i64: "i64 x \<Longrightarrow> sint (word_of_int x :: u64) = x"
  by (auto simp: i64_def sint_sbintrunc' signed_take_bit_int_eq_self)

section \<open>Words and natural numbers\<close>

lemma unat_u64_less: "unat (x :: u64) < 2 ^ 64"
  using unsigned_less [of x, where 'a = nat] by simp

lemma unat_of_nat_u64: "n < 2 ^ 64 \<Longrightarrow> unat (of_nat n :: u64) = n"
  by (simp add: unsigned_of_nat take_bit_nat_eq_self)

lemma unat_of_nat_u32: "n < 2 ^ 32 \<Longrightarrow> unat (of_nat n :: u32) = n"
  by (simp add: unsigned_of_nat take_bit_nat_eq_self)

section \<open>Bytes of fixed-width integers\<close>

fun le_encode :: "nat \<Rightarrow> nat \<Rightarrow> string" where
  "le_encode 0 x = []"
| "le_encode (Suc n) x = char_of (x mod 256) # le_encode n (x div 256)"

fun le_decode :: "string \<Rightarrow> nat" where
  "le_decode [] = 0"
| "le_decode (c # cs) = of_char c + 256 * le_decode cs"

lemma length_le_encode [simp, codec_simps]: "length (le_encode n x) = n"
  by (induction n arbitrary: x) auto

lemma le_decode_encode [codec_simps]: "le_decode (le_encode n x) = x mod 256 ^ n"
proof (induction n arbitrary: x)
  case 0
  then show ?case by simp
next
  case (Suc n)
  have "x mod 256 + 256 * (x div 256 mod 256 ^ n) = x mod (256 * 256 ^ n)"
    by (simp add: mod_mult2_eq)
  with Suc show ?case by simp
qed

definition u64_bytes :: "u64 \<Rightarrow> string" where
  "u64_bytes x = le_encode 8 (unat x)"

definition u32_bytes :: "u32 \<Rightarrow> string" where
  "u32_bytes x = le_encode 4 (unat x)"

definition i64_bytes :: "int \<Rightarrow> string" where
  "i64_bytes x = le_encode 8 (unat (word_of_int x :: u64))"

definition bytes_u64 :: "string \<Rightarrow> u64" where
  "bytes_u64 s = of_nat (le_decode s)"

definition bytes_u32 :: "string \<Rightarrow> u32" where
  "bytes_u32 s = of_nat (le_decode s)"

definition bytes_i64 :: "string \<Rightarrow> int" where
  "bytes_i64 s = sint (of_nat (le_decode s) :: u64)"

lemma length_u64_bytes [simp, codec_simps]: "length (u64_bytes x) = 8"
  by (simp add: u64_bytes_def)

lemma length_u32_bytes [simp, codec_simps]: "length (u32_bytes x) = 4"
  by (simp add: u32_bytes_def)

lemma length_i64_bytes [simp, codec_simps]: "length (i64_bytes x) = 8"
  by (simp add: i64_bytes_def)

lemma le_decode_u64 [codec_simps]: "le_decode (le_encode 8 (unat (x :: u64))) = unat x"
proof -
  have "unat x < 256 ^ 8" using unsigned_less [of x] by simp
  then show ?thesis by (simp add: le_decode_encode)
qed

lemma bytes_u64_u64_bytes [simp, codec_simps]: "bytes_u64 (u64_bytes x) = x"
  by (simp add: bytes_u64_def u64_bytes_def le_decode_u64)

lemma bytes_u32_u32_bytes [simp, codec_simps]: "bytes_u32 (u32_bytes x) = x"
proof -
  have "unat x < 256 ^ 4" using unsigned_less [of x] by simp
  then show ?thesis by (simp add: bytes_u32_def u32_bytes_def le_decode_encode)
qed

lemma bytes_i64_i64_bytes [simp, codec_simps]: "i64 x \<Longrightarrow> bytes_i64 (i64_bytes x) = x"
  by (simp add: bytes_i64_def i64_bytes_def le_decode_u64 sint_word_of_int_i64)

section \<open>Association lists as hash maps\<close>

definition al_ok :: "('k \<times> 'v) list \<Rightarrow> bool" where
  "al_ok al \<longleftrightarrow> distinct (map fst al)"

definition al_sum :: "('k \<Rightarrow> 'v \<Rightarrow> 'a :: comm_monoid_add) \<Rightarrow> ('k \<times> 'v) list \<Rightarrow> 'a" where
  "al_sum f al = sum_list (map (\<lambda>(k, v). f k v) al)"

lemma al_ok_Nil [simp]: "al_ok []"
  by (simp add: al_ok_def)

lemma al_ok_Cons [simp]: "al_ok ((k, v) # al) \<longleftrightarrow> map_of al k = None \<and> al_ok al"
  by (auto simp: al_ok_def map_of_eq_None_iff)

lemma al_ok_update [simp]: "al_ok al \<Longrightarrow> al_ok (AList.update k v al)"
  by (simp add: al_ok_def distinct_update)

lemma al_ok_delete [simp]: "al_ok al \<Longrightarrow> al_ok (AList.delete k al)"
  by (simp add: al_ok_def distinct_delete)

lemma al_ok_filter [simp]: "al_ok al \<Longrightarrow> al_ok (filter P al)"
  by (induction al) (auto simp: al_ok_def)

lemma map_of_al_update [simp]: "map_of (AList.update k v al) = (map_of al)(k \<mapsto> v)"
  by (rule update_conv')

lemma map_of_al_delete [simp]: "map_of (AList.delete k al) = (map_of al)(k := None)"
  by (rule delete_conv')

lemma al_sum_Nil [simp, acct_simps]: "al_sum f [] = 0"
  by (simp add: al_sum_def)

lemma al_sum_Cons [simp, acct_simps]: "al_sum f ((k, v) # al) = f k v + al_sum f al"
  by (simp add: al_sum_def)

lemma al_delete_none: "map_of al k = None \<Longrightarrow> AList.delete k al = al"
  by (induction al) auto

lemma al_sum_split:
  "al_ok al \<Longrightarrow> map_of al k = Some v \<Longrightarrow> al_sum f al = f k v + al_sum f (AList.delete k al)"
  by (induction al) (auto simp: al_delete_none ac_simps split: if_splits)

lemma al_sum_update:
  "al_ok al \<Longrightarrow> al_sum f (AList.update k v al) = f k v + al_sum f (AList.delete k al)"
  by (induction al) (auto simp: al_delete_none ac_simps)

lemma al_sum_delete_group [acct_simps]:
  "al_ok al \<Longrightarrow> map_of al k = Some v \<Longrightarrow>
    al_sum f (AList.delete k al) = al_sum f al - (f k v :: 'a :: ab_group_add)"
  by (simp add: al_sum_split [of al k v])

lemma al_sum_update_new [acct_simps]:
  "al_ok al \<Longrightarrow> map_of al k = None \<Longrightarrow> al_sum f (AList.update k v al) = f k v + al_sum f al"
  by (simp add: al_sum_update al_delete_none)

lemma al_sum_update_old [acct_simps]:
  "al_ok al \<Longrightarrow> map_of al k = Some w \<Longrightarrow>
    al_sum f (AList.update k v al) = al_sum f al + f k v - (f k w :: 'a :: ab_group_add)"
  by (simp add: al_sum_update al_sum_delete_group)

section \<open>Maps of maps\<close>

text \<open>
  The cold-storage index and the tombstones are hash maps of hash maps, (room, key) to a
  value, in which a room with no key left is dropped.
\<close>

type_synonym ('r, 'k, 'v) nested = "('r \<times> ('k \<times> 'v) list) list"

definition inner :: "('r, 'k, 'v) nested \<Rightarrow> 'r \<Rightarrow> ('k \<times> 'v) list" where
  "inner m r = (case map_of m r of None \<Rightarrow> [] | Some ks \<Rightarrow> ks)"

definition nget :: "('r, 'k, 'v) nested \<Rightarrow> 'r \<Rightarrow> 'k \<Rightarrow> 'v option" where
  "nget m r k = map_of (inner m r) k"

definition nput :: "('r, 'k, 'v) nested \<Rightarrow> 'r \<Rightarrow> 'k \<Rightarrow> 'v \<Rightarrow> ('r, 'k, 'v) nested" where
  "nput m r k v = AList.update r (AList.update k v (inner m r)) m"

definition ndel :: "('r, 'k, 'v) nested \<Rightarrow> 'r \<Rightarrow> 'k \<Rightarrow> ('r, 'k, 'v) nested" where
  "ndel m r k =
     (case map_of m r of
        None \<Rightarrow> m
      | Some ks \<Rightarrow> if AList.delete k ks = [] then AList.delete r m else AList.update r (AList.delete k ks) m)"

definition nested_ok :: "('r, 'k, 'v) nested \<Rightarrow> bool" where
  "nested_ok m \<longleftrightarrow> al_ok m \<and> (\<forall>r ks. map_of m r = Some ks \<longrightarrow> al_ok ks \<and> ks \<noteq> [])"

definition nsum :: "('r \<Rightarrow> 'k \<Rightarrow> 'v \<Rightarrow> 'a :: comm_monoid_add) \<Rightarrow> ('r, 'k, 'v) nested \<Rightarrow> 'a" where
  "nsum f m = al_sum (\<lambda>r ks. al_sum (f r) ks) m"

definition nitems :: "('r, 'k, 'v) nested \<Rightarrow> ('r \<times> 'k \<times> 'v) list" where
  "nitems m = concat (map (\<lambda>(r, ks). map (\<lambda>(k, v). (r, k, v)) ks) m)"

lemma nget_Nil [simp]: "nget [] r k = None"
  by (simp add: nget_def inner_def)

lemma nested_ok_Nil [simp]: "nested_ok []"
  by (simp add: nested_ok_def)

lemma nested_ok_inner: "nested_ok m \<Longrightarrow> al_ok (inner m r)"
  by (auto simp: nested_ok_def inner_def split: option.splits)

lemma nget_nput [simp]: "nget (nput m r k v) r' k' = (if r' = r \<and> k' = k then Some v else nget m r' k')"
  by (auto simp: nget_def nput_def inner_def)

lemma al_update_nonempty [simp]: "AList.update k v al \<noteq> []"
  by (cases al) auto

lemma nested_ok_nput [simp]: "nested_ok m \<Longrightarrow> nested_ok (nput m r k v)"
  using nested_ok_inner [of m r] by (auto simp: nested_ok_def nput_def split: if_splits)

lemma nget_ndel [simp]:
  "nested_ok m \<Longrightarrow> nget (ndel m r k) r' k' = (if r' = r \<and> k' = k then None else nget m r' k')"
proof -
  have empty: "map_of ks k' = None" if "AList.delete k ks = []" "k' \<noteq> k" for ks :: "('b \<times> 'c) list"
  proof -
    have "map_of (AList.delete k ks) k' = None" using that(1) by simp
    then show ?thesis using that(2) by simp
  qed
  show ?thesis
    by (auto simp: nget_def ndel_def inner_def empty split: option.splits)
qed

lemma nested_ok_ndel [simp]: "nested_ok m \<Longrightarrow> nested_ok (ndel m r k)"
  by (auto simp: nested_ok_def ndel_def split: option.splits if_splits)

lemma nsum_Nil [simp]: "nsum f [] = 0"
  by (simp add: nsum_def)

lemma nsum_nput_new:
  assumes "nested_ok m" and "nget m r k = None"
  shows "nsum f (nput m r k v) = f r k v + nsum f m"
proof (cases "map_of m r")
  case None
  with assms show ?thesis
    by (simp add: nested_ok_def nsum_def nput_def inner_def al_sum_update_new)
next
  case (Some ks)
  have ks: "al_ok ks" "map_of ks k = None" and m: "al_ok m"
    using assms Some by (auto simp: nested_ok_def nget_def inner_def)
  have "nsum f (nput m r k v) = al_sum (f r) (AList.update k v ks) + nsum f (AList.delete r m)"
    using m Some by (simp add: nsum_def nput_def inner_def al_sum_update)
  also have "\<dots> = f r k v + (al_sum (f r) ks + nsum f (AList.delete r m))"
    using ks by (simp add: al_sum_update_new ac_simps)
  also have "al_sum (f r) ks + nsum f (AList.delete r m) = nsum f m"
    using al_sum_split [OF m Some, where f = "\<lambda>r. al_sum (f r)"] by (simp add: nsum_def)
  finally show ?thesis .
qed

lemma nsum_ndel:
  assumes "nested_ok m" and "nget m r k = Some v"
  shows "nsum f m = f r k v + nsum f (ndel m r k)"
proof -
  obtain ks where ks: "map_of m r = Some ks" "map_of ks k = Some v"
    using assms(2) by (auto simp: nget_def inner_def split: option.splits)
  have ok: "al_ok m" "al_ok ks" using assms(1) ks(1) by (auto simp: nested_ok_def)
  have "nsum f m = (f r k v + al_sum (f r) (AList.delete k ks)) + nsum f (AList.delete r m)"
    using al_sum_split [OF ok(1) ks(1), where f = "\<lambda>r. al_sum (f r)"]
      al_sum_split [OF ok(2) ks(2), where f = "f r"] by (simp add: nsum_def)
  moreover have "nsum f (ndel m r k) = al_sum (f r) (AList.delete k ks) + nsum f (AList.delete r m)"
    using ok ks by (simp add: ndel_def nsum_def al_sum_update)
  ultimately show ?thesis by (simp add: ac_simps)
qed

lemma nitems_Nil [simp]: "nitems [] = []"
  by (simp add: nitems_def)

lemma sum_nitems: "sum_list (map (\<lambda>(r, k, v). f r k v) (nitems m)) = nsum f m"
proof (induction m)
  case (Cons x m)
  obtain r ks where "x = (r, ks)" by (cases x)
  moreover have "sum_list (map (\<lambda>(r, k, v). f r k v) (map (\<lambda>(k, v). (r, k, v)) ks)) = al_sum (f r) ks"
    by (induction ks) auto
  ultimately show ?case using Cons by (simp add: nitems_def nsum_def)
qed (simp add: nitems_def)

lemma set_nitems: "nested_ok m \<Longrightarrow> (r, k, v) \<in> set (nitems m) \<longleftrightarrow> nget m r k = Some v"
  by (auto simp: nitems_def nget_def inner_def nested_ok_def al_ok_def map_of_eq_Some_iff
      split: option.splits)

lemma distinct_nitems: "nested_ok m \<Longrightarrow> distinct (map (\<lambda>(r, k, v). (r, k)) (nitems m))"
proof (induction m)
  case (Cons x m)
  obtain r ks where x: "x = (r, ks)" by (cases x)
  have al: "al_ok m" "map_of m r = None"
    using Cons.prems x by (auto simp: nested_ok_def)
  have "map_of (x # m) r = Some ks" using x by simp
  then have ks: "al_ok ks" using Cons.prems unfolding nested_ok_def by blast
  have "al_ok ks' \<and> ks' \<noteq> []" if "map_of m r' = Some ks'" for r' ks'
  proof -
    have "map_of (x # m) r' = Some ks'" using that x al(2) by (cases "r' = r") auto
    then show ?thesis using Cons.prems unfolding nested_ok_def by blast
  qed
  then have m: "nested_ok m" using al(1) by (simp add: nested_ok_def)
  have "distinct (map (\<lambda>(r, k, v). (r, k)) (map (\<lambda>(k, v). (r, k, v)) ks))"
    using ks by (simp add: al_ok_def distinct_map inj_on_def split_beta comp_def)
  moreover have "r \<notin> fst ` set (nitems m)"
    using al by (auto simp: nitems_def map_of_eq_None_iff image_iff)
  ultimately show ?case
    using Cons.IH [OF m] x by (force simp: nitems_def)
qed (simp add: nitems_def)

end
