(* ===== verification/Fs_Util.thy ===== *)
theory Fs_Util
  imports Prelude
begin

text \<open>
  The helpers of \<^verbatim>\<open>src/src/storage/fs_util.h\<close>: strict decimal parsing and complete
  reads and writes over system calls that may be partial or interrupted; and
  \<^verbatim>\<open>std::to_string\<close> on integers.

  A system call is modelled by its outcome. A loop over system calls takes the list of the
  outcomes the kernel returns; a call beyond the end of the list fails with a hard error, so
  the list may be any finite run of the loop.
\<close>

section \<open>Decimal numbers\<close>

abbreviation UINT64_MAX :: u64 where "UINT64_MAX \<equiv> 18446744073709551615"

definition is_digit :: "char \<Rightarrow> bool" where
  "is_digit c \<longleftrightarrow> 48 \<le> (of_char c :: nat) \<and> (of_char c :: nat) \<le> 57"

definition digit_val :: "char \<Rightarrow> nat" where
  "digit_val c = of_char c - 48"

fun parse_u64_loop :: "u64 \<Rightarrow> string \<Rightarrow> u64 option" where
  "parse_u64_loop v [] = Some v"
| "parse_u64_loop v (c # cs) =
     (if \<not> is_digit c then None
      else let d = of_nat (digit_val c) in
        if v > (UINT64_MAX - d) div 10 then None
        else parse_u64_loop (v * 10 + d) cs)"

definition parse_u64 :: "string \<Rightarrow> u64 option" where
  "parse_u64 s = (if s = [] then None else parse_u64_loop 0 s)"

definition parse_i64 :: "string \<Rightarrow> int option" where
  "parse_i64 s =
     (let neg = s \<noteq> [] \<and> hd s = CHR ''-'' in
      case parse_u64 (if neg then tl s else s) of
        None \<Rightarrow> None
      | Some u \<Rightarrow>
          if \<not> neg then (if u > 9223372036854775807 then None else Some (uint u))
          else if u > 9223372036854775808 then None
          else Some (if u = 9223372036854775808 then LLONG_MIN else - uint u))"

fun dec :: "nat \<Rightarrow> string" where
  "dec n = (if n < 10 then [char_of (48 + n)] else dec (n div 10) @ [char_of (48 + n mod 10)])"

declare dec.simps [simp del]

definition dec_int :: "int \<Rightarrow> string" where
  "dec_int i = (if i < 0 then CHR ''-'' # dec (nat (- i)) else dec (nat i))"

section \<open>System calls that may be partial\<close>

datatype sysret = Ret nat | Eintr | Fail

fun write_all_loop :: "sysret list \<Rightarrow> string \<Rightarrow> nat \<Rightarrow> bool \<times> nat" where
  "write_all_loop [] data ofs = (\<not> ofs < length data, ofs)"
| "write_all_loop (r # rs) data ofs =
     (if ofs < length data then
        (case r of
           Ret n \<Rightarrow> if n > 0 then write_all_loop rs data (ofs + min n (length data - ofs)) else (False, ofs)
         | Eintr \<Rightarrow> write_all_loop rs data ofs
         | Fail \<Rightarrow> (False, ofs))
      else (True, ofs))"

definition write_all :: "sysret list \<Rightarrow> string \<Rightarrow> bool \<times> nat" where
  "write_all rs data = write_all_loop rs data 0"

definition overwrite :: "string \<Rightarrow> nat \<Rightarrow> string \<Rightarrow> string" where
  "overwrite fc ofs data =
     take ofs (fc @ replicate (ofs - length fc) (CHR 0x00)) @ data @ drop (ofs + length data) fc"

fun pwrite_all_loop :: "sysret list \<Rightarrow> string \<Rightarrow> string \<Rightarrow> nat \<Rightarrow> nat \<Rightarrow> bool \<times> string" where
  "pwrite_all_loop [] fc data ofs don = (\<not> don < length data, fc)"
| "pwrite_all_loop (r # rs) fc data ofs don =
     (if don < length data then
        (case r of
           Ret n \<Rightarrow> if n > 0 then
               (let m = min n (length data - don) in
                pwrite_all_loop rs (overwrite fc (ofs + don) (take m (drop don data))) data ofs (don + m))
             else (False, fc)
         | Eintr \<Rightarrow> pwrite_all_loop rs fc data ofs don
         | Fail \<Rightarrow> (False, fc))
      else (True, fc))"

definition pwrite_all :: "sysret list \<Rightarrow> string \<Rightarrow> string \<Rightarrow> nat \<Rightarrow> bool \<times> string" where
  "pwrite_all rs fc data ofs = pwrite_all_loop rs fc data ofs 0"

fun pread_all_loop :: "sysret list \<Rightarrow> string \<Rightarrow> string \<Rightarrow> nat \<Rightarrow> nat \<Rightarrow> string option" where
  "pread_all_loop [] fc data len ofs = (if length data < len then None else Some data)"
| "pread_all_loop (r # rs) fc data len ofs =
     (if length data < len then
        (case r of
           Ret n \<Rightarrow>
             (let got = take (min n (len - length data)) (drop (ofs + length data) fc) in
              if got \<noteq> [] then pread_all_loop rs fc (data @ got) len ofs else None)
         | Eintr \<Rightarrow> pread_all_loop rs fc data len ofs
         | Fail \<Rightarrow> None)
      else Some data)"

definition pread_all :: "sysret list \<Rightarrow> string \<Rightarrow> nat \<Rightarrow> nat \<Rightarrow> string option" where
  "pread_all rs fc len ofs = pread_all_loop rs fc [] len ofs"

section \<open>Decimal parsing is exact\<close>

definition dec_val :: "nat \<Rightarrow> string \<Rightarrow> nat" where
  "dec_val v s = foldl (\<lambda>a c. a * 10 + digit_val c) v s"

lemma dec_val_Nil [simp]: "dec_val v [] = v"
  by (simp add: dec_val_def)

lemma dec_val_Cons [simp]: "dec_val v (c # cs) = dec_val (v * 10 + digit_val c) cs"
  by (simp add: dec_val_def)

lemma dec_val_append [simp]: "dec_val v (s @ t) = dec_val (dec_val v s) t"
  by (simp add: dec_val_def)

lemma dec_val_ge: "v \<le> dec_val v s"
proof (induction s arbitrary: v)
  case (Cons c s)
  have "v \<le> v * 10 + digit_val c" by simp
  also have "\<dots> \<le> dec_val (v * 10 + digit_val c) s" by (rule Cons)
  finally show ?case by simp
qed simp

lemma digit_val_le: "is_digit c \<Longrightarrow> digit_val c \<le> 9"
  by (auto simp: is_digit_def digit_val_def)

lemma parse_u64_guard:
  assumes "d \<le> 9"
  shows "v > (UINT64_MAX - of_nat d) div 10 \<longleftrightarrow> 2 ^ 64 \<le> unat v * 10 + d"
proof -
  have d: "unat (of_nat d :: u64) = d"
    using assms by (simp add: unat_of_nat_u64)
  have "unat (UINT64_MAX - of_nat d) = 18446744073709551615 - d"
    using assms d by (simp add: unat_sub word_le_nat_alt)
  then have "unat ((UINT64_MAX - of_nat d) div 10) = (18446744073709551615 - d) div 10"
    by (simp add: unat_div_distrib)
  then show ?thesis
    using assms by (simp add: word_less_nat_alt) arith
qed

lemma parse_u64_step:
  fixes v :: u64
  assumes "unat v * 10 + d < 2 ^ 64"
  shows "unat (v * 10 + of_nat d) = unat v * 10 + d"
proof -
  have "v * 10 + of_nat d = (of_nat (unat v * 10 + d) :: u64)" by simp
  then have "unat (v * 10 + of_nat d) = unat (of_nat (unat v * 10 + d) :: u64)" by (rule arg_cong)
  also have "\<dots> = unat v * 10 + d"
    using assms by (rule unat_of_nat_u64)
  finally show ?thesis .
qed

lemma parse_u64_loop_eq:
  "parse_u64_loop v s =
     (if list_all is_digit s \<and> dec_val (unat v) s < 2 ^ 64 then Some (of_nat (dec_val (unat v) s)) else None)"
proof (induction s arbitrary: v)
  case Nil
  then show ?case using unsigned_less [of v] by simp
next
  case (Cons c s)
  show ?case
  proof (cases "is_digit c")
    case False
    then show ?thesis by simp
  next
    case True
    let ?d = "digit_val c"
    have guard: "v > (UINT64_MAX - of_nat ?d) div 10 \<longleftrightarrow> 2 ^ 64 \<le> unat v * 10 + ?d"
      using True by (intro parse_u64_guard digit_val_le)
    show ?thesis
    proof (cases "2 ^ 64 \<le> unat v * 10 + ?d")
      case big: True
      have "2 ^ 64 \<le> dec_val (unat v * 10 + ?d) s"
        using big dec_val_ge [of "unat v * 10 + ?d" s] by linarith
      moreover have "parse_u64_loop v (c # s) = None"
        using True guard big by (simp add: Let_def)
      ultimately show ?thesis by simp
    next
      case small: False
      then have "unat (v * 10 + of_nat ?d) = unat v * 10 + ?d"
        by (intro parse_u64_step) simp
      moreover have "parse_u64_loop v (c # s) = parse_u64_loop (v * 10 + of_nat ?d) s"
        using True guard small by (simp add: Let_def)
      ultimately show ?thesis
        using True by (simp add: Cons)
    qed
  qed
qed

lemma parse_u64_eq:
  "parse_u64 s =
     (if s \<noteq> [] \<and> list_all is_digit s \<and> dec_val 0 s < 2 ^ 64 then Some (of_nat (dec_val 0 s)) else None)"
  by (simp add: parse_u64_def parse_u64_loop_eq)

lemma dec_nonempty [simp]: "dec n \<noteq> []"
  by (subst dec.simps) simp

lemma is_digit_char: "d < 10 \<Longrightarrow> is_digit (char_of (48 + d)) \<and> digit_val (char_of (48 + d)) = d"
  by (simp add: is_digit_def digit_val_def)

lemma dec_digits: "list_all is_digit (dec n) \<and> dec_val 0 (dec n) = n"
proof (induction n rule: dec.induct)
  case (1 n)
  show ?case
  proof (cases "n < 10")
    case True
    then show ?thesis by (subst (1 2) dec.simps) (simp add: is_digit_char)
  next
    case False
    with "1.IH" have "list_all is_digit (dec (n div 10)) \<and> dec_val 0 (dec (n div 10)) = n div 10" by simp
    with False show ?thesis by (subst (1 2) dec.simps) (simp add: is_digit_char)
  qed
qed

lemma list_all_dec [simp]: "list_all is_digit (dec n)"
  using dec_digits by blast

lemma dec_val_dec [simp]: "dec_val 0 (dec n) = n"
  using dec_digits by blast

lemma hd_dec_not_minus [simp]: "hd (dec n) \<noteq> CHR ''-''"
proof -
  have "is_digit (hd (dec n))"
    using list_all_dec [of n] dec_nonempty [of n] by (cases "dec n") auto
  then show ?thesis by (auto simp: is_digit_def)
qed

lemma parse_u64_dec: "n < 2 ^ 64 \<Longrightarrow> parse_u64 (dec n) = Some (of_nat n)"
  by (simp add: parse_u64_eq)

lemma parse_u64_to_string [simp, codec_simps]: "parse_u64 (dec (unat (x :: u64))) = Some x"
  using unat_u64_less [of x] by (simp add: parse_u64_dec)

lemma length_dec_le: "n < 10 ^ k \<Longrightarrow> 0 < k \<Longrightarrow> length (dec n) \<le> k"
proof (induction n arbitrary: k rule: dec.induct)
  case (1 n)
  show ?case
  proof (cases "n < 10")
    case True
    then show ?thesis using "1.prems" by (subst dec.simps) simp
  next
    case False
    with "1.prems" obtain j where k: "k = Suc j" and "0 < j" by (cases k) (auto, cases "k - 1", auto)
    with "1.prems" have "n div 10 < 10 ^ j" by (simp add: less_mult_imp_div_less mult.commute)
    with "1.IH" False \<open>0 < j\<close> have "length (dec (n div 10)) \<le> j" by blast
    with False k show ?thesis by (subst dec.simps) simp
  qed
qed

lemma parse_i64_range: "parse_i64 s = Some x \<Longrightarrow> i64 x"
proof -
  have uint_le: "uint u \<le> 9223372036854775807" if "\<not> u > (9223372036854775807 :: u64)" for u
    using that by (simp add: word_le_def [symmetric] word_less_def not_less)
  have uint_le': "uint u \<le> 9223372036854775808" if "\<not> u > (9223372036854775808 :: u64)" for u
    using that by (simp add: word_less_def not_less)
  show "i64 x" if "parse_i64 s = Some x"
    using that uint_le uint_le'
    by (fastforce simp: parse_i64_def i64_iff Let_def split: option.splits if_splits
        intro: order_trans [of _ 0])
qed

lemma uint_of_nat_u64: "n < 2 ^ 64 \<Longrightarrow> uint (of_nat n :: u64) = int n"
  by (simp add: unsigned_of_nat take_bit_nat_eq_self uint_nat)

lemma parse_i64_to_string:
  assumes "i64 x"
  shows "parse_i64 (dec_int x) = Some x"
proof (cases "x < 0")
  case False
  define n where "n = nat x"
  have x: "x = int n" and n: "n < 2 ^ 64" "n \<le> 9223372036854775807"
    using False assms by (auto simp: n_def i64_iff)
  have "parse_u64 (dec n) = Some (of_nat n)"
    using n(1) by (rule parse_u64_dec)
  moreover have "\<not> (of_nat n :: u64) > 9223372036854775807"
    using n by (simp add: word_less_nat_alt unat_of_nat_u64)
  ultimately show ?thesis
    using x n by (simp add: parse_i64_def dec_int_def uint_of_nat_u64)
next
  case True
  define n where "n = nat (- x)"
  have x: "x = - int n" and n: "n < 2 ^ 64" "n \<le> 9223372036854775808" "0 < n"
    using True assms by (auto simp: n_def i64_iff)
  have "parse_u64 (dec n) = Some (of_nat n)"
    using n(1) by (rule parse_u64_dec)
  moreover have "\<not> (of_nat n :: u64) > 9223372036854775808"
    using n by (simp add: word_less_nat_alt unat_of_nat_u64)
  moreover have "(of_nat n :: u64) = 9223372036854775808 \<longleftrightarrow> n = 9223372036854775808"
    using n by (simp add: word_unat_eq_iff unat_of_nat_u64)
  ultimately show ?thesis
    using x n by (simp add: parse_i64_def dec_int_def uint_of_nat_u64)
qed

section \<open>Complete writes and reads\<close>

lemma write_all_loop_result:
  "ofs \<le> length data \<Longrightarrow>
    (fst (write_all_loop rs data ofs) \<longrightarrow> snd (write_all_loop rs data ofs) = length data) \<and>
    (\<not> fst (write_all_loop rs data ofs) \<longrightarrow> snd (write_all_loop rs data ofs) < length data)"
  by (induction rs data ofs rule: write_all_loop.induct) (auto split: sysret.splits)

lemma write_all_True: "write_all rs data = (True, w) \<Longrightarrow> w = length data"
  using write_all_loop_result [of 0 data rs] by (simp add: write_all_def)

lemma write_all_False: "write_all rs data = (False, w) \<Longrightarrow> w < length data"
  using write_all_loop_result [of 0 data rs] by (simp add: write_all_def)

lemma write_all_empty [simp]: "write_all rs [] = (True, 0)"
  by (cases rs) (auto simp: write_all_def)

lemma overwrite_within:
  "ofs \<le> length fc \<Longrightarrow> overwrite fc ofs data = take ofs fc @ data @ drop (ofs + length data) fc"
  by (simp add: overwrite_def)

lemma length_overwrite [simp]:
  "ofs \<le> length fc \<Longrightarrow> length (overwrite fc ofs data) = max (length fc) (ofs + length data)"
  by (simp add: overwrite_within)

lemma overwrite_Nil [simp]: "ofs \<le> length fc \<Longrightarrow> overwrite fc ofs [] = fc"
  by (simp add: overwrite_within)

lemma overwrite_overwrite:
  "ofs \<le> length fc \<Longrightarrow>
    overwrite (overwrite fc ofs a) (ofs + length a) b = overwrite fc ofs (a @ b)"
  by (simp add: overwrite_within ac_simps)

lemma take_overwrite [simp]:
  "n \<le> ofs \<Longrightarrow> ofs \<le> length fc \<Longrightarrow> take n (overwrite fc ofs data) = take n fc"
  by (simp add: overwrite_within)

lemma take_overwrite_end [simp]:
  "ofs \<le> length fc \<Longrightarrow> take (ofs + length data) (overwrite fc ofs data) = take ofs fc @ data"
  by (simp add: overwrite_within)

lemma pwrite_all_loop_result:
  assumes "ofs \<le> length fc0" and "don \<le> length data"
    and "fc = overwrite fc0 ofs (take don data)"
  shows "(fst (pwrite_all_loop rs fc data ofs don) \<longrightarrow>
            snd (pwrite_all_loop rs fc data ofs don) = overwrite fc0 ofs data) \<and>
         (\<exists>m \<le> length data. snd (pwrite_all_loop rs fc data ofs don) = overwrite fc0 ofs (take m data))"
  using assms
proof (induction rs fc data ofs don rule: pwrite_all_loop.induct)
  case (1 fc data ofs don)
  then show ?case by auto
next
  case (2 r rs fc data ofs don)
  show ?case
  proof (cases "don < length data")
    case False
    with 2 show ?thesis by auto
  next
    case True
    show ?thesis
    proof (cases r)
      case (Ret n)
      let ?m = "min n (length data - don)"
      have "overwrite fc (ofs + don) (take ?m (drop don data)) =
            overwrite fc0 ofs (take (don + ?m) data)"
        using 2(3-5) True overwrite_overwrite [of ofs fc0 "take don data"]
        by (simp add: take_add)
      then show ?thesis
        using 2(1) [OF True Ret] 2(3-5) True Ret
        by (auto simp: Let_def intro: exI [of _ don] less_imp_le)
    next
      case Eintr
      then show ?thesis using 2(2) [OF True Eintr] 2(3-5) True by simp
    next
      case Fail
      then show ?thesis using 2(3-5) True by (auto intro: exI [of _ don] less_imp_le)
    qed
  qed
qed

lemma pwrite_all_True:
  "ofs \<le> length fc \<Longrightarrow> pwrite_all rs fc data ofs = (True, fc') \<Longrightarrow> fc' = overwrite fc ofs data"
  using pwrite_all_loop_result [of ofs fc 0 data fc rs] by (simp add: pwrite_all_def)

lemma pwrite_all_prefix:
  "ofs \<le> length fc \<Longrightarrow> pwrite_all rs fc data ofs = (ok, fc') \<Longrightarrow>
    take ofs fc' = take ofs fc \<and> ofs \<le> length fc'"
  using pwrite_all_loop_result [of ofs fc 0 data fc rs] by (auto simp: pwrite_all_def)

lemma pread_all_loop_Some:
  "pread_all_loop rs fc data len ofs = Some out \<Longrightarrow>
    data = take (length data) (drop ofs fc) \<Longrightarrow> length data \<le> len \<Longrightarrow>
    length out = len \<and> out = take len (drop ofs fc)"
proof (induction rs fc data len ofs rule: pread_all_loop.induct)
  case (1 fc data len ofs)
  then show ?case by (auto split: if_splits)
next
  case (2 r rs fc data len ofs)
  show ?case
  proof (cases "length data < len")
    case False
    with 2(3-5) show ?thesis by auto
  next
    case True
    show ?thesis
    proof (cases r)
      case (Ret n)
      define got where "got = take (min n (len - length data)) (drop (ofs + length data) fc)"
      have got: "got \<noteq> []" and rec: "pread_all_loop rs fc (data @ got) len ofs = Some out"
        using 2(3) True Ret by (auto simp: Let_def got_def split: if_splits)
      have len: "length data + length got \<le> len"
        using True by (simp add: got_def)
      have pre: "data @ got = take (length (data @ got)) (drop ofs fc)"
      proof -
        have "data @ got = take (length data) (drop ofs fc) @ take (length got) (drop (length data) (drop ofs fc))"
          using 2(4) by (auto simp: got_def add.commute min_def)
        then show ?thesis unfolding length_append take_add by assumption
      qed
      have "length (data @ got) \<le> len" using len by simp
      with pre show ?thesis
        by (rule 2(1) [OF True Ret got_def got rec])
    next
      case Eintr
      then have "pread_all_loop rs fc data len ofs = Some out" using 2(3) True by simp
      then show ?thesis using 2(4,5) by (rule 2(2) [OF True Eintr])
    next
      case Fail
      then show ?thesis using 2(3) True by simp
    qed
  qed
qed

lemma pread_all_Some:
  "pread_all rs fc len ofs = Some out \<Longrightarrow> length out = len \<and> out = take len (drop ofs fc)"
  by (rule pread_all_loop_Some [of rs fc "[]"]) (simp_all add: pread_all_def)

lemma pread_all_one:
  "ofs + len \<le> length fc \<Longrightarrow> 0 < len \<Longrightarrow> pread_all (Ret len # rs) fc len ofs = Some (take len (drop ofs fc))"
  by (cases rs) (auto simp: pread_all_def Let_def)

end
