(* ===== verification/Hlc.thy ===== *)
theory Hlc
  imports Fs_Util
begin

text \<open>
  The hybrid logical clock of \<^verbatim>\<open>src/src/core/hlc.h\<close> and the version order of
  \<^verbatim>\<open>src/src/core/database.h\<close> (\<^verbatim>\<open>struct Version\<close>). A version is a 64-bit timestamp (48 bits of
  milliseconds, 16 bits of counter) and a node number, compared lexicographically.
\<close>

section \<open>Timestamps\<close>

definition kLegacyLimit :: u64 where
  "kLegacyLimit = push_bit 47 1"

definition hlc_normalize :: "u64 \<Rightarrow> u64" where
  "hlc_normalize t = (if t < kLegacyLimit then push_bit 16 t else t)"

definition physical_ms :: "u64 \<Rightarrow> u64" where
  "physical_ms t = drop_bit 16 t"

text \<open>The clock's state is its last timestamp (the member \<^verbatim>\<open>last_\<close>).\<close>

definition clock_next :: "u64 \<Rightarrow> int \<Rightarrow> u64 \<Rightarrow> u64" where
  "clock_next lst now_ms overwritten =
     max (max (push_bit 16 (word_of_int now_ms)) (lst + 1)) (overwritten + 1)"

definition clock_observe :: "u64 \<Rightarrow> u64 \<Rightarrow> u64" where
  "clock_observe lst t = max lst t"

section \<open>Versions\<close>

datatype version = Version (v_ts: u64) (v_node: u32)

instantiation version :: linorder
begin

definition less_eq_version :: "version \<Rightarrow> version \<Rightarrow> bool" where
  "less_eq_version a b \<longleftrightarrow> v_ts a < v_ts b \<or> v_ts a = v_ts b \<and> v_node a \<le> v_node b"

definition less_version :: "version \<Rightarrow> version \<Rightarrow> bool" where
  "less_version a b \<longleftrightarrow> v_ts a < v_ts b \<or> v_ts a = v_ts b \<and> v_node a < v_node b"

instance
  by standard (auto simp: less_eq_version_def less_version_def version.expand)

end

lemma version_less_ts: "v_ts a < v_ts b \<Longrightarrow> a < b"
  by (simp add: less_version_def)

lemma version_le_ts: "a \<le> b \<Longrightarrow> v_ts a \<le> v_ts b"
  by (auto simp: less_eq_version_def)

section \<open>The clock's contract\<close>

text \<open>
  What writers rely on: a timestamp that is drawn is above the clock and above the version it
  overwrites, and a timestamp that was observed stays below every later one. The top
  timestamp has no successor, so the laws ask that it has not been reached.
\<close>

locale logical_clock =
  fixes tick :: "u64 \<Rightarrow> int \<Rightarrow> u64 \<Rightarrow> u64"
    and see :: "u64 \<Rightarrow> u64 \<Rightarrow> u64"
  assumes tick_above: "l \<noteq> UINT64_MAX \<Longrightarrow> ov \<noteq> UINT64_MAX \<Longrightarrow> l < tick l now ov \<and> ov < tick l now ov"
    and see_keeps: "l \<le> see l t \<and> t \<le> see l t"
begin

lemma see_ge: "l \<le> foldl see l us \<and> (\<forall>t \<in> set us. t \<le> foldl see l us)"
proof (induction us arbitrary: l)
  case Nil
  then show ?case by simp
next
  case (Cons t us)
  have "see l t \<le> foldl see (see l t) us" and "\<forall>u \<in> set us. u \<le> foldl see (see l t) us"
    using Cons by blast+
  with see_keeps [of l t] show ?case by (auto intro: order_trans)
qed

lemma tick_after_see:
  assumes "foldl see l us \<noteq> UINT64_MAX" and "ov \<noteq> UINT64_MAX" and "u \<in> set us"
  shows "u < tick (foldl see l us) now ov"
  using tick_above [OF assms(1,2)] see_ge [of l us] assms(3) by (meson le_less_trans)

end

lemma unat_succ_u64: "(x :: u64) \<noteq> UINT64_MAX \<Longrightarrow> unat (x + 1) = unat x + 1"
proof -
  assume "x \<noteq> UINT64_MAX"
  then have "unat x \<noteq> 2 ^ 64 - 1" by (simp add: word_unat_eq_iff)
  with unat_u64_less [of x] have "unat x + 1 < 2 ^ 64" by linarith
  then have "unat (of_nat (unat x + 1) :: u64) = unat x + 1" by (rule unat_of_nat_u64)
  then show ?thesis by (simp add: add.commute)
qed

lemma less_succ: "(x :: u64) \<noteq> UINT64_MAX \<Longrightarrow> x < x + 1"
  by (simp add: word_less_nat_alt unat_succ_u64)

interpretation hlc_clock: logical_clock clock_next clock_observe
proof
  fix l ov :: u64 and now :: int
  assume "l \<noteq> UINT64_MAX" and "ov \<noteq> UINT64_MAX"
  then have "l < l + 1" and "ov < ov + 1" by (blast intro: less_succ)+
  then show "l < clock_next l now ov \<and> ov < clock_next l now ov"
    by (simp add: clock_next_def less_max_iff_disj)
next
  fix l t :: u64
  show "l \<le> clock_observe l t \<and> t \<le> clock_observe l t"
    by (simp add: clock_observe_def)
qed

section \<open>Legacy timestamps\<close>

lemma unat_kLegacyLimit [simp]: "unat kLegacyLimit = 2 ^ 47"
  by (simp add: kLegacyLimit_def)

lemma less_kLegacyLimit: "t < kLegacyLimit \<longleftrightarrow> unat t < 2 ^ 47"
  by (simp only: word_less_nat_alt unat_kLegacyLimit)

lemma unat_shift16: "unat (t :: u64) < 2 ^ 48 \<Longrightarrow> unat (push_bit 16 t) = unat t * 2 ^ 16"
proof -
  assume "unat t < 2 ^ 48"
  then have "unat t * 2 ^ 16 < 2 ^ 64" by simp
  then have "unat (of_nat (unat t * 2 ^ 16) :: u64) = unat t * 2 ^ 16" by (rule unat_of_nat_u64)
  then show ?thesis by (simp add: push_bit_eq_mult mult.commute)
qed

lemma unat_normalize:
  "unat (hlc_normalize t) = (if unat t < 2 ^ 47 then unat t * 2 ^ 16 else unat t)"
  by (simp add: hlc_normalize_def less_kLegacyLimit unat_shift16)

lemma normalize_hlc: "kLegacyLimit \<le> t \<Longrightarrow> hlc_normalize t = t"
  by (auto simp: hlc_normalize_def)

lemma physical_ms_normalize: "t < kLegacyLimit \<Longrightarrow> physical_ms (hlc_normalize t) = t"
  by (simp add: physical_ms_def less_kLegacyLimit word_unat_eq_iff drop_bit_eq_div
      unat_div_distrib unat_normalize)

lemma normalize_idem_iff:
  "hlc_normalize (hlc_normalize t) = hlc_normalize t \<longleftrightarrow> t = 0 \<or> 2 ^ 31 \<le> unat t"
  by (auto simp: word_unat_eq_iff unat_normalize)

lemma clock_next_physical:
  "lst < push_bit 16 (word_of_int now) \<Longrightarrow> ov < push_bit 16 (word_of_int now) \<Longrightarrow>
    clock_next lst now ov = push_bit 16 (word_of_int now)"
  by (drule inc_le, drule inc_le) (simp add: clock_next_def max_def)

section \<open>Properties\<close>

text \<open>
  The clock draws strictly increasing timestamps: a timestamp drawn for a local write is
  above the clock and above the version it overwrites, whatever the wall clock says (it may
  have jumped back), and it is above every timestamp observed before (received merges,
  replayed records), as long as the top timestamp has not been reached.
\<close>

theorem clock_next_strict:
  assumes "foldl clock_observe lst seen \<noteq> UINT64_MAX" and "overwritten \<noteq> UINT64_MAX"
  shows "foldl clock_observe lst seen < clock_next (foldl clock_observe lst seen) now overwritten \<and>
    overwritten < clock_next (foldl clock_observe lst seen) now overwritten \<and>
    (\<forall>t \<in> set seen. t < clock_next (foldl clock_observe lst seen) now overwritten)"
  using hlc_clock.tick_above [OF assms] hlc_clock.tick_after_see [OF assms] by blast

theorem clock_next_strict_witness:
  "foldl clock_observe 5 [7, 6] < clock_next (foldl clock_observe 5 [7, 6]) (- 3) 9 \<and>
   (9 :: u64) < clock_next (foldl clock_observe 5 [7, 6]) (- 3) 9 \<and>
   7 < clock_next (foldl clock_observe 5 [7, 6]) (- 3) 9 \<and> 6 < clock_next (foldl clock_observe 5 [7, 6]) (- 3) 9"
  using clock_next_strict [of 5 "[7, 6]" 9 "- 3"] by (simp add: clock_observe_def)

text \<open>
  Normalisation of legacy timestamps. A value below the legacy limit is read as
  milliseconds and keeps them as its physical part; an HLC value is left alone; and
  normalising twice is the same as normalising once exactly for zero and for values from
  \<^verbatim>\<open>2^31\<close> on: below that a second pass shifts the value again.
\<close>

theorem normalize_exact:
  "(t < kLegacyLimit \<longrightarrow> physical_ms (hlc_normalize t) = t) \<and>
   (kLegacyLimit \<le> t \<longrightarrow> hlc_normalize t = t) \<and>
   (hlc_normalize (hlc_normalize t) = hlc_normalize t \<longleftrightarrow> t = 0 \<or> 2 ^ 31 \<le> unat t)"
  using physical_ms_normalize normalize_hlc normalize_idem_iff by blast

theorem normalize_exact_witness:
  "physical_ms (hlc_normalize 5) = 5 \<and> hlc_normalize (hlc_normalize 5) \<noteq> hlc_normalize 5"
  using normalize_exact [of 5] by (simp add: less_kLegacyLimit)

end
