(* ===== verification/Room.thy ===== *)
theory Room
  imports Hlc
begin

text \<open>
  Records and rooms: \<^verbatim>\<open>src/src/core/record.h\<close>, \<^verbatim>\<open>src/src/core/room.h\<close> and the counters of
  \<^verbatim>\<open>src/src/server/metrics.h\<close> that the data path reads or writes.

  A room maps keys to records. In the program the map holds pointers into a pool; here it
  holds the records. \<open>charge\<close> is the only place that changes the estimated bytes of a room and,
  by the same amount, the global total; its signed argument is taken modulo \<^verbatim>\<open>2^64\<close>, as
  the unsigned additions of the source do.
\<close>

record Record =
  rec_value :: string
  expire_at :: int
  timestamp_ms :: u64
  node_id :: u32

definition new_record :: Record where
  "new_record = \<lparr>rec_value = [], expire_at = 0, timestamp_ms = 0, node_id = 1\<rparr>"

definition expired :: "Record \<Rightarrow> int \<Rightarrow> bool" where
  "expired r now_ms \<longleftrightarrow> expire_at r > 0 \<and> now_ms > expire_at r"

definition rec_version :: "Record \<Rightarrow> version" where
  "rec_version r = Version (timestamp_ms r) (node_id r)"

definition rec_ok :: "Record \<Rightarrow> bool" where
  "rec_ok r \<longleftrightarrow> i64 (expire_at r)"

datatype RoomState = Sleeping | Loading | Active | Hibernating

text \<open>\<^verbatim>\<open>sizeof(Record) + sizeof(std::string) + 2 * sizeof(void*)\<close> with libstdc++ on a 64-bit target.\<close>

definition kRecordOverhead :: u64 where
  "kRecordOverhead = 56 + 32 + 2 * 8"

definition record_cost :: "string \<Rightarrow> Record \<Rightarrow> u64" where
  "record_cost key r = of_nat (length key) + of_nat (length (rec_value r)) + kRecordOverhead"

record Room =
  room_name :: string
  room_keys :: "(string \<times> Record) list"
  last_access_time :: int
  room_state :: RoomState
  room_bytes :: u64

definition new_room :: "string \<Rightarrow> Room" where
  "new_room name = \<lparr>room_name = name, room_keys = [], last_access_time = 0, room_state = Sleeping, room_bytes = 0\<rparr>"

record metrics =
  keys_in_ram :: u64
  resident_bytes :: u64
  tombstone_count :: u64
  total_gets :: u64
  total_sets :: u64
  cache_hits :: u64
  cache_misses :: u64
  keys_evicted :: u64
  cold_file_bytes :: u64
  cold_obsolete_bytes :: u64
  cold_reclaimed_bytes :: u64

definition metrics_init :: metrics where
  "metrics_init = \<lparr>keys_in_ram = 0, resident_bytes = 0, tombstone_count = 0, total_gets = 0, total_sets = 0,
     cache_hits = 0, cache_misses = 0, keys_evicted = 0, cold_file_bytes = 0, cold_obsolete_bytes = 0,
     cold_reclaimed_bytes = 0\<rparr>"

definition charge :: "u64 \<Rightarrow> Room \<Rightarrow> metrics \<Rightarrow> Room \<times> metrics" where
  "charge delta room m =
     (room\<lparr>room_bytes := room_bytes room + delta\<rparr>, m\<lparr>resident_bytes := resident_bytes m + delta\<rparr>)"

definition keys_cost :: "Room \<Rightarrow> u64" where
  "keys_cost room = al_sum record_cost (room_keys room)"

section \<open>The room invariant\<close>

text \<open>
  The keys are distinct and the room's byte counter is what its keys cost. The global counters
  are tied to the rooms by a difference: an operation on one room moves the room's counter and
  the global one by the same amount.
\<close>

definition room_ok :: "Room \<Rightarrow> bool" where
  "room_ok room \<longleftrightarrow> al_ok (room_keys room) \<and> room_bytes room = keys_cost room"

definition same_slack :: "Room \<Rightarrow> metrics \<Rightarrow> Room \<Rightarrow> metrics \<Rightarrow> bool" where
  "same_slack room m room' m' \<longleftrightarrow>
     resident_bytes m' - room_bytes room' = resident_bytes m - room_bytes room \<and>
     keys_in_ram m' - of_nat (length (room_keys room')) = keys_in_ram m - of_nat (length (room_keys room))"

lemma same_slack_refl [simp]: "same_slack room m room m"
  by (simp add: same_slack_def)

lemma same_slack_trans [trans]:
  "same_slack a m b n \<Longrightarrow> same_slack b n c k \<Longrightarrow> same_slack a m c k"
  by (simp add: same_slack_def)

lemma new_room_ok [simp]: "room_ok (new_room name)"
  by (simp add: new_room_def room_ok_def keys_cost_def)

lemma length_al_update_new: "map_of al k = None \<Longrightarrow> length (AList.update k v al) = Suc (length al)"
  by (induction al) auto

lemma length_al_update_old: "map_of al k = Some w \<Longrightarrow> length (AList.update k v al) = length al"
  by (induction al) (auto split: if_splits)

lemma length_al_delete: "al_ok al \<Longrightarrow> map_of al k = Some v \<Longrightarrow> length al = Suc (length (AList.delete k al))"
  by (induction al) (auto simp: al_delete_none split: if_splits)

end
