(* ===== verification/Count_Min_Sketch.thy ===== *)
theory Count_Min_Sketch
  imports Prelude
begin

text \<open>
  The frequency sketch of \<^verbatim>\<open>src/src/utils/count_min_sketch.h\<close>: four rows of 4096 saturating
  16-bit counters. The rows are functions from the column to the counter; all of them start at
  zero. A \<^verbatim>\<open>char\<close> is signed on the target, so the cast to \<^verbatim>\<open>uint32_t\<close> extends its sign.
\<close>

type_synonym sketch = "nat \<Rightarrow> nat \<Rightarrow> u16"

definition cms_empty :: sketch where
  "cms_empty = (\<lambda>row col. 0)"

definition DEPTH :: nat where "DEPTH = 4"

definition signed_char :: "char \<Rightarrow> u32" where
  "signed_char c = (let n = of_char c in if n < 128 then of_nat n else of_nat n - 256)"

fun fast_hash :: "string \<Rightarrow> u32 \<Rightarrow> u32" where
  "fast_hash [] h = h"
| "fast_hash (c # cs) h =
     (let h1 = h XOR signed_char c; h2 = h1 * 0x5bd1e995; h3 = h2 XOR drop_bit 15 h2 in fast_hash cs h3)"

definition cms_col :: "string \<Rightarrow> nat \<Rightarrow> nat" where
  "cms_col key i = unat (fast_hash key (of_nat (i + 1) * 0x9e3779b9) AND 4095)"

definition bump_row :: "string \<Rightarrow> sketch \<Rightarrow> nat \<Rightarrow> sketch" where
  "bump_row key table i =
     (let h = cms_col key i in
      if table i h < 0xFFFF then table(i := (table i)(h := table i h + 1)) else table)"

definition cms_record_access :: "sketch \<Rightarrow> string \<Rightarrow> sketch" where
  "cms_record_access table key = foldl (bump_row key) table [0..<DEPTH]"

definition estimate_frequency :: "sketch \<Rightarrow> string \<Rightarrow> u16" where
  "estimate_frequency table key =
     foldl (\<lambda>mn i. if table i (cms_col key i) < mn then table i (cms_col key i) else mn) 0xFFFF [0..<DEPTH]"

section \<open>The sketch never underestimates\<close>

lemma cms_col_bound: "cms_col key i < 4096"
proof -
  have "fast_hash key (of_nat (i + 1) * 0x9e3779b9) AND 4095 \<le> (4095 :: u32)" by (rule word_and_le1)
  then show ?thesis by (simp add: cms_col_def word_le_nat_alt)
qed

lemma saturating_succ: "unat (if x < (0xFFFF :: u16) then x + 1 else x) = min 65535 (unat x + 1)"
proof (cases "x < 0xFFFF")
  case True
  then have x: "unat x < 65535" by (simp add: word_less_nat_alt)
  then have "unat (of_nat (unat x + 1) :: u16) = unat x + 1"
    by (simp only: unsigned_of_nat) (simp add: take_bit_nat_eq_self)
  then have "unat (x + 1) = unat x + 1" by (simp add: add.commute)
  then show ?thesis using True x by simp
next
  case False
  then have "65535 \<le> unat x" by (simp add: word_less_nat_alt)
  moreover have "unat x < 65536" using unsigned_less [of x, where 'a = nat] by simp
  ultimately show ?thesis using False by simp
qed

lemma bump_row_cell:
  "unat (bump_row key table i j h) =
     (if j = i \<and> h = cms_col key i then min 65535 (unat (table i h) + 1) else unat (table j h))"
  using saturating_succ [of "table i (cms_col key i)"]
  by (auto simp: bump_row_def Let_def split: if_splits)

lemma bump_rows_cell:
  "distinct rows \<Longrightarrow>
    unat (foldl (bump_row key) table rows j h) =
      (if j \<in> set rows \<and> h = cms_col key j then min 65535 (unat (table j h) + 1) else unat (table j h))"
proof (induction rows arbitrary: table)
  case (Cons i rows)
  then show ?case by (auto simp: bump_row_cell)
qed simp

lemma cms_record_access_cell:
  "j < DEPTH \<Longrightarrow>
    unat (cms_record_access table key j h) =
      (if h = cms_col key j then min 65535 (unat (table j h) + 1) else unat (table j h))"
  by (simp add: cms_record_access_def bump_rows_cell)

lemma accesses_cell:
  "j < DEPTH \<Longrightarrow>
    min 65535 (unat (table j (cms_col key j)) + count_list accs key)
      \<le> unat (foldl cms_record_access table accs j (cms_col key j))"
proof (induction accs arbitrary: table)
  case Nil
  have "unat (table j (cms_col key j)) < 65536" using unsigned_less [of "table j (cms_col key j)", where 'a = nat] by simp
  then show ?case by simp
next
  case (Cons a accs)
  let ?c = "cms_col key j"
  have "min 65535 (unat (table j ?c) + count_list (a # accs) key) \<le>
        min 65535 (unat (cms_record_access table a j ?c) + count_list accs key)"
  proof (cases "?c = cms_col a j")
    case True
    have "count_list (a # accs) key \<le> 1 + count_list accs key" by simp
    then show ?thesis using Cons.prems True by (simp add: cms_record_access_cell min_def)
  next
    case False
    then have "a \<noteq> key" by blast
    then show ?thesis using Cons.prems False by (simp add: cms_record_access_cell)
  qed
  also have "\<dots> \<le> unat (foldl cms_record_access (cms_record_access table a) accs j ?c)"
    using Cons by blast
  finally show ?case by simp
qed

lemma running_min_ge:
  "n \<le> unat (m :: u16) \<Longrightarrow> \<forall>i \<in> set rows. n \<le> unat (f i) \<Longrightarrow>
    n \<le> unat (foldl (\<lambda>mn i. if f i < mn then f i else mn) m rows)"
  by (induction rows arbitrary: m) auto

lemma running_min_le:
  "foldl (\<lambda>mn i. if f i < mn then f i else mn) m rows \<le> (m :: u16) \<and>
   (\<forall>i \<in> set rows. foldl (\<lambda>mn i. if f i < mn then f i else mn) m rows \<le> f i)"
proof (induction rows arbitrary: m)
  case (Cons j rows)
  let ?m = "if f j < m then f j else m"
  have "?m \<le> m" "?m \<le> f j" by auto
  then show ?case using Cons [of ?m] by (auto intro: order_trans)
qed simp

section \<open>Properties\<close>

text \<open>
  The sketch never underestimates: after any sequence of recorded accesses the estimate of
  a key is at least the number of its own accesses, up to saturation at 65535, whatever other
  keys collide with it.
\<close>

theorem estimate_lower_bound:
  "min 65535 (count_list accs key) \<le> unat (estimate_frequency (foldl cms_record_access cms_empty accs) key)"
proof -
  have "min 65535 (count_list accs key) \<le> unat (foldl cms_record_access cms_empty accs j (cms_col key j))"
    if "j < DEPTH" for j
    using accesses_cell [OF that, of cms_empty key accs] by (simp add: cms_empty_def)
  then show ?thesis
    unfolding estimate_frequency_def by (intro running_min_ge) auto
qed

end
