(* ===== verification/Eviction.thy ===== *)
theory Eviction
  imports Room Count_Min_Sketch
begin

text \<open>
  Cold storage, \<^verbatim>\<open>src/src/storage/eviction_manager.h\<close> and \<^verbatim>\<open>eviction_manager.cpp\<close>: evicted
  records are appended to \<^verbatim>\<open>cold.bin\<close> and an index (room, key) in RAM points at the latest
  record of a key. The file is a byte string; \<open>file_bytes\<close> is its logical end, behind which a
  failed write may have left bytes.

  The environment supplies what the program cannot know: the random samples of the eviction
  (a number selects a resident key) and the outcomes of the system calls.
\<close>

section \<open>State and records on disk\<close>

datatype coldref = ColdRef (cr_off: nat) (cr_len: nat)

record eviction =
  cms :: sketch
  cold_index :: "(string, string, coldref) nested"
  cold_fd :: bool
  cold_file :: string
  file_bytes :: nat
  obsolete_bytes :: nat
  max_keys_per_room :: nat
  max_bytes :: u64

definition kHeader :: nat where "kHeader = 8 + 8 + 4"

definition cold_encode :: "Record \<Rightarrow> string" where
  "cold_encode r = i64_bytes (expire_at r) @ u64_bytes (timestamp_ms r) @ u32_bytes (node_id r) @ rec_value r"

definition cold_decode :: "string \<Rightarrow> Record" where
  "cold_decode raw =
     \<lparr>rec_value = drop kHeader raw, expire_at = bytes_i64 (take 8 raw),
      timestamp_ms = bytes_u64 (take 8 (drop 8 raw)), node_id = bytes_u32 (take 4 (drop 16 raw))\<rparr>"

definition publish_metrics :: "eviction \<Rightarrow> metrics \<Rightarrow> metrics" where
  "publish_metrics e m =
     m\<lparr>cold_file_bytes := of_nat (file_bytes e), cold_obsolete_bytes := of_nat (obsolete_bytes e)\<rparr>"

definition eviction_init :: "bool \<Rightarrow> nat \<Rightarrow> u64 \<Rightarrow> eviction" where
  "eviction_init open_ok max_keys maxmemory =
     \<lparr>cms = cms_empty, cold_index = [], cold_fd = open_ok, cold_file = [], file_bytes = 0,
      obsolete_bytes = 0, max_keys_per_room = max_keys, max_bytes = maxmemory\<rparr>"

definition record_access :: "string \<Rightarrow> eviction \<Rightarrow> eviction" where
  "record_access key e = e\<lparr>cms := cms_record_access (cms e) key\<rparr>"

definition fits :: "eviction \<Rightarrow> metrics \<Rightarrow> u64 \<Rightarrow> bool" where
  "fits e m extra \<longleftrightarrow> max_bytes e = 0 \<or> resident_bytes m + extra \<le> max_bytes e"

section \<open>Eviction\<close>

record evict_env =
  ev_rand :: "nat \<Rightarrow> nat \<Rightarrow> nat"
  ev_write :: "nat \<Rightarrow> sysret list"

definition sample_key :: "evict_env \<Rightarrow> nat \<Rightarrow> Room \<Rightarrow> nat \<Rightarrow> string" where
  "sample_key env i room j = fst (room_keys room ! (ev_rand env i j mod length (room_keys room)))"

definition consider_key :: "sketch \<Rightarrow> string option \<times> u16 \<Rightarrow> string \<Rightarrow> string option \<times> u16" where
  "consider_key c st candidate =
     (let freq = estimate_frequency c candidate in
      if fst st = None \<or> freq < snd st then (Some candidate, freq) else st)"

fun extra_samples :: "sketch \<Rightarrow> (nat \<Rightarrow> string) \<Rightarrow> nat \<Rightarrow> nat \<Rightarrow> string option \<times> u16 \<Rightarrow> string option \<times> u16" where
  "extra_samples c smp j 0 st = st"
| "extra_samples c smp j (Suc n) st =
     (if snd st > 2 then extra_samples c smp (Suc j) n (consider_key c st (smp j)) else st)"

definition pick_victim :: "sketch \<Rightarrow> (nat \<Rightarrow> string) \<Rightarrow> string option" where
  "pick_victim c smp =
     (let st = foldl (\<lambda>st j. consider_key c st (smp j)) (None, 0xFFFF) [0..<5]
      in fst (if snd st > 10 then extra_samples c smp 5 64 st else st))"

definition evict_key ::
  "sysret list \<Rightarrow> Room \<Rightarrow> metrics \<Rightarrow> eviction \<Rightarrow> string \<Rightarrow> Record \<Rightarrow> bool \<times> Room \<times> metrics \<times> eviction" where
  "evict_key rs room m e victim r =
     (let data = cold_encode r;
          (ok, fc) = (if cold_fd e then pwrite_all rs (cold_file e) data (file_bytes e) else (False, cold_file e))
      in if \<not> ok then (False, room, m, e\<lparr>cold_file := fc\<rparr>)
         else
           let e' = e\<lparr>cold_file := fc,
                      cold_index := nput (cold_index e) (room_name room) victim (ColdRef (file_bytes e) (length data)),
                      file_bytes := file_bytes e + length data\<rparr>;
               m1 = m\<lparr>keys_evicted := keys_evicted m + 1, keys_in_ram := keys_in_ram m - 1\<rparr>;
               (room1, m2) = charge (- record_cost victim r) room m1
           in (True, room1\<lparr>room_keys := AList.delete victim (room_keys room1)\<rparr>, m2, e'))"

definition over_limits :: "Room \<Rightarrow> metrics \<Rightarrow> eviction \<Rightarrow> bool" where
  "over_limits room m e \<longleftrightarrow>
     room_keys room \<noteq> [] \<and> (length (room_keys room) > max_keys_per_room e \<or> \<not> fits e m 0)"

lemma length_al_delete_less: "map_of al k = Some v \<Longrightarrow> length (AList.delete k al) < length al"
  by (induction al) (auto simp: less_Suc_eq_le length_delete_le split: if_splits)

lemma evict_key_shrinks:
  "evict_key rs room m e victim r = (True, room', m', e') \<Longrightarrow> map_of (room_keys room) victim = Some r \<Longrightarrow>
    length (room_keys room') < length (room_keys room)"
  by (auto simp: evict_key_def charge_def Let_def length_al_delete_less split: prod.splits if_splits)

function evict_loop :: "evict_env \<Rightarrow> nat \<Rightarrow> Room \<Rightarrow> metrics \<Rightarrow> eviction \<Rightarrow> Room \<times> metrics \<times> eviction" where
  "evict_loop env i room m e =
     (if over_limits room m e then
        (case pick_victim (cms e) (sample_key env i room) of
           None \<Rightarrow> (room, m, e)
         | Some victim \<Rightarrow>
             (case map_of (room_keys room) victim of
                None \<Rightarrow> (room, m, e)
              | Some r \<Rightarrow>
                  (case evict_key (ev_write env i) room m e victim r of
                     (ok, room', m', e') \<Rightarrow>
                       if ok then evict_loop env (Suc i) room' m' e' else (room', m', e'))))
      else (room, m, e))"
  by pat_completeness auto
termination
  by (relation "measure (\<lambda>(env, i, room, m, e). length (room_keys room))") (auto dest: evict_key_shrinks [OF sym])

declare evict_loop.simps [simp del]

definition evict_despised_keys :: "evict_env \<Rightarrow> Room \<Rightarrow> metrics \<Rightarrow> eviction \<Rightarrow> Room \<times> metrics \<times> eviction" where
  "evict_despised_keys env room m e =
     (case evict_loop env 0 room m e of (room', m', e') \<Rightarrow> (room', publish_metrics e' m', e'))"

section \<open>Reload, enumeration, compaction\<close>

definition cold_take :: "sysret list \<Rightarrow> string \<Rightarrow> string \<Rightarrow> metrics \<Rightarrow> eviction \<Rightarrow> Record option \<times> metrics \<times> eviction" where
  "cold_take rs name key m e =
     (case nget (cold_index e) name key of
        None \<Rightarrow> (None, m, e)
      | Some ref \<Rightarrow>
          (case pread_all rs (cold_file e) (cr_len ref) (cr_off ref) of
             None \<Rightarrow> (None, m, e)
           | Some raw \<Rightarrow>
               (let e' = e\<lparr>cold_index := ndel (cold_index e) name key,
                           obsolete_bytes := obsolete_bytes e + cr_len ref\<rparr>
                in (Some (cold_decode raw), publish_metrics e' m, e'))))"

fun cold_for_each :: "(nat \<Rightarrow> sysret list) \<Rightarrow> nat \<Rightarrow> string \<Rightarrow> (string \<times> string \<times> coldref) list \<Rightarrow>
    (string \<times> string \<times> Record) list \<times> bool" where
  "cold_for_each rd i fc [] = ([], True)"
| "cold_for_each rd i fc ((name, key, ref) # xs) =
     (case pread_all (rd i) fc (cr_len ref) (cr_off ref) of
        None \<Rightarrow> ([], False)
      | Some raw \<Rightarrow>
          (case cold_for_each rd (Suc i) fc xs of (ys, ok) \<Rightarrow> ((name, key, cold_decode raw) # ys, ok)))"

record compact_env =
  ce_open :: bool
  ce_read :: "nat \<Rightarrow> sysret list"
  ce_write :: "nat \<Rightarrow> sysret list"
  ce_rename :: bool

fun compact_loop :: "compact_env \<Rightarrow> int \<Rightarrow> nat \<Rightarrow> string \<Rightarrow> (string \<times> string \<times> coldref) list \<Rightarrow>
    (string, string, coldref) nested \<Rightarrow> nat \<Rightarrow> string \<Rightarrow> ((string, string, coldref) nested \<times> nat \<times> string) option" where
  "compact_loop env now_ms i fc [] fresh sz out = Some (fresh, sz, out)"
| "compact_loop env now_ms i fc ((name, key, ref) # xs) fresh sz out =
     (case pread_all (ce_read env i) fc (cr_len ref) (cr_off ref) of
        None \<Rightarrow> None
      | Some raw \<Rightarrow>
          if expired (cold_decode raw) now_ms then compact_loop env now_ms (Suc i) fc xs fresh sz out
          else
            (case write_all (ce_write env i) raw of
               (False, _) \<Rightarrow> None
             | (True, n) \<Rightarrow>
                 compact_loop env now_ms (Suc i) fc xs (nput fresh name key (ColdRef sz (cr_len ref)))
                   (sz + cr_len ref) (out @ take n raw)))"

text \<open>The result is the number of reclaimed bytes, or \<open>None\<close> where the program returns -1.\<close>

definition compact :: "compact_env \<Rightarrow> int \<Rightarrow> metrics \<Rightarrow> eviction \<Rightarrow> nat option \<times> metrics \<times> eviction" where
  "compact env now_ms m e =
     (if \<not> ce_open env then (None, m, e)
      else
        (case compact_loop env now_ms 0 (cold_file e) (nitems (cold_index e)) [] 0 [] of
           None \<Rightarrow> (None, m, e)
         | Some (fresh, sz, out) \<Rightarrow>
             if \<not> ce_rename env then (None, m, e)
             else
               (let reclaimed = file_bytes e - sz;
                    e' = e\<lparr>cold_fd := True, cold_file := out, cold_index := fresh, file_bytes := sz, obsolete_bytes := 0\<rparr>;
                    m' = m\<lparr>cold_reclaimed_bytes := cold_reclaimed_bytes m + of_nat reclaimed\<rparr>
                in (Some reclaimed, publish_metrics e' m', e'))))"

section \<open>What cold storage holds\<close>

definition cold_get :: "eviction \<Rightarrow> string \<Rightarrow> string \<Rightarrow> Record option" where
  "cold_get e name key =
     map_option (\<lambda>ref. cold_decode (take (cr_len ref) (drop (cr_off ref) (cold_file e)))) (nget (cold_index e) name key)"

definition ref_ok :: "eviction \<Rightarrow> coldref \<Rightarrow> bool" where
  "ref_ok e ref \<longleftrightarrow> kHeader \<le> cr_len ref \<and> cr_off ref + cr_len ref \<le> file_bytes e"

definition cold_ok :: "eviction \<Rightarrow> bool" where
  "cold_ok e \<longleftrightarrow>
     nested_ok (cold_index e) \<and> file_bytes e \<le> length (cold_file e) \<and>
     nsum (\<lambda>_ _ ref. cr_len ref) (cold_index e) + obsolete_bytes e = file_bytes e \<and>
     (\<forall>name key ref. nget (cold_index e) name key = Some ref \<longrightarrow> ref_ok e ref) \<and>
     (\<forall>name key r. cold_get e name key = Some r \<longrightarrow> rec_ok r)"

text \<open>The record a key has, in RAM or in cold storage.\<close>

definition stored :: "Room \<Rightarrow> eviction \<Rightarrow> string \<Rightarrow> Record option" where
  "stored room e key =
     (case map_of (room_keys room) key of
        Some r \<Rightarrow> Some r
      | None \<Rightarrow> cold_get e (room_name room) key)"

definition tiers_ok :: "Room \<Rightarrow> eviction \<Rightarrow> bool" where
  "tiers_ok room e \<longleftrightarrow>
     room_ok room \<and> cold_ok e \<and>
     (\<forall>key r. map_of (room_keys room) key = Some r \<longrightarrow> rec_ok r \<and> nget (cold_index e) (room_name room) key = None)"

lemma tiers_okD:
  assumes "tiers_ok room e"
  shows "room_ok room" "cold_ok e" "al_ok (room_keys room)" "room_bytes room = al_sum record_cost (room_keys room)"
    "map_of (room_keys room) key = Some r \<Longrightarrow> rec_ok r"
    "map_of (room_keys room) key = Some r \<Longrightarrow> nget (cold_index e) (room_name room) key = None"
  using assms by (auto simp: tiers_ok_def room_ok_def keys_cost_def)

lemma length_cold_encode [simp]: "length (cold_encode r) = kHeader + length (rec_value r)"
  by (simp add: cold_encode_def kHeader_def)

lemma cold_decode_encode: "rec_ok r \<Longrightarrow> cold_decode (cold_encode r) = r"
  by (simp add: cold_decode_def cold_encode_def kHeader_def rec_ok_def)

lemma region_unchanged:
  assumes "ref_ok e ref" and "file_bytes e \<le> length fc" and "take (file_bytes e) fc = take (file_bytes e) (cold_file e)"
  shows "take (cr_len ref) (drop (cr_off ref) fc) = take (cr_len ref) (drop (cr_off ref) (cold_file e))"
proof -
  have cut: "take (cr_len ref) (drop (cr_off ref) x) = take (cr_len ref) (drop (cr_off ref) (take (file_bytes e) x))" for x :: string
  proof -
    have "cr_len ref \<le> file_bytes e - cr_off ref" using assms(1) by (auto simp: ref_ok_def)
    then show ?thesis by (simp add: drop_take min_absorb1)
  qed
  show ?thesis using cut [of fc] cut [of "cold_file e"] assms(3) by simp
qed

lemma cold_get_same_prefix:
  assumes "cold_ok e" and "file_bytes e \<le> length fc" and "take (file_bytes e) fc = take (file_bytes e) (cold_file e)"
  shows "cold_get (e\<lparr>cold_file := fc\<rparr>) name key = cold_get e name key"
proof (cases "nget (cold_index e) name key")
  case (Some ref)
  then have "ref_ok e ref" using assms(1) by (auto simp: cold_ok_def)
  then show ?thesis using Some region_unchanged [OF _ assms(2,3)] by (simp add: cold_get_def)
qed (simp add: cold_get_def)

lemma cold_ok_same_prefix:
  assumes "cold_ok e" and "file_bytes e \<le> length fc" and "take (file_bytes e) fc = take (file_bytes e) (cold_file e)"
  shows "cold_ok (e\<lparr>cold_file := fc\<rparr>)"
  using assms(1,2) cold_get_same_prefix [OF assms] by (simp add: cold_ok_def ref_ok_def)

text \<open>Appending a record at the logical end of the file.\<close>

definition cold_append :: "eviction \<Rightarrow> string \<Rightarrow> string \<Rightarrow> Record \<Rightarrow> eviction" where
  "cold_append e name key r =
     e\<lparr>cold_file := overwrite (cold_file e) (file_bytes e) (cold_encode r),
       cold_index := nput (cold_index e) name key (ColdRef (file_bytes e) (length (cold_encode r))),
       file_bytes := file_bytes e + length (cold_encode r)\<rparr>"

lemma cold_get_append:
  assumes "cold_ok e" and "rec_ok r"
  shows "cold_get (cold_append e name key r) name' key' =
    (if name' = name \<and> key' = key then Some r else cold_get e name' key')"
proof (cases "name' = name \<and> key' = key")
  case True
  have "file_bytes e \<le> length (cold_file e)" using assms(1) by (simp add: cold_ok_def)
  then have "take (length (cold_encode r)) (drop (file_bytes e) (overwrite (cold_file e) (file_bytes e) (cold_encode r)))
      = cold_encode r"
    by (simp add: overwrite_within)
  then show ?thesis using True assms(2) by (simp add: cold_get_def cold_append_def cold_decode_encode)
next
  case False
  have le: "file_bytes e \<le> length (cold_file e)" using assms(1) by (simp add: cold_ok_def)
  let ?fc = "overwrite (cold_file e) (file_bytes e) (cold_encode r)"
  have "cold_get (cold_append e name key r) name' key' = cold_get (e\<lparr>cold_file := ?fc\<rparr>) name' key'"
    using False by (auto simp: cold_get_def cold_append_def)
  also have "\<dots> = cold_get e name' key'"
    using le by (intro cold_get_same_prefix [OF assms(1)]) simp_all
  finally show ?thesis using False by auto
qed

lemma cold_ok_append:
  assumes "cold_ok e" and "rec_ok r" and "nget (cold_index e) name key = None"
  shows "cold_ok (cold_append e name key r)"
proof -
  have le: "file_bytes e \<le> length (cold_file e)" and ok: "nested_ok (cold_index e)"
    and sum: "nsum (\<lambda>_ _ ref. cr_len ref) (cold_index e) + obsolete_bytes e = file_bytes e"
    and refs: "\<And>n k ref. nget (cold_index e) n k = Some ref \<Longrightarrow> ref_ok e ref"
    and recs: "\<And>n k r. cold_get e n k = Some r \<Longrightarrow> rec_ok r"
    using assms(1) by (auto simp: cold_ok_def)
  let ?e = "cold_append e name key r"
  have "file_bytes ?e \<le> length (cold_file ?e)" using le by (simp add: cold_append_def)
  moreover have "nsum (\<lambda>_ _ ref. cr_len ref) (cold_index ?e) + obsolete_bytes ?e = file_bytes ?e"
    using sum nsum_nput_new [OF ok assms(3), of "\<lambda>_ _ ref. cr_len ref"] by (simp add: cold_append_def)
  moreover have "ref_ok ?e ref" if "nget (cold_index ?e) n k = Some ref" for n k ref
    using that refs [of n k ref] by (auto simp: cold_append_def ref_ok_def split: if_splits)
  moreover have "rec_ok x" if "cold_get ?e n k = Some x" for n k x
    using that recs assms(2) by (auto simp: cold_get_append [OF assms(1,2)] split: if_splits)
  ultimately show ?thesis using ok by (simp add: cold_ok_def) (simp add: cold_append_def)
qed

section \<open>Eviction moves a record, nothing else\<close>

lemma pick_victim_sample:
  assumes "\<And>j. smp j \<in> K"
  shows "\<exists>k \<in> K. pick_victim c smp = Some k"
proof -
  define good where "good = (\<lambda>st :: string option \<times> u16. \<exists>k \<in> K. fst st = Some k)"
  have first: "good (consider_key c (None, x) (smp j))" for x j
    using assms by (auto simp: good_def consider_key_def Let_def)
  have step: "good st \<Longrightarrow> good (consider_key c st (smp j))" for st j
    using assms by (auto simp: good_def consider_key_def Let_def)
  have extra: "good st \<Longrightarrow> good (extra_samples c smp j n st)" for j n st
  proof (induction n arbitrary: j st)
    case (Suc n)
    then show ?case by (simp add: step)
  qed simp
  have many: "good st \<Longrightarrow> good (foldl (\<lambda>st j. consider_key c st (smp j)) st js)" for st js
    by (induction js arbitrary: st) (simp_all add: step)
  have "good (foldl (\<lambda>st j. consider_key c st (smp j)) (None, 0xFFFF) (0 # [1..<5]))"
    unfolding foldl.simps by (rule many) (rule first)
  then have "good (foldl (\<lambda>st j. consider_key c st (smp j)) (None, 0xFFFF) [0..<5])" (is "good ?st")
    by (simp add: upt_conv_Cons)
  then have "good (if snd ?st > 10 then extra_samples c smp 5 64 ?st else ?st)"
    using extra by simp
  then show ?thesis unfolding good_def pick_victim_def Let_def .
qed

lemma sample_key_resident: "room_keys room \<noteq> [] \<Longrightarrow> sample_key env i room j \<in> fst ` set (room_keys room)"
  by (simp add: sample_key_def)

lemma pick_victim_resident:
  assumes "room_keys room \<noteq> []"
  shows "\<exists>k r. pick_victim c (sample_key env i room) = Some k \<and> map_of (room_keys room) k = Some r"
proof -
  have "\<exists>k \<in> fst ` set (room_keys room). pick_victim c (sample_key env i room) = Some k"
    by (rule pick_victim_sample) (rule sample_key_resident [OF assms])
  then obtain k where "k \<in> fst ` set (room_keys room)" "pick_victim c (sample_key env i room) = Some k" ..
  moreover from this(1) have "map_of (room_keys room) k \<noteq> None" by (simp add: map_of_eq_None_iff)
  ultimately show ?thesis by auto
qed

lemma evict_key_cases:
  assumes "tiers_ok room e" and "map_of (room_keys room) victim = Some r"
    and "evict_key rs room m e victim r = (ok, room', m', e')"
  shows "(ok \<and> e' = cold_append e (room_name room) victim r \<and>
            room' = room\<lparr>room_bytes := room_bytes room - record_cost victim r,
                         room_keys := AList.delete victim (room_keys room)\<rparr> \<and>
            m' = m\<lparr>keys_evicted := keys_evicted m + 1, keys_in_ram := keys_in_ram m - 1,
                   resident_bytes := resident_bytes m - record_cost victim r\<rparr>) \<or>
         (\<not> ok \<and> room' = room \<and> m' = m \<and>
            (\<exists>fc. e' = e\<lparr>cold_file := fc\<rparr> \<and> file_bytes e \<le> length fc \<and>
                  take (file_bytes e) fc = take (file_bytes e) (cold_file e)))"
proof -
  have le: "file_bytes e \<le> length (cold_file e)" using assms(1) by (simp add: tiers_ok_def cold_ok_def)
  show ?thesis
  proof (cases "cold_fd e")
    case False
    then show ?thesis using assms(3) le
      by (auto simp: evict_key_def Let_def intro!: exI [of _ "cold_file e"])
  next
    case True
    obtain w fc where w: "pwrite_all rs (cold_file e) (cold_encode r) (file_bytes e) = (w, fc)" by fastforce
    show ?thesis
    proof (cases w)
      case True
      with w have "fc = overwrite (cold_file e) (file_bytes e) (cold_encode r)"
        using pwrite_all_True [OF le] by simp
      then show ?thesis
        using \<open>cold_fd e\<close> True w assms(3) by (auto simp: evict_key_def charge_def cold_append_def Let_def)
    next
      case False
      then show ?thesis
        using \<open>cold_fd e\<close> w assms(3) pwrite_all_prefix [OF le w] by (auto simp: evict_key_def Let_def)
    qed
  qed
qed

lemma evict_key_keeps:
  assumes "tiers_ok room e" and "map_of (room_keys room) victim = Some r"
    and "evict_key rs room m e victim r = (ok, room', m', e')"
  shows "tiers_ok room' e'" "same_slack room m room' m'" "stored room' e' = stored room e"
    "\<And>name key. name \<noteq> room_name room \<Longrightarrow> cold_get e' name key = cold_get e name key"
proof -
  note ok = tiers_okD [OF assms(1)]
  have none: "nget (cold_index e) (room_name room) victim = None" and rok: "rec_ok r"
    using ok(5,6) [OF assms(2)] by auto
  from evict_key_cases [OF assms] show "tiers_ok room' e'"
  proof (elim disjE conjE exE)
    assume eqs: "e' = cold_append e (room_name room) victim r"
      "room' = room\<lparr>room_bytes := room_bytes room - record_cost victim r,
                    room_keys := AList.delete victim (room_keys room)\<rparr>"
    have "room_ok room'" using ok(3,4) assms(2) by (simp add: eqs room_ok_def keys_cost_def al_sum_delete_group)
    moreover have "cold_ok e'" unfolding eqs(1) by (rule cold_ok_append [OF ok(2) rok none])
    ultimately show ?thesis
      using ok(5,6) by (auto simp: tiers_ok_def eqs cold_append_def split: if_splits)
  next
    fix fc assume "room' = room" "e' = e\<lparr>cold_file := fc\<rparr>" "file_bytes e \<le> length fc"
      "take (file_bytes e) fc = take (file_bytes e) (cold_file e)"
    then show ?thesis using ok cold_ok_same_prefix [OF ok(2)] by (auto simp: tiers_ok_def)
  qed
  from evict_key_cases [OF assms] show "same_slack room m room' m'"
    by (elim disjE conjE exE) (simp_all add: same_slack_def length_al_delete [OF ok(3) assms(2)])
  from evict_key_cases [OF assms] show "stored room' e' = stored room e"
    by (elim disjE conjE exE)
      (auto simp: stored_def fun_eq_iff cold_get_append [OF ok(2) rok] assms(2) cold_get_same_prefix [OF ok(2)]
        split: option.splits)
  from evict_key_cases [OF assms] show "cold_get e' name key = cold_get e name key" if "name \<noteq> room_name room" for name key
    using that by (elim disjE conjE exE) (auto simp: cold_get_append [OF ok(2) rok] cold_get_same_prefix [OF ok(2)])
qed

lemma evict_key_frame [frame_simps]:
  "evict_key rs room m e victim r = (ok, room', m', e') \<Longrightarrow>
    room_name room' = room_name room \<and> room_state room' = room_state room \<and> cms e' = cms e \<and>
    max_keys_per_room e' = max_keys_per_room e \<and> max_bytes e' = max_bytes e \<and> cold_fd e' = cold_fd e"
  by (auto simp: evict_key_def charge_def Let_def split: prod.splits if_splits)

lemma evict_loop_keeps:
  "tiers_ok room e \<Longrightarrow> evict_loop env i room m e = (room', m', e') \<Longrightarrow>
    tiers_ok room' e' \<and> same_slack room m room' m' \<and> stored room' e' = stored room e \<and>
    room_name room' = room_name room \<and> room_state room' = room_state room \<and>
    max_keys_per_room e' = max_keys_per_room e \<and> max_bytes e' = max_bytes e \<and>
    (\<forall>name key. name \<noteq> room_name room \<longrightarrow> cold_get e' name key = cold_get e name key)"
proof (induction env i room m e rule: evict_loop.induct)
  case (1 env i room m e)
  show ?case
  proof (cases "over_limits room m e")
    case False
    then show ?thesis using "1.prems" by (simp add: evict_loop.simps [of env i room m e])
  next
    case True
    then have "room_keys room \<noteq> []" by (simp add: over_limits_def)
    then obtain k r where k: "pick_victim (cms e) (sample_key env i room) = Some k"
      "map_of (room_keys room) k = Some r" using pick_victim_resident by blast
    obtain ok room1 m1 e1 where ev: "evict_key (ev_write env i) room m e k r = (ok, room1, m1, e1)"
      by (metis prod_cases4)
    note keep = evict_key_keeps [OF "1.prems"(1) k(2) ev] evict_key_frame [OF ev]
    show ?thesis
    proof (cases ok)
      case False
      then show ?thesis using "1.prems" True k ev keep by (simp add: evict_loop.simps [of env i room m e])
    next
      case ok: True
      then have "evict_loop env (Suc i) room1 m1 e1 = (room', m', e')"
        using "1.prems"(2) True k ev by (simp add: evict_loop.simps [of env i room m e])
      from "1.IH" [OF True k ev [symmetric] refl refl ok keep(1) this] keep show ?thesis
        by (auto intro: same_slack_trans)
    qed
  qed
qed

lemma evict_key_sub:
  "evict_key rs room m e victim r = (ok, room', m', e') \<Longrightarrow> map_of (room_keys room') key = Some x \<Longrightarrow>
    map_of (room_keys room) key = Some x"
  by (auto simp: evict_key_def charge_def Let_def delete_conv split: prod.splits if_splits)

lemma evict_loop_limits:
  "tiers_ok room e \<Longrightarrow> evict_loop env i room m e = (room', m', e') \<Longrightarrow> over_limits room' m' e' \<Longrightarrow> cold_fd e \<Longrightarrow>
    \<exists>j fc key r ofs. map_of (room_keys room) key = Some r \<and> \<not> fst (pwrite_all (ev_write env j) fc (cold_encode r) ofs)"
proof (induction env i room m e rule: evict_loop.induct)
  case (1 env i room m e)
  show ?case
  proof (cases "over_limits room m e")
    case False
    then show ?thesis using "1.prems" by (simp add: evict_loop.simps [of env i room m e])
  next
    case True
    then have "room_keys room \<noteq> []" by (simp add: over_limits_def)
    then obtain k r where k: "pick_victim (cms e) (sample_key env i room) = Some k"
      "map_of (room_keys room) k = Some r" using pick_victim_resident by blast
    obtain ok room1 m1 e1 where ev: "evict_key (ev_write env i) room m e k r = (ok, room1, m1, e1)"
      by (metis prod_cases4)
    note keep = evict_key_keeps(1) [OF "1.prems"(1) k(2) ev] evict_key_frame [OF ev]
    show ?thesis
    proof (cases ok)
      case False
      then have "\<not> fst (pwrite_all (ev_write env i) (cold_file e) (cold_encode r) (file_bytes e))"
        using ev "1.prems"(4) by (auto simp: evict_key_def Let_def split: prod.splits)
      then show ?thesis using k(2) by blast
    next
      case ok: True
      then have "evict_loop env (Suc i) room1 m1 e1 = (room', m', e')"
        using "1.prems"(2) True k ev by (simp add: evict_loop.simps [of env i room m e])
      from "1.IH" [OF True k ev [symmetric] refl refl ok keep(1) this "1.prems"(3)] keep(2) "1.prems"(4)
      show ?thesis using evict_key_sub [OF ev] by (metis (no_types, lifting))
    qed
  qed
qed

section \<open>Reload\<close>

lemma cold_take_cases:
  assumes "cold_ok e" and "cold_take rs name key m e = (res, m', e')"
  shows "(res = None \<and> m' = m \<and> e' = e \<and>
            (\<forall>ref. nget (cold_index e) name key = Some ref \<longrightarrow> pread_all rs (cold_file e) (cr_len ref) (cr_off ref) = None)) \<or>
         (\<exists>r. res = Some r \<and> cold_get e name key = Some r \<and> rec_ok r \<and> m' = publish_metrics e' m \<and>
            cold_index e' = ndel (cold_index e) name key \<and> cold_file e' = cold_file e \<and> file_bytes e' = file_bytes e \<and>
            cms e' = cms e \<and> cold_fd e' = cold_fd e \<and> max_bytes e' = max_bytes e \<and>
            max_keys_per_room e' = max_keys_per_room e \<and> cold_ok e' \<and>
            (\<forall>n k. cold_get e' n k = (if n = name \<and> k = key then None else cold_get e n k)))"
proof (cases "nget (cold_index e) name key")
  case None
  then show ?thesis using assms(2) by (simp add: cold_take_def)
next
  case (Some ref)
  show ?thesis
  proof (cases "pread_all rs (cold_file e) (cr_len ref) (cr_off ref)")
    case None
    then show ?thesis using Some assms(2) by (simp add: cold_take_def)
  next
    case raw: (Some raw)
    have got: "cold_get e name key = Some (cold_decode raw)"
      using Some pread_all_Some [OF raw] by (simp add: cold_get_def)
    have ok: "nested_ok (cold_index e)" "rec_ok (cold_decode raw)" "cold_get e name key = Some (cold_decode raw)"
      using assms(1) got unfolding cold_ok_def by blast+
    define e1 where "e1 = e\<lparr>cold_index := ndel (cold_index e) name key, obsolete_bytes := obsolete_bytes e + cr_len ref\<rparr>"
    have get: "cold_get e1 n k = (if n = name \<and> k = key then None else cold_get e n k)" for n k
      using ok(1) by (simp add: cold_get_def e1_def)
    have "nsum (\<lambda>_ _ ref. cr_len ref) (cold_index e1) + obsolete_bytes e1 = file_bytes e1"
      using assms(1) nsum_ndel [OF ok(1) Some, of "\<lambda>_ _ ref. cr_len ref"] by (simp add: cold_ok_def e1_def)
    moreover have "ref_ok e1 x" if "nget (cold_index e1) n k = Some x" for n k x
      using that assms(1) ok(1) by (auto simp: e1_def cold_ok_def ref_ok_def split: if_splits)
    moreover have "rec_ok x" if "cold_get e1 n k = Some x" for n k x
      using that assms(1) by (auto simp: get cold_ok_def split: if_splits)
    ultimately have "cold_ok e1" using assms(1) ok(1) by (auto simp: cold_ok_def) (auto simp: e1_def)
    moreover have "res = Some (cold_decode raw) \<and> m' = publish_metrics e1 m \<and> e' = e1"
      using assms(2) Some raw by (auto simp: cold_take_def e1_def Let_def)
    ultimately show ?thesis using ok get by (auto simp: e1_def)
  qed
qed

section \<open>Compaction\<close>

definition index_view :: "(string, string, coldref) nested \<Rightarrow> string \<Rightarrow> string \<Rightarrow> string \<Rightarrow> Record option" where
  "index_view idx fc n k = map_option (\<lambda>ref. cold_decode (take (cr_len ref) (drop (cr_off ref) fc))) (nget idx n k)"

definition keyed :: "(string \<times> string \<times> coldref) list \<Rightarrow> ((string \<times> string) \<times> coldref) list" where
  "keyed xs = map (\<lambda>(n, k, ref). ((n, k), ref)) xs"

definition live :: "int \<Rightarrow> Record option \<Rightarrow> Record option" where
  "live now x = (case x of Some r \<Rightarrow> if expired r now then None else Some r | None \<Rightarrow> None)"

lemma live_simps [simp]:
  "live now None = None" "expired r now \<Longrightarrow> live now (Some r) = None" "\<not> expired r now \<Longrightarrow> live now (Some r) = Some r"
  by (simp_all add: live_def)

definition idx_ok :: "(string, string, coldref) nested \<Rightarrow> nat \<Rightarrow> bool" where
  "idx_ok idx sz \<longleftrightarrow> nested_ok idx \<and> nsum (\<lambda>_ _ ref. cr_len ref) idx = sz \<and>
     (\<forall>n k ref. nget idx n k = Some ref \<longrightarrow> kHeader \<le> cr_len ref \<and> cr_off ref + cr_len ref \<le> sz)"

lemma idx_ok_append:
  assumes "idx_ok idx sz" and "nget idx n k = None" and "kHeader \<le> len"
  shows "idx_ok (nput idx n k (ColdRef sz len)) (sz + len)"
  using assms nsum_nput_new [of idx n k "\<lambda>_ _ ref. cr_len ref" "ColdRef sz len"]
  by (auto simp: idx_ok_def intro: trans_le_add1)

lemma index_view_append:
  assumes "idx_ok idx (length out)" and "nget idx n k = None"
  shows "index_view (nput idx n k (ColdRef (length out) (length raw))) (out @ raw) n' k' =
    (if n' = n \<and> k' = k then Some (cold_decode raw) else index_view idx out n' k')"
proof (cases "n' = n \<and> k' = k")
  case True
  then show ?thesis by (simp add: index_view_def)
next
  case False
  have "take (cr_len ref) (drop (cr_off ref) (out @ raw)) = take (cr_len ref) (drop (cr_off ref) out)"
    if "nget idx n' k' = Some ref" for ref
  proof -
    have "cr_off ref + cr_len ref \<le> length out" using that assms(1) unfolding idx_ok_def by blast
    then have "cr_len ref - (length out - cr_off ref) = 0" by linarith
    then show ?thesis by simp
  qed
  then show ?thesis using False by (cases "nget idx n' k'") (auto simp: index_view_def)
qed

lemma compact_loop_Some:
  assumes "compact_loop env now i fc xs fresh sz out = Some (fresh', sz', out')"
    and "idx_ok fresh sz" and "length out = sz" and "distinct (map fst (keyed xs))"
    and "\<forall>(n, k, ref) \<in> set xs. nget fresh n k = None \<and> kHeader \<le> cr_len ref"
  shows "idx_ok fresh' sz' \<and> length out' = sz' \<and> sz' \<le> sz + sum_list (map (\<lambda>(n, k, ref). cr_len ref) xs) \<and>
    (\<forall>n k. index_view fresh' out' n k =
       (case map_of (keyed xs) (n, k) of
          Some ref \<Rightarrow> live now (Some (cold_decode (take (cr_len ref) (drop (cr_off ref) fc))))
        | None \<Rightarrow> index_view fresh out n k))"
  using assms
proof (induction env now i fc xs fresh sz out rule: compact_loop.induct)
  case (1 env now i fc fresh sz out)
  then show ?case by (simp add: keyed_def)
next
  case (2 env now i fc n k ref xs fresh sz out)
  note prems = "2.prems"
  obtain raw where raw: "pread_all (ce_read env i) fc (cr_len ref) (cr_off ref) = Some raw"
    using prems(1) by (auto split: option.splits)
  have region: "length raw = cr_len ref" "take (cr_len ref) (drop (cr_off ref) fc) = raw"
    using pread_all_Some [OF raw] by auto
  have notin: "map_of (keyed xs) (n, k) = None"
    using prems(4) by (simp add: keyed_def map_of_eq_None_iff image_image)
  have fresh_none: "nget fresh n k = None" and len: "kHeader \<le> cr_len ref" using prems(5) by auto
  have dist: "distinct (map fst (keyed xs))" using prems(4) by (simp add: keyed_def)
  have keyed_Cons: "keyed ((n, k, ref) # xs) = ((n, k), ref) # keyed xs" by (simp add: keyed_def)
  have view_none: "index_view fresh out n k = None" using fresh_none by (simp add: index_view_def)
  show ?case
  proof (cases "expired (cold_decode raw) now")
    case True
    have step: "compact_loop env now (Suc i) fc xs fresh sz out = Some (fresh', sz', out')"
      using prems(1) raw True by simp
    have "idx_ok fresh' sz' \<and> length out' = sz' \<and> sz' \<le> sz + sum_list (map (\<lambda>(n, k, ref). cr_len ref) xs) \<and>
      (\<forall>n k. index_view fresh' out' n k =
         (case map_of (keyed xs) (n, k) of
            Some ref \<Rightarrow> live now (Some (cold_decode (take (cr_len ref) (drop (cr_off ref) fc))))
          | None \<Rightarrow> index_view fresh out n k))"
      by (rule "2.IH"(1) [OF raw True step prems(2,3) dist]) (use prems(5) in auto)
    then show ?thesis using True region notin view_none by (auto simp: keyed_Cons split: option.splits)
  next
    case False
    obtain w where w: "write_all (ce_write env i) raw = (True, w)"
      using prems(1) raw False by (auto split: prod.splits bool.splits)
    have wl: "w = length raw" using w by (rule write_all_True)
    let ?fresh = "nput fresh n k (ColdRef sz (cr_len ref))"
    have step: "compact_loop env now (Suc i) fc xs ?fresh (sz + cr_len ref) (out @ take w raw) = Some (fresh', sz', out')"
      using prems(1) raw False w by simp
    have "idx_ok fresh' sz' \<and> length out' = sz' \<and>
      sz' \<le> (sz + cr_len ref) + sum_list (map (\<lambda>(n, k, ref). cr_len ref) xs) \<and>
      (\<forall>n k. index_view fresh' out' n k =
         (case map_of (keyed xs) (n, k) of
            Some ref \<Rightarrow> live now (Some (cold_decode (take (cr_len ref) (drop (cr_off ref) fc))))
          | None \<Rightarrow> index_view ?fresh (out @ take w raw) n k))"
    proof (rule "2.IH"(2) [OF raw False w [symmetric] refl step _ _ dist])
      show "idx_ok ?fresh (sz + cr_len ref)" by (rule idx_ok_append [OF prems(2) fresh_none len])
      show "length (out @ take w raw) = sz + cr_len ref" using wl prems(3) region by simp
      show "\<forall>(n', k', ref') \<in> set xs. nget ?fresh n' k' = None \<and> kHeader \<le> cr_len ref'"
        using prems(5) notin by (force simp: keyed_def map_of_eq_None_iff)
    qed
    moreover have "index_view ?fresh (out @ take w raw) n' k' =
        (if n' = n \<and> k' = k then Some (cold_decode raw) else index_view fresh out n' k')" for n' k'
      using index_view_append [of fresh out n k raw n' k'] prems(2,3) fresh_none wl region by simp
    ultimately show ?thesis using False region notin by (auto simp: keyed_Cons split: option.splits)
  qed
qed

lemma cold_get_view: "cold_get e n k = index_view (cold_index e) (cold_file e) n k"
  by (simp add: cold_get_def index_view_def)

lemma map_of_keyed:
  assumes "nested_ok idx"
  shows "distinct (map fst (keyed (nitems idx)))" "map_of (keyed (nitems idx)) (n, k) = nget idx n k"
proof -
  have "map fst (keyed (nitems idx)) = map (\<lambda>(r, k, v). (r, k)) (nitems idx)"
    by (simp add: keyed_def case_prod_unfold)
  then show dist: "distinct (map fst (keyed (nitems idx)))" using distinct_nitems [OF assms] by simp
  have mem: "((n, k), ref) \<in> set (keyed (nitems idx)) \<longleftrightarrow> nget idx n k = Some ref" for ref
    using set_nitems [OF assms, of n k ref] by (force simp: keyed_def)
  show "map_of (keyed (nitems idx)) (n, k) = nget idx n k"
    using mem map_of_eq_Some_iff [OF dist] by (cases "nget idx n k") (auto simp: map_of_eq_None_iff image_iff)
qed

lemma idx_ok_Nil [simp]: "idx_ok [] 0"
  by (simp add: idx_ok_def nested_ok_def nsum_def nget_def inner_def)

lemma compact_loop_whole:
  assumes ok: "cold_ok e"
    and run: "compact_loop env now 0 (cold_file e) (nitems (cold_index e)) [] 0 [] = Some (fresh, sz, out)"
  shows "idx_ok fresh sz" "length out = sz" "sz \<le> file_bytes e" "index_view fresh out n k = live now (cold_get e n k)"
proof -
  have nok: "nested_ok (cold_index e)" using ok by (simp add: cold_ok_def)
  have "\<forall>(n, k, ref) \<in> set (nitems (cold_index e)). nget ([] :: (string, string, coldref) nested) n k = None \<and> kHeader \<le> cr_len ref"
    using ok set_nitems [OF nok] by (auto simp: cold_ok_def ref_ok_def nget_def inner_def)
  note res = compact_loop_Some [OF run idx_ok_Nil _ map_of_keyed(1) [OF nok] this]
  show "idx_ok fresh sz" "length out = sz" using res by simp_all
  have "sz \<le> nsum (\<lambda>_ _ ref. cr_len ref) (cold_index e)" using res by (simp add: sum_nitems)
  then show "sz \<le> file_bytes e" using ok by (auto simp: cold_ok_def)
  show "index_view fresh out n k = live now (cold_get e n k)"
    using res by (auto simp: map_of_keyed(2) [OF nok] cold_get_def index_view_def nget_def inner_def split: option.splits)
qed

text \<open>Compaction stops early only when a read or a write of one of the records failed.\<close>

lemma compact_loop_None:
  "compact_loop env now i fc xs fresh sz out = None \<Longrightarrow>
    \<exists>n k ref j. (n, k, ref) \<in> set xs \<and>
      (pread_all (ce_read env j) fc (cr_len ref) (cr_off ref) = None \<or>
       (\<exists>raw. length raw = cr_len ref \<and> \<not> fst (write_all (ce_write env j) raw)))"
proof (induction env now i fc xs fresh sz out rule: compact_loop.induct)
  case (2 env now i fc n k ref xs fresh sz out)
  show ?case
  proof (cases "pread_all (ce_read env i) fc (cr_len ref) (cr_off ref)")
    case None
    then show ?thesis by (meson list.set_intros(1))
  next
    case (Some raw)
    note IH = "2.IH"(1) [OF Some] "2.IH"(2) [OF Some _ _ refl]
    obtain ok w where w: "write_all (ce_write env i) raw = (ok, w)" by fastforce
    show ?thesis
    proof (cases "expired (cold_decode raw) now \<or> ok")
      case True
      then have "\<exists>n k ref j. (n, k, ref) \<in> set xs \<and>
        (pread_all (ce_read env j) fc (cr_len ref) (cr_off ref) = None \<or>
         (\<exists>raw. length raw = cr_len ref \<and> \<not> fst (write_all (ce_write env j) raw)))"
        using "2.prems" Some w IH(1) IH(2) by (cases "expired (cold_decode raw) now") auto
      then show ?thesis by (meson list.set_intros(2))
    next
      case False
      then have "length raw = cr_len ref \<and> \<not> fst (write_all (ce_write env i) raw)"
        using w conjunct1 [OF pread_all_Some [OF Some]] by simp
      then show ?thesis by (meson list.set_intros(1))
    qed
  qed
qed simp

lemma compact_some:
  assumes ok: "cold_ok e" and run_c: "compact env now m e = (Some reclaimed, m', e')"
  shows "cold_ok e'" "cold_get e' n k = live now (cold_get e n k)"
    "obsolete_bytes e' = 0" "length (cold_file e') = file_bytes e'" "reclaimed + file_bytes e' = file_bytes e"
    "keys_in_ram m' = keys_in_ram m" "resident_bytes m' = resident_bytes m"
proof -
  obtain fresh sz out where run: "compact_loop env now 0 (cold_file e) (nitems (cold_index e)) [] 0 [] = Some (fresh, sz, out)"
    and e': "e' = e\<lparr>cold_fd := True, cold_file := out, cold_index := fresh, file_bytes := sz, obsolete_bytes := 0\<rparr>"
    and rec: "reclaimed = file_bytes e - sz" and m': "keys_in_ram m' = keys_in_ram m" "resident_bytes m' = resident_bytes m"
    using run_c by (auto simp: compact_def Let_def publish_metrics_def split: if_splits option.splits prod.splits)
  note whole = compact_loop_whole [OF ok run]
  show get: "cold_get e' n k = live now (cold_get e n k)" for n k
    using whole(4) by (simp add: cold_get_view e')
  have "rec_ok r" if "cold_get e' n k = Some r" for n k r
    using that ok unfolding get by (auto simp: cold_ok_def live_def split: option.splits if_splits)
  then show "cold_ok e'" using whole(1,2) by (auto simp: cold_ok_def idx_ok_def ref_ok_def e')
  show "obsolete_bytes e' = 0" "length (cold_file e') = file_bytes e'" "reclaimed + file_bytes e' = file_bytes e"
    "keys_in_ram m' = keys_in_ram m" "resident_bytes m' = resident_bytes m"
    using whole(2,3) rec m' by (simp_all add: e')
qed

lemma compact_none: "compact env now m e = (None, m', e') \<Longrightarrow> m' = m \<and> e' = e"
  by (auto simp: compact_def Let_def split: if_splits option.splits prod.splits)

section \<open>A concrete state\<close>

definition ex_rec :: "string \<Rightarrow> int \<Rightarrow> Record" where
  "ex_rec v ex = \<lparr>rec_value = v, expire_at = ex, timestamp_ms = 70000, node_id = 2\<rparr>"

definition ex_room :: Room where
  "ex_room = (new_room ''r'')\<lparr>room_keys := [(''a'', ex_rec ''xyz'' 0), (''b'', ex_rec ''w'' 9)], room_bytes := 214\<rparr>"

definition ex_cold :: eviction where
  "ex_cold = cold_append (cold_append (eviction_init True 1 0) ''r'' ''c'' (ex_rec ''old'' 5)) ''s'' ''a'' (ex_rec ''q'' 0)"

definition ex_env :: evict_env where
  "ex_env = \<lparr>ev_rand = (\<lambda>i j. i + j), ev_write = (\<lambda>i. [Ret 30])\<rparr>"

lemma cold_ok_init: "cold_ok (eviction_init b n mx)"
  by (simp add: cold_ok_def eviction_init_def cold_get_def nested_ok_def nsum_def nget_def inner_def)

lemma ex_cold_ok: "cold_ok ex_cold"
proof -
  have r: "rec_ok (ex_rec v 5)" "rec_ok (ex_rec v 0)" for v by (simp_all add: rec_ok_def ex_rec_def i64_def)
  have "cold_ok (cold_append (eviction_init True 1 0) ''r'' ''c'' (ex_rec ''old'' 5))"
    by (rule cold_ok_append [OF cold_ok_init r(1)]) (simp add: eviction_init_def nget_def inner_def)
  then show ?thesis unfolding ex_cold_def
    by (rule cold_ok_append [OF _ r(2)]) (simp add: cold_append_def eviction_init_def nget_def inner_def nput_def)
qed

lemma ex_tiers_ok: "tiers_ok ex_room ex_cold"
  using ex_cold_ok
  by (auto simp: tiers_ok_def room_ok_def keys_cost_def ex_room_def ex_rec_def new_room_def al_ok_def al_sum_def
      record_cost_def kRecordOverhead_def rec_ok_def i64_def ex_cold_def cold_append_def eviction_init_def nget_def inner_def nput_def
      split: if_splits)

section \<open>Properties\<close>

text \<open>
  C21. Eviction moves records from RAM to the cold file and loses nothing: whatever the random
  samples, short writes and failing writes, every key of the room is found with the very record
  it had (value, expiry, version), other rooms' cold keys are untouched, the byte and key
  counters stay exact, and no key is in both tiers.
\<close>

theorem evict_preserves:
  assumes "tiers_ok room e" and "evict_despised_keys env room m e = (room', m', e')"
  shows "stored room' e' = stored room e \<and> tiers_ok room' e' \<and> same_slack room m room' m' \<and>
    (\<forall>name key. name \<noteq> room_name room \<longrightarrow> cold_get e' name key = cold_get e name key)"
proof -
  obtain m1 where run: "evict_loop env 0 room m e = (room', m1, e')" and m': "m' = publish_metrics e' m1"
    using assms(2) by (auto simp: evict_despised_keys_def split: prod.splits)
  show ?thesis using evict_loop_keeps [OF assms(1) run] by (simp add: m' same_slack_def publish_metrics_def)
qed

theorem evict_preserves_witness:
  "case evict_despised_keys ex_env ex_room metrics_init ex_cold of (room', m', e') \<Rightarrow>
     stored room' e' = stored ex_room ex_cold \<and> tiers_ok room' e' \<and> cold_get e' ''s'' ''a'' = cold_get ex_cold ''s'' ''a''"
proof -
  obtain room' m' e' where run: "evict_despised_keys ex_env ex_room metrics_init ex_cold = (room', m', e')"
    by (metis prod_cases3)
  have "room_name ex_room = ''r''" by (simp add: ex_room_def new_room_def)
  then show ?thesis using evict_preserves [OF ex_tiers_ok run] by (simp add: run)
qed

text \<open>
  C27. Eviction does its job: with cold storage open, it stops with the room within both limits
  (keys per room, resident bytes) or with the room empty, unless a write to the cold file failed.
\<close>

theorem evict_reaches_limits:
  assumes "tiers_ok room e" and "cold_fd e" and "evict_despised_keys env room m e = (room', m', e')"
    and "\<And>j fc key r ofs. map_of (room_keys room) key = Some r \<Longrightarrow> fst (pwrite_all (ev_write env j) fc (cold_encode r) ofs)"
  shows "room_keys room' = [] \<or> (length (room_keys room') \<le> max_keys_per_room e \<and> fits e m' 0)"
proof -
  obtain m1 where run: "evict_loop env 0 room m e = (room', m1, e')" and m': "m' = publish_metrics e' m1"
    using assms(3) by (auto simp: evict_despised_keys_def split: prod.splits)
  have "\<not> over_limits room' m1 e'" using evict_loop_limits [OF assms(1) run _ assms(2)] assms(4) by blast
  then show ?thesis using evict_loop_keeps [OF assms(1) run]
    by (auto simp: over_limits_def fits_def m' publish_metrics_def)
qed

theorem evict_reaches_limits_witness:
  "case evict_despised_keys ex_env ex_room metrics_init ex_cold of (room', m', e') \<Rightarrow>
     room_keys room' = [] \<or> (length (room_keys room') \<le> 1 \<and> fits ex_cold m' 0)"
proof -
  obtain room' m' e' where run: "evict_despised_keys ex_env ex_room metrics_init ex_cold = (room', m', e')"
    by (metis prod_cases3)
  have fd: "cold_fd ex_cold" "max_keys_per_room ex_cold = 1"
    by (simp_all add: ex_cold_def cold_append_def eviction_init_def)
  have wr: "fst (pwrite_all (ev_write ex_env j) fc (cold_encode r) ofs)" if "map_of (room_keys ex_room) key = Some r" for j fc key r ofs
  proof -
    have "length (cold_encode r) \<le> 30"
      using that by (auto simp: ex_room_def ex_rec_def kHeader_def split: if_splits)
    then show ?thesis by (simp add: ex_env_def pwrite_all_def Let_def)
  qed
  show ?thesis using evict_reaches_limits [OF ex_tiers_ok fd(1) run wr] fd by (simp add: run)
qed

text \<open>
  Reloading a key from cold storage gives back exactly the record that is stored, removes
  that key and no other from cold storage, keeps the index consistent with the file, and
  accounts the freed region as obsolete; when the key is absent or the read fails nothing changes.
\<close>

theorem cold_take_exact:
  assumes "cold_ok e" and "cold_take rs name key m e = (res, m', e')"
  shows "case res of
      Some r \<Rightarrow> cold_get e name key = Some r \<and> rec_ok r \<and> cold_ok e' \<and>
        (\<forall>n k. cold_get e' n k = (if n = name \<and> k = key then None else cold_get e n k))
    | None \<Rightarrow> m' = m \<and> e' = e \<and>
        (\<forall>ref. nget (cold_index e) name key = Some ref \<longrightarrow> pread_all rs (cold_file e) (cr_len ref) (cr_off ref) = None)"
  using cold_take_cases [OF assms] by (auto split: option.splits)

theorem cold_take_exact_witness:
  "case cold_take [Ret 44] ''r'' ''c'' metrics_init ex_cold of (res, m', e') \<Rightarrow>
     res \<noteq> None \<and> res = cold_get ex_cold ''r'' ''c'' \<and> cold_ok e' \<and> cold_get e' ''r'' ''c'' = None \<and>
     cold_get e' ''s'' ''a'' = cold_get ex_cold ''s'' ''a''"
proof -
  obtain res m' e' where run: "cold_take [Ret 44] ''r'' ''c'' metrics_init ex_cold = (res, m', e')"
    by (metis prod_cases3)
  have ref: "nget (cold_index ex_cold) ''r'' ''c'' = Some (ColdRef 0 (kHeader + 3))"
    by (simp add: ex_cold_def cold_append_def eviction_init_def nget_def inner_def nput_def ex_rec_def)
  have "kHeader + 3 \<le> length (cold_file ex_cold)"
    by (simp add: ex_cold_def cold_append_def eviction_init_def ex_rec_def)
  then have "pread_all [Ret 44] (cold_file ex_cold) (kHeader + 3) 0 \<noteq> None"
    by (auto simp: pread_all_def Let_def kHeader_def)
  then show ?thesis using cold_take_exact [OF ex_cold_ok run] ref by (auto simp: run split: option.splits)
qed

text \<open>
  Compaction is exact: on success the rewritten file and index hold precisely the unexpired
  records, unchanged, no byte of the new file is obsolete, and the reported number is the shrinkage
  of the file; otherwise the old state stays in use, untouched, and an open, a rename, or the
  read or write of one of the indexed records failed.
\<close>

theorem compact_keeps_live:
  assumes "cold_ok e" and "compact env now m e = (res, m', e')"
  shows "case res of
      Some reclaimed \<Rightarrow> cold_ok e' \<and> (\<forall>n k. cold_get e' n k = live now (cold_get e n k)) \<and>
        obsolete_bytes e' = 0 \<and> length (cold_file e') = file_bytes e' \<and> reclaimed + file_bytes e' = file_bytes e
    | None \<Rightarrow> m' = m \<and> e' = e \<and> (\<not> ce_open env \<or> \<not> ce_rename env \<or>
        (\<exists>n k ref j. nget (cold_index e) n k = Some ref \<and>
          (pread_all (ce_read env j) (cold_file e) (cr_len ref) (cr_off ref) = None \<or>
           (\<exists>raw. length raw = cr_len ref \<and> \<not> fst (write_all (ce_write env j) raw)))))"
proof (cases res)
  case None
  have "nested_ok (cold_index e)" using assms(1) by (simp add: cold_ok_def)
  note fails = compact_loop_None [of env now 0 "cold_file e" "nitems (cold_index e)" "[]" 0 "[]", unfolded set_nitems [OF this]]
  from None have "m' = m \<and> e' = e \<and> (\<not> ce_open env \<or> \<not> ce_rename env \<or>
      compact_loop env now 0 (cold_file e) (nitems (cold_index e)) [] 0 [] = None)"
    using assms(2) by (auto simp: compact_def Let_def split: if_splits option.splits prod.splits)
  then show ?thesis using None fails by auto
next
  case (Some reclaimed)
  then show ?thesis using compact_some [OF assms(1)] assms(2) by simp
qed

theorem compact_keeps_live_witness:
  "case compact \<lparr>ce_open = True, ce_read = (\<lambda>_. [Ret 99]), ce_write = (\<lambda>_. [Ret 1, Ret 99]), ce_rename = True\<rparr> 6
       metrics_init ex_cold of (res, m', e') \<Rightarrow>
     (if res = None then e' = ex_cold
      else cold_ok e' \<and> cold_get e' ''r'' ''c'' = live 6 (cold_get ex_cold ''r'' ''c'') \<and>
           cold_get e' ''s'' ''a'' = live 6 (cold_get ex_cold ''s'' ''a''))"
proof -
  let ?env = "\<lparr>ce_open = True, ce_read = (\<lambda>_. [Ret 99]), ce_write = (\<lambda>_. [Ret 1, Ret 99]), ce_rename = True\<rparr>"
  obtain res m' e' where run: "compact ?env 6 metrics_init ex_cold = (res, m', e')"
    by (metis prod_cases3)
  show ?thesis unfolding run using compact_keeps_live [OF ex_cold_ok run] by (cases res) auto
qed

end
