(* ===== verification/Resp.thy ===== *)
theory Resp
  imports Fs_Util
begin

text \<open>
  The RESP parser of \<^verbatim>\<open>src/src/core/resp.h\<close>, shared by the network, the append-only file and
  replication, and the encoders that face it (\<^verbatim>\<open>Database::bulk_string\<close> and the replicator's
  \<^verbatim>\<open>encode\<close>). The parser reads from an offset of a buffer that may still grow.
\<close>

section \<open>The array parser\<close>

abbreviation CR :: char where "CR \<equiv> CHR 0x0D"
abbreviation LF :: char where "LF \<equiv> CHR 0x0A"
abbreviation CRLF :: string where "CRLF \<equiv> [CR, LF]"

datatype status = Complete nat "string list" | NeedMore | Malformed

definition kMaxArgs :: nat where "kMaxArgs = 1024 * 1024"
definition kMaxBulk :: nat where "kMaxBulk = 512 * 1024 * 1024"
definition kMaxHeader :: nat where "kMaxHeader = 32"

fun find_crlf :: "string \<Rightarrow> nat option" where
  "find_crlf (a # b # cs) = (if a = CR \<and> b = LF then Some 0 else map_option Suc (find_crlf (b # cs)))"
| "find_crlf cs = None"

text \<open>\<^verbatim>\<open>std::from_chars\<close> on a \<^verbatim>\<open>uint64_t\<close>: the longest run of digits, an error when it is empty or
  does not fit; the rest is handed back.\<close>

definition from_chars_u64 :: "string \<Rightarrow> (nat \<times> string) option" where
  "from_chars_u64 s =
     (let ds = takeWhile is_digit s in
      if ds = [] \<or> 2 ^ 64 \<le> dec_val 0 ds then None else Some (dec_val 0 ds, dropWhile is_digit s))"

datatype header_result = HOk nat nat | HNeedMore | HMalformed

definition header :: "string \<Rightarrow> nat \<Rightarrow> char \<Rightarrow> nat \<Rightarrow> header_result" where
  "header buf p prefix mx =
     (if p \<ge> length buf then HNeedMore
      else if buf ! p \<noteq> prefix then HMalformed
      else let window = take kMaxHeader (drop p buf) in
        case find_crlf window of
          None \<Rightarrow> if length window < kMaxHeader then HNeedMore else HMalformed
        | Some crlf \<Rightarrow>
            (case from_chars_u64 (take (crlf - 1) (drop 1 window)) of
               None \<Rightarrow> HMalformed
             | Some (v, rest) \<Rightarrow>
                 if rest \<noteq> [] \<or> v > mx then HMalformed else HOk v (p + crlf + 2)))"

fun parse_bulks :: "nat \<Rightarrow> string \<Rightarrow> nat \<Rightarrow> string list \<Rightarrow> status" where
  "parse_bulks 0 buf p args = Complete p args"
| "parse_bulks (Suc n) buf p args =
     (case header buf p (CHR ''$'') kMaxBulk of
        HNeedMore \<Rightarrow> NeedMore
      | HMalformed \<Rightarrow> Malformed
      | HOk len q \<Rightarrow>
          if length buf - q < len + 2 then NeedMore
          else if buf ! (q + len) \<noteq> CR \<or> buf ! (q + len + 1) \<noteq> LF then Malformed
          else parse_bulks n buf (q + len + 2) (args @ [take len (drop q buf)]))"

definition parse :: "string \<Rightarrow> nat \<Rightarrow> status" where
  "parse buf pos =
     (case header buf pos (CHR ''*'') kMaxArgs of
        HNeedMore \<Rightarrow> NeedMore
      | HMalformed \<Rightarrow> Malformed
      | HOk count p \<Rightarrow> parse_bulks count buf p [])"

section \<open>Encoders\<close>

definition bulk_string :: "string \<Rightarrow> string" where
  "bulk_string payload = CHR ''$'' # dec (length payload) @ CRLF @ payload @ CRLF"

definition resp_encode :: "string list \<Rightarrow> string" where
  "resp_encode args = CHR ''*'' # dec (length args) @ CRLF @ concat (map bulk_string args)"

section \<open>Inline commands\<close>

definition kMaxInline :: nat where "kMaxInline = 64 * 1024"

definition is_space :: "char \<Rightarrow> bool" where
  "is_space c \<longleftrightarrow> c = CHR '' '' \<or> (9 \<le> (of_char c :: nat) \<and> (of_char c :: nat) \<le> 13)"

definition hex_val :: "char \<Rightarrow> nat option" where
  "hex_val c =
     (let n = of_char c in
      if 48 \<le> n \<and> n \<le> 57 then Some (n - 48)
      else if 65 \<le> n \<and> n \<le> 70 then Some (n - 55)
      else if 97 \<le> n \<and> n \<le> 102 then Some (n - 87)
      else None)"

definition unescape :: "char \<Rightarrow> char" where
  "unescape c =
     (if c = CHR ''n'' then CHR 0x0A else if c = CHR ''r'' then CHR 0x0D
      else if c = CHR ''t'' then CHR 0x09 else if c = CHR ''b'' then CHR 0x08
      else if c = CHR ''a'' then CHR 0x07 else c)"

text \<open>
  One argument: the inner loop of \<^verbatim>\<open>split_inline\<close>, over the rest of the line. The quote in
  force is \<open>None\<close> outside quotes. The result is the argument and the rest of the line at the
  loop's exit, or \<open>None\<close> for unbalanced quotes.
\<close>

fun inline_arg :: "char option \<Rightarrow> string \<Rightarrow> string \<Rightarrow> (string \<times> string) option" where
  "inline_arg q arg [] = (if q = None then Some (arg, []) else None)"
| "inline_arg None arg (ch # cs) =
     (if is_space ch then Some (arg, ch # cs)
      else if ch = CHR 0x22 \<or> ch = CHR 0x27 then inline_arg (Some ch) arg cs
      else inline_arg None (arg @ [ch]) cs)"
| "inline_arg (Some q) arg (ch # cs) =
     (if ch = q then
        (if cs \<noteq> [] \<and> \<not> is_space (hd cs) then None else inline_arg None arg cs)
      else if ch = CHR 0x5C \<and> cs \<noteq> [] then
        (let nxt = hd cs; rest = tl cs in
         if q = CHR 0x27 then
           inline_arg (Some q) (arg @ (if nxt \<noteq> CHR 0x27 then [CHR 0x5C] else []) @ [nxt]) rest
         else if nxt = CHR ''x'' \<and> length rest \<ge> 2 \<and> hex_val (rest ! 0) \<noteq> None \<and> hex_val (rest ! 1) \<noteq> None then
           inline_arg (Some q)
             (arg @ [char_of (the (hex_val (rest ! 0)) * 16 + the (hex_val (rest ! 1)))]) (drop 2 rest)
         else inline_arg (Some q) (arg @ [unescape nxt]) rest)
      else inline_arg (Some q) (arg @ [ch]) cs)"

lemma inline_arg_rest: "inline_arg q arg cs = Some (a, rest) \<Longrightarrow> length rest \<le> length cs"
proof (induction q arg cs arbitrary: a rest rule: inline_arg.induct)
  case (1 q arg)
  then show ?case by (auto split: if_splits)
next
  case (2 arg ch cs)
  then show ?case by (auto split: if_splits intro: le_SucI)
next
  case (3 q arg ch cs)
  have tl: "length (tl cs) \<le> length cs" and drop: "length (drop 2 (tl cs)) \<le> length cs" by simp_all
  from 3 show ?case
    by (cases cs) (fastforce simp: Let_def split: if_splits)+
qed

lemma inline_arg_progress:
  assumes "cs \<noteq> []" and "\<not> is_space (hd cs)" and "inline_arg None [] cs = Some (a, rest)"
  shows "length rest < length cs"
proof -
  obtain ch cs' where cs: "cs = ch # cs'" using assms(1) by (cases cs) auto
  have "\<exists>q b. inline_arg q b cs' = Some (a, rest)"
    using assms(2,3) cs by (auto split: if_splits)
  then show ?thesis using inline_arg_rest cs by (fastforce simp: less_Suc_eq_le)
qed

function split_inline_loop :: "string list \<Rightarrow> string \<Rightarrow> string list option" where
  "split_inline_loop args line =
     (let cs = dropWhile is_space line in
      if cs = [] then Some args
      else case inline_arg None [] cs of
             None \<Rightarrow> None
           | Some (arg, rest) \<Rightarrow> split_inline_loop (args @ [arg]) rest)"
  by pat_completeness auto
termination
proof (relation "measure (\<lambda>(args, line). length line)")
  fix args :: "string list" and line cs :: string and p arg rest
  assume cs: "cs = dropWhile is_space line" and ne: "cs \<noteq> []"
    and arg: "inline_arg None [] cs = Some p" and p: "(arg, rest) = p"
  have "\<not> is_space (hd cs)" using cs ne hd_dropWhile by blast
  with ne arg p have "length rest < length cs" by (auto intro: inline_arg_progress)
  also have "length cs \<le> length line" by (simp add: cs length_dropWhile_le)
  finally show "((args @ [arg], rest), args, line) \<in> measure (\<lambda>(args, line). length line)" by simp
qed simp

declare split_inline_loop.simps [simp del]

definition split_inline :: "string \<Rightarrow> string list option" where
  "split_inline line = split_inline_loop [] line"

fun find_lf :: "string \<Rightarrow> nat option" where
  "find_lf [] = None"
| "find_lf (c # cs) = (if c = LF then Some 0 else map_option Suc (find_lf cs))"

definition parse_request :: "string \<Rightarrow> nat \<Rightarrow> status" where
  "parse_request buf pos =
     (if pos \<ge> length buf \<or> buf ! pos = CHR ''*'' then parse buf pos
      else let window = take kMaxInline (drop pos buf) in
        case find_lf window of
          None \<Rightarrow> if length window < kMaxInline then NeedMore else Malformed
        | Some nl \<Rightarrow>
            (let line = take nl window;
                 line' = (if line \<noteq> [] \<and> last line = CR then butlast line else line)
             in case split_inline line' of
                  None \<Rightarrow> Malformed
                | Some args \<Rightarrow> Complete (pos + nl + 1) args))"

section \<open>The parser on a growing buffer\<close>

lemma find_crlf_bound: "find_crlf w = Some c \<Longrightarrow> c + 2 \<le> length w"
  by (induction w arbitrary: c rule: find_crlf.induct) (auto split: if_splits)

lemma find_crlf_append: "find_crlf w = Some c \<Longrightarrow> find_crlf (w @ x) = Some c"
  by (induction w arbitrary: c rule: find_crlf.induct) (auto split: if_splits)

lemma find_crlf_found: "CR \<notin> set a \<Longrightarrow> find_crlf (a @ CRLF @ r) = Some (length a)"
proof (induction a)
  case (Cons x a)
  then show ?case by (cases a) auto
qed simp

lemma header_HOk:
  assumes "header buf p c mx = HOk v q"
  shows "p < q \<and> q \<le> length buf \<and> v \<le> mx"
proof -
  let ?w = "take kMaxHeader (drop p buf)"
  obtain crlf where crlf: "find_crlf ?w = Some crlf" and q: "q = p + crlf + 2" and v: "v \<le> mx"
    using assms by (auto simp: header_def Let_def split: if_splits option.splits prod.splits)
  have "crlf + 2 \<le> length ?w" using crlf by (rule find_crlf_bound)
  then have "crlf + 2 \<le> length buf - p" by simp
  then show ?thesis using q v by linarith
qed

definition header_window :: "string \<Rightarrow> nat \<Rightarrow> nat \<Rightarrow> header_result" where
  "header_window w p mx =
     (case find_crlf w of
        None \<Rightarrow> if length w < kMaxHeader then HNeedMore else HMalformed
      | Some crlf \<Rightarrow>
          (case from_chars_u64 (take (crlf - 1) (drop 1 w)) of
             None \<Rightarrow> HMalformed
           | Some (v, rest) \<Rightarrow> if rest \<noteq> [] \<or> v > mx then HMalformed else HOk v (p + crlf + 2)))"

lemma header_eq_window:
  "p < length buf \<Longrightarrow> buf ! p = c \<Longrightarrow> header buf p c mx = header_window (take kMaxHeader (drop p buf)) p mx"
  by (simp only: header_def header_window_def Let_def) simp

lemma header_window_append:
  assumes "find_crlf w = Some crlf"
  shows "header_window (w @ x) p mx = header_window w p mx"
proof -
  have "crlf + 2 \<le> length w" using assms by (rule find_crlf_bound)
  then have "take (crlf - 1) (drop 1 (w @ x)) = take (crlf - 1) (drop 1 w)" by simp
  then show ?thesis using assms find_crlf_append [OF assms, of x] by (simp only: header_window_def option.case)
qed

lemma header_stable:
  assumes "header buf p c mx = r" and "r \<noteq> HNeedMore"
  shows "header (buf @ ext) p c mx = r"
proof (cases "p < length buf \<and> buf ! p = c")
  case False
  then show ?thesis using assms by (auto simp: header_def nth_append split: if_splits)
next
  case True
  let ?w = "take kMaxHeader (drop p buf)"
  have w: "take kMaxHeader (drop p (buf @ ext)) = ?w @ take (kMaxHeader - (length buf - p)) ext"
    using True by simp
  have r: "header_window ?w p mx = r"
    using True assms(1) header_eq_window [of p buf c mx] by simp
  have "header (buf @ ext) p c mx = header_window (?w @ take (kMaxHeader - (length buf - p)) ext) p mx"
    unfolding w [symmetric] using True by (intro header_eq_window) (simp_all add: nth_append)
  also have "\<dots> = header_window ?w p mx"
  proof (cases "find_crlf ?w")
    case None
    then have "\<not> length ?w < kMaxHeader" using r assms(2) by (auto simp: header_window_def split: if_splits)
    then show ?thesis by simp
  next
    case (Some crlf)
    then show ?thesis by (rule header_window_append)
  qed
  finally show ?thesis using r by simp
qed

lemma parse_bulks_Complete:
  "parse_bulks n buf p args = Complete e out \<Longrightarrow> p \<le> length buf \<Longrightarrow>
    p \<le> e \<and> e \<le> length buf \<and>
    (\<exists>new. out = args @ new \<and> length new = n \<and> (\<forall>a \<in> set new. length a \<le> kMaxBulk))"
proof (induction n arbitrary: p args)
  case 0
  then show ?case by simp
next
  case (Suc n)
  obtain len q where h: "header buf p (CHR ''$'') kMaxBulk = HOk len q"
    and room: "\<not> length buf - q < len + 2"
    and rec: "parse_bulks n buf (q + len + 2) (args @ [take len (drop q buf)]) = Complete e out"
    using Suc.prems(1) by (auto split: header_result.splits if_splits)
  have q: "p < q" "q \<le> length buf" "len \<le> kMaxBulk" using header_HOk [OF h] by auto
  with room have "q + len + 2 \<le> length buf" by linarith
  from Suc.IH [OF rec this] obtain new where
    "q + len + 2 \<le> e" "e \<le> length buf" "out = (args @ [take len (drop q buf)]) @ new" "length new = n"
    "\<forall>a \<in> set new. length a \<le> kMaxBulk" by blast
  then show ?case
    using q by (intro conjI exI [of _ "take len (drop q buf) # new"]) auto
qed

lemma parse_bulks_stable:
  "parse_bulks n buf p args = r \<Longrightarrow> r \<noteq> NeedMore \<Longrightarrow> parse_bulks n (buf @ ext) p args = r"
proof (induction n arbitrary: p args)
  case 0
  then show ?case by simp
next
  case (Suc n)
  let ?h = "header buf p (CHR ''$'') kMaxBulk"
  have ne: "?h \<noteq> HNeedMore" using Suc.prems by auto
  have h: "header (buf @ ext) p (CHR ''$'') kMaxBulk = ?h"
    by (rule header_stable [OF refl ne])
  show ?case
  proof (cases ?h)
    case (HOk len q)
    have room: "\<not> length buf - q < len + 2" using Suc.prems HOk by auto
    have q: "q \<le> length buf" using header_HOk [OF HOk] by simp
    have nth: "(buf @ ext) ! (q + len) = buf ! (q + len)" "(buf @ ext) ! (q + len + 1) = buf ! (q + len + 1)"
    proof -
      have "q + len + 1 < length buf" using room q by linarith
      then show "(buf @ ext) ! (q + len) = buf ! (q + len)" "(buf @ ext) ! (q + len + 1) = buf ! (q + len + 1)"
        by (simp_all add: nth_append)
    qed
    have tk: "take len (drop q (buf @ ext)) = take len (drop q buf)" using room q by simp
    show ?thesis
    proof (cases "buf ! (q + len) \<noteq> CR \<or> buf ! (q + len + 1) \<noteq> LF")
      case True
      then show ?thesis using Suc.prems HOk h room nth q by auto
    next
      case False
      then have "parse_bulks n buf (q + len + 2) (args @ [take len (drop q buf)]) = r"
        using Suc.prems HOk room by auto
      then have "parse_bulks n (buf @ ext) (q + len + 2) (args @ [take len (drop q buf)]) = r"
        using Suc.prems(2) by (rule Suc.IH)
      then show ?thesis using False HOk h room nth q tk by auto
    qed
  qed (use Suc.prems h in auto)
qed

lemma parse_stable: "parse buf pos = r \<Longrightarrow> r \<noteq> NeedMore \<Longrightarrow> parse (buf @ ext) pos = r"
proof -
  assume r: "parse buf pos = r" "r \<noteq> NeedMore"
  let ?h = "header buf pos (CHR ''*'') kMaxArgs"
  have "?h \<noteq> HNeedMore" using r by (auto simp: parse_def)
  then have "header (buf @ ext) pos (CHR ''*'') kMaxArgs = ?h" by (rule header_stable [OF refl])
  then show ?thesis
    using r parse_bulks_stable by (auto simp: parse_def split: header_result.splits)
qed

lemma parse_Complete:
  assumes "parse buf pos = Complete e args"
  shows "pos < e \<and> e \<le> length buf \<and> length args \<le> kMaxArgs \<and> (\<forall>a \<in> set args. length a \<le> kMaxBulk)"
proof -
  obtain count p where h: "header buf pos (CHR ''*'') kMaxArgs = HOk count p"
    and b: "parse_bulks count buf p [] = Complete e args"
    using assms by (auto simp: parse_def split: header_result.splits)
  show ?thesis using header_HOk [OF h] parse_bulks_Complete [OF b] by auto
qed

section \<open>Encoding and parsing\<close>

lemma digits_not_CR [simp]: "CR \<notin> set (dec n)"
  using list_all_dec [of n] by (auto simp: list_all_iff is_digit_def)

lemma takeWhile_digits [simp]: "takeWhile is_digit (dec n) = dec n"
  using list_all_dec [of n] by (simp add: list_all_iff takeWhile_eq_all_conv)

lemma dropWhile_digits [simp]: "dropWhile is_digit (dec n) = []"
  using list_all_dec [of n] by (simp add: list_all_iff)

lemma header_number:
  assumes "drop p buf = c # dec n @ CRLF @ rest" and "c \<noteq> CR" and "n \<le> kMaxBulk"
  shows "header buf p c mx = (if n \<le> mx then HOk n (p + length (dec n) + 3) else HMalformed)"
proof -
  have p: "p < length buf" using assms(1) by (metis drop_eq_Nil2 list.distinct(1) not_less)
  have nth: "buf ! p = c" using assms(1) p by (metis hd_drop_conv_nth list.sel(1))
  have "n < 10 ^ 9" using assms(3) by (simp add: kMaxBulk_def)
  then have len: "length (dec n) \<le> 9" by (rule length_dec_le) simp
  have w: "take kMaxHeader (drop p buf) = (c # dec n) @ CRLF @ take (29 - length (dec n)) rest"
    using len assms(1) by (simp add: kMaxHeader_def take_Cons')
  have crlf: "find_crlf (take kMaxHeader (drop p buf)) = Some (length (c # dec n))"
    unfolding w by (rule find_crlf_found) (use assms(2) in auto)
  have "n < 2 ^ 64" using assms(3) by (simp add: kMaxBulk_def)
  then have num: "from_chars_u64 (take (length (c # dec n) - 1) (drop 1 (take kMaxHeader (drop p buf)))) = Some (n, [])"
    unfolding w by (simp add: from_chars_u64_def)
  show ?thesis
    using p nth crlf num by (simp add: header_def Let_def)
qed

lemma header_encoded:
  assumes "drop p buf = c # dec n @ CRLF @ rest" and "c \<noteq> CR" and "n \<le> mx" and "mx \<le> kMaxBulk"
  shows "header buf p c mx = HOk n (p + length (dec n) + 3)"
  using header_number [OF assms(1,2), of mx] assms(3,4) by simp

lemma kMax_bounds [simp]: "kMaxArgs \<le> kMaxBulk"
  by (simp add: kMaxArgs_def kMaxBulk_def)

lemma parse_bulks_encoded:
  "drop p buf = concat (map bulk_string args) @ rest \<Longrightarrow> \<forall>a \<in> set args. length a \<le> kMaxBulk \<Longrightarrow>
    parse_bulks (length args) buf p acc = Complete (p + length (concat (map bulk_string args))) (acc @ args)"
proof (induction args arbitrary: p acc)
  case Nil
  then show ?case by simp
next
  case (Cons a args)
  let ?q = "p + length (dec (length a)) + 3"
  let ?tail = "concat (map bulk_string args) @ rest"
  have d: "drop p buf = CHR ''$'' # dec (length a) @ CRLF @ (a @ CRLF @ ?tail)"
    using Cons.prems(1) by (simp add: bulk_string_def [of a])
  have h: "header buf p (CHR ''$'') kMaxBulk = HOk (length a) ?q"
    using Cons.prems(2) by (intro header_encoded [OF d]) auto
  have dq: "drop ?q buf = a @ CRLF @ ?tail"
  proof -
    have "drop ?q buf = drop (length (dec (length a)) + 3) (drop p buf)" by (simp add: add.commute add.left_commute)
    then show ?thesis using d by (simp add: numeral_3_eq_3)
  qed
  have len: "length buf - ?q = length a + 2 + length ?tail"
    using arg_cong [OF dq, of length] by simp
  have qb: "?q \<le> length buf" using len by simp
  have nth: "buf ! (?q + length a) = CR" "buf ! (?q + length a + 1) = LF"
    using dq len qb nth_drop [of ?q buf "length a"] nth_drop [of ?q buf "length a + 1"]
    by (simp_all add: nth_append)
  have "drop (?q + length a + 2) buf = drop (length a + 2) (drop ?q buf)" by (simp add: add.commute add.left_commute)
  then have dn: "drop (?q + length a + 2) buf = ?tail" using dq by simp
  have "parse_bulks (length (a # args)) buf p acc =
        parse_bulks (length args) buf (?q + length a + 2) (acc @ [take (length a) (drop ?q buf)])"
    using h len nth by simp
  also have "take (length a) (drop ?q buf) = a" using dq by simp
  also have "parse_bulks (length args) buf (?q + length a + 2) (acc @ [a]) =
      Complete (?q + length a + 2 + length (concat (map bulk_string args))) ((acc @ [a]) @ args)"
    using Cons.prems(2) by (intro Cons.IH [OF dn]) simp
  finally show ?case by (simp add: bulk_string_def [of a])
qed

lemma parse_encoded:
  assumes "length args \<le> kMaxArgs" and "\<forall>a \<in> set args. length a \<le> kMaxBulk"
  shows "parse (pre @ resp_encode args @ rest) (length pre) =
    Complete (length pre + length (resp_encode args)) args"
proof -
  let ?buf = "pre @ resp_encode args @ rest"
  let ?p = "length pre + length (dec (length args)) + 3"
  have h: "header ?buf (length pre) (CHR ''*'') kMaxArgs = HOk (length args) ?p"
    using assms(1) by (intro header_encoded [where rest = "concat (map bulk_string args) @ rest"])
      (simp_all add: resp_encode_def)
  have "drop ?p ?buf = drop (length (dec (length args)) + 3) (resp_encode args @ rest)"
    by simp
  also have "\<dots> = concat (map bulk_string args) @ rest"
    by (simp add: resp_encode_def numeral_3_eq_3)
  finally have "drop ?p ?buf = concat (map bulk_string args) @ rest" .
  then show ?thesis
    using h parse_bulks_encoded [OF _ assms(2), of ?p ?buf rest "[]"]
    by (simp add: parse_def resp_encode_def)
qed

lemma parse_encoded_prefix:
  assumes "length args \<le> kMaxArgs" and "\<forall>a \<in> set args. length a \<le> kMaxBulk"
    and "n < length (resp_encode args)"
  shows "parse (pre @ take n (resp_encode args)) (length pre) = NeedMore"
proof (rule ccontr)
  let ?cut = "pre @ take n (resp_encode args)"
  assume "parse ?cut (length pre) \<noteq> NeedMore"
  then have "parse (?cut @ drop n (resp_encode args)) (length pre) = parse ?cut (length pre)"
    by (rule parse_stable [OF refl])
  then have "parse ?cut (length pre) = Complete (length pre + length (resp_encode args)) args"
    using parse_encoded [OF assms(1,2), of pre "[]"] by simp
  from parse_Complete [OF this] show False using assms(3) by simp
qed

section \<open>Quoting arguments on an inline line\<close>

text \<open>
  The reference printer: an argument between double quotes, with the quote and the backslash
  escaped and every other byte as it is.
\<close>

lemma is_space_blank [simp]: "is_space (CHR '' '')" "\<not> is_space (CHR 0x22)"
  by (simp_all add: is_space_def)

definition quote_char :: "char \<Rightarrow> string" where
  "quote_char c = (if c = CHR 0x22 \<or> c = CHR 0x5C then [CHR 0x5C, c] else [c])"

definition quote_arg :: "string \<Rightarrow> string" where
  "quote_arg s = CHR 0x22 # concat (map quote_char s) @ [CHR 0x22]"

fun quote_args :: "string list \<Rightarrow> string" where
  "quote_args [] = []"
| "quote_args (a # as) = quote_arg a @ (if as = [] then [] else CHR '' '' # quote_args as)"

lemma unescape_quoted [simp]: "unescape (CHR 0x22) = CHR 0x22" "unescape (CHR 0x5C) = CHR 0x5C"
  by (simp_all add: unescape_def)

lemma inline_arg_quoted:
  "rest = [] \<or> is_space (hd rest) \<Longrightarrow>
    inline_arg (Some (CHR 0x22)) acc (concat (map quote_char s) @ CHR 0x22 # rest) = Some (acc @ s, rest)"
proof (induction s arbitrary: acc)
  case Nil
  then show ?case by (cases rest) auto
next
  case (Cons c s)
  show ?case
  proof (cases "c = CHR 0x22 \<or> c = CHR 0x5C")
    case True
    then show ?thesis
      using Cons.IH [OF Cons.prems, of "acc @ [c]"] by (auto simp: quote_char_def Let_def)
  next
    case False
    then show ?thesis
      using Cons.IH [OF Cons.prems, of "acc @ [c]"] by (auto simp: quote_char_def)
  qed
qed

lemma split_inline_loop_blank:
  "split_inline_loop acc (CHR '' '' # line) = split_inline_loop acc line"
  by (simp only: split_inline_loop.simps [of acc "CHR '' '' # line"] split_inline_loop.simps [of acc line]
      dropWhile.simps is_space_blank if_True)

lemma split_inline_loop_quoted:
  "split_inline_loop acc (quote_args args) = Some (acc @ args)"
proof (induction args arbitrary: acc)
  case Nil
  then show ?case by (subst split_inline_loop.simps) simp
next
  case (Cons a args)
  let ?rest = "if args = [] then [] else CHR '' '' # quote_args args"
  have rest: "?rest = [] \<or> is_space (hd ?rest)" by simp
  have arg: "inline_arg None [] (quote_args (a # args)) = Some (a, ?rest)"
    using inline_arg_quoted [OF rest, of "[]" a] by (simp add: quote_arg_def)
  have skip: "dropWhile is_space (quote_args (a # args)) = quote_args (a # args)"
    by (simp add: quote_arg_def)
  have step: "split_inline_loop acc (quote_args (a # args)) = split_inline_loop (acc @ [a]) ?rest"
    by (subst split_inline_loop.simps) (simp only: skip arg Let_def, simp add: quote_arg_def)
  have "split_inline_loop (acc @ [a]) ?rest = split_inline_loop (acc @ [a]) (quote_args args)"
    by (simp add: split_inline_loop_blank)
  with step Cons.IH [of "acc @ [a]"] show ?case by simp
qed

lemma parse_request_Complete:
  assumes "parse_request buf pos = Complete e args"
  shows "pos < e \<and> e \<le> length buf"
proof (cases "pos \<ge> length buf \<or> buf ! pos = CHR ''*''")
  case True
  then show ?thesis using assms parse_Complete by (simp add: parse_request_def)
next
  case False
  have find_lf_bound: "find_lf w = Some n \<Longrightarrow> n < length w" for w n
    by (induction w arbitrary: n) (auto split: if_splits)
  from False assms obtain nl where "find_lf (take kMaxInline (drop pos buf)) = Some nl" and "e = pos + nl + 1"
    by (auto simp: parse_request_def Let_def split: option.splits if_splits)
  then show ?thesis using find_lf_bound by fastforce
qed

section \<open>Properties\<close>

text \<open>
  C30. Encoding and parsing round trip: whatever stands before and after it in the buffer, an
  encoded command of admissible size is parsed back to its arguments, the parser stops right
  behind it, and cut anywhere before its end it makes the parser wait for more bytes.
\<close>

theorem parse_encode_roundtrip:
  assumes "length args \<le> kMaxArgs" and "\<forall>a \<in> set args. length a \<le> kMaxBulk"
  shows "parse (pre @ resp_encode args @ rest) (length pre) =
      Complete (length pre + length (resp_encode args)) args \<and>
    (\<forall>n < length (resp_encode args). parse (pre @ take n (resp_encode args)) (length pre) = NeedMore)"
  using parse_encoded [OF assms] parse_encoded_prefix [OF assms] by blast

theorem parse_encode_roundtrip_witness:
  "parse (resp_encode [''GET'', ''k'']) 0 = Complete (length (resp_encode [''GET'', ''k''])) [''GET'', ''k''] \<and>
   parse (take 4 (resp_encode [''GET'', ''k''])) 0 = NeedMore"
proof -
  have "4 < length (resp_encode [''GET'', ''k''])"
    by (simp add: resp_encode_def bulk_string_def)
  then show ?thesis
    using parse_encode_roundtrip [of "[''GET'', ''k'']" "[]" "[]"]
    by (simp add: kMaxArgs_def kMaxBulk_def)
qed

text \<open>
  A verdict is final and bounded. Once the parser answers Complete or Malformed, no bytes
  that arrive later change the answer; a complete command ends inside the buffer, strictly
  behind its start, and respects the limits on the number and the size of arguments.
\<close>

theorem parse_verdict_final:
  "(parse buf pos \<noteq> NeedMore \<longrightarrow> parse (buf @ more) pos = parse buf pos) \<and>
   (\<forall>e args. parse buf pos = Complete e args \<longrightarrow>
      pos < e \<and> e \<le> length buf \<and> length args \<le> kMaxArgs \<and> (\<forall>a \<in> set args. length a \<le> kMaxBulk))"
  using parse_stable [OF refl] parse_Complete by blast

theorem parse_verdict_final_witness:
  "parse ''+OK'' 0 = Malformed \<and> parse (''+OK'' @ ''*1'') 0 = Malformed"
proof -
  have "parse ''+OK'' 0 = Malformed" by (simp add: parse_def header_def)
  then show ?thesis using parse_verdict_final [of "''+OK''" 0 "''*1''"] by simp
qed

text \<open>
  Every argument list can be sent inline: quoted argument by argument and joined with
  spaces, it is split back into exactly the same arguments, whatever bytes they hold.
\<close>

theorem split_inline_roundtrip: "split_inline (quote_args args) = Some args"
  using split_inline_loop_quoted [of "[]" args] by (simp add: split_inline_def)

end
