(* ===== verification/Pubsub.thy ===== *)
theory Pubsub
  imports Resp
begin

text \<open>
  Publish/subscribe, \<^verbatim>\<open>src/src/core/pubsub.h\<close> and \<^verbatim>\<open>pubsub.cpp\<close>: two mirrored indexes, from
  channels to subscribers and from clients to channels. An unordered set is a list without
  duplicates whose order carries no meaning. Delivery goes through the message sink, so
  \<open>publish\<close> returns the deliveries in order together with the reply.
\<close>

section \<open>State\<close>

type_synonym ('a, 'b) multi = "('a \<times> 'b list) list"

record pubsub =
  channel_subscribers :: "(string, int) multi"
  client_subscriptions :: "(int, string) multi"
  message_sink :: bool

definition pubsub_init :: pubsub where
  "pubsub_init = \<lparr>channel_subscribers = [], client_subscriptions = [], message_sink = False\<rparr>"

definition set_message_sink :: "pubsub \<Rightarrow> pubsub" where
  "set_message_sink p = p\<lparr>message_sink := True\<rparr>"

text \<open>\<^verbatim>\<open>m[k]\<close>, \<^verbatim>\<open>m[k].insert(x)\<close>, and erasing an element together with an entry left empty.\<close>

definition mget :: "('a, 'b) multi \<Rightarrow> 'a \<Rightarrow> 'b list" where
  "mget m k = (case map_of m k of Some xs \<Rightarrow> xs | None \<Rightarrow> [])"

definition madd :: "('a, 'b) multi \<Rightarrow> 'a \<Rightarrow> 'b \<Rightarrow> ('a, 'b) multi" where
  "madd m k x = AList.update k (List.insert x (mget m k)) m"

definition mdel :: "('a, 'b) multi \<Rightarrow> 'a \<Rightarrow> 'b \<Rightarrow> ('a, 'b) multi" where
  "mdel m k x =
     (case map_of m k of
        None \<Rightarrow> m
      | Some xs \<Rightarrow> if removeAll x xs = [] then AList.delete k m else AList.update k (removeAll x xs) m)"

section \<open>Operations\<close>

definition array3 :: "bool \<Rightarrow> string" where
  "array3 resp3 = (if resp3 then ''>3'' else ''*3'') @ CRLF"

definition subscribe :: "int \<Rightarrow> string \<Rightarrow> bool \<Rightarrow> pubsub \<Rightarrow> string \<times> pubsub" where
  "subscribe client_fd channel resp3 p =
     (let p' = p\<lparr>channel_subscribers := madd (channel_subscribers p) channel client_fd,
                 client_subscriptions := madd (client_subscriptions p) client_fd channel\<rparr>;
          sub_count = length (mget (client_subscriptions p') client_fd)
      in (array3 resp3 @ ''$9'' @ CRLF @ ''subscribe'' @ CRLF @
            ''$'' @ dec (length channel) @ CRLF @ channel @ CRLF @ '':'' @ dec sub_count @ CRLF, p'))"

definition message_push :: "string \<Rightarrow> string \<Rightarrow> string" where
  "message_push channel message =
     ''*3'' @ CRLF @ ''$7'' @ CRLF @ ''message'' @ CRLF @
     ''$'' @ dec (length channel) @ CRLF @ channel @ CRLF @
     ''$'' @ dec (length message) @ CRLF @ message @ CRLF"

definition publish :: "string \<Rightarrow> string \<Rightarrow> pubsub \<Rightarrow> string \<times> (int \<times> string) list" where
  "publish channel message p =
     (let targets = mget (channel_subscribers p) channel in
      ('':'' @ dec (length targets) @ CRLF,
       if targets \<noteq> [] \<and> message_sink p then map (\<lambda>fd. (fd, message_push channel message)) targets else []))"

fun unsubscribe_loop :: "int \<Rightarrow> string \<Rightarrow> string list \<Rightarrow> (string, int) multi \<Rightarrow> string list option \<Rightarrow>
    (string, int) multi \<times> string list option \<times> string" where
  "unsubscribe_loop client_fd hdr [] chans mine = (chans, mine, [])"
| "unsubscribe_loop client_fd hdr (channel # channels) chans mine =
     (let chans' = mdel chans channel client_fd;
          mine' = map_option (removeAll channel) mine;
          remaining = (case mine' of Some xs \<Rightarrow> length xs | None \<Rightarrow> 0);
          (c, m, replies) = unsubscribe_loop client_fd hdr channels chans' mine'
      in (c, m, (hdr @ ''$'' @ dec (length channel) @ CRLF @ channel @ CRLF @ '':'' @ dec remaining @ CRLF) @ replies))"

definition unsubscribe :: "int \<Rightarrow> string list \<Rightarrow> bool \<Rightarrow> pubsub \<Rightarrow> string \<times> pubsub" where
  "unsubscribe client_fd channels resp3 p =
     (let mine = map_of (client_subscriptions p) client_fd;
          channels' = (if channels = [] then (case mine of Some xs \<Rightarrow> xs | None \<Rightarrow> []) else channels);
          hdr = array3 resp3 @ ''$11'' @ CRLF @ ''unsubscribe'' @ CRLF
      in if channels' = [] then (hdr @ (if resp3 then ''_'' @ CRLF else ''$-1'' @ CRLF) @ '':0'' @ CRLF, p)
         else
           (let (chans, mine', replies) = unsubscribe_loop client_fd hdr channels' (channel_subscribers p) mine;
                clients = (case mine' of
                             None \<Rightarrow> client_subscriptions p
                           | Some xs \<Rightarrow> if xs = [] then AList.delete client_fd (client_subscriptions p)
                                       else AList.update client_fd xs (client_subscriptions p))
            in (replies, p\<lparr>channel_subscribers := chans, client_subscriptions := clients\<rparr>)))"

definition remove_client :: "int \<Rightarrow> pubsub \<Rightarrow> pubsub" where
  "remove_client client_fd p =
     (case map_of (client_subscriptions p) client_fd of
        None \<Rightarrow> p
      | Some channels \<Rightarrow>
          p\<lparr>channel_subscribers := foldl (\<lambda>m channel. mdel m channel client_fd) (channel_subscribers p) channels,
            client_subscriptions := AList.delete client_fd (client_subscriptions p)\<rparr>)"

definition is_subscribed :: "int \<Rightarrow> pubsub \<Rightarrow> bool" where
  "is_subscribed client_fd p \<longleftrightarrow> map_of (client_subscriptions p) client_fd \<noteq> None"

section \<open>Multimaps\<close>

definition multi_ok :: "('a, 'b) multi \<Rightarrow> bool" where
  "multi_ok m \<longleftrightarrow> al_ok m \<and> (\<forall>k xs. map_of m k = Some xs \<longrightarrow> xs \<noteq> [] \<and> distinct xs)"

lemma mget_update [simp]: "mget (AList.update k xs m) k' = (if k' = k then xs else mget m k')"
  by (simp add: mget_def update_conv)

lemma mget_delete [simp]: "mget (AList.delete k m) k' = (if k' = k then [] else mget m k')"
  by (simp add: mget_def delete_conv)

lemma mget_madd [simp]: "mget (madd m k x) k' = (if k' = k then List.insert x (mget m k) else mget m k')"
  by (simp add: madd_def)

lemma mget_mdel [simp]: "mget (mdel m k x) k' = (if k' = k then removeAll x (mget m k) else mget m k')"
  by (auto simp: mdel_def mget_def update_conv delete_conv split: option.splits)

lemma mget_mdels [simp]:
  "mget (foldl (\<lambda>m k. mdel m k x) m ks) k' = (if k' \<in> set ks then removeAll x (mget m k') else mget m k')"
  by (induction ks arbitrary: m) auto

lemma distinct_mget: "multi_ok m \<Longrightarrow> distinct (mget m k)"
  by (auto simp: multi_ok_def mget_def split: option.splits)

lemma mget_Nil_iff: "multi_ok m \<Longrightarrow> mget m k = [] \<longleftrightarrow> map_of m k = None"
  by (auto simp: multi_ok_def mget_def split: option.splits)

lemma multi_ok_update: "multi_ok m \<Longrightarrow> xs \<noteq> [] \<Longrightarrow> distinct xs \<Longrightarrow> multi_ok (AList.update k xs m)"
  by (auto simp: multi_ok_def update_conv split: if_splits)

lemma multi_ok_delete: "multi_ok m \<Longrightarrow> multi_ok (AList.delete k m)"
  by (auto simp: multi_ok_def delete_conv split: if_splits)

lemma list_insert_nonempty [simp]: "List.insert x xs \<noteq> []"
  by (auto simp: List.insert_def)

lemma multi_ok_madd: "multi_ok m \<Longrightarrow> multi_ok (madd m k x)"
  by (simp add: madd_def multi_ok_update distinct_mget)

lemma multi_ok_mdel: "multi_ok m \<Longrightarrow> multi_ok (mdel m k x)"
  by (auto simp: mdel_def multi_ok_update multi_ok_delete distinct_removeAll multi_ok_def update_conv delete_conv
      split: option.splits if_splits)

lemma multi_ok_mdels: "multi_ok m \<Longrightarrow> multi_ok (foldl (\<lambda>m k. mdel m k x) m ks)"
  by (induction ks arbitrary: m) (auto simp: multi_ok_mdel)

section \<open>The subscription relation\<close>

definition subs :: "pubsub \<Rightarrow> (int \<times> string) set" where
  "subs p = {(fd, ch). ch \<in> set (mget (client_subscriptions p) fd)}"

definition pubsub_ok :: "pubsub \<Rightarrow> bool" where
  "pubsub_ok p \<longleftrightarrow>
     multi_ok (channel_subscribers p) \<and> multi_ok (client_subscriptions p) \<and>
     (\<forall>fd ch. fd \<in> set (mget (channel_subscribers p) ch) \<longleftrightarrow> ch \<in> set (mget (client_subscriptions p) fd))"

lemma pubsub_okD:
  assumes "pubsub_ok p"
  shows "multi_ok (channel_subscribers p)" "multi_ok (client_subscriptions p)"
    "set (mget (channel_subscribers p) ch) = {fd. (fd, ch) \<in> subs p}"
  using assms by (auto simp: pubsub_ok_def subs_def)

lemma pubsub_ok_init: "pubsub_ok pubsub_init"
  by (simp add: pubsub_ok_def pubsub_init_def multi_ok_def mget_def)

lemma subscribe_refines:
  assumes "pubsub_ok p"
  shows "pubsub_ok (snd (subscribe fd ch r p))" "subs (snd (subscribe fd ch r p)) = insert (fd, ch) (subs p)"
  using assms by (auto simp: pubsub_ok_def subs_def subscribe_def multi_ok_madd split: if_splits)

lemma unsubscribe_loop_eq:
  "unsubscribe_loop fd h chs chans mine = (c, m, replies) \<Longrightarrow>
    c = foldl (\<lambda>m k. mdel m k fd) chans chs \<and> m = map_option (filter (\<lambda>x. x \<notin> set chs)) mine"
proof (induction chs arbitrary: chans mine c m replies)
  case Nil
  then show ?case by (cases mine) auto
next
  case (Cons ch chs)
  obtain c1 m1 r1 where
    rec: "unsubscribe_loop fd h chs (mdel chans ch fd) (map_option (removeAll ch) mine) = (c1, m1, r1)"
    by (metis prod_cases3)
  then show ?case using Cons.prems Cons.IH [OF rec]
    by (auto simp: Let_def option.map_comp comp_def removeAll_filter_not_eq intro!: filter_cong map_option_cong)
qed

lemma remove_client_refines:
  assumes "pubsub_ok p"
  shows "pubsub_ok (remove_client fd p)" "subs (remove_client fd p) = {(f, c) \<in> subs p. f \<noteq> fd}"
proof -
  have "pubsub_ok (remove_client fd p) \<and> subs (remove_client fd p) = {(f, c) \<in> subs p. f \<noteq> fd}"
  proof (cases "map_of (client_subscriptions p) fd")
    case None
    then have "mget (client_subscriptions p) fd = []" by (simp add: mget_def)
    then show ?thesis using None assms by (auto simp: remove_client_def subs_def)
  next
    case (Some channels)
    then have "channels = mget (client_subscriptions p) fd" by (simp add: mget_def)
    then show ?thesis using Some assms
      by (auto simp: remove_client_def pubsub_ok_def subs_def multi_ok_mdels multi_ok_delete split: if_splits)
  qed
  then show "pubsub_ok (remove_client fd p)" "subs (remove_client fd p) = {(f, c) \<in> subs p. f \<noteq> fd}" by auto
qed

text \<open>An empty channel list stands for all channels of the client.\<close>

lemma unsubscribe_refines:
  assumes ok: "pubsub_ok p"
  shows "pubsub_ok (snd (unsubscribe fd chs r p))"
    "subs (snd (unsubscribe fd chs r p)) = {(f, c) \<in> subs p. \<not> (f = fd \<and> (chs = [] \<or> c \<in> set chs))}"
proof -
  define mine where "mine = map_of (client_subscriptions p) fd"
  define chs' where "chs' = (if chs = [] then mget (client_subscriptions p) fd else chs)"
  have chs'_alt: "chs' = (if chs = [] then (case mine of Some xs \<Rightarrow> xs | None \<Rightarrow> []) else chs)"
    by (simp add: chs'_def mine_def mget_def)
  have gone: "{(f, c) \<in> subs p. \<not> (f = fd \<and> c \<in> set chs')} = {(f, c) \<in> subs p. \<not> (f = fd \<and> (chs = [] \<or> c \<in> set chs))}"
    by (auto simp: chs'_def subs_def)
  let ?p' = "snd (unsubscribe fd chs r p)"
  have "pubsub_ok ?p' \<and> subs ?p' = {(f, c) \<in> subs p. \<not> (f = fd \<and> c \<in> set chs')}"
  proof (cases "chs' = []")
    case True
    then have "?p' = p" by (simp add: unsubscribe_def Let_def mine_def [symmetric] chs'_alt [symmetric])
    then show ?thesis using ok True by auto
  next
    case False
    let ?h = "array3 r @ ''$11'' @ CRLF @ ''unsubscribe'' @ CRLF"
    obtain chans mine' replies where
      run: "unsubscribe_loop fd ?h chs' (channel_subscribers p) mine = (chans, mine', replies)"
      by (metis prod_cases3)
    note eqs = unsubscribe_loop_eq [OF run]
    let ?keep = "filter (\<lambda>x. x \<notin> set chs') (mget (client_subscriptions p) fd)"
    have p': "channel_subscribers ?p' = chans" "client_subscriptions ?p' = (case mine' of
          None \<Rightarrow> client_subscriptions p
        | Some xs \<Rightarrow> if xs = [] then AList.delete fd (client_subscriptions p)
                    else AList.update fd xs (client_subscriptions p))"
      using False run
      by (simp_all add: unsubscribe_def Let_def mine_def [symmetric] chs'_alt [symmetric] del: append.simps)
    have cl: "mget (client_subscriptions ?p') f = (if f = fd then ?keep else mget (client_subscriptions p) f)" for f
      using eqs by (auto simp: p'(2) mine_def mget_def update_conv delete_conv split: option.splits)
    have "multi_ok (client_subscriptions ?p')"
      using pubsub_okD(2) [OF ok] eqs
      by (auto simp: p'(2) mine_def multi_ok_update multi_ok_delete split: option.splits)
        (auto simp: multi_ok_def update_conv delete_conv split: if_splits)
    moreover have "multi_ok (channel_subscribers ?p')"
      using pubsub_okD(1) [OF ok] eqs by (simp add: p'(1) multi_ok_mdels)
    ultimately show ?thesis using ok eqs by (auto simp: pubsub_ok_def subs_def cl p'(1) split: if_splits)
  qed
  then show "pubsub_ok ?p'" "subs ?p' = {(f, c) \<in> subs p. \<not> (f = fd \<and> (chs = [] \<or> c \<in> set chs))}"
    using gone by auto
qed

section \<open>The service as its clients see it\<close>

text \<open>
  The event loop and the dispatcher use the manager through these operations. The contract is
  a relation between clients and channels; what a published message reaches is read off it.
\<close>

datatype ps_op = Sub int string | Unsub int "string list" | Gone int

fun rel_step :: "(int \<times> string) set \<Rightarrow> ps_op \<Rightarrow> (int \<times> string) set" where
  "rel_step R (Sub fd ch) = insert (fd, ch) R"
| "rel_step R (Unsub fd chs) = {(f, c) \<in> R. \<not> (f = fd \<and> (chs = [] \<or> c \<in> set chs))}"
| "rel_step R (Gone fd) = {(f, c) \<in> R. f \<noteq> fd}"

fun subscribes :: "int \<Rightarrow> ps_op \<Rightarrow> bool" where
  "subscribes fd (Sub f ch) \<longleftrightarrow> f = fd"
| "subscribes fd _ \<longleftrightarrow> False"

locale pubsub_service =
  fixes inv :: "'s \<Rightarrow> bool" and rel :: "'s \<Rightarrow> (int \<times> string) set"
    and step :: "'s \<Rightarrow> ps_op \<Rightarrow> 's" and targets :: "string \<Rightarrow> 's \<Rightarrow> int list"
  assumes step_inv: "inv s \<Longrightarrow> inv (step s a)"
    and step_rel: "inv s \<Longrightarrow> rel (step s a) = rel_step (rel s) a"
    and targets_set: "inv s \<Longrightarrow> set (targets ch s) = {fd. (fd, ch) \<in> rel s}"
    and targets_distinct: "inv s \<Longrightarrow> distinct (targets ch s)"
begin

lemma run_refines: "inv s \<Longrightarrow> inv (foldl step s acts) \<and> rel (foldl step s acts) = foldl rel_step (rel s) acts"
  by (induction acts arbitrary: s) (auto simp: step_inv step_rel)

lemma card_targets: "inv s \<Longrightarrow> length (targets ch s) = card {fd. (fd, ch) \<in> rel s}"
  using targets_set [of s ch] targets_distinct [of s ch] by (metis distinct_card)

lemma rel_quiet:
  "\<forall>a \<in> set acts. \<not> subscribes fd a \<Longrightarrow> (fd, ch) \<notin> R \<Longrightarrow> (fd, ch) \<notin> foldl rel_step R acts"
proof (induction acts arbitrary: R)
  case (Cons a acts)
  have "(fd, ch) \<notin> rel_step R a" using Cons.prems by (cases a) auto
  then show ?case using Cons by simp
qed simp

lemma gone_stays_gone:
  assumes "inv s" and "\<forall>a \<in> set acts. \<not> subscribes fd a"
  shows "fd \<notin> set (targets ch (foldl step s (Gone fd # acts)))"
proof -
  note run = run_refines [OF assms(1), of "Gone fd # acts"]
  have "(fd, ch) \<notin> foldl rel_step (rel_step (rel s) (Gone fd)) acts" by (rule rel_quiet [OF assms(2)]) simp
  then show ?thesis using run targets_set [of "foldl step s (Gone fd # acts)" ch] by simp
qed

end

fun ps_run :: "pubsub \<Rightarrow> ps_op \<Rightarrow> pubsub" where
  "ps_run p (Sub fd ch) = snd (subscribe fd ch False p)"
| "ps_run p (Unsub fd chs) = snd (unsubscribe fd chs False p)"
| "ps_run p (Gone fd) = remove_client fd p"

interpretation ps: pubsub_service pubsub_ok subs ps_run "\<lambda>ch p. mget (channel_subscribers p) ch"
proof unfold_locales
  fix s a ch assume ok: "pubsub_ok s"
  show "pubsub_ok (ps_run s a)"
    using ok by (cases a) (simp_all add: subscribe_refines unsubscribe_refines remove_client_refines)
  show "subs (ps_run s a) = rel_step (subs s) a"
    using ok by (cases a) (simp_all add: subscribe_refines unsubscribe_refines remove_client_refines)
  show "set (mget (channel_subscribers s) ch) = {fd. (fd, ch) \<in> subs s}" by (rule pubsub_okD(3) [OF ok])
  show "distinct (mget (channel_subscribers s) ch)" by (rule distinct_mget [OF pubsub_okD(1) [OF ok]])
qed

section \<open>Properties\<close>

lemma sink_kept: "message_sink (foldl ps_run p acts) = message_sink p"
proof (induction acts arbitrary: p)
  case (Cons a acts)
  have "message_sink (ps_run p a) = message_sink p"
    by (cases a) (auto simp: subscribe_def unsubscribe_def remove_client_def Let_def split: prod.splits option.splits)
  then show ?case using Cons by simp
qed simp

lemma pubsub_start: "pubsub_ok (set_message_sink pubsub_init)" "subs (set_message_sink pubsub_init) = {}"
  by (simp_all add: pubsub_ok_def set_message_sink_def pubsub_init_def multi_ok_def mget_def subs_def)

text \<open>
  The two indexes implement one subscription relation. After any sequence of subscribes,
  unsubscribes (with or without channels) and disconnects the indexes mirror each other, hold no
  empty entry, and stand for the relation the sequence denotes; a client is in subscribe mode
  exactly when it still has a channel.
\<close>

theorem pubsub_refines_relation:
  "let p = foldl ps_run (set_message_sink pubsub_init) acts in
     pubsub_ok p \<and> subs p = foldl rel_step {} acts \<and> (is_subscribed fd p \<longleftrightarrow> (\<exists>ch. (fd, ch) \<in> subs p))"
proof -
  define p where "p = foldl ps_run (set_message_sink pubsub_init) acts"
  have ok: "pubsub_ok p" "subs p = foldl rel_step {} acts"
    using ps.run_refines [OF pubsub_start(1), of acts] pubsub_start(2) by (simp_all add: p_def)
  have "is_subscribed fd p \<longleftrightarrow> mget (client_subscriptions p) fd \<noteq> []"
    using mget_Nil_iff [OF pubsub_okD(2) [OF ok(1)]] by (simp add: is_subscribed_def)
  also have "\<dots> \<longleftrightarrow> (\<exists>ch. (fd, ch) \<in> subs p)"
    by (cases "mget (client_subscriptions p) fd") (auto simp: subs_def)
  finally show ?thesis using ok by (simp add: p_def)
qed

text \<open>
  C28. A published message goes exactly once to every subscriber of the channel and to nobody
  else, and the reply is the number of subscribers.
\<close>

theorem publish_exact:
  "let p = foldl ps_run (set_message_sink pubsub_init) acts; (reply, out) = publish ch msg p;
       targets = {fd. (fd, ch) \<in> foldl rel_step {} acts} in
     distinct (map fst out) \<and> set out = targets \<times> {message_push ch msg} \<and>
     reply = '':'' @ dec (card targets) @ CRLF"
proof -
  define p where "p = foldl ps_run (set_message_sink pubsub_init) acts"
  have ok: "pubsub_ok p" "subs p = foldl rel_step {} acts"
    using ps.run_refines [OF pubsub_start(1), of acts] pubsub_start(2) by (simp_all add: p_def)
  have sink: "message_sink p" by (simp add: p_def sink_kept) (simp add: set_message_sink_def)
  show ?thesis
    using ps.targets_set [OF ok(1), of ch] ps.targets_distinct [OF ok(1), of ch] ps.card_targets [OF ok(1), of ch]
    by (auto simp: publish_def Let_def sink ok(2) comp_def p_def [symmetric])
qed

text \<open>
  After a client has disconnected nothing is delivered to its descriptor, whatever the
  other clients do, until a client on that descriptor subscribes again.
\<close>

theorem publish_not_to_gone:
  assumes "\<forall>a \<in> set later. \<not> subscribes fd a"
  shows "fd \<notin> fst ` set (snd (publish ch msg (foldl ps_run (set_message_sink pubsub_init) (acts @ Gone fd # later))))"
proof -
  let ?p = "foldl ps_run (set_message_sink pubsub_init) acts"
  have "pubsub_ok ?p" using ps.run_refines [OF pubsub_start(1)] by blast
  note gone = ps.gone_stays_gone [OF this assms, of ch]
  have "foldl ps_run (set_message_sink pubsub_init) (acts @ Gone fd # later) = foldl ps_run ?p (Gone fd # later)"
    by simp
  then show ?thesis using gone unfolding publish_def Let_def by (auto split: if_splits)
qed

theorem publish_not_to_gone_witness:
  "7 \<notin> fst ` set (snd (publish ''news'' ''hi''
      (foldl ps_run (set_message_sink pubsub_init) ([Sub 7 ''news'', Sub 8 ''news''] @ Gone 7 # [Unsub 8 []]))))"
  by (rule publish_not_to_gone) simp

end
