(* ===== verification/Codec.thy ===== *)
theory Codec
  imports Prelude "HOL-Library.Monad_Syntax"
begin

text \<open>
  Binary decoding by consumption: \<open>read_n\<close> is the bounds-checked \<^verbatim>\<open>need\<close>/\<^verbatim>\<open>read_bytes\<close> pair of
  \<^verbatim>\<open>src/src/storage/snapshot_manager.cpp\<close>, with the unread suffix in place of an offset.
  The locale \<open>self_delimiting\<close> is the contract of a record format: what was encoded is decoded,
  and a decoder's answer does not depend on the bytes behind the record. From it follow, once and
  for all, that a sequence of records is read back and that a truncated sequence is rejected.
\<close>

definition read_n :: "nat \<Rightarrow> string \<Rightarrow> (string \<times> string) option" where
  "read_n n s = (if n \<le> length s then Some (take n s, drop n s) else None)"

lemma read_n_append [simp, codec_simps]: "length a = n \<Longrightarrow> read_n n (a @ s) = Some (a, s)"
  by (simp add: read_n_def)

lemma read_n_exact [simp, codec_simps]: "length a = n \<Longrightarrow> read_n n a = Some (a, [])"
  by (simp add: read_n_def)

lemma read_n_extend: "read_n n s = Some (a, r) \<Longrightarrow> read_n n (s @ t) = Some (a, r @ t)"
  by (auto simp: read_n_def split: if_splits)

lemma read_n_length: "read_n n s = Some (a, r) \<Longrightarrow> length s = n + length r"
  by (auto simp: read_n_def split: if_splits)

text \<open>A decoder whose answer does not change when bytes are added behind its input.\<close>

definition extends :: "(string \<Rightarrow> ('a \<times> string) option) \<Rightarrow> bool" where
  "extends d \<longleftrightarrow> (\<forall>s y r t. d s = Some (y, r) \<longrightarrow> d (s @ t) = Some (y, r @ t))"

lemma extendsD: "extends d \<Longrightarrow> d s = Some (y, r) \<Longrightarrow> d (s @ t) = Some (y, r @ t)"
  by (simp add: extends_def)

lemma extends_read_n [intro!]: "extends (read_n n)"
  by (simp add: extends_def read_n_extend)

lemma extends_Some [intro!]: "extends (\<lambda>s. Some (x, s))"
  by (simp add: extends_def)

lemma extends_bind [intro!]:
  assumes "extends d" and "\<And>x. extends (f x)"
  shows "extends (\<lambda>s. Option.bind (d s) (\<lambda>(x, s'). f x s'))"
  using assms unfolding extends_def by (auto split: bind_splits)

lemma extends_if [intro!]: "extends d \<Longrightarrow> extends e \<Longrightarrow> extends (\<lambda>s. if b then d s else e s)"
  by (simp add: extends_def)

fun dec_many :: "(string \<Rightarrow> ('a \<times> string) option) \<Rightarrow> nat \<Rightarrow> string \<Rightarrow> 'a list option" where
  "dec_many d 0 s = Some []"
| "dec_many d (Suc n) s =
     (case d s of None \<Rightarrow> None | Some (x, s') \<Rightarrow> map_option (Cons x) (dec_many d n s'))"

locale self_delimiting =
  fixes enc :: "'a \<Rightarrow> string" and dec :: "string \<Rightarrow> ('b \<times> string) option"
    and view :: "'a \<Rightarrow> 'b" and ok :: "'a \<Rightarrow> bool"
  assumes dec_enc: "ok x \<Longrightarrow> dec (enc x @ rest) = Some (view x, rest)"
    and dec_extend: "dec s = Some (y, r) \<Longrightarrow> dec (s @ t) = Some (y, r @ t)"
begin

lemma dec_cut:
  assumes "ok x" and "n < length (enc x)"
  shows "dec (take n (enc x)) = None"
proof (rule ccontr)
  assume "dec (take n (enc x)) \<noteq> None"
  then obtain y r where "dec (take n (enc x)) = Some (y, r)" by auto
  from dec_extend [OF this, of "drop n (enc x)"] have "r @ drop n (enc x) = []"
    using dec_enc [OF assms(1), of "[]"] by simp
  then show False using assms(2) by simp
qed

lemma many_enc: "\<forall>x \<in> set xs. ok x \<Longrightarrow> dec_many dec (length xs) (concat (map enc xs) @ rest) = Some (map view xs)"
  by (induction xs) (simp_all add: dec_enc)

lemma many_cut:
  "\<forall>x \<in> set xs. ok x \<Longrightarrow> n < length (concat (map enc xs)) \<Longrightarrow> dec_many dec (length xs) (take n (concat (map enc xs))) = None"
proof (induction xs arbitrary: n)
  case (Cons x xs)
  show ?case
  proof (cases "n < length (enc x)")
    case True
    then show ?thesis using Cons.prems dec_cut [of x n] by simp
  next
    case False
    then obtain m where n: "n = length (enc x) + m" by (metis le_Suc_ex not_less)
    have "dec_many dec (length xs) (take m (concat (map enc xs))) = None"
      using Cons.prems n by (intro Cons.IH) simp_all
    then show ?thesis using Cons.prems n dec_enc by simp
  qed
qed simp

end

end
