(* ===== verification/Snapshot.thy ===== *)
theory Snapshot
  imports Room Fs_Util Codec
begin

text \<open>
  Room snapshots, \<^verbatim>\<open>src/src/storage/snapshot_manager.h\<close> and \<^verbatim>\<open>snapshot_manager.cpp\<close>. The working
  directory is a map from names to the contents of regular files. Hibernation writes a temporary
  file through a 64 KiB buffer and renames it; waking up parses the file into a fresh table and
  replaces the room's table only when the whole file was valid.
\<close>

section \<open>Files\<close>

type_synonym disk = "string \<Rightarrow> string option"

definition SNAPSHOT_MAGIC :: string where "SNAPSHOT_MAGIC = ''RSNP''"
definition SNAPSHOT_VERSION :: u32 where "SNAPSHOT_VERSION = 2"

definition snap_filename :: "string \<Rightarrow> string" where
  "snap_filename name = ''room_'' @ name @ ''.bin''"

definition snap_tmpname :: "string \<Rightarrow> string" where
  "snap_tmpname name = snap_filename name @ ''.tmp''"

definition has_snapshot :: "string \<Rightarrow> disk \<Rightarrow> bool" where
  "has_snapshot name d \<longleftrightarrow> d (snap_filename name) \<noteq> None"

definition discard :: "string \<Rightarrow> disk \<Rightarrow> disk" where
  "discard name d = (if has_snapshot name d then d(snap_filename name := None) else d)"

section \<open>Waking up\<close>

definition read_entry :: "bool \<Rightarrow> string \<Rightarrow> ((string \<times> Record) \<times> string) option" where
  "read_entry is_v2 s0 = do {
     (kl, s1) \<leftarrow> read_n 8 s0;
     (key, s2) \<leftarrow> read_n (unat (bytes_u64 kl)) s1;
     (vl, s3) \<leftarrow> read_n 8 s2;
     (val, s4) \<leftarrow> read_n (unat (bytes_u64 vl)) s3;
     (ex, s5) \<leftarrow> read_n 8 s4;
     ((tm, nd), s6) \<leftarrow>
       (if is_v2 then do {
          (tn, s6) \<leftarrow> read_n 12 s5;
          Some ((bytes_u64 (take 8 tn), bytes_u32 (drop 8 tn)), s6)
        } else Some ((0, 1), s5));
     Some ((key, \<lparr>rec_value = val, expire_at = bytes_i64 ex, timestamp_ms = hlc_normalize tm, node_id = nd\<rparr>), s6)
   }"

lemma read_entry_length: "read_entry v s = Some (x, r) \<Longrightarrow> length r < length s"
  by (auto simp: read_entry_def dest!: read_n_length split: bind_splits if_splits)

function load_loop :: "bool \<Rightarrow> nat \<Rightarrow> (string \<times> Record) list \<Rightarrow> string \<Rightarrow> (string \<times> Record) list option" where
  "load_loop is_v2 num_records loaded s =
     (if length loaded < num_records then
        (case read_entry is_v2 s of
           None \<Rightarrow> None
         | Some ((key, r), s') \<Rightarrow> load_loop is_v2 num_records (AList.update key r loaded) s')
      else Some loaded)"
  by pat_completeness auto
termination
  by (relation "measure (\<lambda>(v, n, l, s). length s)") (auto dest: read_entry_length)

declare load_loop.simps [simp del]

text \<open>\<open>None\<close> is a corrupt file.\<close>

definition snap_parse :: "string \<Rightarrow> (string \<times> Record) list option" where
  "snap_parse data =
     (if length data < 8 then None
      else
        let is_v2 = (take 4 data = SNAPSHOT_MAGIC) in
        if is_v2 \<and> bytes_u32 (take 4 (drop 4 data)) \<noteq> SNAPSHOT_VERSION then None
        else
          (case (if is_v2 then read_n 8 (drop 8 data) else read_n 8 data) of
             None \<Rightarrow> None
           | Some (num, s) \<Rightarrow>
               let num_records = unat (bytes_u64 num) in
               if num_records > length data then None else load_loop is_v2 num_records [] s))"

record wake_env =
  we_read :: bool
  we_rename :: bool
  we_now_ms :: int

definition wakeup_room :: "wake_env \<Rightarrow> Room \<Rightarrow> disk \<Rightarrow> bool \<times> Room \<times> disk" where
  "wakeup_room env room d =
     (let filename = snap_filename (room_name room) in
      case d filename of
        None \<Rightarrow> (False, room, d)
      | Some data \<Rightarrow>
          if \<not> we_read env then (False, room, d)
          else
            (case snap_parse data of
               None \<Rightarrow>
                 (False, room,
                  if we_rename env
                  then d(filename := None, filename @ ''.corrupt.'' @ dec_int (we_now_ms env) := Some data)
                  else d)
             | Some loaded \<Rightarrow> (True, room\<lparr>room_keys := loaded\<rparr>, d)))"

section \<open>Hibernating\<close>

record snap_writer =
  sw_ok :: bool
  sw_buf :: string
  sw_out :: string
  sw_calls :: nat

record snap_env =
  se_open :: bool
  se_write :: "nat \<Rightarrow> sysret list"
  se_sync :: bool
  se_close :: bool
  se_rename :: bool

definition flush_buf :: "snap_env \<Rightarrow> snap_writer \<Rightarrow> snap_writer" where
  "flush_buf env w =
     (if \<not> sw_ok w \<or> sw_buf w = [] then w
      else
        (case write_all (se_write env (sw_calls w)) (sw_buf w) of
           (good, n) \<Rightarrow>
             w\<lparr>sw_ok := good, sw_out := sw_out w @ take n (sw_buf w), sw_buf := [], sw_calls := Suc (sw_calls w)\<rparr>))"

definition feed :: "snap_env \<Rightarrow> string \<Rightarrow> snap_writer \<Rightarrow> snap_writer" where
  "feed env p w =
     (let w' = w\<lparr>sw_buf := sw_buf w @ p\<rparr> in
      if length (sw_buf w') \<ge> 65536 then flush_buf env w' else w')"

fun feed_records :: "snap_env \<Rightarrow> (string \<times> Record) list \<Rightarrow> snap_writer \<Rightarrow> snap_writer" where
  "feed_records env [] w = w"
| "feed_records env ((key, r) # kvs) w =
     (let w1 = feed env (u64_bytes (of_nat (length key))) w;
          w2 = feed env key w1;
          w3 = feed env (u64_bytes (of_nat (length (rec_value r)))) w2;
          w4 = feed env (rec_value r) w3;
          w5 = feed env (i64_bytes (expire_at r)) w4;
          w6 = feed env (u64_bytes (timestamp_ms r)) w5;
          w7 = feed env (u32_bytes (node_id r)) w6
      in if \<not> sw_ok w7 then w7 else feed_records env kvs w7)"

definition snap_write :: "snap_env \<Rightarrow> (string \<times> Record) list \<Rightarrow> snap_writer" where
  "snap_write env kvs =
     (let w0 = \<lparr>sw_ok = True, sw_buf = [], sw_out = [], sw_calls = 0\<rparr>;
          w1 = feed env SNAPSHOT_MAGIC w0;
          w2 = feed env (u32_bytes SNAPSHOT_VERSION) w1;
          w3 = feed env (u64_bytes (of_nat (length kvs))) w2
      in flush_buf env (feed_records env kvs w3))"

definition hibernate_room :: "snap_env \<Rightarrow> Room \<Rightarrow> disk \<Rightarrow> bool \<times> Room \<times> disk" where
  "hibernate_room env room d =
     (let filename = snap_filename (room_name room); tmpname = snap_tmpname (room_name room) in
      if \<not> se_open env then (False, room, d)
      else
        let w = snap_write env (room_keys room); gone = d(tmpname := None) in
        if \<not> sw_ok w \<or> \<not> se_sync env then (False, room, gone)
        else if \<not> se_close env then (False, room, gone)
        else if \<not> se_rename env then (False, room, gone)
        else (True, room\<lparr>room_keys := []\<rparr>, d(tmpname := None, filename := Some (sw_out w))))"

section \<open>The file format\<close>

definition entry_bytes :: "string \<times> Record \<Rightarrow> string" where
  "entry_bytes = (\<lambda>(key, r).
     u64_bytes (of_nat (length key)) @ key @ u64_bytes (of_nat (length (rec_value r))) @ rec_value r @
     i64_bytes (expire_at r) @ u64_bytes (timestamp_ms r) @ u32_bytes (node_id r))"

definition snap_bytes :: "(string \<times> Record) list \<Rightarrow> string" where
  "snap_bytes kvs =
     SNAPSHOT_MAGIC @ u32_bytes SNAPSHOT_VERSION @ u64_bytes (of_nat (length kvs)) @ concat (map entry_bytes kvs)"

definition entry_view :: "string \<times> Record \<Rightarrow> string \<times> Record" where
  "entry_view = (\<lambda>(key, r). (key, r\<lparr>timestamp_ms := hlc_normalize (timestamp_ms r)\<rparr>))"

definition entry_ok :: "string \<times> Record \<Rightarrow> bool" where
  "entry_ok = (\<lambda>(key, r). length key < 2 ^ 64 \<and> length (rec_value r) < 2 ^ 64 \<and> rec_ok r)"

lemma fst_entry_view [simp]: "fst (entry_view x) = fst x"
  by (simp add: entry_view_def split: prod.splits)

lemma read_entry_roundtrip:
  assumes "entry_ok x"
  shows "read_entry True (entry_bytes x @ rest) = Some (entry_view x, rest)"
proof -
  obtain key r where x: "x = (key, r)" by fastforce
  have len: "unat (of_nat (length key) :: u64) = length key" "unat (of_nat (length (rec_value r)) :: u64) = length (rec_value r)"
    using assms by (simp_all add: x entry_ok_def unat_of_nat_u64)
  have tail: "read_n 12 (u64_bytes (timestamp_ms r) @ u32_bytes (node_id r) @ rest) =
      Some (u64_bytes (timestamp_ms r) @ u32_bytes (node_id r), rest)"
    using read_n_append [of "u64_bytes (timestamp_ms r) @ u32_bytes (node_id r)" 12 rest] by simp
  show ?thesis using assms
    by (simp add: x read_entry_def entry_bytes_def entry_view_def entry_ok_def rec_ok_def len tail)
qed

lemma extends_read_entry: "extends (read_entry v)"
  unfolding read_entry_def
  by (intro extends_bind extends_read_n extends_if extends_Some, (simp only: case_prod_beta'); intro extends_Some)

interpretation entry: self_delimiting entry_bytes "read_entry True" entry_view entry_ok
  by unfold_locales (simp_all add: read_entry_roundtrip extendsD [OF extends_read_entry])

lemma load_loop_many:
  "dec_many (read_entry v) n s = Some kvs \<Longrightarrow> distinct (map fst (loaded @ kvs)) \<Longrightarrow>
    load_loop v (length loaded + n) loaded s = Some (loaded @ kvs)"
proof (induction n arbitrary: s loaded kvs)
  case 0
  then show ?case by (simp add: load_loop.simps)
next
  case (Suc n)
  then obtain key r s' kvs' where e: "read_entry v s = Some ((key, r), s')"
    and kvs: "dec_many (read_entry v) n s' = Some kvs'" "kvs = (key, r) # kvs'"
    by (auto split: option.splits prod.splits)
  have "key \<notin> fst ` set loaded" using Suc.prems(2) kvs by auto
  then have upd: "AList.update key r loaded = loaded @ [(key, r)]"
    by (induction loaded) auto
  have "load_loop v (length (loaded @ [(key, r)]) + n) (loaded @ [(key, r)]) s' = Some ((loaded @ [(key, r)]) @ kvs')"
    using Suc.prems(2) kvs by (intro Suc.IH) simp_all
  then show ?case using e kvs upd by (simp add: load_loop.simps [of v _ loaded s])
qed

lemma length_al_update_le: "length (AList.update k v al) \<le> Suc (length al)"
  by (induction al) auto

lemma load_loop_short:
  "dec_many (read_entry v) n s = None \<Longrightarrow> length loaded + n \<le> m \<Longrightarrow> load_loop v m loaded s = None"
proof (induction n arbitrary: s loaded)
  case (Suc n)
  show ?case
  proof (cases "read_entry v s")
    case None
    then show ?thesis using Suc.prems by (simp add: load_loop.simps)
  next
    case (Some a)
    then obtain key r s' where e: "read_entry v s = Some ((key, r), s')" by (metis prod.collapse)
    then have "load_loop v m (AList.update key r loaded) s' = None"
      using Suc.prems length_al_update_le [of key r loaded] by (intro Suc.IH) (auto split: option.splits)
    then show ?thesis using e Suc.prems by (simp add: load_loop.simps [of v m loaded s])
  qed
qed simp

lemma length_le_concat_entries: "length kvs \<le> length (concat (map entry_bytes kvs))"
  by (induction kvs) (auto simp: entry_bytes_def split: prod.splits)

lemma length_SNAPSHOT_MAGIC [simp]: "length SNAPSHOT_MAGIC = 4"
  by (simp add: SNAPSHOT_MAGIC_def)

lemma snap_parse_header:
  assumes "length kvs < 2 ^ 64"
  shows "snap_parse (SNAPSHOT_MAGIC @ u32_bytes SNAPSHOT_VERSION @ u64_bytes (of_nat (length kvs)) @ body) =
    (if length kvs > 16 + length body then None else load_loop True (length kvs) [] body)"
  using assms by (simp add: snap_parse_def Let_def unat_of_nat_u64)

lemma snap_parse_roundtrip:
  assumes "al_ok kvs" and "\<forall>x \<in> set kvs. entry_ok x" and "length kvs < 2 ^ 64"
  shows "snap_parse (snap_bytes kvs) = Some (map entry_view kvs)"
proof -
  have "dec_many (read_entry True) (length kvs) (concat (map entry_bytes kvs)) = Some (map entry_view kvs)"
    using entry.many_enc [OF assms(2), of "[]"] by simp
  then have "load_loop True (length kvs) [] (concat (map entry_bytes kvs)) = Some (map entry_view kvs)"
    using load_loop_many [of True "length kvs" _ "map entry_view kvs" "[]"] assms(1) by (simp add: al_ok_def comp_def)
  then show ?thesis using length_le_concat_entries [of kvs]
    by (simp add: snap_bytes_def snap_parse_header [OF assms(3)])
qed

lemma snap_parse_truncated:
  assumes "\<forall>x \<in> set kvs. entry_ok x" and "length kvs < 2 ^ 64" and "n < length (snap_bytes kvs)"
  shows "snap_parse (take n (snap_bytes kvs)) = None"
proof (cases "n < 16")
  case True
  have "length (take n (snap_bytes kvs)) = n" using assms(3) by simp
  moreover have "take 4 (take n (snap_bytes kvs)) = SNAPSHOT_MAGIC" if "8 \<le> n"
    using that by (simp add: snap_bytes_def)
  ultimately show ?thesis using True by (auto simp: snap_parse_def Let_def read_n_def)
next
  case False
  then obtain m where n: "n = 16 + m" by (metis le_Suc_ex not_less)
  have cut: "take n (snap_bytes kvs) = SNAPSHOT_MAGIC @ u32_bytes SNAPSHOT_VERSION @ u64_bytes (of_nat (length kvs)) @
      take m (concat (map entry_bytes kvs))"
    by (simp add: snap_bytes_def n)
  have "m < length (concat (map entry_bytes kvs))" using assms(3) by (simp add: n snap_bytes_def)
  then have "dec_many (read_entry True) (length kvs) (take m (concat (map entry_bytes kvs))) = None"
    by (rule entry.many_cut [OF assms(1)])
  then have "load_loop True (length kvs) [] (take m (concat (map entry_bytes kvs))) = None"
    by (rule load_loop_short) simp
  then show ?thesis by (simp add: cut snap_parse_header [OF assms(2)])
qed

section \<open>The buffered writer\<close>

definition pending :: "snap_writer \<Rightarrow> string" where
  "pending w = sw_out w @ sw_buf w"

definition writes_ok :: "snap_env \<Rightarrow> nat \<Rightarrow> bool" where
  "writes_ok env n \<longleftrightarrow> (\<forall>i data. length data \<le> n \<longrightarrow> fst (write_all (se_write env i) data))"

lemma flush_buf_ok: "sw_ok (flush_buf env w) \<Longrightarrow> sw_ok w \<and> sw_out (flush_buf env w) = pending w \<and> sw_buf (flush_buf env w) = []"
  by (auto simp: flush_buf_def pending_def split: prod.splits if_splits dest: write_all_True)

lemma flush_buf_succeeds: "writes_ok env n \<Longrightarrow> sw_ok w \<Longrightarrow> length (pending w) \<le> n \<Longrightarrow> sw_ok (flush_buf env w)"
  by (auto simp: flush_buf_def pending_def writes_ok_def split: prod.splits) (metis add_leD2 fst_conv)

lemma feed_ok: "sw_ok (feed env p w) \<Longrightarrow> sw_ok w \<and> pending (feed env p w) = pending w @ p"
  using flush_buf_ok [of env "w\<lparr>sw_buf := sw_buf w @ p\<rparr>"]
  by (auto simp: feed_def Let_def pending_def split: if_splits)

lemma feed_succeeds: "writes_ok env n \<Longrightarrow> sw_ok w \<Longrightarrow> length (pending w) + length p \<le> n \<Longrightarrow> sw_ok (feed env p w)"
  using flush_buf_succeeds [of env n "w\<lparr>sw_buf := sw_buf w @ p\<rparr>"] by (simp add: feed_def Let_def pending_def)

lemma feed_all_ok: "sw_ok (foldl (\<lambda>w p. feed env p w) w ps) \<Longrightarrow>
    sw_ok w \<and> pending (foldl (\<lambda>w p. feed env p w) w ps) = pending w @ concat ps"
proof (induction ps arbitrary: w)
  case (Cons p ps)
  then show ?case using feed_ok [of env p w] by force
qed simp

lemma feed_all_succeeds:
  "writes_ok env n \<Longrightarrow> sw_ok w \<Longrightarrow> length (pending w) + length (concat ps) \<le> n \<Longrightarrow> sw_ok (foldl (\<lambda>w p. feed env p w) w ps)"
proof (induction ps arbitrary: w)
  case (Cons p ps)
  have ok: "sw_ok (feed env p w)" using Cons.prems by (intro feed_succeeds) auto
  then show ?case using Cons.prems Cons.IH [of "feed env p w"] feed_ok [OF ok] by simp
qed simp

text \<open>The fields of one record, fed one after another.\<close>

definition entry_fields :: "string \<times> Record \<Rightarrow> string list" where
  "entry_fields = (\<lambda>(key, r).
     [u64_bytes (of_nat (length key)), key, u64_bytes (of_nat (length (rec_value r))), rec_value r,
      i64_bytes (expire_at r), u64_bytes (timestamp_ms r), u32_bytes (node_id r)])"

lemma concat_entry_fields: "concat (entry_fields x) = entry_bytes x"
  by (simp add: entry_fields_def entry_bytes_def split: prod.splits)

lemma feed_records_Cons:
  "feed_records env (x # kvs) w =
     (let w' = foldl (\<lambda>w p. feed env p w) w (entry_fields x) in if \<not> sw_ok w' then w' else feed_records env kvs w')"
  by (cases x) (simp add: Let_def entry_fields_def)

lemma feed_records_ok:
  "sw_ok (feed_records env kvs w) \<Longrightarrow>
    sw_ok w \<and> pending (feed_records env kvs w) = pending w @ concat (map entry_bytes kvs)"
proof (induction kvs arbitrary: w)
  case (Cons x kvs)
  then show ?case using feed_all_ok [of env w "entry_fields x"]
    by (fastforce simp: feed_records_Cons Let_def concat_entry_fields simp del: feed_records.simps split: if_splits)
qed simp

lemma feed_records_succeeds:
  "writes_ok env n \<Longrightarrow> sw_ok w \<Longrightarrow> length (pending w) + length (concat (map entry_bytes kvs)) \<le> n \<Longrightarrow>
    sw_ok (feed_records env kvs w)"
proof (induction kvs arbitrary: w)
  case (Cons x kvs)
  let ?w = "foldl (\<lambda>w p. feed env p w) w (entry_fields x)"
  have ok: "sw_ok ?w" using Cons.prems by (intro feed_all_succeeds) (auto simp: concat_entry_fields)
  then have "sw_ok (feed_records env kvs ?w)"
    using Cons.prems feed_all_ok [OF ok] by (intro Cons.IH) (auto simp: concat_entry_fields)
  then show ?case using ok by (simp add: feed_records_Cons Let_def del: feed_records.simps)
qed simp

lemma snap_write_alt:
  "snap_write env kvs =
     flush_buf env (feed_records env kvs (foldl (\<lambda>w p. feed env p w) \<lparr>sw_ok = True, sw_buf = [], sw_out = [], sw_calls = 0\<rparr>
       [SNAPSHOT_MAGIC, u32_bytes SNAPSHOT_VERSION, u64_bytes (of_nat (length kvs))]))"
  by (simp add: snap_write_def Let_def)

lemma snap_write_ok:
  assumes "sw_ok (snap_write env kvs)"
  shows "sw_out (snap_write env kvs) = snap_bytes kvs"
proof -
  let ?w0 = "\<lparr>sw_ok = True, sw_buf = [], sw_out = [], sw_calls = 0\<rparr>"
  let ?ps = "[SNAPSHOT_MAGIC, u32_bytes SNAPSHOT_VERSION, u64_bytes (of_nat (length kvs))]"
  note f = flush_buf_ok [OF assms [unfolded snap_write_alt]]
  note r = feed_records_ok [OF conjunct1 [OF f]]
  note a = feed_all_ok [OF conjunct1 [OF r]]
  show ?thesis using f r a by (simp add: snap_write_alt snap_bytes_def pending_def)
qed

lemma snap_write_succeeds:
  assumes "writes_ok env (length (snap_bytes kvs))"
  shows "sw_ok (snap_write env kvs)"
proof -
  let ?w0 = "\<lparr>sw_ok = True, sw_buf = [], sw_out = [], sw_calls = 0\<rparr>"
  let ?ps = "[SNAPSHOT_MAGIC, u32_bytes SNAPSHOT_VERSION, u64_bytes (of_nat (length kvs))]"
  let ?w = "foldl (\<lambda>w p. feed env p w) ?w0 ?ps"
  have w: "sw_ok ?w" by (rule feed_all_succeeds [OF assms]) (simp_all add: pending_def snap_bytes_def)
  note pw = feed_all_ok [OF w]
  have r: "sw_ok (feed_records env kvs ?w)"
    using pw by (intro feed_records_succeeds [OF assms w]) (simp add: pending_def snap_bytes_def)
  show ?thesis unfolding snap_write_alt
    using feed_records_ok [OF r] pw by (intro flush_buf_succeeds [OF assms r]) (simp add: snap_bytes_def, simp add: pending_def)
qed

section \<open>Properties\<close>

lemma tmp_not_file [simp]: "snap_tmpname a \<noteq> snap_filename a"
  by (simp add: snap_tmpname_def)

text \<open>
  C22. Hibernation is all or nothing. When it reports success the snapshot file is exactly the
  version 2 image of the room's table, however the buffer was cut into writes and the writes
  were shortened or interrupted, and the table was emptied. When it reports failure the room is
  untouched and so is every file but the temporary one: the previous snapshot stays. It
  succeeds whenever the system calls do.
\<close>

theorem hibernate_all_or_nothing:
  assumes "hibernate_room env room d = (done, room', d')"
  shows "(done \<longrightarrow> room' = room\<lparr>room_keys := []\<rparr> \<and>
       d' = d(snap_tmpname (room_name room) := None, snap_filename (room_name room) := Some (snap_bytes (room_keys room)))) \<and>
     (\<not> done \<longrightarrow> room' = room \<and> (d' = d \<or> d' = d(snap_tmpname (room_name room) := None))) \<and>
     (se_open env \<and> writes_ok env (length (snap_bytes (room_keys room))) \<and> se_sync env \<and> se_close env \<and> se_rename env
        \<longrightarrow> done)"
proof -
  have "sw_ok (snap_write env (room_keys room)) \<Longrightarrow> sw_out (snap_write env (room_keys room)) = snap_bytes (room_keys room)"
    by (rule snap_write_ok)
  then show ?thesis using assms snap_write_succeeds [of env "room_keys room"]
    by (auto simp: hibernate_room_def Let_def split: if_splits)
qed

theorem hibernate_all_or_nothing_witness:
  "let env = \<lparr>se_open = True, se_write = (\<lambda>_. [Eintr, Ret 100]), se_sync = True, se_close = True, se_rename = True\<rparr>;
       room = (new_room ''r'')\<lparr>room_keys := [(''k'', new_record)]\<rparr>; (done, room', d') = hibernate_room env room (\<lambda>_. None)
   in done \<and> room_keys room' = [] \<and> d' ''room_r.bin'' = Some (snap_bytes [(''k'', new_record)])"
proof -
  let ?env = "\<lparr>se_open = True, se_write = (\<lambda>_. [Eintr, Ret 100]), se_sync = True, se_close = True, se_rename = True\<rparr>"
  let ?room = "(new_room ''r'')\<lparr>room_keys := [(''k'', new_record)]\<rparr>"
  obtain ok room' d' where run: "hibernate_room ?env ?room (\<lambda>_. None) = (ok, room', d')" by (metis prod_cases3)
  have "length (snap_bytes [(''k'', new_record)]) \<le> 100"
    by (simp add: snap_bytes_def entry_bytes_def new_record_def)
  then have "writes_ok ?env (length (snap_bytes (room_keys ?room)))"
    by (auto simp: writes_ok_def write_all_def)
  then have "ok \<and> room' = ?room\<lparr>room_keys := []\<rparr> \<and>
      d' ''room_r.bin'' = Some (snap_bytes [(''k'', new_record)])"
    using hibernate_all_or_nothing [OF run] by (simp add: new_room_def snap_filename_def snap_tmpname_def)
  then show ?thesis by (simp add: run)
qed

text \<open>
  C23. Waking a room from a snapshot that hibernation wrote restores every key with its value,
  expiry and origin node and with its version passed through the legacy-timestamp normalisation,
  so unchanged when the versions are hybrid-clock values from the legacy limit on (or zero).
\<close>

theorem wakeup_restores:
  assumes "al_ok kvs" and "\<forall>x \<in> set kvs. entry_ok x" and "length kvs < 2 ^ 64"
    and "d (snap_filename (room_name room)) = Some (snap_bytes kvs)" and "we_read env"
  shows "wakeup_room env room d = (True, room\<lparr>room_keys := map entry_view kvs\<rparr>, d) \<and>
    ((\<forall>(k, r) \<in> set kvs. timestamp_ms r = 0 \<or> kLegacyLimit \<le> timestamp_ms r) \<longrightarrow> map entry_view kvs = kvs)"
proof -
  have "entry_view x = x" if "timestamp_ms (snd x) = 0 \<or> kLegacyLimit \<le> timestamp_ms (snd x)" for x
    using that by (cases x) (auto simp: entry_view_def hlc_normalize_def)
  then have "(\<forall>(k, r) \<in> set kvs. timestamp_ms r = 0 \<or> kLegacyLimit \<le> timestamp_ms r) \<longrightarrow> map entry_view kvs = kvs"
    by (intro impI map_idI) auto
  then show ?thesis using assms(4,5) snap_parse_roundtrip [OF assms(1-3)] by (simp add: wakeup_room_def Let_def)
qed

definition ex_kvs :: "(string \<times> Record) list" where
  "ex_kvs = [(''k'', \<lparr>rec_value = ''v'', expire_at = 99, timestamp_ms = kLegacyLimit, node_id = 3\<rparr>), (''l'', new_record)]"

lemma ex_kvs_ok: "al_ok ex_kvs" "\<forall>x \<in> set ex_kvs. entry_ok x" "length ex_kvs < 2 ^ 64"
  by (simp_all add: ex_kvs_def entry_ok_def rec_ok_def i64_def new_record_def)

theorem wakeup_restores_witness:
  "wakeup_room \<lparr>we_read = True, we_rename = True, we_now_ms = 0\<rparr> (new_room ''r'') [''room_r.bin'' \<mapsto> snap_bytes ex_kvs] =
     (True, (new_room ''r'')\<lparr>room_keys := ex_kvs\<rparr>, [''room_r.bin'' \<mapsto> snap_bytes ex_kvs])"
proof -
  have name: "snap_filename (room_name (new_room ''r'')) = ''room_r.bin''" by (simp add: snap_filename_def new_room_def)
  note w = wakeup_restores [OF ex_kvs_ok, of "[''room_r.bin'' \<mapsto> snap_bytes ex_kvs]" "new_room ''r''"
      "\<lparr>we_read = True, we_rename = True, we_now_ms = 0\<rparr>"]
  have "\<forall>(k, r) \<in> set ex_kvs. timestamp_ms r = 0 \<or> kLegacyLimit \<le> timestamp_ms r"
    by (simp add: ex_kvs_def new_record_def)
  then show ?thesis using w by (simp add: name)
qed

text \<open>
  A truncated snapshot is never loaded: for every proper prefix of a snapshot file, waking
  up fails, leaves the room as it was, and keeps the bytes for diagnosis, either in place or
  under the \<^verbatim>\<open>.corrupt\<close> name.
\<close>

theorem wakeup_rejects_truncated:
  assumes "\<forall>x \<in> set kvs. entry_ok x" and "length kvs < 2 ^ 64" and "n < length (snap_bytes kvs)"
    and "d (snap_filename (room_name room)) = Some (take n (snap_bytes kvs))"
  shows "case wakeup_room env room d of (ok, room', d') \<Rightarrow>
    \<not> ok \<and> room' = room \<and> (\<exists>name. d' name = Some (take n (snap_bytes kvs)))"
  using assms(4) snap_parse_truncated [OF assms(1-3)] by (auto simp: wakeup_room_def Let_def)

theorem wakeup_rejects_truncated_witness:
  "case wakeup_room \<lparr>we_read = True, we_rename = True, we_now_ms = 5\<rparr> (new_room ''r'')
       [''room_r.bin'' \<mapsto> take 40 (snap_bytes ex_kvs)] of (ok, room', d') \<Rightarrow>
     \<not> ok \<and> room' = new_room ''r'' \<and> (\<exists>name. d' name = Some (take 40 (snap_bytes ex_kvs)))"
proof -
  have "40 < length (snap_bytes ex_kvs)" by (simp add: snap_bytes_def ex_kvs_def entry_bytes_def new_record_def)
  then show ?thesis
    by (rule wakeup_rejects_truncated [OF ex_kvs_ok(2,3)]) (simp add: snap_filename_def new_room_def)
qed

end
