(* ===== verification/Aof.thy ===== *)
theory Aof
  imports Resp Codec Fs_Util "HOL-Library.Sublist"
begin

text \<open>
  The append-only log, \<^verbatim>\<open>src/src/storage/aof_manager.h\<close> and \<^verbatim>\<open>aof_manager.cpp\<close>.

  The state holds the bytes of \<^verbatim>\<open>appendonly.aof\<close> and of the temporary rewrite file, the copies kept
  under a \<^verbatim>\<open>.corrupt\<close> name, and the manager's members; a descriptor is the fact that it is open. The
  outcomes of system calls are arguments. File sizes and offsets are natural numbers (they are far
  below \<^verbatim>\<open>2^63\<close> on any file system), as is the generation counter. The gauges that only republish
  these values to the metrics endpoint are left out.
\<close>

section \<open>Records\<close>

record AofRecord =
  ar_room :: string
  ar_args :: "string list"
  ar_expire_at :: int
  ar_timestamp_ms :: u64
  ar_node_id :: u32

definition kMagicToken :: string where "kMagicToken = ''SOMNIUM-AOF''"
definition kMetaToken :: string where "kMetaToken = ''SOMNIUM-META''"
definition kAofVersion :: nat where "kAofVersion = 3"

definition kAofHeader :: string where
  "kAofHeader = ''*2'' @ CRLF @ ''$11'' @ CRLF @ ''SOMNIUM-AOF'' @ CRLF @ ''$1'' @ CRLF @ ''3'' @ CRLF"

definition is_write_cmd :: "string \<Rightarrow> bool" where
  "is_write_cmd c \<longleftrightarrow> c = ''SET'' \<or> c = ''DEL'' \<or> c = ''CRDTMERGE''"

definition encode_record :: "AofRecord \<Rightarrow> string" where
  "encode_record r =
     ''*'' @ dec (length (ar_args r) + 5) @ CRLF @ bulk_string (ar_room r) @ concat (map bulk_string (ar_args r)) @
     bulk_string kMetaToken @ bulk_string (dec_int (ar_expire_at r)) @ bulk_string (dec (unat (ar_timestamp_ms r))) @
     bulk_string (dec (unat (ar_node_id r)))"

datatype Fmt = Undetected | V3 | V2 | V1

fun build_record :: "Fmt \<Rightarrow> string list \<Rightarrow> AofRecord option" where
  "build_record V3 tokens =
     (let n = length tokens in
      if n < 5 then None
      else if tokens ! (n - 4) \<noteq> kMetaToken then None
      else
        (case parse_i64 (tokens ! (n - 3)) of
           None \<Rightarrow> None
         | Some ex \<Rightarrow>
             (case parse_u64 (tokens ! (n - 2)) of
                None \<Rightarrow> None
              | Some tm \<Rightarrow>
                  (case parse_u64 (tokens ! (n - 1)) of
                     None \<Rightarrow> None
                   | Some node \<Rightarrow>
                       if unat node > 4294967295 then None
                       else Some \<lparr>ar_room = hd tokens, ar_args = drop 1 (take (n - 4) tokens), ar_expire_at = ex,
                                  ar_timestamp_ms = tm, ar_node_id = of_nat (unat node)\<rparr>))))"
| "build_record V2 tokens =
     (if tokens = [] then None
      else Some \<lparr>ar_room = hd tokens, ar_args = tl tokens, ar_expire_at = 0, ar_timestamp_ms = 0, ar_node_id = 1\<rparr>)"
| "build_record _ tokens =
     Some \<lparr>ar_room = ''default'', ar_args = tokens, ar_expire_at = 0, ar_timestamp_ms = 0, ar_node_id = 1\<rparr>"

section \<open>State\<close>

datatype SyncPolicy = Always | Everysec | Off

record aof =
  aof_file :: "string option"
  aof_tmp :: "string option"
  aof_corrupt :: "string list"
  aof_fd :: bool
  rewrite_fd :: bool
  sync_policy :: SyncPolicy
  generation :: nat
  synced :: nat
  aof_size :: nat
  base_size :: nat
  last_tail :: nat
  rewrite_min :: u64
  healthy :: bool
  torn :: bool
  needs_rewrite :: bool
  replaying :: bool

definition aof_init :: "SyncPolicy \<Rightarrow> u64 \<Rightarrow> string option \<Rightarrow> aof" where
  "aof_init policy min_bytes fc =
     \<lparr>aof_file = fc, aof_tmp = None, aof_corrupt = [], aof_fd = False, rewrite_fd = False, sync_policy = policy,
      generation = 0, synced = 0, aof_size = 0, base_size = 0, last_tail = 0, rewrite_min = min_bytes,
      healthy = True, torn = False, needs_rewrite = False, replaying = True\<rparr>"

definition file_of :: "aof \<Rightarrow> string" where
  "file_of a = (case aof_file a of Some s \<Rightarrow> s | None \<Rightarrow> [])"

definition rewrite_due :: "aof \<Rightarrow> bool" where
  "rewrite_due a \<longleftrightarrow> (of_nat (aof_size a) :: u64) \<ge> rewrite_min a \<and> (of_nat (aof_size a) :: u64) \<ge> 2 * of_nat (base_size a)"

definition bump_generation :: "aof \<Rightarrow> aof" where
  "bump_generation a = a\<lparr>generation := generation a + 1\<rparr>"

text \<open>The descriptor synced under the lock is always the current one.\<close>

definition sync_locked :: "bool \<Rightarrow> aof \<Rightarrow> bool \<times> aof" where
  "sync_locked sync_ok a = (if \<not> sync_ok then (False, a\<lparr>healthy := False\<rparr>) else (True, a\<lparr>synced := aof_size a\<rparr>))"

section \<open>Opening and appending\<close>

record open_env =
  oe_open :: bool
  oe_fstat :: bool
  oe_write :: "sysret list"
  oe_trunc :: bool
  oe_sync :: bool

definition open_file :: "open_env \<Rightarrow> aof \<Rightarrow> bool \<times> aof" where
  "open_file env a =
     (if aof_fd a then (True, a)
      else if \<not> oe_open env then (False, a\<lparr>healthy := False\<rparr>)
      else
        let fc = file_of a;
            a1 = bump_generation (a\<lparr>aof_fd := True, aof_file := Some fc\<rparr>)
        in if oe_fstat env \<and> fc = [] then
             (case write_all (oe_write env) kAofHeader of
                (False, n) \<Rightarrow>
                  (False, a1\<lparr>aof_size := 0, healthy := False, aof_fd := False,
                             aof_file := Some (if oe_trunc env then [] else take n kAofHeader)\<rparr>)
              | (True, n) \<Rightarrow>
                  (let a2 = a1\<lparr>aof_file := Some kAofHeader, aof_size := length kAofHeader\<rparr> in
                   case sync_locked (oe_sync env) a2 of
                     (False, a3) \<Rightarrow> (False, a3\<lparr>aof_fd := False\<rparr>)
                   | (True, a3) \<Rightarrow> (True, a3\<lparr>base_size := aof_size a3\<rparr>)))
           else
             let sz = (if oe_fstat env then length fc else 0)
             in (True, a1\<lparr>aof_size := sz, synced := sz, base_size := sz\<rparr>))"

record append_env =
  ae_open :: bool
  ae_write :: "sysret list"
  ae_trunc :: bool
  ae_sync :: bool

definition append_fd :: "bool \<Rightarrow> aof \<Rightarrow> aof option" where
  "append_fd open_ok a =
     (if aof_fd a then Some a
      else if \<not> open_ok then None
      else Some ((bump_generation (a\<lparr>aof_fd := True, aof_file := Some (file_of a)\<rparr>))\<lparr>synced := 0, healthy := True\<rparr>))"

definition append :: "append_env \<Rightarrow> AofRecord \<Rightarrow> aof \<Rightarrow> bool \<times> aof" where
  "append env r a =
     (if replaying a \<or> torn a then (False, a)
      else
        (case append_fd (ae_open env) a of
           None \<Rightarrow> (False, a\<lparr>healthy := False\<rparr>)
         | Some a1 \<Rightarrow>
             (case write_all (ae_write env) (encode_record r) of
                (False, written) \<Rightarrow>
                  (let cut = written > 0 \<and> \<not> ae_trunc env;
                       a2 = a1\<lparr>healthy := False, torn := cut, aof_fd := False,
                               aof_file := Some (if cut then file_of a1 @ take written (encode_record r) else file_of a1)\<rparr>
                   in (False, bump_generation a2))
              | (True, written) \<Rightarrow>
                  (let a2 = a1\<lparr>aof_file := Some (file_of a1 @ take written (encode_record r)),
                               aof_size := aof_size a1 + length (encode_record r)\<rparr>
                   in if sync_policy a = Always then sync_locked (ae_sync env) a2 else (True, a2)))))"

section \<open>Recovery\<close>

record recover_env =
  re_open :: bool
  re_limit :: nat
  re_trunc :: bool
  re_rename :: bool

record reader =
  rd_buf :: string
  rd_pos :: nat
  rd_compacted :: nat
  rd_unread :: string

definition fill :: "reader \<Rightarrow> bool \<times> reader" where
  "fill rd =
     (let got = take 65536 (rd_unread rd);
          rd' = rd\<lparr>rd_buf := drop (rd_pos rd) (rd_buf rd), rd_compacted := rd_compacted rd + rd_pos rd, rd_pos := 0\<rparr>
      in if got = [] then (False, rd')
         else (True, rd'\<lparr>rd_buf := rd_buf rd' @ got, rd_unread := drop 65536 (rd_unread rd)\<rparr>))"

lemma fill_shrinks: "fill rd = (True, rd') \<Longrightarrow> length (rd_unread rd') < length (rd_unread rd)"
  by (auto simp: fill_def Let_def split: if_splits)

function parse_filled :: "reader \<Rightarrow> status \<times> reader" where
  "parse_filled rd =
     (case parse (rd_buf rd) (rd_pos rd) of
        NeedMore \<Rightarrow> (case fill rd of (True, rd') \<Rightarrow> parse_filled rd' | (False, rd') \<Rightarrow> (NeedMore, rd'))
      | st \<Rightarrow> (st, rd))"
  by pat_completeness auto
termination
  by (relation "measure (\<lambda>rd. length (rd_unread rd))") (auto dest: fill_shrinks [OF sym])

declare parse_filled.simps [simp del]

text \<open>How the replay ended: at a clean end, with a tail to cut at an offset, or at a corrupt record.\<close>

datatype disposition = Clean | Truncate nat | Corrupt

text \<open>The format decision on the first record: the header, a legacy format, or a corrupt header.\<close>

datatype detected = Header | Legacy Fmt | BadHeader

definition detect :: "string list \<Rightarrow> detected" where
  "detect tokens =
     (if length tokens = 2 \<and> hd tokens = kMagicToken then
        (case parse_u64 (tokens ! 1) of
           None \<Rightarrow> BadHeader
         | Some ver \<Rightarrow> if unat ver \<noteq> kAofVersion then BadHeader else Header)
      else if length tokens \<ge> 2 \<and> is_write_cmd (tokens ! 1) then Legacy V2
      else Legacy V1)"

definition reader_left :: "reader \<Rightarrow> nat" where
  "reader_left rd = length (rd_buf rd) - rd_pos rd + length (rd_unread rd)"

lemma fill_left: "fill rd = (ok, rd') \<Longrightarrow> reader_left rd' = reader_left rd"
  by (auto simp: fill_def Let_def reader_left_def split: if_splits)

lemma parse_filled_left:
  "parse_filled rd = (st, rd') \<Longrightarrow> reader_left rd' = reader_left rd \<and> (st \<noteq> NeedMore \<longrightarrow> parse (rd_buf rd') (rd_pos rd') = st)"
proof (induction rd rule: parse_filled.induct)
  case (1 rd)
  obtain ok rd1 where f: "fill rd = (ok, rd1)" by fastforce
  show ?case
  proof (cases "parse (rd_buf rd) (rd_pos rd) = NeedMore \<and> ok")
    case True
    then have "parse_filled rd1 = (st, rd')" using "1.prems" f by (simp add: parse_filled.simps [of rd])
    then show ?thesis using "1.IH" [OF _ f [symmetric]] True fill_left [OF f] by simp
  next
    case False
    then show ?thesis using "1.prems" f fill_left [OF f]
      by (auto simp: parse_filled.simps [of rd] split: status.splits)
  qed
qed

lemma parse_filled_advance:
  assumes "parse_filled rd = (Complete rec_end tokens, rd')"
  shows "reader_left (rd'\<lparr>rd_pos := rec_end\<rparr>) < reader_left rd"
  using parse_filled_left [OF assms] parse_Complete [of "rd_buf rd'" "rd_pos rd'" rec_end tokens]
  by (auto simp: reader_left_def)

function recover_loop :: "Fmt \<Rightarrow> bool \<Rightarrow> reader \<Rightarrow> AofRecord list \<times> disposition \<times> bool" where
  "recover_loop fmt needs rd =
     (case parse_filled rd of
        (NeedMore, rd') \<Rightarrow>
          ([], if rd_pos rd' < length (rd_buf rd') then Truncate (rd_compacted rd' + rd_pos rd') else Clean, needs)
      | (Malformed, rd') \<Rightarrow> ([], Corrupt, True)
      | (Complete rec_end tokens, rd') \<Rightarrow>
          (let rd2 = rd'\<lparr>rd_pos := rec_end\<rparr> in
           case (if fmt = Undetected then detect tokens else Legacy fmt) of
             BadHeader \<Rightarrow> ([], Corrupt, True)
           | Header \<Rightarrow> recover_loop V3 needs rd2
           | Legacy fmt' \<Rightarrow>
               (let needs' = (needs \<or> fmt = Undetected) in
                case build_record fmt' tokens of
                  None \<Rightarrow> ([], Corrupt, True)
                | Some r \<Rightarrow>
                    (case recover_loop fmt' needs' rd2 of (rs, disp, n) \<Rightarrow> (r # rs, disp, n)))))"
  by pat_completeness auto
termination
  by (relation "measure (\<lambda>(fmt, needs, rd). reader_left rd)") (auto dest: parse_filled_advance [OF sym])

declare recover_loop.simps [simp del]

definition recover :: "recover_env \<Rightarrow> aof \<Rightarrow> AofRecord list \<times> aof" where
  "recover env a =
     (let fc = file_of a in
      if fc = [] \<or> \<not> re_open env then ([], a\<lparr>replaying := False\<rparr>)
      else
        (case recover_loop Undetected False
                \<lparr>rd_buf = [], rd_pos = 0, rd_compacted = 0, rd_unread = take (re_limit env) fc\<rparr> of
           (rs, disp, needs) \<Rightarrow>
             (let a1 = a\<lparr>replaying := False, needs_rewrite := needs_rewrite a \<or> needs\<rparr> in
              (rs,
               case disp of
                 Clean \<Rightarrow> a1
               | Truncate valid_bytes \<Rightarrow> if re_trunc env then a1\<lparr>aof_file := Some (take valid_bytes fc)\<rparr> else a1
               | Corrupt \<Rightarrow> if re_rename env then a1\<lparr>aof_file := None, aof_corrupt := fc # aof_corrupt a1\<rparr> else a1))))"

section \<open>Rewriting\<close>

definition start_rewrite :: "bool \<Rightarrow> sysret list \<Rightarrow> aof \<Rightarrow> bool \<times> aof" where
  "start_rewrite open_ok wr a =
     (if rewrite_fd a then (True, a)
      else
        let a1 = a\<lparr>base_size := aof_size a\<rparr> in
        if \<not> open_ok then (False, a1)
        else
          (case write_all wr kAofHeader of
             (False, n) \<Rightarrow> (False, a1\<lparr>aof_tmp := None\<rparr>)
           | (True, n) \<Rightarrow> (True, a1\<lparr>rewrite_fd := True, aof_tmp := Some (take n kAofHeader)\<rparr>)))"

definition tmp_of :: "aof \<Rightarrow> string" where
  "tmp_of a = (case aof_tmp a of Some s \<Rightarrow> s | None \<Rightarrow> [])"

definition append_rewrite :: "sysret list \<Rightarrow> AofRecord \<Rightarrow> aof \<Rightarrow> bool \<times> aof" where
  "append_rewrite wr r a =
     (if \<not> rewrite_fd a then (False, a)
      else
        (case write_all wr (encode_record r) of
           (ok, n) \<Rightarrow> (ok, a\<lparr>aof_tmp := Some (tmp_of a @ take n (encode_record r))\<rparr>)))"

definition abort_rewrite :: "aof \<Rightarrow> aof" where
  "abort_rewrite a = a\<lparr>last_tail := 0, rewrite_fd := False, aof_tmp := None\<rparr>"

record tail_env =
  te_open :: bool
  te_read :: "nat \<Rightarrow> sysret list"
  te_write :: "nat \<Rightarrow> sysret list"

function tail_loop :: "tail_env \<Rightarrow> nat \<Rightarrow> string \<Rightarrow> nat \<Rightarrow> nat \<Rightarrow> string \<Rightarrow> bool \<times> string" where
  "tail_loop env i fc ofs end_ofs out =
     (if ofs < end_ofs then
        let n = min 65536 (end_ofs - ofs) in
        (case pread_all (te_read env i) fc n ofs of
           None \<Rightarrow> (False, out)
         | Some buf \<Rightarrow>
             (case write_all (te_write env i) buf of
                (False, w) \<Rightarrow> (False, out @ take w buf)
              | (True, w) \<Rightarrow> tail_loop env (Suc i) fc (ofs + n) end_ofs (out @ take w buf)))
      else (True, out))"
  by pat_completeness auto
termination
  by (relation "measure (\<lambda>(env, i, fc, ofs, end_ofs, out). end_ofs - ofs)") auto

declare tail_loop.simps [simp del]

definition append_tail :: "tail_env \<Rightarrow> nat \<Rightarrow> aof \<Rightarrow> bool \<times> aof" where
  "append_tail env from_ofs a =
     (if \<not> rewrite_fd a \<or> \<not> te_open env \<or> aof_file a = None then (False, a)
      else
        (case tail_loop env 0 (file_of a) from_ofs (aof_size a) (tmp_of a) of
           (ok, out) \<Rightarrow> (ok, a\<lparr>last_tail := (if aof_size a \<ge> from_ofs then aof_size a - from_ofs else 0), aof_tmp := Some out\<rparr>)))"

record commit_env =
  cm_fstat :: bool
  cm_sync :: bool
  cm_close :: bool
  cm_rename :: bool
  cm_open :: bool

definition commit_rewrite :: "commit_env \<Rightarrow> aof \<Rightarrow> bool \<times> aof" where
  "commit_rewrite env a =
     (if \<not> rewrite_fd a then (False, a)
      else
        let written = (if cm_fstat env then length (tmp_of a) else 0) in
        if \<not> cm_sync env then (False, abort_rewrite a)
        else if \<not> cm_close env then (False, a\<lparr>healthy := False, rewrite_fd := False, aof_tmp := None\<rparr>)
        else if \<not> cm_rename env then (False, a\<lparr>healthy := False, rewrite_fd := False, aof_tmp := None\<rparr>)
        else
          let snapshot = (if written \<ge> last_tail a then written - last_tail a else written)
          in (cm_open env,
              (bump_generation a)\<lparr>aof_file := Some (tmp_of a), aof_tmp := None, rewrite_fd := False, aof_fd := cm_open env,
                healthy := cm_open env, torn := False, needs_rewrite := False, aof_size := written,
                base_size := (if snapshot = 0 then 1 else snapshot), last_tail := 0,
                synced := (if cm_open env then written else 0)\<rparr>))"

section \<open>Chunked reading is invisible\<close>

fun shift :: "nat \<Rightarrow> status \<Rightarrow> status" where
  "shift n (Complete e args) = Complete (n + e) args"
| "shift n NeedMore = NeedMore"
| "shift n Malformed = Malformed"

fun hshift :: "nat \<Rightarrow> header_result \<Rightarrow> header_result" where
  "hshift n (HOk v q) = HOk v (n + q)"
| "hshift n HNeedMore = HNeedMore"
| "hshift n HMalformed = HMalformed"

lemma header_shift: "header (pre @ s) (length pre + p) c mx = hshift (length pre) (header s p c mx)"
  by (auto simp: header_def Let_def nth_append split: option.splits)

lemma parse_bulks_shift:
  "parse_bulks n (pre @ s) (length pre + p) args = shift (length pre) (parse_bulks n s p args)"
proof (induction n arbitrary: p args)
  case (Suc n)
  show ?case
  proof (cases "header s p (CHR ''$'') kMaxBulk")
    case (HOk len q)
    have "parse_bulks n (pre @ s) (length pre + (q + len + 2)) (args @ [take len (drop q s)]) =
        shift (length pre) (parse_bulks n s (q + len + 2) (args @ [take len (drop q s)]))"
      by (rule Suc.IH)
    then show ?thesis using HOk header_shift [of pre s p] by (simp add: nth_append add.assoc)
  qed (simp_all add: header_shift)
qed simp

lemma parse_shift: "parse (pre @ s) (length pre + p) = shift (length pre) (parse s p)"
  by (simp add: parse_def header_shift parse_bulks_shift split: header_result.splits)

text \<open>A reader stands for a position in the whole file.\<close>

definition reads :: "string \<Rightarrow> nat \<Rightarrow> reader \<Rightarrow> bool" where
  "reads data at rd \<longleftrightarrow>
     (\<exists>pre. data = pre @ rd_buf rd @ rd_unread rd \<and> length pre = rd_compacted rd) \<and>
     rd_pos rd \<le> length (rd_buf rd) \<and> at = rd_compacted rd + rd_pos rd"

lemma reads_fill: "reads data at rd \<Longrightarrow> fill rd = (ok, rd') \<Longrightarrow> reads data at rd' \<and> (\<not> ok \<longrightarrow> rd_unread rd' = [])"
proof -
  assume r: "reads data at rd" and f: "fill rd = (ok, rd')"
  from r obtain pre where pre: "data = pre @ rd_buf rd @ rd_unread rd" "length pre = rd_compacted rd"
    and pos: "rd_pos rd \<le> length (rd_buf rd)" "at = rd_compacted rd + rd_pos rd" by (auto simp: reads_def)
  let ?pre = "pre @ take (rd_pos rd) (rd_buf rd)"
  have len: "length ?pre = rd_compacted rd + rd_pos rd" using pre pos by simp
  have "data = ?pre @ drop (rd_pos rd) (rd_buf rd) @ rd_unread rd" using pre by simp
  then have "data = ?pre @ rd_buf rd' @ rd_unread rd'" using f by (auto simp: fill_def Let_def split: if_splits)
  then show ?thesis using f len pos(2) unfolding reads_def
    by (auto simp: fill_def Let_def split: if_splits intro!: exI [of _ ?pre])
qed

lemma reads_parse:
  assumes "reads data at rd" and "parse (rd_buf rd) (rd_pos rd) = st" and "st \<noteq> NeedMore \<or> rd_unread rd = []"
  shows "parse data at = shift (rd_compacted rd) st"
proof -
  obtain pre where pre: "data = pre @ rd_buf rd @ rd_unread rd" "length pre = rd_compacted rd" "at = length pre + rd_pos rd"
    using assms(1) by (auto simp: reads_def)
  have "parse (rd_buf rd @ rd_unread rd) (rd_pos rd) = st"
    using assms(2,3) parse_stable [OF assms(2)] by auto
  then show ?thesis using pre parse_shift [of pre "rd_buf rd @ rd_unread rd" "rd_pos rd"] by simp
qed

lemma parse_filled_reads:
  "reads data at rd \<Longrightarrow> parse_filled rd = (st, rd') \<Longrightarrow>
    reads data at rd' \<and> parse data at = shift (rd_compacted rd') st \<and> (st = NeedMore \<longrightarrow> rd_unread rd' = [])"
proof (induction rd rule: parse_filled.induct)
  case (1 rd)
  obtain ok rd1 where f: "fill rd = (ok, rd1)" by fastforce
  note r1 = reads_fill [OF "1.prems"(1) f]
  show ?case
  proof (cases "parse (rd_buf rd) (rd_pos rd) = NeedMore")
    case need: True
    show ?thesis
    proof (cases ok)
      case True
      then have "parse_filled rd1 = (st, rd')" using need "1.prems"(2) f by (simp add: parse_filled.simps [of rd])
      then show ?thesis using "1.IH" [OF need f [symmetric]] True r1 by simp
    next
      case False
      then have eqs: "st = NeedMore" "rd' = rd1" "rd_unread rd = []"
        using need "1.prems"(2) f by (auto simp: parse_filled.simps [of rd] fill_def Let_def split: if_splits)
      then show ?thesis using r1 False reads_parse [OF "1.prems"(1) need] by simp
    qed
  next
    case False
    then have "st = parse (rd_buf rd) (rd_pos rd)" "rd' = rd"
      using "1.prems"(2) by (auto simp: parse_filled.simps [of rd] split: status.splits)
    then show ?thesis using "1.prems"(1) False reads_parse [OF "1.prems"(1) refl] by simp
  qed
qed

lemma reads_advance:
  assumes "reads data at rd" and "parse data at = Complete (rd_compacted rd + e) args"
    and "e \<le> length (rd_buf rd)"
  shows "reads data (rd_compacted rd + e) (rd\<lparr>rd_pos := e\<rparr>)"
  using assms by (auto simp: reads_def)

text \<open>Recovery as one pass over the whole file.\<close>

function scan :: "Fmt \<Rightarrow> bool \<Rightarrow> string \<Rightarrow> nat \<Rightarrow> AofRecord list \<times> disposition \<times> bool" where
  "scan fmt needs data at =
     (case parse data at of
        NeedMore \<Rightarrow> ([], if at < length data then Truncate at else Clean, needs)
      | Malformed \<Rightarrow> ([], Corrupt, True)
      | Complete e tokens \<Rightarrow>
          (case (if fmt = Undetected then detect tokens else Legacy fmt) of
             BadHeader \<Rightarrow> ([], Corrupt, True)
           | Header \<Rightarrow> scan V3 needs data e
           | Legacy fmt' \<Rightarrow>
               (case build_record fmt' tokens of
                  None \<Rightarrow> ([], Corrupt, True)
                | Some r \<Rightarrow>
                    (case scan fmt' (needs \<or> fmt = Undetected) data e of (rs, disp, n) \<Rightarrow> (r # rs, disp, n)))))"
  by pat_completeness auto
termination
  by (relation "measure (\<lambda>(fmt, needs, data, at). length data - at)") (auto dest!: parse_Complete intro: diff_less_mono2)

declare scan.simps [simp del]

lemma recover_loop_scan: "reads data at rd \<Longrightarrow> recover_loop fmt needs rd = scan fmt needs data at"
proof (induction fmt needs rd arbitrary: at rule: recover_loop.induct)
  case (1 fmt needs rd)
  obtain st rd' where pf: "parse_filled rd = (st, rd')" by fastforce
  note r = parse_filled_reads [OF "1.prems" pf]
  show ?case
  proof (cases st)
    case NeedMore
    have "rd_pos rd' < length (rd_buf rd') \<longleftrightarrow> at < length data" "at = rd_compacted rd' + rd_pos rd'"
      using r NeedMore by (auto simp: reads_def)
    then show ?thesis using NeedMore r pf
      by (simp add: recover_loop.simps [of fmt needs rd] scan.simps [of fmt needs data "rd_compacted rd' + rd_pos rd'"])
  next
    case Malformed
    then show ?thesis using r pf by (simp add: recover_loop.simps [of fmt needs rd] scan.simps [of fmt needs data at])
  next
    case (Complete e tokens)
    let ?rd = "rd'\<lparr>rd_pos := e\<rparr>"
    have pd: "parse data at = Complete (rd_compacted rd' + e) tokens" using r Complete by simp
    have "e \<le> length (rd_buf rd')"
      using parse_filled_left [OF pf] Complete parse_Complete [of "rd_buf rd'" "rd_pos rd'" e tokens] by simp
    then have nxt: "reads data (rd_compacted rd' + e) ?rd" by (rule reads_advance [OF conjunct1 [OF r] pd])
    define det where "det = (if fmt = Undetected then detect tokens else Legacy fmt)"
    note unfolded = recover_loop.simps [of fmt needs rd] scan.simps [of fmt needs data at] det_def [symmetric]
    note IH = 1(1) [OF pf [symmetric] Complete refl, folded det_def, OF _ nxt]
      1(2) [OF pf [symmetric] Complete refl, folded det_def, OF _ refl _ nxt]
    show ?thesis
    proof (cases det)
      case (Legacy fmt')
      then show ?thesis using IH(2) [OF Legacy] pf Complete pd by (simp add: unfolded split: option.splits)
    qed (use IH(1) pf Complete pd in \<open>simp_all add: unfolded\<close>)
  qed
qed

section \<open>Logs\<close>

definition record_tokens :: "AofRecord \<Rightarrow> string list" where
  "record_tokens r = ar_room r # ar_args r @
     [kMetaToken, dec_int (ar_expire_at r), dec (unat (ar_timestamp_ms r)), dec (unat (ar_node_id r))]"

definition aofrec_ok :: "AofRecord \<Rightarrow> bool" where
  "aofrec_ok r \<longleftrightarrow> length (ar_args r) + 5 \<le> kMaxArgs \<and> length (ar_room r) \<le> kMaxBulk \<and>
     (\<forall>x \<in> set (ar_args r). length x \<le> kMaxBulk) \<and> i64 (ar_expire_at r)"

lemma encode_record_resp: "encode_record r = resp_encode (record_tokens r)"
proof -
  have "length (record_tokens r) = length (ar_args r) + 5" by (simp add: record_tokens_def)
  then show ?thesis by (simp only: encode_record_def resp_encode_def) (simp add: record_tokens_def)
qed

lemma kAofHeader_resp: "kAofHeader = resp_encode [kMagicToken, ''3'']"
proof -
  have d: "dec 2 = ''2''" "dec 11 = ''11''" "dec 1 = ''1''" by code_simp+
  have len: "length [kMagicToken, ''3''] = 2" "length kMagicToken = 11" "length ''3'' = 1" by (simp_all add: kMagicToken_def)
  show ?thesis unfolding resp_encode_def bulk_string_def list.map concat.simps len d
    by (simp add: kAofHeader_def kMagicToken_def)
qed

lemma length_dec_u64: "length (dec (unat (x :: u64))) \<le> 20"
  by (rule length_dec_le) (use unat_u64_less [of x] in simp_all)

lemma unat_u32_less: "unat (x :: u32) < 2 ^ 32"
  using unsigned_less [of x, where 'a = nat] by simp

lemma length_dec_u32: "length (dec (unat (x :: u32))) \<le> 10"
  by (rule length_dec_le) (use unat_u32_less [of x] in simp_all)

lemma length_dec_int: "i64 x \<Longrightarrow> length (dec_int x) \<le> 20"
  using length_dec_le [of "nat (- x)" 19] length_dec_le [of "nat x" 19] by (auto simp: dec_int_def i64_def nat_less_iff)

lemma record_tokens_bounds:
  assumes "aofrec_ok r"
  shows "length (record_tokens r) \<le> kMaxArgs" "\<forall>x \<in> set (record_tokens r). length x \<le> kMaxBulk"
proof -
  show "length (record_tokens r) \<le> kMaxArgs" using assms by (simp add: aofrec_ok_def record_tokens_def)
  have "length (dec_int (ar_expire_at r)) \<le> kMaxBulk" "length (dec (unat (ar_timestamp_ms r))) \<le> kMaxBulk"
    "length (dec (unat (ar_node_id r))) \<le> kMaxBulk" "length kMetaToken \<le> kMaxBulk"
    using assms length_dec_int [of "ar_expire_at r"] length_dec_u64 [of "ar_timestamp_ms r"] length_dec_u32 [of "ar_node_id r"]
    by (simp_all add: aofrec_ok_def kMaxBulk_def kMetaToken_def)
  then show "\<forall>x \<in> set (record_tokens r). length x \<le> kMaxBulk"
    using assms by (auto simp: aofrec_ok_def record_tokens_def)
qed

lemma build_record_tokens:
  assumes "aofrec_ok r"
  shows "build_record V3 (record_tokens r) = Some r"
proof -
  let ?n = "length (ar_args r)"
  have len: "length (record_tokens r) = ?n + 5" by (simp add: record_tokens_def)
  have nth: "record_tokens r ! (?n + 1) = kMetaToken" "record_tokens r ! (?n + 2) = dec_int (ar_expire_at r)"
    "record_tokens r ! (?n + 3) = dec (unat (ar_timestamp_ms r))" "record_tokens r ! (?n + 4) = dec (unat (ar_node_id r))"
    by (simp_all add: record_tokens_def nth_append)
  have args: "drop 1 (take (?n + 1) (record_tokens r)) = ar_args r" by (simp add: record_tokens_def)
  obtain nd :: u64 where node: "parse_u64 (dec (unat (ar_node_id r))) = Some nd" "unat nd = unat (ar_node_id r)"
    using unat_u32_less [of "ar_node_id r"] parse_u64_dec [of "unat (ar_node_id r)"]
      unat_of_nat_u64 [of "unat (ar_node_id r)"] by simp
  have fits: "\<not> unat (ar_node_id r) > 4294967295" using unat_u32_less [of "ar_node_id r"] by simp
  have idx: "?n + 5 - 4 = ?n + 1" "?n + 5 - 3 = ?n + 2" "?n + 5 - 2 = ?n + 3" "?n + 5 - 1 = ?n + 4" "\<not> ?n + 5 < 5" by simp_all
  have room: "hd (record_tokens r) = ar_room r" by (simp add: record_tokens_def)
  have ex: "parse_i64 (dec_int (ar_expire_at r)) = Some (ar_expire_at r)"
    using assms by (simp add: aofrec_ok_def parse_i64_to_string)
  show ?thesis
    unfolding build_record.simps Let_def len idx nth args ex node(1) room parse_u64_to_string
    by (simp add: node fits)
qed

definition log_image :: "AofRecord list \<Rightarrow> string" where
  "log_image rs = kAofHeader @ concat (map encode_record rs)"

lemma log_image_snoc: "log_image (rs @ [r]) = log_image rs @ encode_record r"
  by (simp add: log_image_def)

lemma encode_record_nonempty: "0 < length (encode_record r)"
  by (simp add: encode_record_def)

lemma scan_header: "scan Undetected needs (kAofHeader @ rest) 0 = scan V3 needs (kAofHeader @ rest) (length kAofHeader)"
proof -
  have "parse (kAofHeader @ rest) 0 = Complete (length kAofHeader) [kMagicToken, ''3'']"
    using parse_encoded [of "[kMagicToken, ''3'']" "[]" rest]
    by (simp add: kAofHeader_resp kMaxArgs_def kMaxBulk_def kMagicToken_def)
  moreover have "detect [kMagicToken, ''3''] = Header"
  proof -
    have "dec 3 = ''3''" by code_simp
    then have "parse_u64 ''3'' = Some 3" using parse_u64_dec [of 3] by simp
    then show ?thesis by (simp add: detect_def kAofVersion_def)
  qed
  ultimately show ?thesis by (simp add: scan.simps [of Undetected])
qed

lemma scan_record:
  assumes "aofrec_ok r"
  shows "scan V3 needs (pre @ encode_record r @ rest) (length pre) =
    (case scan V3 needs (pre @ encode_record r @ rest) (length pre + length (encode_record r)) of (rs, disp, n) \<Rightarrow> (r # rs, disp, n))"
  using parse_encoded [OF record_tokens_bounds [OF assms], of pre rest] build_record_tokens [OF assms]
  unfolding encode_record_resp
  by (simp add: scan.simps [of V3 needs "pre @ resp_encode (record_tokens r) @ rest" "length pre"] del: build_record.simps)

lemma scan_partial:
  assumes "aofrec_ok r" and "n < length (encode_record r)"
  shows "scan V3 needs (pre @ take n (encode_record r)) (length pre) = ([], if 0 < n then Truncate (length pre) else Clean, needs)"
  using parse_encoded_prefix [OF record_tokens_bounds [OF assms(1)], of n pre] assms(2)
  by (simp add: scan.simps [of V3] encode_record_resp)

lemma scan_records:
  "\<forall>x \<in> set rs. aofrec_ok x \<Longrightarrow>
    scan V3 needs (pre @ concat (map encode_record rs) @ rest) (length pre) =
    (case scan V3 needs (pre @ concat (map encode_record rs) @ rest) (length pre + length (concat (map encode_record rs))) of
       (ys, disp, n) \<Rightarrow> (rs @ ys, disp, n))"
proof (induction rs arbitrary: pre)
  case (Cons r rs)
  have "scan V3 needs ((pre @ encode_record r) @ concat (map encode_record rs) @ rest) (length (pre @ encode_record r)) =
    (case scan V3 needs ((pre @ encode_record r) @ concat (map encode_record rs) @ rest)
        (length (pre @ encode_record r) + length (concat (map encode_record rs))) of (ys, disp, n) \<Rightarrow> (rs @ ys, disp, n))"
    using Cons.prems by (intro Cons.IH) simp
  then show ?case using Cons.prems scan_record [of r needs pre "concat (map encode_record rs) @ rest"]
    by (simp add: add.assoc split: prod.splits)
qed simp

lemma scan_log:
  assumes "\<forall>x \<in> set rs. aofrec_ok x" and "aofrec_ok r" and "n < length (encode_record r)"
  shows "scan Undetected needs (log_image rs @ take n (encode_record r)) 0 =
    (rs, if 0 < n then Truncate (length (log_image rs)) else Clean, needs)"
proof -
  have "scan V3 needs (log_image rs @ take n (encode_record r)) (length (log_image rs)) =
      ([], if 0 < n then Truncate (length (log_image rs)) else Clean, needs)"
    by (rule scan_partial [OF assms(2,3)])
  then show ?thesis
    using scan_records [OF assms(1), of needs kAofHeader "take n (encode_record r)"]
      scan_header [of needs "concat (map encode_record rs) @ take n (encode_record r)"]
    by (simp add: log_image_def)
qed

section \<open>What a file cut at any byte replays\<close>

definition blank_record :: AofRecord where
  "blank_record = \<lparr>ar_room = [], ar_args = [], ar_expire_at = 0, ar_timestamp_ms = 0, ar_node_id = 1\<rparr>"

lemma blank_record_ok [simp]: "aofrec_ok blank_record"
  by (simp add: aofrec_ok_def blank_record_def kMaxArgs_def i64_def)

lemma log_image_cut:
  "\<forall>x \<in> set rs. aofrec_ok x \<Longrightarrow> length kAofHeader \<le> m \<Longrightarrow> m \<le> length (log_image rs) \<Longrightarrow>
    \<exists>k n r. k \<le> length rs \<and> aofrec_ok r \<and> n < length (encode_record r) \<and>
      take m (log_image rs) = log_image (take k rs) @ take n (encode_record r) \<and>
      length (log_image (take k rs)) \<le> m \<and> (k < length rs \<longrightarrow> m < length (log_image (take (Suc k) rs)))"
proof (induction rs rule: rev_induct)
  case Nil
  have "0 < length (encode_record blank_record)" by (rule encode_record_nonempty)
  then show ?case using Nil by (intro exI [of _ 0] exI [of _ blank_record]) (simp add: log_image_def)
next
  case (snoc x rs)
  show ?case
  proof (cases "m < length (log_image rs)")
    case True
    then obtain k n r where IH: "k \<le> length rs" "aofrec_ok r" "n < length (encode_record r)"
      "take m (log_image rs) = log_image (take k rs) @ take n (encode_record r)"
      "length (log_image (take k rs)) \<le> m" "k < length rs \<longrightarrow> m < length (log_image (take (Suc k) rs))"
      using snoc.IH snoc.prems by auto
    have "k < length rs" using IH(1,5) True by (cases "k = length rs") auto
    then show ?thesis using IH True by (intro exI [of _ k] exI [of _ n] exI [of _ r]) (simp add: log_image_snoc)
  next
    case False
    then obtain n where m: "m = length (log_image rs) + n" by (metis le_Suc_ex not_less)
    show ?thesis
    proof (cases "n < length (encode_record x)")
      case True
      then show ?thesis using snoc.prems m
        by (intro exI [of _ "length rs"] exI [of _ n] exI [of _ x]) (simp add: log_image_snoc)
    next
      case False
      then have "n = length (encode_record x)" using snoc.prems(3) m by (simp add: log_image_snoc)
      then show ?thesis using m encode_record_nonempty [of blank_record]
        by (intro exI [of _ "Suc (length rs)"] exI [of _ 0] exI [of _ blank_record]) (simp add: log_image_snoc)
    qed
  qed
qed

lemma recover_scan:
  assumes "aof_file a = Some fc" and "fc \<noteq> []" and "re_open env" and "length fc \<le> re_limit env"
    and "scan Undetected False fc 0 = (rs, disp, needs)"
  shows "recover env a = (rs, let a1 = a\<lparr>replaying := False, needs_rewrite := needs_rewrite a \<or> needs\<rparr> in
    case disp of
      Clean \<Rightarrow> a1
    | Truncate valid_bytes \<Rightarrow> if re_trunc env then a1\<lparr>aof_file := Some (take valid_bytes fc)\<rparr> else a1
    | Corrupt \<Rightarrow> if re_rename env then a1\<lparr>aof_file := None, aof_corrupt := fc # aof_corrupt a1\<rparr> else a1)"
proof -
  let ?rd = "\<lparr>rd_buf = [], rd_pos = 0, rd_compacted = 0, rd_unread = fc\<rparr>"
  have "reads fc 0 ?rd" by (simp add: reads_def)
  then have "recover_loop Undetected False ?rd = (rs, disp, needs)" using recover_loop_scan assms(5) by simp
  then show ?thesis using assms(1-4) by (simp add: recover_def file_of_def Let_def)
qed

lemma recover_log:
  assumes "\<forall>x \<in> set rs. aofrec_ok x" and "aofrec_ok r" and "n < length (encode_record r)"
    and "aof_file a = Some (log_image rs @ take n (encode_record r))"
    and "re_open env" and "length (file_of a) \<le> re_limit env"
  shows "recover env a = (rs, a\<lparr>replaying := False,
      aof_file := Some (if re_trunc env then log_image rs else log_image rs @ take n (encode_record r))\<rparr>)"
proof -
  have ne: "log_image rs @ take n (encode_record r) \<noteq> []" by (simp add: log_image_def kAofHeader_def)
  have lim: "length (log_image rs @ take n (encode_record r)) \<le> re_limit env" using assms(4,6) by (simp add: file_of_def)
  show ?thesis using recover_scan [OF assms(4) ne assms(5) lim scan_log [OF assms(1-3)]] assms(4) by (cases a) (auto simp: Let_def)
qed

lemma recover_header_cut:
  assumes "aof_file a = Some (take m kAofHeader)" and "m < length kAofHeader" and "re_open env"
    and "length (file_of a) \<le> re_limit env"
  shows "fst (recover env a) = [] \<and> (re_trunc env \<longrightarrow> file_of (snd (recover env a)) = [])"
proof (cases "m = 0")
  case True
  then show ?thesis using assms(1) by (simp add: recover_def file_of_def)
next
  case False
  have "parse (take m kAofHeader) 0 = NeedMore"
    using parse_encoded_prefix [of "[kMagicToken, ''3'']" m "[]"] assms(2)
    by (simp add: kAofHeader_resp kMaxArgs_def kMaxBulk_def kMagicToken_def)
  then have sc: "scan Undetected False (take m kAofHeader) 0 = ([], Truncate 0, False)"
    using False assms(2) by (simp add: scan.simps)
  have ne: "take m kAofHeader \<noteq> []" using False by (simp add: kAofHeader_def)
  have lim: "length (take m kAofHeader) \<le> re_limit env" using assms(1,4) by (simp add: file_of_def)
  show ?thesis using recover_scan [OF assms(1) ne assms(3) lim sc] by (simp add: Let_def file_of_def)
qed

text \<open>A record with more tokens than the parser accepts.\<close>

lemma parse_oversized:
  assumes "length (ar_args r) \<le> kMaxArgs" and "kMaxArgs < length (ar_args r) + 5"
  shows "parse (pre @ encode_record r @ rest) (length pre) = Malformed"
proof -
  let ?n = "length (ar_args r) + 5"
  obtain tl where tl: "encode_record r = CHR ''*'' # dec ?n @ CRLF @ tl" by (simp add: encode_record_def)
  have "drop (length pre) (pre @ encode_record r @ rest) = CHR ''*'' # dec ?n @ CRLF @ (tl @ rest)" unfolding tl by simp
  moreover have "?n \<le> kMaxBulk" using assms(1) by (simp add: kMaxArgs_def kMaxBulk_def)
  ultimately have "header (pre @ encode_record r @ rest) (length pre) (CHR ''*'') kMaxArgs = HMalformed"
    using header_number [of "length pre" "pre @ encode_record r @ rest" "CHR ''*''" ?n "tl @ rest" kMaxArgs] assms(2) by simp
  then show ?thesis by (simp add: parse_def)
qed

lemma scan_oversized:
  assumes "\<forall>x \<in> set rs. aofrec_ok x" and "length (ar_args r) \<le> kMaxArgs" and "kMaxArgs < length (ar_args r) + 5"
  shows "scan Undetected needs (log_image rs @ encode_record r @ later) 0 = (rs, Corrupt, True)"
proof -
  have "scan V3 needs (log_image rs @ encode_record r @ later) (length (log_image rs)) = ([], Corrupt, True)"
    using parse_oversized [OF assms(2,3), of "log_image rs" later] by (simp add: scan.simps)
  then show ?thesis
    using scan_records [OF assms(1), of needs kAofHeader "encode_record r @ later"]
      scan_header [of needs "concat (map encode_record rs) @ encode_record r @ later"]
    by (simp add: log_image_def)
qed

section \<open>The log invariant\<close>

definition log_ok :: "aof \<Rightarrow> AofRecord list \<Rightarrow> bool" where
  "log_ok a rs \<longleftrightarrow>
     aof_size a = length (log_image rs) \<and> (\<forall>x \<in> set rs. aofrec_ok x) \<and> \<not> replaying a \<and>
     (\<exists>n r. aofrec_ok r \<and> n < length (encode_record r) \<and>
        aof_file a = Some (log_image rs @ take n (encode_record r)) \<and> (\<not> torn a \<longrightarrow> n = 0))"

lemma log_ok_clean: "log_ok a rs \<Longrightarrow> \<not> torn a \<Longrightarrow> aof_file a = Some (log_image rs)"
  by (auto simp: log_ok_def)

lemma log_ok_cong:
  "log_ok a rs \<Longrightarrow> aof_size b = aof_size a \<Longrightarrow> replaying b = replaying a \<Longrightarrow> aof_file b = aof_file a \<Longrightarrow> torn b = torn a \<Longrightarrow>
    log_ok b rs"
  by (simp add: log_ok_def)

lemma log_ok_frame [simp, frame_simps]:
  "log_ok (a\<lparr>aof_tmp := x\<rparr>) rs = log_ok a rs" "log_ok (a\<lparr>last_tail := n\<rparr>) rs = log_ok a rs"
  "log_ok (a\<lparr>rewrite_fd := b\<rparr>) rs = log_ok a rs" "log_ok (a\<lparr>base_size := n\<rparr>) rs = log_ok a rs"
  "log_ok (a\<lparr>healthy := b\<rparr>) rs = log_ok a rs" "log_ok (a\<lparr>synced := n\<rparr>) rs = log_ok a rs"
  by (simp_all add: log_ok_def)

lemma log_ok_intro:
  "aof_file a = Some (log_image rs) \<Longrightarrow> aof_size a = length (log_image rs) \<Longrightarrow> \<forall>x \<in> set rs. aofrec_ok x \<Longrightarrow> \<not> replaying a \<Longrightarrow>
    log_ok a rs"
  unfolding log_ok_def using encode_record_nonempty [of blank_record] by (auto intro!: exI [of _ 0] exI [of _ blank_record])

text \<open>One append: the record is in the log or the log is as before, whatever the system calls do.\<close>

lemma append_log:
  assumes ok: "log_ok a rs" and r: "aofrec_ok r" and run: "append env r a = (ack, a')"
  shows "(ack \<longrightarrow> log_ok a' (rs @ [r])) \<and>
    (\<not> ack \<longrightarrow> log_ok a' rs \<or> log_ok a' (rs @ [r]) \<and> sync_policy a = Always \<and> \<not> ae_sync env) \<and> sync_policy a' = sync_policy a"
proof (cases "torn a \<or> append_fd (ae_open env) a = None")
  case True
  then have "\<not> ack \<and> (a' = a \<or> a' = a\<lparr>healthy := False\<rparr>)"
    using run by (auto simp: append_def split: if_splits)
  then show ?thesis using ok by (auto intro: log_ok_cong)
next
  case False
  have rep: "\<not> replaying a" and fc: "aof_file a = Some (log_image rs)" and rsok: "\<forall>x \<in> set rs. aofrec_ok x"
    and sz: "aof_size a = length (log_image rs)" using ok False log_ok_clean by (auto simp: log_ok_def)
  obtain a1 where fd: "append_fd (ae_open env) a = Some a1" using False by auto
  have a1: "aof_file a1 = Some (log_image rs)" "aof_size a1 = aof_size a" "replaying a1 = replaying a" "torn a1 = torn a"
    "sync_policy a1 = sync_policy a" "file_of a1 = log_image rs"
    using fc fd by (auto simp: append_fd_def bump_generation_def file_of_def split: if_splits)
  obtain w n where wr: "write_all (ae_write env) (encode_record r) = (w, n)" by fastforce
  note unfolded = append_def Let_def fd wr
  show ?thesis
  proof (cases w)
    case True
    let ?a2 = "a1\<lparr>aof_file := Some (log_image rs @ encode_record r), aof_size := aof_size a1 + length (encode_record r)\<rparr>"
    have "n = length (encode_record r)" using wr True by (auto dest: write_all_True)
    then have eqs: "(ack, a') = (if sync_policy a = Always then sync_locked (ae_sync env) ?a2 else (True, ?a2))"
      using run False rep True a1 by (auto simp: unfolded split: if_splits)
    have "log_ok ?a2 (rs @ [r])"
      by (rule log_ok_intro) (use a1 sz rep r rsok in \<open>auto simp: log_image_snoc\<close>)
    then show ?thesis using eqs a1 by (auto simp: sync_locked_def split: if_splits intro: log_ok_cong)
  next
    case no: False
    have n: "n < length (encode_record r)" using wr no by (auto dest: write_all_False)
    have eqs: "\<not> ack" "torn a' = (n > 0 \<and> \<not> ae_trunc env)" "aof_size a' = aof_size a" "replaying a' = replaying a"
      "aof_file a' = Some (if n > 0 \<and> \<not> ae_trunc env then log_image rs @ take n (encode_record r) else log_image rs)"
      "sync_policy a' = sync_policy a"
      using run False rep no a1 by (auto simp: unfolded bump_generation_def)
    have "log_ok a' rs" unfolding log_ok_def
    proof (intro conjI)
      show "\<exists>k x. aofrec_ok x \<and> k < length (encode_record x) \<and>
          aof_file a' = Some (log_image rs @ take k (encode_record x)) \<and> (\<not> torn a' \<longrightarrow> k = 0)"
        using r n eqs(2,5) by (intro exI [of _ "if torn a' then n else 0"] exI [of _ r]) auto
    qed (use eqs sz rep rsok in auto)
    then show ?thesis using eqs by simp
  qed
qed

fun run_appends :: "(append_env \<times> AofRecord) list \<Rightarrow> aof \<Rightarrow> AofRecord list \<times> aof" where
  "run_appends [] a = ([], a)"
| "run_appends ((env, r) # xs) a =
     (case append env r a of
        (ack, a1) \<Rightarrow> (case run_appends xs a1 of (acked, a2) \<Rightarrow> (if ack then r # acked else acked, a2)))"

lemma run_appends_log:
  "log_ok a rs \<Longrightarrow> \<forall>(env, r) \<in> set xs. aofrec_ok r \<Longrightarrow> run_appends xs a = (acked, a') \<Longrightarrow>
    \<exists>new. log_ok a' (rs @ new) \<and> subseq acked new \<and> subseq new (map snd xs)"
proof (induction xs arbitrary: a rs acked)
  case Nil
  then show ?case by (intro exI [of _ "[]"]) simp
next
  case (Cons x xs)
  obtain env r where x: "x = (env, r)" by fastforce
  obtain ack a1 where ap: "append env r a = (ack, a1)" by fastforce
  obtain acked1 where run: "run_appends xs a1 = (acked1, a')" "acked = (if ack then r # acked1 else acked1)"
    using Cons.prems(3) by (auto simp: x ap split: prod.splits)
  have ok: "aofrec_ok r" "\<forall>(env, r) \<in> set xs. aofrec_ok r" using Cons.prems(2) by (auto simp: x)
  note step = append_log [OF Cons.prems(1) ok(1) ap]
  show ?case
  proof (cases "log_ok a1 (rs @ [r])")
    case True
    obtain new where "log_ok a' ((rs @ [r]) @ new) \<and> subseq acked1 new \<and> subseq new (map snd xs)"
      using Cons.IH [OF True ok(2) run(1)] by blast
    then show ?thesis using run(2) by (intro exI [of _ "r # new"]) (auto simp: x)
  next
    case False
    then have "\<not> ack" "log_ok a1 rs" using step by auto
    then show ?thesis using Cons.IH [OF _ ok(2) run(1)] run(2) by (auto simp: x)
  qed
qed

section \<open>Rewriting the log\<close>

lemma tail_loop_ok:
  "tail_loop env i fc ofs end_ofs out = (True, out') \<Longrightarrow> out' = out @ take (end_ofs - ofs) (drop ofs fc)"
proof (induction env i fc ofs end_ofs out rule: tail_loop.induct)
  case (1 env i fc ofs end_ofs out)
  show ?case
  proof (cases "ofs < end_ofs")
    case False
    then show ?thesis using "1.prems" by (simp add: tail_loop.simps [of env i fc ofs])
  next
    case True
    define n where "n = min 65536 (end_ofs - ofs)"
    obtain buf where rd: "pread_all (te_read env i) fc n ofs = Some buf"
      using "1.prems" True by (auto simp: tail_loop.simps [of env i fc ofs] n_def Let_def split: option.splits)
    obtain w where wr: "write_all (te_write env i) buf = (True, w)"
      using "1.prems" True rd by (auto simp: tail_loop.simps [of env i fc ofs] n_def Let_def split: prod.splits bool.splits)
    have "take w buf = buf" by (simp add: write_all_True [OF wr])
    also have "\<dots> = take n (drop ofs fc)" by (rule conjunct2 [OF pread_all_Some [OF rd]])
    finally have buf: "take w buf = take n (drop ofs fc)" .
    have "tail_loop env (Suc i) fc (ofs + n) end_ofs (out @ take w buf) = (True, out')"
      using "1.prems" True rd wr by (simp add: tail_loop.simps [of env i fc ofs] n_def Let_def)
    then have "out' = (out @ take w buf) @ take (end_ofs - (ofs + n)) (drop (ofs + n) fc)"
      using "1.IH" [OF True n_def rd wr [symmetric] refl] by blast
    moreover have "end_ofs - ofs = n + (end_ofs - (ofs + n))" by (simp add: n_def)
    ultimately show ?thesis using buf take_add [of n "end_ofs - (ofs + n)" "drop ofs fc"] by (simp add: add.commute)
  qed
qed

text \<open>A rewrite in progress: the temporary file is the image of some records.\<close>

definition rewriting :: "aof \<Rightarrow> AofRecord list \<Rightarrow> bool" where
  "rewriting a img \<longleftrightarrow> rewrite_fd a \<and> aof_tmp a = Some (log_image img) \<and> (\<forall>x \<in> set img. aofrec_ok x)"

lemma start_rewrite_log:
  assumes "start_rewrite open_ok wr a = (ok, a')" and "\<not> rewrite_fd a"
  shows "(log_ok a rs \<longrightarrow> log_ok a' rs) \<and> (ok \<longrightarrow> rewriting a' [])"
  using assms by (auto simp: start_rewrite_def rewriting_def log_image_def Let_def
      split: if_splits prod.splits bool.splits dest: write_all_True)

lemma append_rewrite_log:
  assumes "append_rewrite wr r a = (ok, a')" and "rewriting a img" and "aofrec_ok r"
  shows "(log_ok a rs \<longrightarrow> log_ok a' rs) \<and> (ok \<longrightarrow> rewriting a' (img @ [r]))"
  using assms by (auto simp: append_rewrite_def rewriting_def log_image_snoc tmp_of_def
      split: prod.splits dest: write_all_True)

lemma append_tail_log:
  assumes "append_tail env (length (log_image old)) a = (ok, a')" and "rewriting a img" and "log_ok a (old @ new)"
  shows "log_ok a' (old @ new) \<and> (ok \<longrightarrow> rewriting a' (img @ new))"
proof
  show "log_ok a' (old @ new)" using assms(1,3) by (auto simp: append_tail_def split: if_splits prod.splits)
  show "ok \<longrightarrow> rewriting a' (img @ new)"
  proof
    assume ok
    then obtain out where run: "tail_loop env 0 (file_of a) (length (log_image old)) (aof_size a) (tmp_of a) = (True, out)"
      and a': "aof_tmp a' = Some out" "rewrite_fd a'"
      using assms(1) by (auto simp: append_tail_def split: if_splits prod.splits)
    obtain junk where fc: "file_of a = log_image (old @ new) @ junk" using assms(3) by (auto simp: log_ok_def file_of_def)
    have "aof_size a = length (log_image (old @ new))" and newok: "\<forall>x \<in> set new. aofrec_ok x"
      using assms(3) by (auto simp: log_ok_def)
    then have "take (aof_size a - length (log_image old)) (drop (length (log_image old)) (file_of a)) = concat (map encode_record new)"
      by (simp add: fc log_image_def)
    then show "rewriting a' (img @ new)"
      using tail_loop_ok [OF run] assms(2) a' newok by (auto simp: rewriting_def tmp_of_def log_image_def)
  qed
qed

lemma commit_rewrite_log:
  assumes "commit_rewrite env a = (ok, a')" and "rewriting a img" and "log_ok a rs" and "cm_fstat env"
  shows "(ok \<longrightarrow> log_ok a' img \<and> \<not> torn a' \<and> aof_fd a' \<and> synced a' = aof_size a') \<and>
    (\<not> ok \<longrightarrow> log_ok a' rs \<or> (log_ok a' img \<and> \<not> aof_fd a')) \<and> \<not> rewrite_fd a'"
proof -
  have tmp: "tmp_of a = log_image img" "\<forall>x \<in> set img. aofrec_ok x" and rep: "\<not> replaying a"
    using assms(2,3) by (auto simp: rewriting_def tmp_of_def log_ok_def)
  have new: "log_ok a' img" if "aof_file a' = Some (log_image img)" "aof_size a' = length (log_image img)" "\<not> replaying a'"
    by (rule log_ok_intro) (use that tmp in auto)
  show ?thesis
  proof (cases "cm_sync env \<and> cm_close env \<and> cm_rename env")
    case True
    then have eqs: "ok = cm_open env" "aof_file a' = Some (log_image img)" "aof_size a' = length (log_image img)"
      "\<not> replaying a'" "\<not> torn a'" "aof_fd a' = cm_open env" "\<not> rewrite_fd a'"
      "cm_open env \<Longrightarrow> synced a' = aof_size a'"
      using assms(1,2,4) tmp rep by (auto simp: commit_rewrite_def Let_def rewriting_def bump_generation_def)
    then show ?thesis using new by auto
  next
    case False
    then show ?thesis using assms(1-3)
      by (auto simp: commit_rewrite_def Let_def rewriting_def abort_rewrite_def split: if_splits)
  qed
qed

section \<open>Background synchronisation\<close>

text \<open>
  The sync thread captures a generation and an offset under the lock, syncs a duplicate of the
  descriptor without it, and takes the lock again to record the result, while appends and commits
  go on. The world adds what the program does not store: which file (inode) the log currently is
  and how long the prefix is that is known to be on stable storage, for each file ever used. A failed
  duplication of the descriptor ends an attempt without any effect. The runs begin with the log open: \<^verbatim>\<open>open_file\<close>
  precedes the thread and counts what the file already held as synced.
\<close>

record sync_job =
  job_generation :: nat
  job_offset :: nat
  job_inode :: nat

record sync_world =
  w_aof :: aof
  w_inode :: nat
  w_durable :: "nat \<Rightarrow> nat"
  w_job :: "sync_job option"

definition sync_capture :: "nat \<Rightarrow> aof \<Rightarrow> sync_job option" where
  "sync_capture inode a =
     (if aof_fd a \<and> aof_size a > synced a
      then Some \<lparr>job_generation = generation a, job_offset = aof_size a, job_inode = inode\<rparr> else None)"

definition sync_finish :: "bool \<Rightarrow> sync_job \<Rightarrow> aof \<Rightarrow> aof" where
  "sync_finish ok job a =
     (if job_generation job = generation a then
        (if \<not> ok then a\<lparr>healthy := False\<rparr>
         else if job_offset job > synced a then a\<lparr>synced := job_offset job\<rparr> else a)
      else a)"

inductive sync_step :: "sync_world \<Rightarrow> sync_world \<Rightarrow> bool" where
  step_append:
    "append env r (w_aof w) = (ack, a') \<Longrightarrow>
     sync_step w (w\<lparr>w_aof := a', w_durable :=
       (if ack \<and> sync_policy (w_aof w) = Always then (w_durable w)(w_inode w := aof_size a') else w_durable w)\<rparr>)"
| step_capture:
    "w_job w = None \<Longrightarrow> sync_capture (w_inode w) (w_aof w) = Some job \<Longrightarrow> sync_step w (w\<lparr>w_job := Some job\<rparr>)"
| step_finish:
    "w_job w = Some job \<Longrightarrow>
     sync_step w (w\<lparr>w_job := None, w_aof := sync_finish ok job (w_aof w), w_durable :=
       (if ok then (w_durable w)(job_inode job := max (w_durable w (job_inode job)) (job_offset job)) else w_durable w)\<rparr>)"
| step_no_dup: "w_job w = Some job \<Longrightarrow> sync_step w (w\<lparr>w_job := None\<rparr>)"
| step_start: "start_rewrite open_ok wr (w_aof w) = (ok, a') \<Longrightarrow> sync_step w (w\<lparr>w_aof := a'\<rparr>)"
| step_record: "append_rewrite wr r (w_aof w) = (ok, a') \<Longrightarrow> sync_step w (w\<lparr>w_aof := a'\<rparr>)"
| step_tail: "append_tail tenv n (w_aof w) = (ok, a') \<Longrightarrow> sync_step w (w\<lparr>w_aof := a'\<rparr>)"
| step_abort: "sync_step w (w\<lparr>w_aof := abort_rewrite (w_aof w)\<rparr>)"
| step_commit_fails:
    "commit_rewrite env (w_aof w) = (ok, a') \<Longrightarrow> \<not> (cm_sync env \<and> cm_close env \<and> cm_rename env) \<Longrightarrow>
     sync_step w (w\<lparr>w_aof := a'\<rparr>)"
| step_commit:
    "rewrite_fd (w_aof w) \<Longrightarrow> commit_rewrite env (w_aof w) = (ok, a') \<Longrightarrow> cm_sync env \<Longrightarrow> cm_close env \<Longrightarrow> cm_rename env \<Longrightarrow>
     sync_step w (w\<lparr>w_aof := a', w_inode := Suc (w_inode w),
       w_durable := (w_durable w)(Suc (w_inode w) := length (tmp_of (w_aof w)))\<rparr>)"

definition sync_inv :: "sync_world \<Rightarrow> bool" where
  "sync_inv w \<longleftrightarrow>
     synced (w_aof w) \<le> w_durable w (w_inode w) \<and> synced (w_aof w) \<le> aof_size (w_aof w) \<and>
     (\<forall>job. w_job w = Some job \<longrightarrow> job_generation job \<le> generation (w_aof w) \<and>
        (job_generation job = generation (w_aof w) \<longrightarrow> job_inode job = w_inode w \<and> job_offset job \<le> aof_size (w_aof w)))"

text \<open>What an append does to the fields of the protocol: the same generation, or a new one.\<close>

lemma append_sync_fields:
  assumes "append env r a = (ack, a')"
  shows "generation a \<le> generation a' \<and> aof_size a \<le> aof_size a' \<and>
    (synced a' = synced a \<or> synced a' = 0 \<or> (ack \<and> sync_policy a = Always \<and> synced a' = aof_size a'))"
  using assms by (auto simp: append_def append_fd_def sync_locked_def bump_generation_def Let_def
      split: if_splits prod.splits bool.splits option.splits)

lemma rewrite_sync_fields:
  "start_rewrite b wr a = (ok, a') \<Longrightarrow> generation a' = generation a \<and> aof_size a' = aof_size a \<and> synced a' = synced a"
  "append_rewrite wr r a = (ok, a') \<Longrightarrow> generation a' = generation a \<and> aof_size a' = aof_size a \<and> synced a' = synced a"
  "append_tail tenv n a = (ok, a') \<Longrightarrow> generation a' = generation a \<and> aof_size a' = aof_size a \<and> synced a' = synced a"
  "commit_rewrite env a = (ok, a') \<Longrightarrow> \<not> (cm_sync env \<and> cm_close env \<and> cm_rename env) \<Longrightarrow>
     generation a' = generation a \<and> aof_size a' = aof_size a \<and> synced a' = synced a"
  by (auto simp: start_rewrite_def append_rewrite_def append_tail_def commit_rewrite_def abort_rewrite_def Let_def
      split: if_splits prod.splits bool.splits)

lemma sync_inv_frame:
  "sync_inv w \<Longrightarrow> generation a' = generation (w_aof w) \<and> aof_size a' = aof_size (w_aof w) \<and> synced a' = synced (w_aof w) \<Longrightarrow>
    sync_inv (w\<lparr>w_aof := a'\<rparr>)"
  by (simp add: sync_inv_def)

lemma sync_step_inv: "sync_step w w' \<Longrightarrow> sync_inv w \<Longrightarrow> sync_inv w'"
proof (induction rule: sync_step.induct)
  case (step_append env r w ack a')
  let ?w = "w\<lparr>w_aof := a', w_durable :=
    (if ack \<and> sync_policy (w_aof w) = Always then (w_durable w)(w_inode w := aof_size a') else w_durable w)\<rparr>"
  note f = append_sync_fields [OF step_append(1)]
  have old: "synced (w_aof w) \<le> w_durable w (w_inode w)" "synced (w_aof w) \<le> aof_size (w_aof w)"
    using step_append(2) by (simp_all add: sync_inv_def)
  have "synced a' \<le> aof_size a'" using f old(2) by auto
  moreover have "synced a' \<le> w_durable ?w (w_inode ?w)" using f old(1) calculation by auto
  moreover have "job_generation job \<le> generation a' \<and>
      (job_generation job = generation a' \<longrightarrow> job_inode job = w_inode w \<and> job_offset job \<le> aof_size a')"
    if "w_job w = Some job" for job
  proof -
    have "job_generation job \<le> generation (w_aof w) \<and>
      (job_generation job = generation (w_aof w) \<longrightarrow> job_inode job = w_inode w \<and> job_offset job \<le> aof_size (w_aof w))"
      using step_append(2) that by (simp add: sync_inv_def)
    then show ?thesis using f by auto
  qed
  ultimately show ?case by (simp add: sync_inv_def)
next
  case (step_capture w job)
  then show ?case by (auto simp: sync_inv_def sync_capture_def split: if_splits)
next
  case (step_finish w job ok)
  have inv: "synced (w_aof w) \<le> w_durable w (w_inode w)" "synced (w_aof w) \<le> aof_size (w_aof w)"
    "job_generation job = generation (w_aof w) \<Longrightarrow> job_inode job = w_inode w \<and> job_offset job \<le> aof_size (w_aof w)"
    using step_finish by (simp_all add: sync_inv_def)
  let ?a = "sync_finish ok job (w_aof w)"
  have "synced ?a \<le> aof_size ?a" using inv by (simp add: sync_finish_def)
  moreover have "synced ?a \<le> (if ok then (w_durable w)(job_inode job := max (w_durable w (job_inode job)) (job_offset job))
      else w_durable w) (w_inode w)"
  proof (cases "job_generation job = generation (w_aof w)")
    case True
    then have "job_inode job = w_inode w" using inv(3) by simp
    then show ?thesis using inv(1) True by (cases ok) (simp_all add: sync_finish_def)
  next
    case False
    then show ?thesis using inv(1) by (cases "w_inode w = job_inode job") (simp_all add: sync_finish_def le_max_iff_disj)
  qed
  ultimately show ?case by (simp add: sync_inv_def)
next
  case (step_no_dup w job)
  then show ?case by (simp add: sync_inv_def)
next
  case (step_commit w env ok a')
  then show ?case by (auto simp: sync_inv_def commit_rewrite_def Let_def bump_generation_def)
qed (auto intro!: sync_inv_frame dest: rewrite_sync_fields simp: abort_rewrite_def)

section \<open>Properties\<close>

text \<open>
  C18. Crash recovery is exact. For a version 3 log cut at any byte, as a crash or lost page cache
  leaves it, recovery (through its 64 KiB buffer) replays in order exactly the records whose last
  byte survived, with every field as written, and cuts the file back to those records, so that
  later appends start at a record boundary.
\<close>

theorem recover_after_cut:
  assumes "\<forall>x \<in> set rs. aofrec_ok x" and "m \<le> length (log_image rs)"
    and "aof_file a = Some (take m (log_image rs))" and "re_open env" and "m \<le> re_limit env" and "re_trunc env"
  shows "\<exists>k \<le> length rs. fst (recover env a) = take k rs \<and>
    (k = 0 \<or> length (log_image (take k rs)) \<le> m) \<and> (k < length rs \<longrightarrow> m < length (log_image (take (Suc k) rs))) \<and>
    file_of (snd (recover env a)) = (if m < length kAofHeader then [] else log_image (take k rs))"
proof (cases "m < length kAofHeader")
  case True
  then have cut: "take m (log_image rs) = take m kAofHeader" by (simp add: log_image_def)
  have "m < length (log_image (take (Suc 0) rs))" using True by (simp add: log_image_def)
  moreover have "length (file_of a) \<le> re_limit env" using assms(3,5) by (simp add: file_of_def)
  ultimately show ?thesis using recover_header_cut [of a m env] assms(3,4,6) True cut by (intro exI [of _ 0]) simp
next
  case False
  then have "length kAofHeader \<le> m" by simp
  from log_image_cut [OF assms(1) this assms(2)] obtain k n r where
    k: "k \<le> length rs" "aofrec_ok r" "n < length (encode_record r)"
      "take m (log_image rs) = log_image (take k rs) @ take n (encode_record r)"
      "length (log_image (take k rs)) \<le> m" "k < length rs \<longrightarrow> m < length (log_image (take (Suc k) rs))" by blast
  have ok: "\<forall>x \<in> set (take k rs). aofrec_ok x" using assms(1) by (auto dest: in_set_takeD)
  have lim: "length (file_of a) \<le> re_limit env" using assms(3,5) by (simp add: file_of_def)
  have "recover env a = (take k rs, a\<lparr>replaying := False, aof_file := Some (log_image (take k rs))\<rparr>)"
    using recover_log [OF ok k(2,3) assms(3) [unfolded k(4)] assms(4) lim] assms(6) by simp
  then show ?thesis using k False by (intro exI [of _ k]) (simp add: file_of_def)
qed

definition ex_set :: AofRecord where
  "ex_set = \<lparr>ar_room = ''SET'', ar_args = [''SET'', ''k'', ''v''], ar_expire_at = - 1, ar_timestamp_ms = 77, ar_node_id = 2\<rparr>"

lemma ex_set_ok: "aofrec_ok ex_set"
  by (simp add: aofrec_ok_def ex_set_def kMaxArgs_def kMaxBulk_def i64_def)

theorem recover_after_cut_witness:
  "\<exists>k \<le> 1. fst (recover \<lparr>re_open = True, re_limit = 50, re_trunc = True, re_rename = True\<rparr>
       (aof_init Everysec 0 (Some (take 40 (log_image [ex_set]))))) = take k [ex_set] \<and> (k < 1 \<longrightarrow> 40 < length (log_image [ex_set]))"
proof -
  have "40 \<le> length (log_image [ex_set])"
    by (simp add: log_image_def kAofHeader_def encode_record_def bulk_string_def ex_set_def kMetaToken_def)
  then show ?thesis
    using recover_after_cut [of "[ex_set]" 40 "aof_init Everysec 0 (Some (take 40 (log_image [ex_set])))"
        "\<lparr>re_open = True, re_limit = 50, re_trunc = True, re_rename = True\<rparr>"] ex_set_ok
    by (auto simp: aof_init_def)
qed

text \<open>
  C19. Acknowledged writes survive. Over any sequence of appends in which opens, writes, truncations
  and syncs may fail or be cut short at any point, the records replayed after a restart start with
  the earlier history, contain every acknowledged record in order, and contain nothing that was
  not appended: a torn write never makes a later record unreadable. The records are within the limits of the
  parser (\<open>aofrec_ok\<close>); what a larger one does is \<open>oversized_record_stops_replay\<close>.
\<close>

theorem acknowledged_survive:
  assumes "log_ok a rs" and "\<forall>(env, r) \<in> set xs. aofrec_ok r" and "run_appends xs a = (acked, a')"
    and "re_open renv" and "length (file_of a') \<le> re_limit renv"
  shows "\<exists>new. fst (recover renv (aof_init policy mn (aof_file a'))) = rs @ new \<and>
    subseq acked new \<and> subseq new (map snd xs)"
proof -
  obtain new where new: "log_ok a' (rs @ new)" "subseq acked new" "subseq new (map snd xs)"
    using run_appends_log [OF assms(1-3)] by blast
  obtain n r where tail: "aofrec_ok r" "n < length (encode_record r)"
    "aof_file a' = Some (log_image (rs @ new) @ take n (encode_record r))" and ok: "\<forall>x \<in> set (rs @ new). aofrec_ok x"
    using new(1) by (auto simp: log_ok_def)
  let ?b = "aof_init policy mn (aof_file a')"
  have "aof_file ?b = Some (log_image (rs @ new) @ take n (encode_record r))" "length (file_of ?b) \<le> re_limit renv"
    using tail(3) assms(5) by (simp_all add: aof_init_def file_of_def)
  from recover_log [OF ok tail(1,2) this(1) assms(4) this(2)] show ?thesis using new by auto
qed

definition ex_aof :: aof where
  "ex_aof = (aof_init Everysec 0 (Some kAofHeader))\<lparr>replaying := False, aof_fd := True, aof_size := length kAofHeader\<rparr>"

lemma ex_aof_ok: "log_ok ex_aof []"
  by (rule log_ok_intro) (simp_all add: ex_aof_def aof_init_def log_image_def)

theorem acknowledged_survive_witness:
  "let torn_write = \<lparr>ae_open = True, ae_write = [Ret 9, Fail], ae_trunc = True, ae_sync = True\<rparr>;
       good_write = \<lparr>ae_open = True, ae_write = [Ret 500], ae_trunc = True, ae_sync = True\<rparr>;
       (acked, a') = run_appends [(torn_write, ex_set), (good_write, ex_set)] ex_aof
   in \<exists>new. fst (recover \<lparr>re_open = True, re_limit = length (file_of a'), re_trunc = True, re_rename = True\<rparr>
          (aof_init Everysec 0 (aof_file a'))) = new \<and> subseq acked new \<and> subseq new [ex_set, ex_set]"
proof -
  let ?xs = "[(\<lparr>ae_open = True, ae_write = [Ret 9, Fail], ae_trunc = True, ae_sync = True\<rparr>, ex_set),
    (\<lparr>ae_open = True, ae_write = [Ret 500], ae_trunc = True, ae_sync = True\<rparr>, ex_set)]"
  obtain acked a' where run: "run_appends ?xs ex_aof = (acked, a')" by fastforce
  have "\<forall>(env, r) \<in> set ?xs. aofrec_ok r" using ex_set_ok by simp
  from acknowledged_survive [OF ex_aof_ok this run, of "\<lparr>re_open = True, re_limit = length (file_of a'), re_trunc = True, re_rename = True\<rparr>"]
  show ?thesis unfolding Let_def run by simp
qed

text \<open>
  A record survives the log format: the parser applied to the encoded record, followed by
  anything, returns a token list from which exactly the same record is rebuilt, whatever the room
  is called and whatever bytes the arguments contain.
\<close>

theorem aof_record_roundtrip:
  assumes "aofrec_ok r"
  shows "case parse (encode_record r @ rest) 0 of
      Complete e tokens \<Rightarrow> e = length (encode_record r) \<and> build_record V3 tokens = Some r
    | _ \<Rightarrow> False"
  using parse_encoded [OF record_tokens_bounds [OF assms], of "[]" rest] build_record_tokens [OF assms]
  by (simp add: encode_record_resp del: build_record.simps)

theorem aof_record_roundtrip_witness:
  "case parse (encode_record ex_set @ ''junk'') 0 of
      Complete e tokens \<Rightarrow> e = length (encode_record ex_set) \<and> build_record V3 tokens = Some ex_set
    | _ \<Rightarrow> False"
  by (rule aof_record_roundtrip [OF ex_set_ok])

text \<open>
  C24. The sync thread never claims more than is durable. In every interleaving of appends, rewrites
  and a background sync that finishes at any later time, the recorded synced offset is at most the
  prefix of the current file that is on stable storage: a sync that was started on a file replaced
  meanwhile does not mark the new one.
\<close>

theorem synced_is_durable:
  assumes "sync_inv w" and "sync_step\<^sup>*\<^sup>* w w'"
  shows "synced (w_aof w') \<le> w_durable w' (w_inode w') \<and> synced (w_aof w') \<le> aof_size (w_aof w')"
proof -
  have "sync_inv w'" using assms(2,1) by (induction rule: rtranclp_induct) (auto intro: sync_step_inv)
  then show ?thesis by (simp add: sync_inv_def)
qed

theorem synced_is_durable_witness:
  "let a = ex_aof\<lparr>aof_size := 40, rewrite_fd := True, aof_tmp := Some kAofHeader\<rparr>;
       w = \<lparr>w_aof = a, w_inode = 0, w_durable = (\<lambda>_. 0), w_job = None\<rparr>;
       w1 = w\<lparr>w_job := sync_capture 0 a\<rparr>;
       env = \<lparr>cm_fstat = True, cm_sync = True, cm_close = True, cm_rename = True, cm_open = True\<rparr>;
       w2 = w1\<lparr>w_aof := snd (commit_rewrite env a), w_inode := 1, w_durable := (\<lambda>_. 0)(1 := length kAofHeader)\<rparr>;
       w3 = w2\<lparr>w_job := None, w_aof := sync_finish True (the (w_job w1)) (w_aof w2), w_durable := (w_durable w2)(0 := 40)\<rparr>
   in synced (w_aof w3) \<le> w_durable w3 (w_inode w3)"
proof -
  define a where "a = ex_aof\<lparr>aof_size := 40, rewrite_fd := True, aof_tmp := Some kAofHeader\<rparr>"
  define w where "w = \<lparr>w_aof = a, w_inode = 0, w_durable = (\<lambda>_. 0), w_job = None\<rparr>"
  define w1 where "w1 = w\<lparr>w_job := sync_capture 0 a\<rparr>"
  define env where "env = \<lparr>cm_fstat = True, cm_sync = True, cm_close = True, cm_rename = True, cm_open = True\<rparr>"
  define w2 where "w2 = w1\<lparr>w_aof := snd (commit_rewrite env a), w_inode := 1, w_durable := (\<lambda>_. 0)(1 := length kAofHeader)\<rparr>"
  define w3 where "w3 = w2\<lparr>w_job := None, w_aof := sync_finish True (the (w_job w1)) (w_aof w2), w_durable := (w_durable w2)(0 := 40)\<rparr>"
  have job: "sync_capture 0 a = Some \<lparr>job_generation = 0, job_offset = 40, job_inode = 0\<rparr>"
    by (simp add: sync_capture_def a_def ex_aof_def aof_init_def)
  have "sync_step w w1" unfolding w1_def job by (rule step_capture) (use job in \<open>simp_all add: w_def\<close>)
  moreover have "sync_step w1 w2"
    using step_commit [of w1 env "fst (commit_rewrite env a)" "snd (commit_rewrite env a)"]
    by (simp add: w2_def w1_def w_def env_def a_def tmp_of_def)
  moreover have "sync_step w2 w3"
    using step_finish [of w2 "the (w_job w1)" True] by (simp add: w3_def w2_def w1_def w_def job)
  ultimately have "sync_step\<^sup>*\<^sup>* w w3" by (meson converse_rtranclp_into_rtranclp rtranclp.rtrancl_refl)
  moreover have "sync_inv w" by (simp add: sync_inv_def w_def a_def ex_aof_def aof_init_def)
  ultimately show ?thesis using synced_is_durable [of w w3]
    unfolding Let_def a_def [symmetric] w_def [symmetric] env_def [symmetric] w1_def [symmetric] w2_def [symmetric] w3_def [symmetric]
    by blast
qed

text \<open>
  C29. A limit the log format does not respect. A command with more than \<^verbatim>\<open>kMaxArgs - 5\<close> words is
  accepted from a client, and its record (the words plus five tokens) is appended, but the
  parser refuses that record on replay: recovery stops there, gives up every later record, and
  sets the whole file aside as corrupt.
\<close>

theorem oversized_record_stops_replay:
  assumes "\<forall>x \<in> set rs. aofrec_ok x" and "length (ar_args r) \<le> kMaxArgs" and "kMaxArgs < length (ar_args r) + 5"
    and "aof_file a = Some (log_image rs @ encode_record r @ concat (map encode_record later))"
    and "re_open env" and "length (file_of a) \<le> re_limit env" and "re_rename env"
  shows "fst (recover env a) = rs \<and> aof_file (snd (recover env a)) = None \<and> needs_rewrite (snd (recover env a))"
proof -
  have ne: "log_image rs @ encode_record r @ concat (map encode_record later) \<noteq> []"
    by (simp add: log_image_def kAofHeader_def)
  have lim: "length (log_image rs @ encode_record r @ concat (map encode_record later)) \<le> re_limit env"
    using assms(4,6) by (simp add: file_of_def)
  show ?thesis
    using recover_scan [OF assms(4) ne assms(5) lim scan_oversized [OF assms(1-3)]] assms(7) by (simp add: Let_def)
qed

theorem oversized_record_stops_replay_witness:
  "let r = ex_set\<lparr>ar_args := replicate 1048575 ''MSET''\<rparr>; fc = log_image [] @ encode_record r @ encode_record ex_set;
       env = \<lparr>re_open = True, re_limit = length fc, re_trunc = True, re_rename = True\<rparr>;
       a = aof_init Everysec 0 (Some fc)
   in fst (recover env a) = []"
proof -
  define r where "r = ex_set\<lparr>ar_args := replicate 1048575 ''MSET''\<rparr>"
  define fc where "fc = log_image [] @ encode_record r @ encode_record ex_set"
  let ?env = "\<lparr>re_open = True, re_limit = length fc, re_trunc = True, re_rename = True\<rparr>"
  have "length (ar_args r) = 1048575" by (simp add: r_def)
  then have "fst (recover ?env (aof_init Everysec 0 (Some fc))) = []"
    using oversized_record_stops_replay [of "[]" r "aof_init Everysec 0 (Some fc)" "[ex_set]" ?env]
    by (simp add: fc_def kMaxArgs_def aof_init_def file_of_def)
  then show ?thesis unfolding Let_def r_def [symmetric] fc_def [symmetric] .
qed

end
