(* ===== verification/Database.thy ===== *)
theory Database
  imports Eviction Pubsub Snapshot Aof
begin

text \<open>
  The database's state and the access to records, \<^verbatim>\<open>src/src/core/database.h\<close> and \<^verbatim>\<open>database.cpp\<close>.

  A command runs on one thread under the lock of its room, so a handler maps the room and the
  database to their new values; the registry receives the room back when the command ends. The
  pool of records is not part of the state: a pointer into a room's table is the key together with
  the record, written back by \<open>update_rec\<close>.

  \<open>now_ms\<close> is the wall clock as the running command reads it (once per command). \<open>io\<close> is the
  schedule of system-call outcomes, and \<open>tick\<close> counts the calls, so that each has its own outcome.
  The pid of a rewriting child is the flag \<open>rewrite_child\<close>, and \<open>rewrite_result\<close> is the exit status the
  child is going to have; the outcome of \<^verbatim>\<open>waitpid\<close> says whether the child is still running
  (\<open>None\<close>) or gone, normally or not.
\<close>

section \<open>State\<close>

record io_env =
  io_read :: "nat \<Rightarrow> sysret list"
  io_append :: "nat \<Rightarrow> append_env"
  io_evict :: "nat \<Rightarrow> evict_env"
  io_wake :: "nat \<Rightarrow> wake_env"
  io_snap :: "nat \<Rightarrow> snap_env"
  io_compact :: "nat \<Rightarrow> compact_env"
  io_start :: "nat \<Rightarrow> bool \<times> sysret list"
  io_dump :: "nat \<Rightarrow> sysret list"
  io_fork :: "nat \<Rightarrow> bool"
  io_child :: "nat \<Rightarrow> bool option"
  io_childsync :: "nat \<Rightarrow> bool"
  io_tail :: "nat \<Rightarrow> tail_env"
  io_commit :: "nat \<Rightarrow> commit_env"

record database =
  rooms :: "(string \<times> Room) list"
  client_rooms :: "(int \<times> string) list"
  total_commands :: nat
  active_rooms :: nat
  local_node_id :: u32
  clock :: u64
  tombstones :: "(string, string, version) nested"
  frontiers :: "(u32 \<times> u64) list"
  watermark :: u64
  peer_count :: nat
  frontier :: u64
  max_clock_offset_ms :: int
  max_rooms :: nat
  db_pubsub :: pubsub
  db_aof :: aof
  db_eviction :: eviction
  db_metrics :: metrics
  db_disk :: disk
  rewrite_child :: bool
  rewrite_result :: bool
  rewrite_from :: nat
  resp3 :: bool
  now_ms :: int
  io :: io_env
  tick :: nat

text \<open>The members as the constructor's initialiser list leaves them, before any record is replayed.\<close>

definition database_init :: "u32 \<Rightarrow> nat \<Rightarrow> int \<Rightarrow> nat \<Rightarrow> aof \<Rightarrow> eviction \<Rightarrow> disk \<Rightarrow> int \<Rightarrow> io_env \<Rightarrow> database" where
  "database_init node peers offset rooms_max a e dk now env =
     \<lparr>rooms = [], client_rooms = [], total_commands = 0, active_rooms = 0, local_node_id = node, clock = 0,
      tombstones = [], frontiers = [], watermark = 0, peer_count = peers, frontier = 0, max_clock_offset_ms = offset,
      max_rooms = rooms_max, db_pubsub = pubsub_init, db_aof = a, db_eviction = e, db_metrics = metrics_init,
      db_disk = dk, rewrite_child = False, rewrite_result = False, rewrite_from = 0, resp3 = False, now_ms = now, io = env, tick = 0\<rparr>"

definition MAX_ACTIVE_ROOMS :: nat where "MAX_ACTIVE_ROOMS = 3"
definition ROOM_IDLE_MS :: int where "ROOM_IDLE_MS = 10000"
definition MAX_REPLY :: nat where "MAX_REPLY = 32 * 1024 * 1024"

definition ROOMS_FULL :: string where
  "ROOMS_FULL = ''-ERR ROOMS FULL: active room budget reached, ROOM.HIBERNATE one or wait'' @ CRLF"

definition err :: "string \<Rightarrow> string" where
  "err text = ''-ERR '' @ text @ CRLF"

definition integer_reply :: "int \<Rightarrow> string" where
  "integer_reply n = '':'' @ dec_int n @ CRLF"

definition nil :: "database \<Rightarrow> string" where
  "nil d = (if resp3 d then ''_'' @ CRLF else ''$-1'' @ CRLF)"

definition map_header :: "database \<Rightarrow> nat \<Rightarrow> string" where
  "map_header d pairs = (if resp3 d then ''%'' @ dec pairs @ CRLF else ''*'' @ dec (2 * pairs) @ CRLF)"

definition toupper :: "char \<Rightarrow> char" where
  "toupper c = (let n = of_char c :: nat in if 97 \<le> n \<and> n \<le> 122 then char_of (n - 32) else c)"

definition upper :: "string \<Rightarrow> string" where
  "upper s = map toupper s"

section \<open>Record access\<close>

type_synonym cell = "Room \<times> database"

definition db_charge :: "u64 \<Rightarrow> cell \<Rightarrow> cell" where
  "db_charge delta = (\<lambda>(room, d).
     case charge delta room (db_metrics d) of (room', m') \<Rightarrow> (room', d\<lparr>db_metrics := m'\<rparr>))"

definition count_key :: "u64 \<Rightarrow> database \<Rightarrow> database" where
  "count_key delta d = d\<lparr>db_metrics := (db_metrics d)\<lparr>keys_in_ram := keys_in_ram (db_metrics d) + delta\<rparr>\<rparr>"

definition update_rec :: "string \<Rightarrow> Record \<Rightarrow> cell \<Rightarrow> cell" where
  "update_rec key r = (\<lambda>(room, d). (room\<lparr>room_keys := AList.update key r (room_keys room)\<rparr>, d))"

definition emplace :: "string \<Rightarrow> Record \<Rightarrow> cell \<Rightarrow> cell" where
  "emplace key r = (\<lambda>(room, d).
     db_charge (record_cost key r) (room\<lparr>room_keys := AList.update key r (room_keys room)\<rparr>, count_key 1 d))"

definition insert_rec :: "string \<Rightarrow> cell \<Rightarrow> cell" where
  "insert_rec key c = emplace key new_record c"

definition set_value :: "string \<Rightarrow> Record \<Rightarrow> string \<Rightarrow> cell \<Rightarrow> cell" where
  "set_value key r val c =
     update_rec key (r\<lparr>rec_value := val\<rparr>) (db_charge (of_nat (length val) - of_nat (length (rec_value r))) c)"

definition erase :: "string \<Rightarrow> Record \<Rightarrow> cell \<Rightarrow> cell" where
  "erase key r c =
     (case db_charge (- record_cost key r) c of
        (room, d) \<Rightarrow> (room\<lparr>room_keys := AList.delete key (room_keys room)\<rparr>, count_key (- 1) d))"

definition bump_hits :: "database \<Rightarrow> database" where
  "bump_hits d = d\<lparr>db_metrics := (db_metrics d)\<lparr>cache_hits := cache_hits (db_metrics d) + 1\<rparr>\<rparr>"

definition bump_misses :: "database \<Rightarrow> database" where
  "bump_misses d = d\<lparr>db_metrics := (db_metrics d)\<lparr>cache_misses := cache_misses (db_metrics d) + 1\<rparr>\<rparr>"

definition lookup :: "string \<Rightarrow> string \<Rightarrow> cell \<Rightarrow> Record option \<times> cell" where
  "lookup name key = (\<lambda>(room, d).
     case map_of (room_keys room) key of
       Some r \<Rightarrow>
         if \<not> expired r (now_ms d) then (Some r, room, bump_hits d) else (None, erase key r (room, d))
     | None \<Rightarrow>
         (let d1 = bump_misses d in
          case cold_take (io_read (io d1) (tick d1)) name key (db_metrics d1) (db_eviction d1) of
            (cold, m, e) \<Rightarrow>
              (let d2 = d1\<lparr>db_metrics := m, db_eviction := e, tick := Suc (tick d1)\<rparr> in
               case cold of
                 None \<Rightarrow> (None, room, d2)
               | Some r \<Rightarrow> if expired r (now_ms d2) then (None, room, d2) else (Some r, emplace key r (room, d2)))))"

text \<open>The writes through the record pointer after \<open>set_value\<close>.\<close>

definition assign :: "string \<Rightarrow> Record \<Rightarrow> string \<Rightarrow> int \<Rightarrow> u64 \<Rightarrow> u32 \<Rightarrow> cell \<Rightarrow> cell" where
  "assign key r val ex ts node c =
     update_rec key (r\<lparr>rec_value := val, expire_at := ex, timestamp_ms := ts, node_id := node\<rparr>) (set_value key r val c)"

definition access_key :: "string \<Rightarrow> database \<Rightarrow> database" where
  "access_key key d = d\<lparr>db_eviction := record_access key (db_eviction d)\<rparr>"

definition aof_append :: "string \<Rightarrow> string list \<Rightarrow> int \<Rightarrow> u64 \<Rightarrow> u32 \<Rightarrow> database \<Rightarrow> database" where
  "aof_append name args ex ts node d =
     d\<lparr>db_aof := snd (append (io_append (io d) (tick d))
         \<lparr>ar_room = name, ar_args = args, ar_expire_at = ex, ar_timestamp_ms = ts, ar_node_id = node\<rparr> (db_aof d)),
       tick := Suc (tick d)\<rparr>"

definition next_version :: "u64 \<Rightarrow> database \<Rightarrow> u64 \<times> database" where
  "next_version overwritten d =
     (let v = clock_next (clock d) (now_ms d) overwritten in (v, d\<lparr>clock := v\<rparr>))"

section \<open>The logical store of a room\<close>

text \<open>
  What a command may see of a key: its record in RAM or in cold storage, unless it expired.
\<close>

definition view :: "cell \<Rightarrow> string \<Rightarrow> Record option" where
  "view = (\<lambda>(room, d) key. live (now_ms d) (stored room (db_eviction d) key))"

definition cell_ok :: "string \<Rightarrow> cell \<Rightarrow> bool" where
  "cell_ok name = (\<lambda>(room, d). tiers_ok room (db_eviction d) \<and> room_name room = name)"

text \<open>Reads of the indexed regions of the cold file succeed.\<close>

definition reads_ok :: "database \<Rightarrow> bool" where
  "reads_ok d \<longleftrightarrow>
     (\<forall>i name key ref. nget (cold_index (db_eviction d)) name key = Some ref \<longrightarrow>
        pread_all (io_read (io d) i) (cold_file (db_eviction d)) (cr_len ref) (cr_off ref) \<noteq> None)"

definition slack_kept :: "cell \<Rightarrow> cell \<Rightarrow> bool" where
  "slack_kept c c' \<longleftrightarrow> same_slack (fst c) (db_metrics (snd c)) (fst c') (db_metrics (snd c'))"

text \<open>The only fields of the database that record access may change.\<close>

definition access_frame :: "database \<Rightarrow> database \<Rightarrow> bool" where
  "access_frame d d' \<longleftrightarrow> (\<exists>m e n. d' = d\<lparr>db_metrics := m, db_eviction := e, tick := n\<rparr>)"

text \<open>What no command that runs in a room touches: the background rewrite, the clients' rooms and subscriptions.\<close>

abbreviation side_state :: "database \<Rightarrow> bool \<times> bool \<times> nat \<times> (int \<times> string) list \<times> pubsub" where
  "side_state d \<equiv> (rewrite_child d, rewrite_result d, rewrite_from d, client_rooms d, db_pubsub d)"

definition stored_of :: "cell \<Rightarrow> string \<Rightarrow> Record option" where
  "stored_of = (\<lambda>(room, d). stored room (db_eviction d))"

lemma view_stored: "view c key = live (now_ms (snd c)) (stored_of c key)"
  by (simp add: view_def stored_of_def case_prod_unfold)

text \<open>
  One step of record access on a cell: the invariant holds afterwards, the counters moved with the
  room, other rooms' cold keys and the other fields of the database are untouched.
\<close>

definition evolves :: "string \<Rightarrow> cell \<Rightarrow> cell \<Rightarrow> bool" where
  "evolves name c c' \<longleftrightarrow>
     cell_ok name c' \<and> slack_kept c c' \<and> access_frame (snd c) (snd c') \<and> (reads_ok (snd c) \<longrightarrow> reads_ok (snd c')) \<and>
     room_state (fst c') = room_state (fst c) \<and>
     (\<forall>n k. n \<noteq> name \<longrightarrow> cold_get (db_eviction (snd c')) n k = cold_get (db_eviction (snd c)) n k)"

lemma access_frame_refl [simp]: "access_frame d d"
  unfolding access_frame_def by (intro exI [of _ "db_metrics d"] exI [of _ "db_eviction d"] exI [of _ "tick d"]) simp

lemma access_frame_trans: "access_frame a b \<Longrightarrow> access_frame b c \<Longrightarrow> access_frame a c"
  by (auto simp: access_frame_def) blast

lemma access_frame_fields:
  assumes "access_frame d d'"
  shows "now_ms d' = now_ms d" "clock d' = clock d" "tombstones d' = tombstones d" "watermark d' = watermark d"
    "local_node_id d' = local_node_id d" "peer_count d' = peer_count d" "db_aof d' = db_aof d" "rooms d' = rooms d"
    "resp3 d' = resp3 d" "io d' = io d" "db_disk d' = db_disk d" "active_rooms d' = active_rooms d"
    "max_clock_offset_ms d' = max_clock_offset_ms d" "db_pubsub d' = db_pubsub d" "side_state d' = side_state d"
  using assms by (auto simp: access_frame_def)

lemma evolves_refl: "cell_ok name c \<Longrightarrow> evolves name c c"
  by (simp add: evolves_def slack_kept_def)

lemma evolves_trans: "evolves name a b \<Longrightarrow> evolves name b c \<Longrightarrow> evolves name a c"
  unfolding evolves_def slack_kept_def by (auto intro: same_slack_trans access_frame_trans)

lemma evolves_ok: "evolves name c c' \<Longrightarrow> cell_ok name c'"
  by (simp add: evolves_def)

lemma evolves_reads: "evolves name c c' \<Longrightarrow> reads_ok (snd c) \<Longrightarrow> reads_ok (snd c')"
  by (simp add: evolves_def)

lemma evolves_now: "evolves name c c' \<Longrightarrow> now_ms (snd c') = now_ms (snd c)"
  by (auto simp: evolves_def dest: access_frame_fields)

lemma cell_okD:
  assumes "cell_ok name (room, d)"
  shows "tiers_ok room (db_eviction d)" "room_name room = name" "room_ok room" "cold_ok (db_eviction d)"
    "al_ok (room_keys room)" "room_bytes room = al_sum record_cost (room_keys room)"
    "map_of (room_keys room) key = Some r \<Longrightarrow> rec_ok r"
    "map_of (room_keys room) key = Some r \<Longrightarrow> nget (cold_index (db_eviction d)) name key = None"
  using assms tiers_okD [of room "db_eviction d"] by (auto simp: cell_ok_def)

text \<open>Changes of the table alone, with the counters changed to match.\<close>

lemma table_step:
  assumes ok: "cell_ok name (room, d)"
    and keys: "al_ok keys'" "\<And>k r. map_of keys' k = Some r \<Longrightarrow> rec_ok r \<and> nget (cold_index (db_eviction d)) name k = None"
    and acct: "bytes' = al_sum record_cost keys'"
    and m: "resident_bytes m' - bytes' = resident_bytes (db_metrics d) - room_bytes room"
      "keys_in_ram m' - of_nat (length keys') = keys_in_ram (db_metrics d) - of_nat (length (room_keys room))"
  shows "evolves name (room, d) (room\<lparr>room_keys := keys', room_bytes := bytes'\<rparr>, d\<lparr>db_metrics := m'\<rparr>)"
proof -
  have "access_frame d (d\<lparr>db_metrics := m'\<rparr>)"
    unfolding access_frame_def by (intro exI [of _ m'] exI [of _ "db_eviction d"] exI [of _ "tick d"]) simp
  then show ?thesis using cell_okD(2,4) [OF ok] keys acct m
    by (auto simp: evolves_def cell_ok_def tiers_ok_def room_ok_def keys_cost_def slack_kept_def same_slack_def reads_ok_def)
qed

lemma stored_of_table:
  "stored_of (room\<lparr>room_keys := keys', room_bytes := b\<rparr>, d\<lparr>db_metrics := m'\<rparr>) key =
     (case map_of keys' key of Some r \<Rightarrow> Some r | None \<Rightarrow> cold_get (db_eviction d) (room_name room) key)"
  by (simp add: stored_of_def stored_def split: option.splits)

lemma emplace_step:
  assumes ok: "cell_ok name (room, d)" and new: "map_of (room_keys room) key = None"
    and cold: "nget (cold_index (db_eviction d)) name key = None" and r: "rec_ok r"
  shows "evolves name (room, d) (emplace key r (room, d))"
    "stored_of (emplace key r (room, d)) = (stored_of (room, d))(key \<mapsto> r)"
    "map_of (room_keys (fst (emplace key r (room, d)))) = (map_of (room_keys room))(key \<mapsto> r)"
proof -
  let ?m = "db_metrics d"
  have eq: "emplace key r (room, d) =
      (room\<lparr>room_keys := AList.update key r (room_keys room), room_bytes := room_bytes room + record_cost key r\<rparr>,
       d\<lparr>db_metrics := ?m\<lparr>keys_in_ram := keys_in_ram ?m + 1, resident_bytes := resident_bytes ?m + record_cost key r\<rparr>\<rparr>)"
    by (simp add: emplace_def db_charge_def count_key_def charge_def)
  show "evolves name (room, d) (emplace key r (room, d))" unfolding eq
    by (rule table_step [OF ok])
      (use cell_okD [OF ok] new cold r in \<open>auto simp: al_sum_update_new length_al_update_new split: if_splits\<close>)
  show "stored_of (emplace key r (room, d)) = (stored_of (room, d))(key \<mapsto> r)"
    unfolding eq by (auto simp: fun_eq_iff stored_of_table) (auto simp: stored_of_def stored_def)
  show "map_of (room_keys (fst (emplace key r (room, d)))) = (map_of (room_keys room))(key \<mapsto> r)" by (simp add: eq)
qed

lemma erase_step:
  assumes ok: "cell_ok name (room, d)" and old: "map_of (room_keys room) key = Some r"
  shows "evolves name (room, d) (erase key r (room, d))"
    "stored_of (erase key r (room, d)) = (stored_of (room, d))(key := None)"
proof -
  let ?m = "db_metrics d"
  have eq: "erase key r (room, d) =
      (room\<lparr>room_keys := AList.delete key (room_keys room), room_bytes := room_bytes room - record_cost key r\<rparr>,
       d\<lparr>db_metrics := ?m\<lparr>keys_in_ram := keys_in_ram ?m - 1, resident_bytes := resident_bytes ?m - record_cost key r\<rparr>\<rparr>)"
    by (simp add: erase_def db_charge_def count_key_def charge_def)
  have cold: "nget (cold_index (db_eviction d)) name key = None" by (rule cell_okD(8) [OF ok old])
  show "evolves name (room, d) (erase key r (room, d))" unfolding eq
    by (rule table_step [OF ok])
      (use cell_okD [OF ok] old length_al_delete [OF cell_okD(5) [OF ok] old] in
        \<open>auto simp: al_sum_delete_group split: if_splits\<close>)
  show "stored_of (erase key r (room, d)) = (stored_of (room, d))(key := None)"
    unfolding eq using cold cell_okD(2) [OF ok]
    by (auto simp: fun_eq_iff stored_of_table) (auto simp: stored_of_def stored_def cold_get_def)
qed

lemma update_step:
  assumes ok: "cell_ok name (room, d)" and old: "map_of (room_keys room) key = Some r" and r': "rec_ok r'"
    and m': "m' = (db_metrics d)\<lparr>resident_bytes := resident_bytes (db_metrics d) + (record_cost key r' - record_cost key r)\<rparr>"
  shows "evolves name (room, d) (room\<lparr>room_keys := AList.update key r' (room_keys room),
      room_bytes := room_bytes room + (record_cost key r' - record_cost key r)\<rparr>, d\<lparr>db_metrics := m'\<rparr>)"
  by (rule table_step [OF ok])
    (use cell_okD [OF ok] old r' in \<open>auto simp: m' al_sum_update_old length_al_update_old split: if_splits\<close>)

lemma al_update_twice: "AList.update k v (AList.update k w al) = AList.update k v al"
  by (induction al) auto

lemma assign_step:
  assumes ok: "cell_ok name (room, d)" and old: "map_of (room_keys room) key = Some r" and ex: "i64 ex"
  shows "evolves name (room, d) (assign key r val ex ts node (room, d))"
    "stored_of (assign key r val ex ts node (room, d)) =
       (stored_of (room, d))(key \<mapsto> \<lparr>rec_value = val, expire_at = ex, timestamp_ms = ts, node_id = node\<rparr>)"
proof -
  let ?r = "r\<lparr>rec_value := val, expire_at := ex, timestamp_ms := ts, node_id := node\<rparr>"
  let ?delta = "record_cost key ?r - record_cost key r"
  let ?m = "(db_metrics d)\<lparr>resident_bytes := resident_bytes (db_metrics d) + ?delta\<rparr>"
  have eq: "assign key r val ex ts node (room, d) =
      (room\<lparr>room_keys := AList.update key ?r (room_keys room), room_bytes := room_bytes room + ?delta\<rparr>, d\<lparr>db_metrics := ?m\<rparr>)"
    by (simp add: assign_def set_value_def update_rec_def db_charge_def charge_def al_update_twice record_cost_def)
  show "evolves name (room, d) (assign key r val ex ts node (room, d))"
    unfolding eq by (rule update_step [OF ok old]) (simp_all add: rec_ok_def ex)
  have "?r = \<lparr>rec_value = val, expire_at = ex, timestamp_ms = ts, node_id = node\<rparr>" by simp
  then show "stored_of (assign key r val ex ts node (room, d)) =
       (stored_of (room, d))(key \<mapsto> \<lparr>rec_value = val, expire_at = ex, timestamp_ms = ts, node_id = node\<rparr>)"
    unfolding eq by (auto simp: fun_eq_iff stored_of_table) (auto simp: stored_of_def stored_def)
qed

section \<open>Lookup\<close>

lemma access_frame_metrics [simp]: "access_frame d (d\<lparr>db_metrics := m'\<rparr>)"
  unfolding access_frame_def by (intro exI [of _ m'] exI [of _ "db_eviction d"] exI [of _ "tick d"]) simp

lemma metrics_step:
  assumes "cell_ok name (room, d)" and "resident_bytes m' = resident_bytes (db_metrics d)" "keys_in_ram m' = keys_in_ram (db_metrics d)"
  shows "evolves name (room, d) (room, d\<lparr>db_metrics := m'\<rparr>)" "stored_of (room, d\<lparr>db_metrics := m'\<rparr>) = stored_of (room, d)"
  using assms by (auto simp: evolves_def cell_ok_def slack_kept_def same_slack_def reads_ok_def stored_of_def)

lemma cold_take_step:
  assumes ok: "cell_ok name (room, d)" and ram: "map_of (room_keys room) key = None"
    and take: "cold_take rs name key (db_metrics d) (db_eviction d) = (res, m, e)"
  shows "evolves name (room, d) (room, d\<lparr>db_metrics := m, db_eviction := e, tick := n\<rparr>)" (is ?evolves)
    and "res = Some r \<Longrightarrow> stored_of (room, d) key = Some r \<and> rec_ok r \<and> nget (cold_index e) name key = None \<and>
      stored_of (room, d\<lparr>db_metrics := m, db_eviction := e, tick := n\<rparr>) = (stored_of (room, d))(key := None)" (is "_ \<Longrightarrow> ?got r")
    and "res = None \<Longrightarrow> e = db_eviction d \<and> m = db_metrics d \<and> (rs = io_read (io d) i \<longrightarrow> reads_ok d \<longrightarrow>
      nget (cold_index (db_eviction d)) name key = None)" (is "_ \<Longrightarrow> ?none")
proof -
  note c = cell_okD [OF ok]
  have frame: "access_frame d (d\<lparr>db_metrics := m, db_eviction := e, tick := n\<rparr>)" by (auto simp: access_frame_def)
  from cold_take_cases [OF c(4) take] consider
      (none) "res = None" "m = db_metrics d" "e = db_eviction d"
        "\<forall>ref. nget (cold_index (db_eviction d)) name key = Some ref \<longrightarrow>
           pread_all rs (cold_file (db_eviction d)) (cr_len ref) (cr_off ref) = None"
    | (some) r' where "res = Some r'" "cold_get (db_eviction d) name key = Some r'" "rec_ok r'" "m = publish_metrics e (db_metrics d)"
        "cold_index e = ndel (cold_index (db_eviction d)) name key" "cold_file e = cold_file (db_eviction d)" "cold_ok e"
        "\<forall>n k. cold_get e n k = (if n = name \<and> k = key then None else cold_get (db_eviction d) n k)"
    by blast
  then have "?evolves \<and> (\<forall>r. res = Some r \<longrightarrow> ?got r) \<and> (res = None \<longrightarrow> ?none)"
  proof cases
    case none
    have ?evolves using none(1-3) ok frame by (simp add: evolves_def cell_ok_def slack_kept_def reads_ok_def)
    moreover have ?none using none by (cases "nget (cold_index (db_eviction d)) name key") (auto simp: reads_ok_def)
    ultimately show ?thesis using none(1) by simp
  next
    case some
    have nok: "nested_ok (cold_index (db_eviction d))" using c(4) by (simp add: cold_ok_def)
    have idx: "nget (cold_index e) n k = (if n = name \<and> k = key then None else nget (cold_index (db_eviction d)) n k)" for n k
      using nok by (simp add: some)
    have "tiers_ok room e" using c some(7) by (auto simp: tiers_ok_def idx)
    moreover have "same_slack room (db_metrics d) room m" by (simp add: some(4) same_slack_def publish_metrics_def)
    moreover have "reads_ok d \<longrightarrow> reads_ok (d\<lparr>db_metrics := m, db_eviction := e, tick := n\<rparr>)"
      by (auto simp: reads_ok_def idx some(6) split: if_splits)
    ultimately have "?evolves" using c(2) some(8) frame by (simp add: evolves_def cell_ok_def slack_kept_def)
    moreover have "?got r'" using some(2,3,8) c(2) ram idx
      by (auto simp: stored_of_def stored_def fun_eq_iff split: option.splits)
    ultimately show ?thesis using some(1) by simp
  qed
  then show ?evolves "res = Some r \<Longrightarrow> ?got r" "res = None \<Longrightarrow> ?none" by auto
qed

lemma live_None_iff: "live now x = None \<longleftrightarrow> (\<forall>r. x = Some r \<longrightarrow> expired r now)"
  by (cases x) (auto simp: live_def)

text \<open>
  The contract of \<open>lookup\<close>: the answer is the logical store's, a record that is found is in RAM
  afterwards, a key that is not found is in neither tier, and the logical store does not change.
\<close>

lemma lookup_stored:
  assumes ok: "cell_ok name (room, d)" and rd: "reads_ok d" and run: "lookup name key (room, d) = (res, c')"
  shows "evolves name (room, d) c' \<and> res = live (now_ms d) (stored_of (room, d) key) \<and>
    stored_of c' = (stored_of (room, d))(key := res) \<and> (res \<noteq> None \<longrightarrow> map_of (room_keys (fst c')) key = res) \<and>
    (res = None \<longrightarrow> map_of (room_keys (fst c')) key = None \<and> nget (cold_index (db_eviction (snd c'))) name key = None)"
proof (cases "map_of (room_keys room) key")
  case (Some r)
  have st: "stored_of (room, d) key = Some r" using Some by (simp add: stored_of_def stored_def)
  show ?thesis
  proof (cases "expired r (now_ms d)")
    case True
    then have eqs: "res = None" "c' = erase key r (room, d)" using run Some by (simp_all add: lookup_def)
    note e = erase_step [OF ok Some]
    have gone: "map_of (room_keys (fst c')) key = None" by (simp add: eqs erase_def db_charge_def charge_def count_key_def)
    have "nget (cold_index (db_eviction (snd c'))) name key = None"
      using cell_okD(8) [OF ok Some] by (simp add: eqs erase_def db_charge_def charge_def count_key_def)
    then show ?thesis using eqs e st True gone by simp
  next
    case False
    then have eqs: "res = Some r" "c' = (room, bump_hits d)" using run Some by (simp_all add: lookup_def)
    note m = metrics_step [OF ok, of "(db_metrics d)\<lparr>cache_hits := cache_hits (db_metrics d) + 1\<rparr>", folded bump_hits_def]
    show ?thesis using eqs m st False Some by (simp add: fun_upd_idem)
  qed
next
  case None
  define d1 where "d1 = bump_misses d"
  have m: "evolves name (room, d) (room, d1)" "stored_of (room, d1) = stored_of (room, d)"
    unfolding d1_def bump_misses_def by (rule metrics_step [OF ok]; simp)+
  have ok1: "cell_ok name (room, d1)" and rd1: "reads_ok d1" using evolves_ok [OF m(1)] evolves_reads [OF m(1)] rd by simp_all
  have now: "now_ms d1 = now_ms d" "db_eviction d1 = db_eviction d" by (simp_all add: d1_def bump_misses_def)
  obtain cold mt e where take: "cold_take (io_read (io d1) (tick d1)) name key (db_metrics d1) (db_eviction d1) = (cold, mt, e)"
    by (metis prod_cases3)
  define d2 where "d2 = d1\<lparr>db_metrics := mt, db_eviction := e, tick := Suc (tick d1)\<rparr>"
  note t = cold_take_step(1,2) [OF ok1 None take, where n = "Suc (tick d1)", folded d2_def]
  have ev: "evolves name (room, d) (room, d2)" by (rule evolves_trans [OF m(1) t(1)])
  have now2: "now_ms d2 = now_ms d" by (simp add: d2_def now)
  have run2: "(res, c') = (case cold of None \<Rightarrow> (None, room, d2)
      | Some r \<Rightarrow> if expired r (now_ms d2) then (None, room, d2) else (Some r, emplace key r (room, d2)))"
    using run None take unfolding d2_def d1_def by (simp add: lookup_def Let_def)
  show ?thesis
  proof (cases cold)
    case n: None
    note tn = cold_take_step(3) [OF ok1 None take n, where i = "tick d1"]
    have idx: "nget (cold_index (db_eviction d2)) name key = None" using tn rd1 by (simp add: d2_def)
    then have "stored_of (room, d) key = None"
      using None m(2) tn cell_okD(2) [OF ok] by (auto simp: d2_def stored_of_def stored_def cold_get_def now)
    moreover have "stored_of (room, d2) = stored_of (room, d)" using tn m(2) by (auto simp: d2_def stored_of_def)
    ultimately show ?thesis using run2 n ev idx None by (simp add: fun_upd_idem)
  next
    case (Some r)
    note ts = t(2) [OF Some]
    have st: "stored_of (room, d) key = Some r" and idx: "nget (cold_index (db_eviction d2)) name key = None"
      using ts m(2) by (simp_all add: d2_def)
    show ?thesis
    proof (cases "expired r (now_ms d)")
      case True
      then show ?thesis using run2 Some now2 ev st idx ts m(2) None by simp
    next
      case False
      note em = emplace_step [OF evolves_ok [OF ev] None idx conjunct1 [OF conjunct2 [OF ts]]]
      have "evolves name (room, d) (emplace key r (room, d2))" by (rule evolves_trans [OF ev em(1)])
      then show ?thesis using run2 Some now2 False st em(2,3) ts m(2) by simp
    qed
  qed
qed

lemma live_live [simp]: "live now (live now x) = live now x"
  by (cases x) (auto simp: live_def)

lemma lookup_spec:
  assumes ok: "cell_ok name c" and rd: "reads_ok (snd c)" and run: "lookup name key c = (res, c')"
  shows "evolves name c c'" "res = view c key" "view c' = view c" "stored_of c' = (stored_of c)(key := res)"
    "\<And>r. res = Some r \<Longrightarrow> map_of (room_keys (fst c')) key = Some r"
    "res = None \<Longrightarrow> map_of (room_keys (fst c')) key = None \<and> nget (cold_index (db_eviction (snd c'))) name key = None"
proof -
  obtain room d where c: "c = (room, d)" by fastforce
  note l = lookup_stored [OF ok [unfolded c] rd [unfolded c, simplified] run [unfolded c], folded c]
  show "evolves name c c'" "stored_of c' = (stored_of c)(key := res)"
    "\<And>r. res = Some r \<Longrightarrow> map_of (room_keys (fst c')) key = Some r"
    "res = None \<Longrightarrow> map_of (room_keys (fst c')) key = None \<and> nget (cold_index (db_eviction (snd c'))) name key = None"
    using l by auto
  show res: "res = view c key" using l by (simp add: view_stored c)
  have "now_ms (snd c') = now_ms (snd c)" using l by (auto dest: evolves_now)
  then show "view c' = view c" using l by (auto simp: fun_eq_iff view_stored c)
qed

section \<open>What every handler keeps\<close>

text \<open>
  The relation between the cell before and after a whole handler: record access, and changes of
  the database that do not concern this room's records (clock, tombstones, log, sketch).
\<close>

definition handled :: "string \<Rightarrow> cell \<Rightarrow> cell \<Rightarrow> bool" where
  "handled name c c' \<longleftrightarrow>
     cell_ok name c' \<and> slack_kept c c' \<and> (reads_ok (snd c) \<longrightarrow> reads_ok (snd c')) \<and>
     room_state (fst c') = room_state (fst c) \<and> now_ms (snd c') = now_ms (snd c) \<and>
     local_node_id (snd c') = local_node_id (snd c) \<and> watermark (snd c') = watermark (snd c) \<and>
     peer_count (snd c') = peer_count (snd c) \<and> max_clock_offset_ms (snd c') = max_clock_offset_ms (snd c) \<and>
     rooms (snd c') = rooms (snd c) \<and> db_disk (snd c') = db_disk (snd c) \<and> active_rooms (snd c') = active_rooms (snd c) \<and>
     side_state (snd c') = side_state (snd c) \<and>
     (\<forall>n k. n \<noteq> name \<longrightarrow> cold_get (db_eviction (snd c')) n k = cold_get (db_eviction (snd c)) n k)"

lemma handled_refl: "cell_ok name c \<Longrightarrow> handled name c c"
  by (simp add: handled_def slack_kept_def)

lemma handled_trans: "handled name a b \<Longrightarrow> handled name b c \<Longrightarrow> handled name a c"
  unfolding handled_def slack_kept_def by (auto intro: same_slack_trans)

lemma evolves_handled: "evolves name c c' \<Longrightarrow> handled name c c'"
  by (auto simp: evolves_def handled_def dest: access_frame_fields)

lemma handledD:
  assumes "handled name c c'"
  shows "cell_ok name c'" "reads_ok (snd c) \<Longrightarrow> reads_ok (snd c')" "now_ms (snd c') = now_ms (snd c)"
    "local_node_id (snd c') = local_node_id (snd c)" "watermark (snd c') = watermark (snd c)"
    "peer_count (snd c') = peer_count (snd c)" "max_clock_offset_ms (snd c') = max_clock_offset_ms (snd c)"
  using assms by (simp_all add: handled_def)

definition on_db :: "(database \<Rightarrow> database) \<Rightarrow> cell \<Rightarrow> cell" where
  "on_db f = (\<lambda>(room, d). (room, f d))"

definition quiet :: "(database \<Rightarrow> database) \<Rightarrow> bool" where
  "quiet f \<longleftrightarrow> (\<forall>d.
     now_ms (f d) = now_ms d \<and> io (f d) = io d \<and> local_node_id (f d) = local_node_id d \<and> watermark (f d) = watermark d \<and>
     peer_count (f d) = peer_count d \<and> max_clock_offset_ms (f d) = max_clock_offset_ms d \<and> rooms (f d) = rooms d \<and>
     db_disk (f d) = db_disk d \<and> active_rooms (f d) = active_rooms d \<and> side_state (f d) = side_state d \<and>
     (\<exists>s. db_eviction (f d) = (db_eviction d)\<lparr>cms := s\<rparr>) \<and>
     resident_bytes (db_metrics (f d)) = resident_bytes (db_metrics d) \<and> keys_in_ram (db_metrics (f d)) = keys_in_ram (db_metrics d))"

lemma cold_cms [simp]:
  "cold_get (e\<lparr>cms := s\<rparr>) n k = cold_get e n k" "cold_ok (e\<lparr>cms := s\<rparr>) = cold_ok e"
  "stored room (e\<lparr>cms := s\<rparr>) = stored room e" "tiers_ok room (e\<lparr>cms := s\<rparr>) = tiers_ok room e"
  by (simp_all add: cold_get_def cold_ok_def ref_ok_def stored_def tiers_ok_def fun_eq_iff split: option.splits)

lemma quiet_step:
  assumes "quiet f" and "cell_ok name c"
  shows "handled name c (on_db f c)" "stored_of (on_db f c) = stored_of c" "fst (on_db f c) = fst c" "snd (on_db f c) = f (snd c)"
proof -
  obtain room d where c: "c = (room, d)" by fastforce
  obtain s where "db_eviction (f d) = (db_eviction d)\<lparr>cms := s\<rparr>" using assms(1) unfolding quiet_def by blast
  then show "handled name c (on_db f c)" "stored_of (on_db f c) = stored_of c"
    using assms by (auto simp: c quiet_def handled_def on_db_def cell_ok_def slack_kept_def same_slack_def reads_ok_def stored_of_def)
  show "fst (on_db f c) = fst c" "snd (on_db f c) = f (snd c)" by (simp_all add: on_db_def case_prod_unfold)
qed

lemma quiet_comp: "quiet f \<Longrightarrow> quiet g \<Longrightarrow> quiet (\<lambda>d. f (g d))"
  unfolding quiet_def by (metis (no_types, lifting) eviction.surjective eviction.update_convs(1))

lemma quiet_basic [simp]:
  "quiet (aof_append name args ex ts node)" "quiet (access_key key)" "quiet (\<lambda>d. d\<lparr>clock := t\<rparr>)"
proof -
  have same: "\<exists>s. e = e\<lparr>cms := s\<rparr>" for e :: eviction by (rule exI [of _ "cms e"]) simp
  show "quiet (aof_append name args ex ts node)" "quiet (\<lambda>d. d\<lparr>clock := t\<rparr>)" "quiet (access_key key)"
    using same by (auto simp: quiet_def aof_append_def access_key_def record_access_def)
qed

section \<open>A concrete cell\<close>

definition ex_io :: io_env where
  "ex_io = \<lparr>io_read = (\<lambda>_. [Ret 100]),
     io_append = (\<lambda>_. \<lparr>ae_open = True, ae_write = [Ret 500], ae_trunc = True, ae_sync = True\<rparr>),
     io_evict = (\<lambda>_. ex_env), io_wake = (\<lambda>_. \<lparr>we_read = True, we_rename = True, we_now_ms = 0\<rparr>),
     io_snap = (\<lambda>_. \<lparr>se_open = True, se_write = (\<lambda>_. [Ret 500]), se_sync = True, se_close = True, se_rename = True\<rparr>),
     io_compact = (\<lambda>_. \<lparr>ce_open = True, ce_read = (\<lambda>_. [Ret 100]), ce_write = (\<lambda>_. [Ret 100]), ce_rename = True\<rparr>),
     io_start = (\<lambda>_. (True, [Ret 100])), io_dump = (\<lambda>_. [Ret 500]), io_fork = (\<lambda>_. True), io_child = (\<lambda>_. Some True), io_childsync = (\<lambda>_. True),
     io_tail = (\<lambda>_. \<lparr>te_open = True, te_read = (\<lambda>_. [Ret 500]), te_write = (\<lambda>_. [Ret 500])\<rparr>),
     io_commit = (\<lambda>_. \<lparr>cm_fstat = True, cm_sync = True, cm_close = True, cm_rename = True, cm_open = True\<rparr>)\<rparr>"

definition ex_db :: database where
  "ex_db = database_init 7 1 500 10 ex_aof (eviction_init True 100 0) (\<lambda>_. None) 3000000000 ex_io"

definition ex_cell :: cell where
  "ex_cell = (new_room ''default'', ex_db)"

lemma ex_cell_ok: "cell_ok ''default'' ex_cell" "reads_ok (snd ex_cell)"
  using cold_ok_init [of True 100 0]
  by (auto simp: ex_cell_def ex_db_def database_init_def cell_ok_def tiers_ok_def reads_ok_def eviction_init_def)
    (simp_all add: new_room_def)

end
