(* ===== verification/Crdt.thy ===== *)
theory Crdt
  imports Database
begin

text \<open>
  Versions and tombstones, \<^verbatim>\<open>src/src/core/crdt.cpp\<close>: merges and deletions received from other nodes,
  and the collection of tombstones below the watermark. A handler takes the room's name, the words
  of the command and the cell, and returns the reply and the new cell.
\<close>

section \<open>Tombstones\<close>

definition find_tomb :: "string \<Rightarrow> string \<Rightarrow> database \<Rightarrow> version option" where
  "find_tomb name key d = nget (tombstones d) name key"

definition tomb_ts :: "string \<Rightarrow> string \<Rightarrow> database \<Rightarrow> u64" where
  "tomb_ts name key d = (case find_tomb name key d of Some t \<Rightarrow> v_ts t | None \<Rightarrow> 0)"

definition count_tomb :: "u64 \<Rightarrow> database \<Rightarrow> database" where
  "count_tomb delta d = d\<lparr>db_metrics := (db_metrics d)\<lparr>tombstone_count := tombstone_count (db_metrics d) + delta\<rparr>\<rparr>"

definition set_tomb :: "string \<Rightarrow> string \<Rightarrow> version \<Rightarrow> database \<Rightarrow> database" where
  "set_tomb name key v d =
     (if peer_count d = 0 \<or> v_ts v \<le> watermark d then d
      else
        (case find_tomb name key d of
           None \<Rightarrow> count_tomb 1 (d\<lparr>tombstones := nput (tombstones d) name key v\<rparr>)
         | Some t \<Rightarrow> d\<lparr>tombstones := nput (tombstones d) name key (max t v)\<rparr>))"

definition clear_tomb :: "string \<Rightarrow> string \<Rightarrow> database \<Rightarrow> database" where
  "clear_tomb name key d =
     (if find_tomb name key d = None then d
      else count_tomb (- 1) (d\<lparr>tombstones := ndel (tombstones d) name key\<rparr>))"

definition low_frontier :: "u32 \<Rightarrow> (u32 \<times> u64) list \<Rightarrow> nat \<times> u64" where
  "low_frontier self fs =
     foldl (\<lambda>(heard, low) (node, f). if node = self then (heard, low) else (Suc heard, min low f)) (0, UINT64_MAX) fs"

definition drop_tombs :: "u64 \<Rightarrow> (string, string, version) nested \<Rightarrow> (string, string, version) nested" where
  "drop_tombs w m =
     filter (\<lambda>(_, ks). ks \<noteq> []) (map (\<lambda>(name, ks). (name, filter (\<lambda>(_, v). v_ts v > w) ks)) m)"

definition collect_tombstones :: "database \<Rightarrow> database" where
  "collect_tombstones d =
     (case low_frontier (local_node_id d) (frontiers d) of
        (heard, low) \<Rightarrow>
          if peer_count d = 0 \<or> heard < peer_count d \<or> low \<le> watermark d then d
          else
            let kept = drop_tombs low (tombstones d)
            in count_tomb (of_nat (length (nitems kept)) - of_nat (length (nitems (tombstones d))))
                 (d\<lparr>watermark := low, tombstones := kept\<rparr>))"

definition handle_replfrontier :: "string list \<Rightarrow> database \<Rightarrow> string \<times> database" where
  "handle_replfrontier args d =
     (if length args \<noteq> 3 then (err ''usage: REPLFRONTIER node frontier'', d)
      else
        (case (parse_u64 (args ! 1), parse_u64 (args ! 2)) of
           (Some node, Some f) \<Rightarrow>
             if unat node > 4294967295 then (err ''usage: REPLFRONTIER node frontier'', d)
             else
               let n = of_nat (unat node);
                   known = (case map_of (frontiers d) n of Some k \<Rightarrow> k | None \<Rightarrow> 0);
                   d1 = d\<lparr>frontiers := AList.update n (max known f) (frontiers d)\<rparr>;
                   (v, d2) = next_version 0 d1
               in (''+OK'' @ CRLF, collect_tombstones (d2\<lparr>frontier := v\<rparr>))
         | _ \<Rightarrow> (err ''usage: REPLFRONTIER node frontier'', d)))"

section \<open>Incoming writes\<close>

definition incoming_version :: "string \<Rightarrow> string \<Rightarrow> database \<Rightarrow> (string + version) \<times> database" where
  "incoming_version ts_arg node_arg d =
     (case (parse_u64 ts_arg, parse_u64 node_arg) of
        (Some ts0, Some node) \<Rightarrow>
          if unat node > 4294967295 then (Inl (err ''invalid timestamp or node id''), d)
          else
            let ts = hlc_normalize ts0 in
            if uint (physical_ms ts) > now_ms d + max_clock_offset_ms d
            then (Inl (err ''timestamp too far in the future (SOMNIUM_MAX_CLOCK_OFFSET_MS)''), d)
            else (Inr (Version ts (of_nat (unat node))), d\<lparr>clock := clock_observe (clock d) ts\<rparr>)
      | _ \<Rightarrow> (Inl (err ''invalid timestamp or node id''), d))"

definition stale :: "string \<Rightarrow> string \<Rightarrow> Record option \<Rightarrow> version \<Rightarrow> database \<Rightarrow> bool" where
  "stale name key r v d \<longleftrightarrow>
     (case r of
        Some rc \<Rightarrow> v \<le> rec_version rc
      | None \<Rightarrow>
          (case find_tomb name key d of
             Some t \<Rightarrow> v \<le> t
           | None \<Rightarrow> v_ts v \<le> watermark d))"

definition handle_crdtdel :: "string \<Rightarrow> string list \<Rightarrow> cell \<Rightarrow> string \<times> cell" where
  "handle_crdtdel name args = (\<lambda>(room, d).
     if length args \<noteq> 4 then (err ''Wrong number of arguments for CRDTDEL'', room, d)
     else
       (case incoming_version (args ! 2) (args ! 3) d of
          (Inl e, d1) \<Rightarrow> (e, room, d1)
        | (Inr v, d1) \<Rightarrow>
            (let key = args ! 1 in
             case lookup name key (room, d1) of
               (r, c1) \<Rightarrow>
                 if stale name key r v (snd c1) then (''+OK (Ignored Stale Write)'' @ CRLF, c1)
                 else
                   (let c2 = (case r of Some rc \<Rightarrow> erase key rc c1 | None \<Rightarrow> c1)
                    in (''+OK (Deleted)'' @ CRLF,
                        on_db (\<lambda>d. aof_append name args 0 (v_ts v) (v_node v) (set_tomb name key v d)) c2)))))"

text \<open>The record to write to: the one found, or a new one that takes the place of a tombstone.\<close>

definition ensure_rec :: "string \<Rightarrow> string \<Rightarrow> Record option \<Rightarrow> cell \<Rightarrow> Record \<times> cell" where
  "ensure_rec name key r c =
     (case r of
        Some rc \<Rightarrow> (rc, c)
      | None \<Rightarrow> (new_record, on_db (clear_tomb name key) (insert_rec key c)))"

definition merge_expire :: "string list \<Rightarrow> int option" where
  "merge_expire args =
     (if length args = 6 then
        (case parse_i64 (args ! 5) of Some e \<Rightarrow> if e < 0 then None else Some e | None \<Rightarrow> None)
      else Some 0)"

definition handle_crdtmerge :: "string \<Rightarrow> string list \<Rightarrow> cell \<Rightarrow> string \<times> cell" where
  "handle_crdtmerge name args = (\<lambda>(room, d).
     if length args < 5 \<or> length args > 6 then (err ''Wrong number of arguments for CRDTMERGE'', room, d)
     else
       (case merge_expire args of
          None \<Rightarrow> (err ''invalid expire time for CRDTMERGE'', room, d)
        | Some expire \<Rightarrow>
            (case incoming_version (args ! 3) (args ! 4) d of
               (Inl e, d1) \<Rightarrow> (e, room, d1)
             | (Inr v, d1) \<Rightarrow>
                 (let key = args ! 1 in
                  case lookup name key (room, d1) of
                    (r, c1) \<Rightarrow>
                      if stale name key r v (snd c1) then (''+OK (Ignored Stale Write)'' @ CRLF, c1)
                      else
                        (let (rc, c2) = ensure_rec name key r c1;
                             ex = (if length args = 6 then expire else expire_at rc);
                             c3 = assign key rc (args ! 2) ex (v_ts v) (v_node v) c2
                         in (''+OK (State Converged)'' @ CRLF,
                             on_db (\<lambda>d. aof_append name args ex (v_ts v) (v_node v) (access_key key d)) c3))))))"

section \<open>Registers\<close>

text \<open>
  The replicated state of a key: a value or a deletion with its version, or nothing; with nothing
  stored, the watermark plays the part of the version.
\<close>

datatype register = Val Record | Tomb version | Empty

definition reg :: "string \<Rightarrow> cell \<Rightarrow> string \<Rightarrow> register" where
  "reg name c key =
     (case view c key of
        Some r \<Rightarrow> Val r
      | None \<Rightarrow> (case find_tomb name key (snd c) of Some t \<Rightarrow> Tomb t | None \<Rightarrow> Empty))"

fun stamp :: "u64 \<Rightarrow> register \<Rightarrow> version" where
  "stamp w (Val r) = rec_version r"
| "stamp w (Tomb t) = t"
| "stamp w Empty = Version w (- 1)"

lemma reg_cong:
  "view c' = view c \<Longrightarrow> (\<And>k. find_tomb name k (snd c') = find_tomb name k (snd c)) \<Longrightarrow> reg name c' = reg name c"
  by (rule ext) (simp add: reg_def split: option.split)

lemma version_le_watermark: "v \<le> Version w (- 1) \<longleftrightarrow> v_ts v \<le> w"
  by (auto simp: less_eq_version_def word_order.extremum)

lemma stale_stamp:
  "r = view c key \<Longrightarrow> stale name key r v (snd c) \<longleftrightarrow> v \<le> stamp (watermark (snd c)) (reg name c key)"
  by (auto simp: stale_def reg_def version_le_watermark split: option.splits)

text \<open>Tombstones and records exclude each other, and the table of tombstones is well formed.\<close>

definition tombs_ok :: "string \<Rightarrow> cell \<Rightarrow> bool" where
  "tombs_ok name c \<longleftrightarrow> nested_ok (tombstones (snd c)) \<and>
     (\<forall>key. view c key \<noteq> None \<longrightarrow> find_tomb name key (snd c) = None)"

lemma tombs_okI:
  "nested_ok (tombstones (snd c)) \<Longrightarrow> (\<And>k. view c k \<noteq> None \<Longrightarrow> find_tomb name k (snd c) = None) \<Longrightarrow> tombs_ok name c"
  by (simp add: tombs_ok_def)

lemma tombs_okD: "tombs_ok name c \<Longrightarrow> view c k \<noteq> None \<Longrightarrow> find_tomb name k (snd c) = None"
  by (simp add: tombs_ok_def)

lemma quiet_tombs [simp]: "quiet (set_tomb name key v)" "quiet (clear_tomb name key)"
proof -
  have same: "\<exists>s. e = e\<lparr>cms := s\<rparr>" for e :: eviction by (rule exI [of _ "cms e"]) simp
  show "quiet (set_tomb name key v)" "quiet (clear_tomb name key)"
    using same by (auto simp: quiet_def set_tomb_def clear_tomb_def count_tomb_def split: option.splits)
qed

lemma tombstones_frame [simp]:
  "tombstones (aof_append name args ex ts node d) = tombstones d" "tombstones (access_key key d) = tombstones d"
  by (simp_all add: aof_append_def access_key_def)

lemma find_tomb_frame [simp]:
  "find_tomb n k (aof_append name args ex ts node d) = find_tomb n k d" "find_tomb n k (access_key key d) = find_tomb n k d"
  "find_tomb n k (d\<lparr>clock := t\<rparr>) = find_tomb n k d"
  by (simp_all add: find_tomb_def)

lemma nested_ok_tombs:
  "nested_ok (tombstones d) \<Longrightarrow> nested_ok (tombstones (set_tomb name key v d))"
  "nested_ok (tombstones d) \<Longrightarrow> nested_ok (tombstones (clear_tomb name key d))"
  by (auto simp: set_tomb_def clear_tomb_def count_tomb_def split: option.splits)

lemma find_tomb_set:
  assumes "peer_count d \<noteq> 0" and "v_ts v > watermark d" and "\<And>t. find_tomb name key d = Some t \<Longrightarrow> t \<le> v"
  shows "find_tomb name key' (set_tomb name key v d) = (if key' = key then Some v else find_tomb name key' d)"
  using assms by (auto simp: set_tomb_def find_tomb_def count_tomb_def max_def split: option.splits)

lemma find_tomb_clear:
  "nested_ok (tombstones d) \<Longrightarrow> find_tomb name key' (clear_tomb name key d) = (if key' = key then None else find_tomb name key' d)"
  by (auto simp: clear_tomb_def find_tomb_def count_tomb_def)

lemma find_tomb_evolves: "evolves name c c' \<Longrightarrow> find_tomb n k (snd c') = find_tomb n k (snd c) \<and> tombstones (snd c') = tombstones (snd c)"
  by (auto simp: find_tomb_def evolves_def dest: access_frame_fields)

section \<open>Updates as the replication sends them\<close>

datatype crdt_op =
    Merge (op_key: string) string version int
  | Delete (op_key: string) version

fun op_ver :: "crdt_op \<Rightarrow> version" where
  "op_ver (Merge key val v ex) = v"
| "op_ver (Delete key v) = v"

fun op_put :: "crdt_op \<Rightarrow> register" where
  "op_put (Merge key val v ex) = Val \<lparr>rec_value = val, expire_at = ex, timestamp_ms = v_ts v, node_id = v_node v\<rparr>"
| "op_put (Delete key v) = Tomb v"

fun op_args :: "crdt_op \<Rightarrow> string list" where
  "op_args (Merge key val v ex) = [''CRDTMERGE'', key, val, dec (unat (v_ts v)), dec (unat (v_node v)), dec_int ex]"
| "op_args (Delete key v) = [''CRDTDEL'', key, dec (unat (v_ts v)), dec (unat (v_node v))]"

fun deliver :: "string \<Rightarrow> cell \<Rightarrow> crdt_op \<Rightarrow> cell" where
  "deliver name c (Merge key val v ex) = snd (handle_crdtmerge name (op_args (Merge key val v ex)) c)"
| "deliver name c (Delete key v) = snd (handle_crdtdel name (op_args (Delete key v)) c)"

text \<open>
  An update that reaches the merge: a hybrid-clock version above the watermark and not too far in
  the future, and an expiry that is not in the past.
\<close>

definition op_ok :: "u64 \<Rightarrow> int \<Rightarrow> int \<Rightarrow> crdt_op \<Rightarrow> bool" where
  "op_ok w now off opn \<longleftrightarrow>
     v_ts (op_ver opn) > w \<and> v_ts (op_ver opn) \<ge> kLegacyLimit \<and> uint (physical_ms (v_ts (op_ver opn))) \<le> now + off \<and>
     (case opn of Merge key val v ex \<Rightarrow> 0 \<le> ex \<and> ex \<le> LLONG_MAX \<and> (ex = 0 \<or> now \<le> ex) | Delete key v \<Rightarrow> True)"

definition crdt_inv :: "string \<Rightarrow> u64 \<Rightarrow> int \<Rightarrow> int \<Rightarrow> cell \<Rightarrow> bool" where
  "crdt_inv name w now off c \<longleftrightarrow>
     cell_ok name c \<and> reads_ok (snd c) \<and> tombs_ok name c \<and> watermark (snd c) = w \<and> now_ms (snd c) = now \<and>
     max_clock_offset_ms (snd c) = off \<and> peer_count (snd c) \<noteq> 0"

lemma incoming_version_ok:
  assumes "v_ts v \<ge> kLegacyLimit" and "uint (physical_ms (v_ts v)) \<le> now_ms d + max_clock_offset_ms d"
  shows "incoming_version (dec (unat (v_ts v))) (dec (unat (v_node v))) d = (Inr v, d\<lparr>clock := clock_observe (clock d) (v_ts v)\<rparr>)"
proof -
  obtain nd :: u64 where nd: "parse_u64 (dec (unat (v_node v))) = Some nd" "unat nd = unat (v_node v)"
    using unat_u32_less [of "v_node v"] parse_u64_dec [of "unat (v_node v)"] unat_of_nat_u64 [of "unat (v_node v)"] by simp
  have "\<not> unat (v_node v) > 4294967295" using unat_u32_less [of "v_node v"] by simp
  moreover have "hlc_normalize (v_ts v) = v_ts v" using assms(1) by (simp add: hlc_normalize_def not_less [symmetric])
  ultimately show ?thesis using assms nd by (cases v) (simp add: incoming_version_def Let_def)
qed

section \<open>Writing a key\<close>

lemma snd_on_db [simp]: "snd (on_db f c) = f (snd c)" "fst (on_db f c) = fst c"
  by (simp_all add: on_db_def case_prod_unfold)

lemma rec_ok_new [simp]: "rec_ok new_record"
  by (simp add: rec_ok_def new_record_def i64_def)

lemma write_step:
  assumes ok: "cell_ok name c"
    and found: "\<And>rc. r = Some rc \<Longrightarrow> map_of (room_keys (fst c)) key = Some rc"
    and absent: "r = None \<Longrightarrow> map_of (room_keys (fst c)) key = None \<and> nget (cold_index (db_eviction (snd c))) name key = None"
    and ens: "ensure_rec name key r c = (rc, c2)" and ex: "i64 ex" and tb: "nested_ok (tombstones (snd c))"
  shows "handled name c (assign key rc val ex ts node c2)"
    "stored_of (assign key rc val ex ts node c2) =
       (stored_of c)(key \<mapsto> \<lparr>rec_value = val, expire_at = ex, timestamp_ms = ts, node_id = node\<rparr>)"
    "find_tomb name k (snd (assign key rc val ex ts node c2)) =
       (if r = None \<and> k = key then None else find_tomb name k (snd c))"
    "nested_ok (tombstones (snd (assign key rc val ex ts node c2)))"
proof -
  have step: "handled name c c2 \<and> map_of (room_keys (fst c2)) key = Some rc \<and>
    (\<forall>k. k \<noteq> key \<longrightarrow> stored_of c2 k = stored_of c k) \<and> nested_ok (tombstones (snd c2)) \<and>
    (\<forall>k. find_tomb name k (snd c2) = (if r = None \<and> k = key then None else find_tomb name k (snd c)))"
  proof (cases r)
    case (Some x)
    then show ?thesis using ens found tb handled_refl [OF ok] by (simp add: ensure_rec_def)
  next
    case None
    obtain room d where c: "c = (room, d)" by fastforce
    have ab: "map_of (room_keys room) key = None" "nget (cold_index (db_eviction d)) name key = None"
      using absent [OF None] by (simp_all add: c)
    let ?c1 = "insert_rec key c"
    note em = emplace_step [OF ok [unfolded c] ab rec_ok_new, folded c, folded insert_rec_def]
    note q = quiet_step [OF quiet_tombs(2) evolves_ok [OF em(1)], of name key]
    have eqs: "rc = new_record" "c2 = on_db (clear_tomb name key) ?c1" using ens None by (simp_all add: ensure_rec_def)
    have tb1: "tombstones (snd ?c1) = tombstones (snd c)" "find_tomb name k (snd ?c1) = find_tomb name k (snd c)" for k
      using find_tomb_evolves [OF em(1)] by blast+
    then have "nested_ok (tombstones (snd ?c1))" using tb by simp
    note cl = find_tomb_clear [OF this] nested_ok_tombs(2) [OF this]
    have "map_of (room_keys (fst c2)) key = Some rc" unfolding eqs q(3) em(3) by simp
    moreover have "stored_of c2 k = stored_of c k" if "k \<noteq> key" for k unfolding eqs q(2) em(2) using that by simp
    moreover have "handled name c c2" unfolding eqs by (rule handled_trans [OF evolves_handled [OF em(1)] q(1)])
    ultimately show ?thesis using None cl tb1 by (simp add: eqs)
  qed
  obtain room2 d2 where c2: "c2 = (room2, d2)" by fastforce
  have ok2: "cell_ok name (room2, d2)" using handledD(1) [OF conjunct1 [OF step]] by (simp add: c2)
  have old: "map_of (room_keys room2) key = Some rc" using step by (simp add: c2)
  note as = assign_step [OF ok2 old ex, of val ts node, folded c2]
  show "handled name c (assign key rc val ex ts node c2)"
    by (rule handled_trans [OF conjunct1 [OF step] evolves_handled [OF as(1)]])
  show "stored_of (assign key rc val ex ts node c2) =
       (stored_of c)(key \<mapsto> \<lparr>rec_value = val, expire_at = ex, timestamp_ms = ts, node_id = node\<rparr>)"
    using as(2) step by (auto simp: fun_eq_iff)
  show "find_tomb name k (snd (assign key rc val ex ts node c2)) = (if r = None \<and> k = key then None else find_tomb name k (snd c))"
    "nested_ok (tombstones (snd (assign key rc val ex ts node c2)))"
    using find_tomb_evolves [OF as(1)] step by auto
qed

text \<open>Finding a key, as the handlers do it first.\<close>

lemma find_step:
  assumes inv: "cell_ok name c" "reads_ok (snd c)" and run: "lookup name key c = (r, c1)"
  shows "handled name c c1" "r = view c key" "view c1 = view c" "stored_of c1 = (stored_of c)(key := r)"
    "\<And>rc. r = Some rc \<Longrightarrow> map_of (room_keys (fst c1)) key = Some rc"
    "r = None \<Longrightarrow> map_of (room_keys (fst c1)) key = None \<and> nget (cold_index (db_eviction (snd c1))) name key = None"
    "tombstones (snd c1) = tombstones (snd c)" "find_tomb n k (snd c1) = find_tomb n k (snd c)" "clock (snd c1) = clock (snd c)"
    "reg name c1 = reg name c" "db_aof (snd c1) = db_aof (snd c)"
proof -
  note l = lookup_spec [OF inv run]
  note t = find_tomb_evolves [OF l(1)]
  have fr: "access_frame (snd c) (snd c1)" using l(1) by (simp add: evolves_def)
  show "handled name c c1" "r = view c key" "view c1 = view c" "stored_of c1 = (stored_of c)(key := r)"
    "\<And>rc. r = Some rc \<Longrightarrow> map_of (room_keys (fst c1)) key = Some rc"
    "r = None \<Longrightarrow> map_of (room_keys (fst c1)) key = None \<and> nget (cold_index (db_eviction (snd c1))) name key = None"
    "tombstones (snd c1) = tombstones (snd c)" "find_tomb n k (snd c1) = find_tomb n k (snd c)"
    using l t evolves_handled by auto
  show "clock (snd c1) = clock (snd c)" "db_aof (snd c1) = db_aof (snd c)" using access_frame_fields [OF fr] by simp_all
  have "find_tomb name x (snd c1) = find_tomb name x (snd c)" for x using t by blast
  then show "reg name c1 = reg name c" using l(3) by (rule reg_cong [rotated])
qed

section \<open>Delivery\<close>

lemma reg_cases:
  assumes "tombs_ok name c"
  shows "reg name c key = Empty \<longleftrightarrow> view c key = None \<and> find_tomb name key (snd c) = None"
    "reg name c key = Tomb t \<longleftrightarrow> view c key = None \<and> find_tomb name key (snd c) = Some t"
    "reg name c key = Val r \<longleftrightarrow> view c key = Some r"
  by (auto simp: reg_def split: option.splits)

lemma crdt_invD:
  assumes "crdt_inv name w now off c"
  shows "cell_ok name c" "reads_ok (snd c)" "tombs_ok name c" "watermark (snd c) = w" "now_ms (snd c) = now"
    "max_clock_offset_ms (snd c) = off" "peer_count (snd c) \<noteq> 0"
  using assms by (simp_all add: crdt_inv_def)

lemma crdt_inv_handled:
  "crdt_inv name w now off c \<Longrightarrow> handled name c c' \<Longrightarrow> tombs_ok name c' \<Longrightarrow> crdt_inv name w now off c'"
  by (simp add: crdt_inv_def handled_def)

text \<open>The observed clock and the lookup that both handlers start with.\<close>

lemma receive_step:
  assumes inv: "crdt_inv name w now off c"
    and run: "lookup name key (on_db (\<lambda>d. d\<lparr>clock := t\<rparr>) c) = (r, c1)"
  shows "handled name c c1" "crdt_inv name w now off c1" "reg name c1 = reg name c" "r = view c1 key"
    "\<And>rc. r = Some rc \<Longrightarrow> map_of (room_keys (fst c1)) key = Some rc"
    "r = None \<Longrightarrow> map_of (room_keys (fst c1)) key = None \<and> nget (cold_index (db_eviction (snd c1))) name key = None"
    "stale name key r v (snd c1) \<longleftrightarrow> v \<le> stamp w (reg name c key)"
    "\<And>k. stored_of c1 k = None \<longrightarrow> view c k = None"
proof -
  let ?c0 = "on_db (\<lambda>d. d\<lparr>clock := t\<rparr>) c"
  note i = crdt_invD [OF inv]
  note q = quiet_step [OF quiet_basic(3) [of t] i(1)]
  have rd0: "reads_ok (snd ?c0)" using handledD(2) [OF q(1) i(2)] .
  note f = find_step [OF handledD(1) [OF q(1)] rd0 run]
  have view0: "view ?c0 = view c" using q(2) by (simp add: fun_eq_iff view_stored)
  have reg0: "reg name ?c0 = reg name c" by (rule reg_cong [OF view0]) simp
  show h: "handled name c c1" by (rule handled_trans [OF q(1) f(1)])
  have "tombs_ok name c1" using i(3) f(3,7,8) view0 by (simp add: tombs_ok_def)
  then show inv1: "crdt_inv name w now off c1" by (rule crdt_inv_handled [OF inv h])
  show reg: "reg name c1 = reg name c" using f(10) reg0 by simp
  show r: "r = view c1 key" using f(2,3) by simp
  show "\<And>rc. r = Some rc \<Longrightarrow> map_of (room_keys (fst c1)) key = Some rc"
    "r = None \<Longrightarrow> map_of (room_keys (fst c1)) key = None \<and> nget (cold_index (db_eviction (snd c1))) name key = None"
    using f(5,6) by auto
  show "stale name key r v (snd c1) \<longleftrightarrow> v \<le> stamp w (reg name c key)"
    using stale_stamp [OF r, of name v] crdt_invD(4) [OF inv1] reg by simp
  show "\<And>k. stored_of c1 k = None \<longrightarrow> view c k = None" using f(3) view0 by (metis live_simps(1) view_stored)
qed

lemma view_upd:
  assumes "handled name c c'" and "stored_of c' = (stored_of c)(key := x)"
  shows "view c' k = (if k = key then live (now_ms (snd c)) x else view c k)"
  using assms handledD(3) [OF assms(1)] by (simp add: view_stored)

lemma deliver_merge:
  assumes inv: "crdt_inv name w now off c" and opn: "op_ok w now off (Merge key val v ex)"
  shows "crdt_inv name w now off (deliver name c (Merge key val v ex)) \<and>
    (\<forall>k. reg name (deliver name c (Merge key val v ex)) k =
       (if k = key \<and> stamp w (reg name c k) < v then op_put (Merge key val v ex) else reg name c k))"
proof -
  obtain room d where c: "c = (room, d)" by fastforce
  note i = crdt_invD [OF inv]
  let ?f = "\<lambda>d. d\<lparr>clock := clock_observe (clock (snd c)) (v_ts v)\<rparr>"
  have iv: "incoming_version (dec (unat (v_ts v))) (dec (unat (v_node v))) d = (Inr v, ?f d)"
    using opn i incoming_version_ok [of v d] by (simp add: op_ok_def c)
  have exok: "i64 ex" "merge_expire (op_args (Merge key val v ex)) = Some ex" "\<not> expired \<lparr>rec_value = val, expire_at = ex, timestamp_ms = v_ts v, node_id = v_node v\<rparr> now"
    using opn by (auto simp: op_ok_def i64_iff merge_expire_def parse_i64_to_string expired_def)
  obtain r c1 where lk: "lookup name key (on_db ?f c) = (r, c1)" by (meson surj_pair)
  note rc = receive_step [OF inv lk]
  have lk': "lookup name key (room, ?f d) = (r, c1)" using lk by (simp add: on_db_def c)
  obtain rec c2 where ens: "ensure_rec name key r c1 = (rec, c2)" by (meson surj_pair)
  let ?c3 = "assign key rec val ex (v_ts v) (v_node v) c2"
  let ?g = "\<lambda>d. aof_append name (op_args (Merge key val v ex)) ex (v_ts v) (v_node v) (access_key key d)"
  have run: "deliver name c (Merge key val v ex) = (if v \<le> stamp w (reg name c key) then c1 else on_db ?g ?c3)"
    using exok(2) iv lk' ens rc(7) [of v]
    by (simp add: handle_crdtmerge_def c Let_def)
  show ?thesis
  proof (cases "v \<le> stamp w (reg name c key)")
    case True
    then show ?thesis unfolding run using rc(2,3) by auto
  next
    case False
    have tb: "nested_ok (tombstones (snd c1))" using crdt_invD(3) [OF rc(2)] by (simp add: tombs_ok_def)
    note w = write_step [OF crdt_invD(1) [OF rc(2)] rc(5,6) ens exok(1) tb, where val = val and ts = "v_ts v" and node = "v_node v"]
    have "quiet ?g" by (rule quiet_comp [OF quiet_basic(1,2)])
    note q = quiet_step [OF this handledD(1) [OF w(1)]]
    have h: "handled name c1 (on_db ?g ?c3)" by (rule handled_trans [OF w(1) q(1)])
    have vw: "view (on_db ?g ?c3) k = (if k = key then Some \<lparr>rec_value = val, expire_at = ex, timestamp_ms = v_ts v, node_id = v_node v\<rparr> else view c1 k)" for k
      using view_upd [OF h trans [OF q(2) w(2)], of k] exok(3) crdt_invD(5) [OF rc(2)] by simp
    have ft: "find_tomb name k (snd (on_db ?g ?c3)) = (if k = key then None else find_tomb name k (snd c1))" for k
      using w(3) [of k] crdt_invD(3) [OF rc(2)] rc(4) by (auto simp: tombs_ok_def)
    have "tombs_ok name (on_db ?g ?c3)"
    proof (rule tombs_okI)
      show "view (on_db ?g ?c3) k \<noteq> None \<Longrightarrow> find_tomb name k (snd (on_db ?g ?c3)) = None" for k
        unfolding vw ft using tombs_okD [OF crdt_invD(3) [OF rc(2)], of k] by (cases "k = key") simp_all
    qed (use w(4) in simp)
    then have "crdt_inv name w now off (on_db ?g ?c3)" by (rule crdt_inv_handled [OF rc(2) h])
    moreover have "reg name (on_db ?g ?c3) k = (if k = key then op_put (Merge key val v ex) else reg name c k)" for k
      unfolding rc(3) [symmetric] reg_def vw ft by (cases "k = key") simp_all
    ultimately show ?thesis unfolding run using False by auto
  qed
qed

lemma deliver_delete:
  assumes inv: "crdt_inv name w now off c" and opn: "op_ok w now off (Delete key v)"
  shows "crdt_inv name w now off (deliver name c (Delete key v)) \<and>
    (\<forall>k. reg name (deliver name c (Delete key v)) k =
       (if k = key \<and> stamp w (reg name c k) < v then op_put (Delete key v) else reg name c k))"
proof -
  obtain room d where c: "c = (room, d)" by fastforce
  note i = crdt_invD [OF inv]
  let ?f = "\<lambda>d. d\<lparr>clock := clock_observe (clock (snd c)) (v_ts v)\<rparr>"
  have iv: "incoming_version (dec (unat (v_ts v))) (dec (unat (v_node v))) d = (Inr v, ?f d)"
    using opn i incoming_version_ok [of v d] by (simp add: op_ok_def c)
  obtain r c1 where lk: "lookup name key (on_db ?f c) = (r, c1)" by (meson surj_pair)
  note rc = receive_step [OF inv lk]
  have lk': "lookup name key (room, ?f d) = (r, c1)" using lk by (simp add: on_db_def c)
  define c2 where "c2 = (case r of Some x \<Rightarrow> erase key x c1 | None \<Rightarrow> c1)"
  let ?g = "\<lambda>d. aof_append name (op_args (Delete key v)) 0 (v_ts v) (v_node v) (set_tomb name key v d)"
  have run: "deliver name c (Delete key v) = (if v \<le> stamp w (reg name c key) then c1 else on_db ?g c2)"
    using iv lk' rc(7) [of v] by (simp add: handle_crdtdel_def c Let_def c2_def)
  show ?thesis
  proof (cases "v \<le> stamp w (reg name c key)")
    case True
    then show ?thesis unfolding run using rc(2,3) by auto
  next
    case False
    have er: "evolves name c1 c2 \<and> stored_of c2 = (stored_of c1)(key := None)"
    proof (cases r)
      case None
      have "stored_of c1 key = None" using rc(6) [OF None] cell_okD(2) [of name "fst c1" "snd c1"] crdt_invD(1) [OF rc(2)]
        by (simp add: stored_of_def stored_def cold_get_def case_prod_unfold)
      then show ?thesis using None evolves_refl [OF crdt_invD(1) [OF rc(2)]] by (simp add: c2_def fun_upd_idem)
    next
      case (Some x)
      have "cell_ok name (fst c1, snd c1)" using crdt_invD(1) [OF rc(2)] by simp
      from erase_step [OF this rc(5) [OF Some]] show ?thesis by (simp add: c2_def Some)
    qed
    have "quiet ?g" by (rule quiet_comp [OF quiet_basic(1) quiet_tombs(1)])
    note q = quiet_step [OF this evolves_ok [OF conjunct1 [OF er]]]
    have h2: "handled name c1 c2" using er evolves_handled by blast
    have h: "handled name c1 (on_db ?g c2)" by (rule handled_trans [OF h2 q(1)])
    have vw: "view (on_db ?g c2) k = (if k = key then None else view c1 k)" for k
      using view_upd [OF h trans [OF q(2) conjunct2 [OF er]], of k] by simp
    note tm = find_tomb_evolves [OF conjunct1 [OF er]]
    have old: "t \<le> v" if "find_tomb name key (snd c2) = Some t" for t
    proof -
      have ft: "find_tomb name key (snd c1) = Some t" using that tm by simp
      then have "view c1 key = None" using crdt_invD(3) [OF rc(2)] by (auto simp: tombs_ok_def)
      then have "reg name c key = Tomb t" using ft rc(3) reg_cases(2) [OF crdt_invD(3) [OF rc(2)]] by simp
      then show ?thesis using False by simp
    qed
    have "peer_count (snd c2) \<noteq> 0" "v_ts v > watermark (snd c2)"
      using handledD(5,6) [OF h2] crdt_invD(4,7) [OF rc(2)] opn by (simp_all add: op_ok_def)
    from find_tomb_set [OF this old]
    have ft: "find_tomb name k (snd (on_db ?g c2)) = (if k = key then Some v else find_tomb name k (snd c1))" for k
      using tm by simp
    have nok: "nested_ok (tombstones (snd c2))" using crdt_invD(3) [OF rc(2)] tm by (simp add: tombs_ok_def)
    have "tombs_ok name (on_db ?g c2)"
    proof (rule tombs_okI)
      show "view (on_db ?g c2) k \<noteq> None \<Longrightarrow> find_tomb name k (snd (on_db ?g c2)) = None" for k
        unfolding vw ft using tombs_okD [OF crdt_invD(3) [OF rc(2)], of k] by (cases "k = key") simp_all
    qed (use nested_ok_tombs(1) [OF nok, of name key v] in simp)
    then have "crdt_inv name w now off (on_db ?g c2)" by (rule crdt_inv_handled [OF rc(2) h])
    moreover have "reg name (on_db ?g c2) k = (if k = key then op_put (Delete key v) else reg name c k)" for k
      unfolding rc(3) [symmetric] reg_def vw ft by (cases "k = key") simp_all
    ultimately show ?thesis unfolding run using False by auto
  qed
qed

section \<open>Last writer wins\<close>

text \<open>
  The contract of a store of last-writer-wins registers: an update replaces the register of its key
  exactly when its version is above the register's. What follows from it, for every such store,
  is that the state depends on the set of updates only: not on their order, and not on how often
  each one arrives.
\<close>

locale lww_store =
  fixes inv :: "'s \<Rightarrow> bool" and ok :: "'o \<Rightarrow> bool" and step :: "'s \<Rightarrow> 'o \<Rightarrow> 's" and state :: "'s \<Rightarrow> 'k \<Rightarrow> 'r"
    and vof :: "'r \<Rightarrow> 'v :: linorder" and key :: "'o \<Rightarrow> 'k" and ver :: "'o \<Rightarrow> 'v" and put :: "'o \<Rightarrow> 'r"
  assumes step_inv: "inv s \<Longrightarrow> ok x \<Longrightarrow> inv (step s x)"
    and step_state: "inv s \<Longrightarrow> ok x \<Longrightarrow> state (step s x) k = (if k = key x \<and> vof (state s k) < ver x then put x else state s k)"
    and vof_put: "ok x \<Longrightarrow> vof (put x) = ver x"
begin

lemma run_inv: "inv s \<Longrightarrow> \<forall>x \<in> set xs. ok x \<Longrightarrow> inv (foldl step s xs)"
  by (induction xs arbitrary: s) (auto simp: step_inv)

text \<open>The register after a run: the initial one, or the update with the greatest version above it.\<close>

lemma run_state:
  "inv s \<Longrightarrow> \<forall>x \<in> set xs. ok x \<Longrightarrow>
    (state (foldl step s xs) k = state s k \<and> (\<forall>x \<in> set xs. key x = k \<longrightarrow> ver x \<le> vof (state s k))) \<or>
    (\<exists>x \<in> set xs. key x = k \<and> vof (state s k) < ver x \<and> state (foldl step s xs) k = put x \<and>
       (\<forall>y \<in> set xs. key y = k \<longrightarrow> ver y \<le> ver x))"
proof (induction xs arbitrary: s)
  case (Cons a xs)
  have a: "inv (step s a)" "ok a" "\<forall>x \<in> set xs. ok x" using Cons.prems step_inv by auto
  note IH = Cons.IH [OF a(1,3)] and st = step_state [OF Cons.prems(1) a(2), of k]
  show ?case
  proof (cases "k = key a \<and> vof (state s k) < ver a")
    case True
    have new: "state (step s a) k = put a" "vof (put a) = ver a" using st unfolding if_P [OF True] by (simp_all add: vof_put a(2))
    from IH show ?thesis
    proof
      assume "state (foldl step (step s a) xs) k = state (step s a) k \<and> (\<forall>x \<in> set xs. key x = k \<longrightarrow> ver x \<le> vof (state (step s a) k))"
      then show ?thesis using new True by (intro disjI2 bexI [of _ a]) auto
    next
      assume "\<exists>x \<in> set xs. key x = k \<and> vof (state (step s a) k) < ver x \<and> state (foldl step (step s a) xs) k = put x \<and>
        (\<forall>y \<in> set xs. key y = k \<longrightarrow> ver y \<le> ver x)"
      then obtain x where "x \<in> set xs" "key x = k" "ver a < ver x" "state (foldl step (step s a) xs) k = put x"
        "\<forall>y \<in> set xs. key y = k \<longrightarrow> ver y \<le> ver x" using new by auto
      then show ?thesis using True by (intro disjI2 bexI [of _ x]) auto
    qed
  next
    case False
    have same: "state (step s a) k = state s k" using st unfolding if_not_P [OF False] .
    have low: "key a = k \<Longrightarrow> ver a \<le> vof (state s k)" using False by auto
    from IH [unfolded same] show ?thesis
    proof
      assume "state (foldl step (step s a) xs) k = state s k \<and> (\<forall>x \<in> set xs. key x = k \<longrightarrow> ver x \<le> vof (state s k))"
      then show ?thesis using low by (intro disjI1) auto
    next
      assume "\<exists>x \<in> set xs. key x = k \<and> vof (state s k) < ver x \<and> state (foldl step (step s a) xs) k = put x \<and>
        (\<forall>y \<in> set xs. key y = k \<longrightarrow> ver y \<le> ver x)"
      then obtain x where "x \<in> set xs" "key x = k" "vof (state s k) < ver x" "state (foldl step (step s a) xs) k = put x"
        "\<forall>y \<in> set xs. key y = k \<longrightarrow> ver y \<le> ver x" by auto
      then show ?thesis using low by (intro disjI2 bexI [of _ x]) (auto intro: order_trans less_imp_le)
    qed
  qed
qed simp

lemma converge:
  assumes "inv s" and "\<forall>x \<in> set xs. ok x" and "set xs = set ys"
    and "\<And>x y. x \<in> set xs \<Longrightarrow> y \<in> set xs \<Longrightarrow> key x = key y \<Longrightarrow> ver x = ver y \<Longrightarrow> put x = put y"
  shows "state (foldl step s xs) = state (foldl step s ys)"
proof
  fix k
  have ys: "\<forall>x \<in> set ys. ok x" using assms(2,3) by simp
  note rx = run_state [OF assms(1,2), of k] and ry = run_state [OF assms(1) ys, of k, unfolded assms(3) [symmetric]]
  show "state (foldl step s xs) k = state (foldl step s ys) k"
  proof (cases "\<forall>x \<in> set xs. key x = k \<longrightarrow> ver x \<le> vof (state s k)")
    case True
    then have "\<not> (\<exists>x \<in> set xs. key x = k \<and> vof (state s k) < ver x)" by (auto simp: not_less)
    then show ?thesis using rx ry by auto
  next
    case False
    obtain x where x: "x \<in> set xs" "key x = k" "state (foldl step s xs) k = put x" "\<forall>y \<in> set xs. key y = k \<longrightarrow> ver y \<le> ver x"
      using rx False by auto
    obtain y where y: "y \<in> set xs" "key y = k" "state (foldl step s ys) k = put y" "\<forall>z \<in> set xs. key z = k \<longrightarrow> ver z \<le> ver y"
      using ry False by auto
    have "ver x = ver y" using x y by (auto intro: antisym)
    then show ?thesis using assms(4) [OF x(1) y(1)] x y by simp
  qed
qed

end

interpretation crdt: lww_store "crdt_inv name w now off" "op_ok w now off" "deliver name" "reg name" "stamp w" op_key op_ver op_put
  for name w now off
proof unfold_locales
  fix s x k
  assume inv: "crdt_inv name w now off s" and ok: "op_ok w now off x"
  have "crdt_inv name w now off (deliver name s x) \<and>
    (\<forall>k. reg name (deliver name s x) k = (if k = op_key x \<and> stamp w (reg name s k) < op_ver x then op_put x else reg name s k))"
  proof (cases x)
    case (Merge key val v ex)
    show ?thesis unfolding Merge op_ver.simps crdt_op.sel by (rule deliver_merge [OF inv ok [unfolded Merge]])
  next
    case (Delete key v)
    show ?thesis unfolding Delete op_ver.simps crdt_op.sel by (rule deliver_delete [OF inv ok [unfolded Delete]])
  qed
  then show "crdt_inv name w now off (deliver name s x)"
    "reg name (deliver name s x) k = (if k = op_key x \<and> stamp w (reg name s k) < op_ver x then op_put x else reg name s k)" by blast+
next
  fix x assume "op_ok w now off x"
  then show "stamp w (op_put x) = op_ver x" by (cases x) (auto simp: rec_version_def)
qed

section \<open>Collecting tombstones\<close>

lemma map_of_map_filter_snd: "map_of (map (\<lambda>(a, ks). (a, f ks)) m) r = map_option f (map_of m r)"
  by (induction m) auto

lemma map_of_filter_al: "al_ok m \<Longrightarrow> map_of (filter P m) k = (case map_of m k of Some v \<Rightarrow> if P (k, v) then Some v else None | None \<Rightarrow> None)"
  by (induction m) (auto split: option.splits)

lemma drop_tombs_ok: "nested_ok m \<Longrightarrow> nested_ok (drop_tombs w m)"
proof -
  assume m: "nested_ok m"
  have "map fst (drop_tombs w m) = map fst (filter (\<lambda>(name, ks). filter (\<lambda>(_, v). v_ts v > w) ks \<noteq> []) m)" for m
    unfolding drop_tombs_def by (induction m) auto
  then have al: "al_ok (drop_tombs w m)" using m by (simp add: nested_ok_def al_ok_def distinct_map_filter)
  have "al_ok ks \<and> ks \<noteq> []" if found: "map_of (drop_tombs w m) r = Some ks" for r ks
  proof -
    obtain ks0 where k: "(r, ks0) \<in> set m" "ks = filter (\<lambda>(_, v). v_ts v > w) ks0" "ks \<noteq> []"
      using map_of_SomeD [OF found] by (auto simp: drop_tombs_def)
    then have "map_of m r = Some ks0" using m by (simp add: nested_ok_def al_ok_def)
    then show ?thesis using m k by (simp add: nested_ok_def al_ok_def distinct_map_filter)
  qed
  then show ?thesis using al by (simp add: nested_ok_def)
qed

lemma drop_tombs_get:
  assumes "nested_ok m"
  shows "nget (drop_tombs w m) n k = (case nget m n k of Some v \<Rightarrow> if v_ts v > w then Some v else None | None \<Rightarrow> None)"
proof -
  let ?f = "filter (\<lambda>(_ :: string, v). v_ts v > w)"
  have al: "al_ok (map (\<lambda>(name, ks). (name, ?f ks)) m)"
    using assms by (auto simp: nested_ok_def al_ok_def case_prod_unfold comp_def)
  have "map_of (drop_tombs w m) n = (case map_of m n of None \<Rightarrow> None | Some ks \<Rightarrow> if ?f ks = [] then None else Some (?f ks))"
    unfolding drop_tombs_def map_of_filter_al [OF al] map_of_map_filter_snd by (cases "map_of m n") auto
  then have "inner (drop_tombs w m) n = ?f (inner m n)" by (auto simp: inner_def split: option.splits)
  then show ?thesis using nested_ok_inner [OF assms, of n] by (simp add: nget_def map_of_filter_al split: option.splits)
qed

lemma low_frontier_le:
  "low_frontier self fs = (h, low) \<Longrightarrow> (node, f) \<in> set fs \<Longrightarrow> node \<noteq> self \<Longrightarrow> low \<le> f"
proof -
  define g where "g = (\<lambda>(heard :: nat, low :: u64) (node, f). if node = self then (heard, low) else (Suc heard, min low f))"
  have "snd (foldl g a fs) \<le> snd a \<and> (\<forall>(node, f) \<in> set fs. node \<noteq> self \<longrightarrow> snd (foldl g a fs) \<le> f)" for a
  proof (induction fs arbitrary: a)
    case (Cons x fs)
    have "snd (g a x) \<le> snd a" "fst x \<noteq> self \<Longrightarrow> snd (g a x) \<le> snd x" by (auto simp: g_def split: prod.splits)
    then show ?case using Cons.IH [of "g a x"] by (fastforce split: prod.splits)
  qed simp
  from this [of "(0, UINT64_MAX)"]
  show "low_frontier self fs = (h, low) \<Longrightarrow> (node, f) \<in> set fs \<Longrightarrow> node \<noteq> self \<Longrightarrow> low \<le> f"
    unfolding low_frontier_def g_def [symmetric] by fastforce
qed

lemma collect_cases:
  assumes "collect_tombstones d = d'"
  shows "(d' = d) \<or>
    (\<exists>low. watermark d < low \<and> watermark d' = low \<and> tombstones d' = drop_tombs low (tombstones d) \<and>
       (\<forall>(node, f) \<in> set (frontiers d). node \<noteq> local_node_id d \<longrightarrow> low \<le> f))"
  using assms low_frontier_le [of "local_node_id d" "frontiers d"]
  by (auto simp: collect_tombstones_def Let_def count_tomb_def not_le split: prod.splits if_splits)

section \<open>Properties\<close>

text \<open>
  C20. Replicas converge. Two nodes that start from the same state of a room and receive the same
  set of replicated updates (merges that carry their expiry, and deletions), in any order and with
  any repetitions, hold the same value, version or tombstone for every key. Updates of one key
  with equal versions are the same update; versions are above the watermark.
\<close>

theorem replicas_converge:
  assumes "crdt_inv name w now off c" and "\<forall>x \<in> set xs. op_ok w now off x" and "set xs = set ys"
    and "\<And>x y. x \<in> set xs \<Longrightarrow> y \<in> set xs \<Longrightarrow> op_key x = op_key y \<Longrightarrow> op_ver x = op_ver y \<Longrightarrow> x = y"
  shows "reg name (foldl (deliver name) c xs) = reg name (foldl (deliver name) c ys) \<and>
    view (foldl (deliver name) c xs) = view (foldl (deliver name) c ys)"
proof -
  have "reg name (foldl (deliver name) c xs) = reg name (foldl (deliver name) c ys)"
    by (rule crdt.converge [OF assms(1-3)]) (use assms(4) in blast)
  moreover have "view c1 = view c2" if "reg name c1 = reg name c2" for c1 c2
  proof
    fix k
    have "view c k = (case reg name c k of Val r \<Rightarrow> Some r | _ \<Rightarrow> None)" for c by (simp add: reg_def split: option.splits)
    then show "view c1 k = view c2 k" using that by simp
  qed
  ultimately show ?thesis by blast
qed

lemma ex_crdt_inv: "crdt_inv ''default'' 0 3000000000 500 ex_cell"
  using ex_cell_ok by (auto simp: crdt_inv_def tombs_ok_def)
    (simp_all add: ex_cell_def ex_db_def database_init_def view_stored stored_of_def stored_def new_room_def
      eviction_init_def cold_get_def find_tomb_def)

theorem replicas_converge_witness:
  "let m = Merge ''k'' ''v'' (Version (push_bit 16 2900000000) 3) 0; del = Delete ''k'' (Version (push_bit 16 2900000001) 4)
   in view (foldl (deliver ''default'') ex_cell [m, del]) = view (foldl (deliver ''default'') ex_cell [del, m, del])"
proof -
  define m where "m = Merge ''k'' ''v'' (Version (push_bit 16 2900000000) 3) 0"
  define del where "del = Delete ''k'' (Version (push_bit 16 2900000001) 4)"
  have "view (foldl (deliver ''default'') ex_cell [m, del]) = view (foldl (deliver ''default'') ex_cell [del, m, del])"
  proof (rule conjunct2 [OF replicas_converge [OF ex_crdt_inv]])
    show "\<forall>x \<in> set [m, del]. op_ok 0 3000000000 500 x"
      by (simp add: m_def del_def op_ok_def kLegacyLimit_def physical_ms_def push_bit_eq_mult drop_bit_eq_div)
    show "set [m, del] = set [del, m, del]" by auto
    show "x = y" if "x \<in> set [m, del]" "y \<in> set [m, del]" "op_key x = op_key y" "op_ver x = op_ver y" for x y
      using that by (auto simp: m_def del_def push_bit_eq_mult)
  qed
  then show ?thesis unfolding Let_def m_def del_def .
qed

text \<open>
  C26. Forgetting tombstones resurrects nothing. Collection forgets only tombstones at or below the
  frontier every peer has announced, never lowers the watermark, keeps all other tombstones, and
  every incoming write that was stale before is still stale after.
\<close>

theorem collect_no_resurrection:
  assumes "nested_ok (tombstones d)" and "collect_tombstones d = d'"
  shows "watermark d \<le> watermark d' \<and>
    (\<forall>v. stale name key None v d \<longrightarrow> stale name key None v d') \<and>
    (\<forall>t. find_tomb name key d = Some t \<longrightarrow>
       find_tomb name key d' = Some t \<or>
       (find_tomb name key d' = None \<and> v_ts t \<le> watermark d' \<and>
        (\<forall>(node, f) \<in> set (frontiers d). node \<noteq> local_node_id d \<longrightarrow> watermark d' \<le> f)))"
  using collect_cases [OF assms(2)]
proof
  assume "d' = d"
  then show ?thesis by simp
next
  assume "\<exists>low. watermark d < low \<and> watermark d' = low \<and> tombstones d' = drop_tombs low (tombstones d) \<and>
    (\<forall>(node, f) \<in> set (frontiers d). node \<noteq> local_node_id d \<longrightarrow> low \<le> f)"
  then obtain low where low: "watermark d < low" "watermark d' = low" "tombstones d' = drop_tombs low (tombstones d)"
    "\<forall>(node, f) \<in> set (frontiers d). node \<noteq> local_node_id d \<longrightarrow> low \<le> f" by blast
  have ft: "find_tomb name key d' = (case find_tomb name key d of Some v \<Rightarrow> if v_ts v > low then Some v else None | None \<Rightarrow> None)"
    using drop_tombs_get [OF assms(1)] by (simp add: find_tomb_def low(3))
  have "stale name key None v d'" if "stale name key None v d" for v
    using that low(1,2) version_le_ts [of v] by (auto simp: stale_def ft not_less split: option.splits) (meson order_trans)
  then show ?thesis using low ft by (auto simp: not_less)
qed

theorem collect_no_resurrection_witness:
  "let d = ex_db\<lparr>tombstones := [(''default'', [(''k'', Version 5 1)])], frontiers := [(9, 8)]\<rparr>
   in stale ''default'' ''k'' None (Version 4 3) (collect_tombstones d)"
proof -
  define d where "d = ex_db\<lparr>tombstones := [(''default'', [(''k'', Version 5 1)])], frontiers := [(9, 8)]\<rparr>"
  have "nested_ok (tombstones d)" by (simp add: d_def nested_ok_def al_ok_def)
  moreover have "stale ''default'' ''k'' None (Version 4 3) d"
    by (simp add: d_def stale_def find_tomb_def nget_def inner_def less_eq_version_def)
  ultimately have "stale ''default'' ''k'' None (Version 4 3) (collect_tombstones d)"
    using collect_no_resurrection [of d "collect_tombstones d" "''default''" "''k''"] by blast
  then show ?thesis unfolding Let_def d_def .
qed

end
