(* ===== verification/Commands.thy ===== *)
theory Commands
  imports Crdt
begin

text \<open>
  The commands on keys, \<^verbatim>\<open>src/src/core/commands.cpp\<close>. A handler takes the name of the room, the words
  of the command and the cell, and returns the reply and the new cell.
\<close>

section \<open>Handlers\<close>

definition bump_gets :: "nat \<Rightarrow> database \<Rightarrow> database" where
  "bump_gets n d = d\<lparr>db_metrics := (db_metrics d)\<lparr>total_gets := total_gets (db_metrics d) + of_nat n\<rparr>\<rparr>"

definition bump_sets :: "nat \<Rightarrow> database \<Rightarrow> database" where
  "bump_sets n d = d\<lparr>db_metrics := (db_metrics d)\<lparr>total_sets := total_sets (db_metrics d) + of_nat n\<rparr>\<rparr>"

definition draw :: "u64 \<Rightarrow> cell \<Rightarrow> u64 \<times> cell" where
  "draw overwritten c =
     (let v = clock_next (clock (snd c)) (now_ms (snd c)) overwritten in (v, on_db (\<lambda>d. d\<lparr>clock := v\<rparr>) c))"

definition handle_get :: "string \<Rightarrow> string list \<Rightarrow> cell \<Rightarrow> string \<times> cell" where
  "handle_get name args c =
     (if length args \<noteq> 2 then (err ''Wrong number of arguments for GET'', c)
      else
        (case lookup name (args ! 1) (on_db (bump_gets 1) c) of
           (None, c1) \<Rightarrow> (nil (snd c1), c1)
         | (Some r, c1) \<Rightarrow> (bulk_string (rec_value r), on_db (access_key (args ! 1)) c1)))"

text \<open>The options of \<^verbatim>\<open>SET\<close>: \<^verbatim>\<open>NX\<close>, \<^verbatim>\<open>XX\<close> and the absolute expiry, or the error.\<close>

definition set_deadline :: "int \<Rightarrow> string \<Rightarrow> string \<Rightarrow> int option" where
  "set_deadline now opt num =
     (let scale = (if opt = ''EX'' then 1000 else 1) in
      case parse_i64 num of
        None \<Rightarrow> None
      | Some n \<Rightarrow> if n \<le> 0 \<or> n > (LLONG_MAX - now) div scale then None else Some (now + n * scale))"

fun set_opts :: "int \<Rightarrow> string list \<Rightarrow> bool \<Rightarrow> bool \<Rightarrow> int \<Rightarrow> string + bool \<times> bool \<times> int" where
  "set_opts now [] nx xx ex = Inr (nx, xx, ex)"
| "set_opts now (a # rest) nx xx ex =
     (let opt = upper a in
      if (opt = ''NX'' \<or> opt = ''XX'') \<and> \<not> nx \<and> \<not> xx then set_opts now rest (opt = ''NX'') (opt = ''XX'') ex
      else if (opt = ''EX'' \<or> opt = ''PX'') \<and> ex = 0 \<and> rest \<noteq> [] then
        (case set_deadline now opt (hd rest) of
           None \<Rightarrow> Inl (err ''invalid expire time in 'set' command'')
         | Some e \<Rightarrow> set_opts now (tl rest) nx xx e)
      else Inl (err ''syntax error''))"

definition handle_set :: "string \<Rightarrow> string list \<Rightarrow> cell \<Rightarrow> string \<times> cell" where
  "handle_set name args c =
     (if length args < 3 then (err ''Wrong number of arguments for SET'', c)
      else
        (case set_opts (now_ms (snd c)) (drop 3 args) False False 0 of
           Inl e \<Rightarrow> (e, c)
         | Inr (nx, xx, ex) \<Rightarrow>
             (let key = args ! 1 in
              case lookup name key (on_db (bump_sets 1) c) of
                (r, c1) \<Rightarrow>
                  if (nx \<and> r \<noteq> None) \<or> (xx \<and> r = None) then (nil (snd c1), c1)
                  else
                    (let (version, c2) = draw (case r of Some rc \<Rightarrow> timestamp_ms rc | None \<Rightarrow> tomb_ts name key (snd c1)) c1;
                         (rc, c3) = ensure_rec name key r c2;
                         c4 = assign key rc (args ! 2) ex version (local_node_id (snd c3)) c3
                     in (''+OK'' @ CRLF,
                         on_db (\<lambda>d. aof_append name args ex version (local_node_id d) (access_key key d)) c4)))))"

fun mset_scan :: "string \<Rightarrow> string list \<Rightarrow> u64 \<Rightarrow> cell \<Rightarrow> u64 \<times> cell" where
  "mset_scan name (key # val # rest) overwritten c =
     (case lookup name key c of
        (r, c1) \<Rightarrow>
          mset_scan name rest (max overwritten (case r of Some rc \<Rightarrow> timestamp_ms rc | None \<Rightarrow> tomb_ts name key (snd c1))) c1)"
| "mset_scan name _ overwritten c = (overwritten, c)"

fun mset_write :: "string \<Rightarrow> u64 \<Rightarrow> string list \<Rightarrow> cell \<Rightarrow> cell" where
  "mset_write name version (key # val # rest) c =
     (case lookup name key c of
        (r, c1) \<Rightarrow>
          (let (rc, c2) = ensure_rec name key r c1;
               c3 = assign key rc val 0 version (local_node_id (snd c2)) c2
           in mset_write name version rest (on_db (access_key key) c3)))"
| "mset_write name version _ c = c"

definition handle_mset :: "string \<Rightarrow> string list \<Rightarrow> cell \<Rightarrow> string \<times> cell" where
  "handle_mset name args c =
     (if length args < 3 \<or> even (length args) then (err ''Wrong number of arguments for MSET'', c)
      else
        (let (overwritten, c1) = mset_scan name (tl args) 0 c;
             (version, c2) = draw overwritten c1;
             c3 = on_db (bump_sets (length args div 2)) (mset_write name version (tl args) c2)
         in (''+OK'' @ CRLF, on_db (\<lambda>d. aof_append name args 0 version (local_node_id d) d) c3)))"

text \<open>\<open>None\<close> is the reply that grew too large.\<close>

fun mget_loop :: "string \<Rightarrow> string list \<Rightarrow> string \<Rightarrow> cell \<Rightarrow> string option \<times> cell" where
  "mget_loop name [] out c = (Some out, c)"
| "mget_loop name (key # keys) out c =
     (case lookup name key c of
        (None, c1) \<Rightarrow> mget_loop name keys (out @ nil (snd c1)) c1
      | (Some r, c1) \<Rightarrow>
          if length out + length (rec_value r) > MAX_REPLY then (None, c1)
          else mget_loop name keys (out @ bulk_string (rec_value r)) (on_db (access_key key) c1))"

definition handle_mget :: "string \<Rightarrow> string list \<Rightarrow> cell \<Rightarrow> string \<times> cell" where
  "handle_mget name args c =
     (if length args < 2 then (err ''Wrong number of arguments for MGET'', c)
      else
        (case mget_loop name (tl args) (''*'' @ dec (length args - 1) @ CRLF) c of
           (None, c1) \<Rightarrow> (err ''reply too large'', c1)
         | (Some out, c1) \<Rightarrow> (out, on_db (bump_gets (length args - 1)) c1)))"

fun exists_loop :: "string \<Rightarrow> string list \<Rightarrow> nat \<Rightarrow> cell \<Rightarrow> nat \<times> cell" where
  "exists_loop name [] found c = (found, c)"
| "exists_loop name (key # keys) found c =
     (case lookup name key c of (r, c1) \<Rightarrow> exists_loop name keys (if r \<noteq> None then Suc found else found) c1)"

definition handle_exists :: "string \<Rightarrow> string list \<Rightarrow> cell \<Rightarrow> string \<times> cell" where
  "handle_exists name args c =
     (if length args < 2 then (err ''Wrong number of arguments for EXISTS'', c)
      else case exists_loop name (tl args) 0 c of (found, c1) \<Rightarrow> ('':'' @ dec found @ CRLF, c1))"

fun del_loop :: "string \<Rightarrow> string list \<Rightarrow> nat \<Rightarrow> cell \<Rightarrow> nat \<times> cell" where
  "del_loop name [] deleted c = (deleted, c)"
| "del_loop name (key # keys) deleted c =
     (case lookup name key c of
        (None, c1) \<Rightarrow> del_loop name keys deleted c1
      | (Some r, c1) \<Rightarrow>
          (let (ts, c2) = draw (timestamp_ms r) c1;
               v = Version ts (local_node_id (snd c2));
               c3 = on_db (\<lambda>d. aof_append name [''DEL'', key] 0 (v_ts v) (v_node v) (set_tomb name key v d)) (erase key r c2)
           in del_loop name keys (Suc deleted) c3))"

definition handle_del :: "string \<Rightarrow> string list \<Rightarrow> cell \<Rightarrow> string \<times> cell" where
  "handle_del name args c =
     (if length args < 2 then (err ''Wrong number of arguments for DEL'', c)
      else case del_loop name (tl args) 0 c of (deleted, c1) \<Rightarrow> ('':'' @ dec deleted @ CRLF, c1))"

text \<open>The options of \<^verbatim>\<open>EXPIRE\<close> and \<^verbatim>\<open>PEXPIRE\<close>: \<^verbatim>\<open>NX\<close>, \<^verbatim>\<open>XX\<close>, \<^verbatim>\<open>GT\<close>, \<^verbatim>\<open>LT\<close>.\<close>

fun expire_opts :: "string list \<Rightarrow> bool \<Rightarrow> bool \<Rightarrow> bool \<Rightarrow> bool \<Rightarrow> string + bool \<times> bool \<times> bool \<times> bool" where
  "expire_opts [] nx xx gt lt = Inr (nx, xx, gt, lt)"
| "expire_opts (a # rest) nx xx gt lt =
     (let opt = upper a in
      if opt = ''NX'' then expire_opts rest True xx gt lt
      else if opt = ''XX'' then expire_opts rest nx True gt lt
      else if opt = ''GT'' then expire_opts rest nx xx True lt
      else if opt = ''LT'' then expire_opts rest nx xx gt True
      else Inl (err (''Unsupported option '' @ a)))"

text \<open>The requested deadline: the number given and the absolute time; \<open>None\<close> is an invalid time.\<close>

definition expire_deadline :: "int \<Rightarrow> int \<Rightarrow> string list \<Rightarrow> (int \<times> int) option" where
  "expire_deadline scale now args =
     (if scale = 0 then Some (0, 0)
      else
        (case parse_i64 (args ! 2) of
           None \<Rightarrow> None
         | Some n \<Rightarrow>
             if n < - (9223372036854775808 div scale) \<or> n > (LLONG_MAX - now) div scale then None
             else Some (n, now + n * scale)))"

definition expire_refused :: "bool \<times> bool \<times> bool \<times> bool \<Rightarrow> int \<Rightarrow> int \<Rightarrow> bool" where
  "expire_refused = (\<lambda>(nx, xx, gt, lt) old new.
     let has_ttl = old \<noteq> 0 in
     (nx \<and> has_ttl) \<or> (xx \<and> \<not> has_ttl) \<or> (gt \<and> (\<not> has_ttl \<or> new \<le> old)) \<or> (lt \<and> has_ttl \<and> new \<ge> old))"

text \<open>The second half of the handler, for a record that was found.\<close>

definition expire_found :: "string \<Rightarrow> string \<Rightarrow> int \<Rightarrow> bool \<times> bool \<times> bool \<times> bool \<Rightarrow> int \<Rightarrow> int \<Rightarrow> Record \<Rightarrow> cell \<Rightarrow> string \<times> cell" where
  "expire_found name key scale opts n ex r c =
     (if scale = 0 \<and> expire_at r = 0 then ('':0'' @ CRLF, c)
      else if expire_refused opts (expire_at r) ex then ('':0'' @ CRLF, c)
      else if scale \<noteq> 0 \<and> n \<le> 0 then handle_del name [''DEL'', key] c
      else
        (let (version, c2) = draw (timestamp_ms r) c;
             r' = r\<lparr>expire_at := ex, timestamp_ms := version, node_id := local_node_id (snd c2)\<rparr>;
             c3 = update_rec key r' c2
         in ('':1'' @ CRLF, on_db (aof_append name [''SET'', key, rec_value r'] ex (timestamp_ms r') (node_id r')) c3)))"

definition handle_expire :: "string \<Rightarrow> string list \<Rightarrow> int \<Rightarrow> cell \<Rightarrow> string \<times> cell" where
  "handle_expire name args scale c =
     (if (if scale \<noteq> 0 then length args < 3 else length args \<noteq> 2)
      then (err (''Wrong number of arguments for '' @ args ! 0), c)
      else
        (case expire_opts (drop 3 args) False False False False of
           Inl e \<Rightarrow> (e, c)
         | Inr (nx, xx, gt, lt) \<Rightarrow>
             if nx \<and> (xx \<or> gt \<or> lt)
             then (err ''NX and XX, GT or LT options at the same time are not compatible'', c)
             else if gt \<and> lt then (err ''GT and LT options at the same time are not compatible'', c)
             else
               (case expire_deadline scale (now_ms (snd c)) args of
                  None \<Rightarrow> (err ''invalid expire time'', c)
                | Some (n, ex) \<Rightarrow>
                    (case lookup name (args ! 1) c of
                       (None, c1) \<Rightarrow> ('':0'' @ CRLF, c1)
                     | (Some r, c1) \<Rightarrow> expire_found name (args ! 1) scale (nx, xx, gt, lt) n ex r c1))))"

definition handle_ttl :: "string \<Rightarrow> string list \<Rightarrow> bool \<Rightarrow> cell \<Rightarrow> string \<times> cell" where
  "handle_ttl name args millis c =
     (if length args \<noteq> 2 then (err (''Wrong number of arguments for '' @ args ! 0), c)
      else
        (case lookup name (args ! 1) c of
           (None, c1) \<Rightarrow> ('':-2'' @ CRLF, c1)
         | (Some r, c1) \<Rightarrow>
             if expire_at r = 0 then ('':-1'' @ CRLF, c1)
             else
               (let left = max 0 (expire_at r - now_ms (snd c1))
                in ('':'' @ dec_int (if millis then left else (left + 500) div 1000) @ CRLF, c1))))"

text \<open>
  The commands of scope \<open>Room\<close> in the dispatch table \<open>kCommands\<close>, by the upper-case name; a name that
  is not in the table runs in the client's room too.
\<close>

definition handle_save :: "string \<Rightarrow> string list \<Rightarrow> cell \<Rightarrow> string \<times> cell" where
  "handle_save name args c =
     (if healthy (db_aof (snd c)) then ''+OK AOF is active and up to date'' @ CRLF
      else err ''AOF write error, persistenta suspecta'', c)"

definition key_table :: "(string \<times> (string \<Rightarrow> string list \<Rightarrow> cell \<Rightarrow> string \<times> cell)) list" where
  "key_table =
     [(''GET'', handle_get), (''SET'', handle_set), (''DEL'', handle_del), (''CRDTMERGE'', handle_crdtmerge),
      (''CRDTDEL'', handle_crdtdel), (''MGET'', handle_mget), (''MSET'', handle_mset), (''EXISTS'', handle_exists),
      (''EXPIRE'', \<lambda>name args. handle_expire name args 1000), (''PEXPIRE'', \<lambda>name args. handle_expire name args 1),
      (''PERSIST'', \<lambda>name args. handle_expire name args 0), (''TTL'', \<lambda>name args. handle_ttl name args False),
      (''PTTL'', \<lambda>name args. handle_ttl name args True), (''SAVE'', handle_save)]"

definition key_command :: "string \<Rightarrow> string \<Rightarrow> string list \<Rightarrow> cell \<Rightarrow> string \<times> cell" where
  "key_command name command args c =
     (case map_of key_table command of Some h \<Rightarrow> h name args c | None \<Rightarrow> (err ''unknown command'', c))"

text \<open>
  The part of \<open>execute_in_room\<close> that runs under the room's lock, once the room is active: the command,
  then one round of eviction.
\<close>

definition evict_cell :: "cell \<Rightarrow> cell" where
  "evict_cell = (\<lambda>(room, d).
     case evict_despised_keys (io_evict (io d) (tick d)) room (db_metrics d) (db_eviction d) of
       (room', m', e') \<Rightarrow> (room', d\<lparr>db_metrics := m', db_eviction := e', tick := Suc (tick d)\<rparr>))"

definition run_in_room :: "string \<Rightarrow> string \<Rightarrow> string list \<Rightarrow> cell \<Rightarrow> string \<times> cell" where
  "run_in_room name command args c =
     (case key_command name command args c of (reply, c1) \<Rightarrow> (reply, evict_cell c1))"

section \<open>Building blocks\<close>

declare One_nat_def [simp del]

lemma quiet_bumps [simp]: "quiet (bump_gets n)" "quiet (bump_sets n)"
proof -
  have same: "\<exists>s. e = e\<lparr>cms := s\<rparr>" for e :: eviction by (rule exI [of _ "cms e"]) simp
  show "quiet (bump_gets n)" "quiet (bump_sets n)" using same by (auto simp: quiet_def bump_gets_def bump_sets_def)
qed

lemma quiet_id: "quiet (\<lambda>d. d)"
  unfolding quiet_def by (metis eviction.surjective eviction.update_convs(1))

lemma bump_frame [simp]:
  "tombstones (bump_gets n d) = tombstones d" "tombstones (bump_sets n d) = tombstones d"
  "find_tomb x k (bump_gets n d) = find_tomb x k d" "find_tomb x k (bump_sets n d) = find_tomb x k d"
  "clock (bump_gets n d) = clock d" "clock (bump_sets n d) = clock d"
  "db_aof (bump_gets n d) = db_aof d" "db_aof (bump_sets n d) = db_aof d" "db_aof (access_key key d) = db_aof d"
  "clock (access_key key d) = clock d" "clock (aof_append name args ex ts node d) = clock d"
  "resp3 (bump_gets n d) = resp3 d" "resp3 (bump_sets n d) = resp3 d"
  by (simp_all add: bump_gets_def bump_sets_def find_tomb_def access_key_def aof_append_def)

lemma clear_tomb_frame [simp]: "clock (clear_tomb n k d) = clock d" "db_aof (clear_tomb n k d) = db_aof d" "tick (clear_tomb n k d) = tick d"
  "local_node_id (clear_tomb n k d) = local_node_id d"
  by (simp_all add: clear_tomb_def count_tomb_def)

lemma set_tomb_frame [simp]: "clock (set_tomb n k v d) = clock d" "db_aof (set_tomb n k v d) = db_aof d" "tick (set_tomb n k v d) = tick d"
  "local_node_id (set_tomb n k v d) = local_node_id d"
  by (simp_all add: set_tomb_def count_tomb_def split: option.splits)

text \<open>What the key commands need of the cell before they run.\<close>

definition ready :: "string \<Rightarrow> cell \<Rightarrow> bool" where
  "ready name c \<longleftrightarrow> cell_ok name c \<and> reads_ok (snd c) \<and> nested_ok (tombstones (snd c))"

lemma readyD: "ready name c \<Longrightarrow> cell_ok name c" "ready name c \<Longrightarrow> reads_ok (snd c)" "ready name c \<Longrightarrow> nested_ok (tombstones (snd c))"
  by (simp_all add: ready_def)

lemma ready_handled: "ready name c \<Longrightarrow> handled name c c' \<Longrightarrow> nested_ok (tombstones (snd c')) \<Longrightarrow> ready name c'"
  by (simp add: ready_def handled_def)

lemma view_cong: "handled name c c' \<Longrightarrow> stored_of c' = stored_of c \<Longrightarrow> view c' = view c"
  by (rule ext) (simp add: view_stored handledD(3))

lemma quiet_ready:
  assumes "ready name c" and "quiet f" and "\<And>d. tombstones (f d) = tombstones d"
  shows "handled name c (on_db f c)" "ready name (on_db f c)" "view (on_db f c) = view c" "stored_of (on_db f c) = stored_of c"
proof -
  note q = quiet_step [OF assms(2) readyD(1) [OF assms(1)]]
  show "handled name c (on_db f c)" "stored_of (on_db f c) = stored_of c" by (rule q(1), rule q(2))
  show "view (on_db f c) = view c" by (rule view_cong [OF q(1,2)])
  show "ready name (on_db f c)" by (rule ready_handled [OF assms(1) q(1)]) (use assms readyD(3) in simp)
qed

lemma find_ready:
  assumes rdy: "ready name c" and run: "lookup name key c = (r, c1)"
  shows "handled name c c1" "ready name c1" "r = view c key" "view c1 = view c"
    "find_tomb n k (snd c1) = find_tomb n k (snd c)" "clock (snd c1) = clock (snd c)" "db_aof (snd c1) = db_aof (snd c)"
proof -
  note f = find_step [OF readyD(1,2) [OF rdy] run]
  show "handled name c c1" "r = view c key" "view c1 = view c" "find_tomb n k (snd c1) = find_tomb n k (snd c)"
    "clock (snd c1) = clock (snd c)" "db_aof (snd c1) = db_aof (snd c)" by (rule f)+
  show "ready name c1" by (rule ready_handled [OF rdy f(1)]) (use f(7) readyD(3) [OF rdy] in simp)
qed

text \<open>Lookup, an optional quiet step (drawing a version), and the write: the path of every local and remote write.\<close>

lemma upsert:
  assumes rdy: "ready name c" and lk: "lookup name key c = (r, c1)" and q: "quiet f" "\<And>d. tombstones (f d) = tombstones d"
    and ens: "ensure_rec name key r (on_db f c1) = (rc, c3)" and ex: "i64 ex"
  shows "handled name c (assign key rc val ex ts nd c3)" (is ?h) and "ready name (assign key rc val ex ts nd c3)"
    and "stored_of (assign key rc val ex ts nd c3) = (stored_of c)(key \<mapsto> \<lparr>rec_value = val, expire_at = ex, timestamp_ms = ts, node_id = nd\<rparr>)"
    and "find_tomb name k (snd (assign key rc val ex ts nd c3)) = (if view c key = None \<and> k = key then None else find_tomb name k (snd c))"
proof -
  note f = find_step [OF readyD(1,2) [OF rdy] lk] and fr = find_ready [OF rdy lk]
  let ?c2 = "on_db f c1"
  note q2 = quiet_ready [OF fr(2) q]
  have idx: "cold_index (db_eviction (f (snd c1))) = cold_index (db_eviction (snd c1))"
    using q(1) unfolding quiet_def by (metis (no_types, lifting) eviction.select_convs(2) eviction.surjective eviction.update_convs(1))
  note w = write_step [OF readyD(1) [OF q2(2)] _ _ ens ex readyD(3) [OF q2(2)], where val = val and ts = ts and node = nd]
  have found: "\<And>x. r = Some x \<Longrightarrow> map_of (room_keys (fst ?c2)) key = Some x"
    and absent: "r = None \<Longrightarrow> map_of (room_keys (fst ?c2)) key = None \<and> nget (cold_index (db_eviction (snd ?c2))) name key = None"
    using f(5,6) idx by auto
  note w = w [OF found absent]
  show h: ?h by (rule handled_trans [OF handled_trans [OF fr(1) q2(1)] w(1)])
  show "ready name (assign key rc val ex ts nd c3)" by (rule ready_handled [OF rdy h w(4)])
  show st: "stored_of (assign key rc val ex ts nd c3) = (stored_of c)(key \<mapsto> \<lparr>rec_value = val, expire_at = ex, timestamp_ms = ts, node_id = nd\<rparr>)"
    using w(2) q2(4) f(4) by simp
  have "find_tomb name k (f (snd c1)) = find_tomb name k (snd c1)" for k using q(2) by (simp add: find_tomb_def)
  then show "find_tomb name k (snd (assign key rc val ex ts nd c3)) = (if view c key = None \<and> k = key then None else find_tomb name k (snd c))"
    using w(3) [of k] f(2) fr(5) by simp
qed

lemma assign_frame [simp]:
  "clock (snd (assign key r val ex ts node c)) = clock (snd c)" "db_aof (snd (assign key r val ex ts node c)) = db_aof (snd c)"
  "tick (snd (assign key r val ex ts node c)) = tick (snd c)" "io (snd (assign key r val ex ts node c)) = io (snd c)"
  "local_node_id (snd (assign key r val ex ts node c)) = local_node_id (snd c)"
  by (simp_all add: assign_def set_value_def update_rec_def db_charge_def case_prod_unfold)

lemma insert_frame [simp]:
  "clock (snd (insert_rec key c)) = clock (snd c)" "db_aof (snd (insert_rec key c)) = db_aof (snd c)"
  "tick (snd (insert_rec key c)) = tick (snd c)" "local_node_id (snd (insert_rec key c)) = local_node_id (snd c)"
  by (simp_all add: insert_rec_def emplace_def db_charge_def count_key_def case_prod_unfold)

lemma erase_frame [simp]:
  "clock (snd (erase key r c)) = clock (snd c)" "local_node_id (snd (erase key r c)) = local_node_id (snd c)" "db_aof (snd (erase key r c)) = db_aof (snd c)"
  by (simp_all add: erase_def db_charge_def count_key_def case_prod_unfold)

lemma ensure_frame:
  "ensure_rec name key r c = (rc, c') \<Longrightarrow> clock (snd c') = clock (snd c) \<and> db_aof (snd c') = db_aof (snd c) \<and>
    local_node_id (snd c') = local_node_id (snd c)"
  by (auto simp: ensure_rec_def split: option.splits)

text \<open>The records a command appends to the log, in order, each with the outcome of its system calls.\<close>

definition logs :: "database \<Rightarrow> database \<Rightarrow> AofRecord list \<Rightarrow> bool" where
  "logs d d' rs \<longleftrightarrow> (\<exists>envs. length envs = length rs \<and> db_aof d' = snd (run_appends (zip envs rs) (db_aof d)))"

lemma logs_none: "db_aof d' = db_aof d \<Longrightarrow> logs d d' []"
  by (simp add: logs_def)

lemma run_appends_append:
  "snd (run_appends (xs @ ys) a) = snd (run_appends ys (snd (run_appends xs a)))"
  by (induction xs arbitrary: a) (auto simp: case_prod_unfold)

lemma logs_trans: "logs a b rs \<Longrightarrow> logs b c us \<Longrightarrow> logs a c (rs @ us)"
proof -
  assume "logs a b rs" "logs b c us"
  then obtain e f where "length e = length rs" "db_aof b = snd (run_appends (zip e rs) (db_aof a))"
    "length f = length us" "db_aof c = snd (run_appends (zip f us) (db_aof b))" by (auto simp: logs_def)
  then show "logs a c (rs @ us)" unfolding logs_def
    by (intro exI [of _ "e @ f"]) (simp add: zip_append run_appends_append)
qed

lemma logs_append:
  "db_aof d1 = db_aof d \<Longrightarrow> logs d (aof_append name args ex ts node d1)
    [\<lparr>ar_room = name, ar_args = args, ar_expire_at = ex, ar_timestamp_ms = ts, ar_node_id = node\<rparr>]"
  unfolding logs_def
  by (intro exI [of _ "[io_append (io d1) (tick d1)]"]) (simp add: aof_append_def split: prod.splits)

lemma draw_step:
  assumes "ready name c" and "draw ov c = (v, c')"
  shows "c' = on_db (\<lambda>d. d\<lparr>clock := v\<rparr>) c" "v = clock_next (clock (snd c)) (now_ms (snd c)) ov"
    "handled name c c'" "ready name c'" "view c' = view c" "db_aof (snd c') = db_aof (snd c)"
proof -
  show eq: "c' = on_db (\<lambda>d. d\<lparr>clock := v\<rparr>) c" "v = clock_next (clock (snd c)) (now_ms (snd c)) ov"
    using assms(2) by (auto simp: draw_def Let_def)
  show "handled name c c'" "ready name c'" "view c' = view c" unfolding eq(1) by (rule quiet_ready [OF assms(1)]; simp)+
  show "db_aof (snd c') = db_aof (snd c)" by (simp add: eq(1))
qed

section \<open>What a log record says\<close>

text \<open>
  The state changes a log record stands for: the keys it leaves with a record or without one. This
  is the reading of a record that its replay implements; live handlers log only records of these
  shapes.
\<close>

fun pair_changes :: "(string \<Rightarrow> Record) \<Rightarrow> string list \<Rightarrow> (string \<times> Record option) list" where
  "pair_changes mk (key # val # rest) = (key, Some (mk val)) # pair_changes mk rest"
| "pair_changes mk _ = []"

definition changes :: "AofRecord \<Rightarrow> (string \<times> Record option) list" where
  "changes r =
     (let args = ar_args r; cmd = upper (args ! 0);
          mk = (\<lambda>ts node val. \<lparr>rec_value = val, expire_at = ar_expire_at r, timestamp_ms = hlc_normalize ts, node_id = node\<rparr>) in
      if args = [] then []
      else if cmd = ''CRDTMERGE'' \<and> length args \<ge> 5 then
        (case (parse_u64 (args ! 3), parse_u64 (args ! 4)) of
           (Some ts, Some node) \<Rightarrow>
             if unat node > 4294967295 then [] else [(args ! 1, Some (mk ts (of_nat (unat node)) (args ! 2)))]
         | _ \<Rightarrow> [])
      else if cmd = ''SET'' \<and> length args \<ge> 3 then [(args ! 1, Some (mk (ar_timestamp_ms r) (ar_node_id r) (args ! 2)))]
      else if cmd = ''MSET'' then pair_changes (mk (ar_timestamp_ms r) (ar_node_id r)) (tl args)
      else if (cmd = ''DEL'' \<and> length args \<ge> 2) \<or> (cmd = ''CRDTDEL'' \<and> length args \<ge> 4) then [(args ! 1, None)]
      else [])"

text \<open>The commands that only old logs hold as such; live, a new expiry is logged as a whole record.\<close>

definition plain :: "AofRecord \<Rightarrow> bool" where
  "plain r \<longleftrightarrow> upper (ar_args r ! 0) \<notin> {''EXPIRE'', ''PEXPIRE'', ''PERSIST''}"

definition apply_changes :: "(string \<rightharpoonup> Record) \<Rightarrow> (string \<times> Record option) list \<Rightarrow> (string \<rightharpoonup> Record)" where
  "apply_changes m cs = foldl (\<lambda>m (k, x). m(k := x)) m cs"

lemma apply_changes_simps [simp]:
  "apply_changes m [] = m" "apply_changes m ((k, x) # cs) = apply_changes (m(k := x)) cs"
  "apply_changes m (cs @ ds) = apply_changes (apply_changes m cs) ds"
  by (simp_all add: apply_changes_def)

text \<open>Two stores that show the same records from time \<open>now\<close> on.\<close>

definition agree :: "int \<Rightarrow> (string \<rightharpoonup> Record) \<Rightarrow> (string \<rightharpoonup> Record) \<Rightarrow> bool" where
  "agree now f g \<longleftrightarrow> (\<forall>k. live now (f k) = live now (g k))"

lemma agree_refl [simp]: "agree now f f"
  and agree_sym: "agree now f g \<Longrightarrow> agree now g f"
  and agree_trans: "agree now f g \<Longrightarrow> agree now g h \<Longrightarrow> agree now f h"
  and agree_upd: "agree now f g \<Longrightarrow> agree now (f(k := x)) (g(k := x))"
  by (auto simp: agree_def)

lemma agree_later: "agree now f g \<Longrightarrow> now \<le> now' \<Longrightarrow> agree now' f g"
proof -
  have l: "live now' x = live now' (live now x)" if "now \<le> now'" for x
    using that by (cases x) (auto simp: live_def expired_def)
  show "agree now f g \<Longrightarrow> now \<le> now' \<Longrightarrow> agree now' f g" unfolding agree_def using l by metis
qed

lemma agree_changes: "agree now f g \<Longrightarrow> agree now (apply_changes f cs) (apply_changes g cs)"
proof (induction cs arbitrary: f g)
  case (Cons x cs)
  obtain k y where x: "x = (k, y)" by fastforce
  show ?case unfolding x apply_changes_simps by (rule Cons.IH [OF agree_upd [OF Cons.prems]])
qed simp

text \<open>
  The contract of a handler with the log: the records it appended say exactly what it did to the
  room, up to keys that have expired meanwhile.
\<close>

definition journals :: "string \<Rightarrow> cell \<Rightarrow> cell \<Rightarrow> AofRecord list \<Rightarrow> bool" where
  "journals name c c' rs \<longleftrightarrow>
     handled name c c' \<and> ready name c' \<and> logs (snd c) (snd c') rs \<and>
     agree (now_ms (snd c)) (stored_of c') (apply_changes (stored_of c) (concat (map changes rs))) \<and>
     (\<forall>r \<in> set rs. ar_room r = name \<and> plain r)"

lemma journals_trans:
  assumes "journals name a b rs" and "journals name b c us"
  shows "journals name a c (rs @ us)"
proof -
  have now: "now_ms (snd b) = now_ms (snd a)" using assms(1) by (auto simp: journals_def dest: handledD)
  have "agree (now_ms (snd a)) (stored_of b) (apply_changes (stored_of a) (concat (map changes rs)))"
    "agree (now_ms (snd a)) (stored_of c) (apply_changes (stored_of b) (concat (map changes us)))"
    using assms now by (simp_all add: journals_def)
  then have "agree (now_ms (snd a)) (stored_of c) (apply_changes (stored_of a) (concat (map changes (rs @ us))))"
    using agree_changes agree_trans by (simp add: agree_def)
  moreover have "handled name a c" "logs (snd a) (snd c) (rs @ us)"
    using assms by (auto simp: journals_def intro: handled_trans logs_trans)
  ultimately show ?thesis using assms unfolding journals_def by auto
qed

lemma journals_none:
  assumes "handled name c c'" and "ready name c'" and "db_aof (snd c') = db_aof (snd c)" and "view c' = view c"
  shows "journals name c c' []"
proof -
  have "agree (now_ms (snd c)) (stored_of c') (stored_of c)"
    using assms(4) handledD(3) [OF assms(1)] by (simp add: agree_def fun_eq_iff view_stored)
  then show ?thesis using assms by (simp add: journals_def logs_none)
qed

lemma journals_stay: "ready name c \<Longrightarrow> journals name c c []"
  by (rule journals_none [OF handled_refl [OF readyD(1)]]) simp_all

lemma journals_view: "journals name c c' rs \<Longrightarrow> view c' k = live (now_ms (snd c)) (apply_changes (stored_of c) (concat (map changes rs)) k)"
  by (auto simp: journals_def agree_def view_stored dest: handledD)

text \<open>A clock set after January 1970 and before the year 10889: versions drawn from it are no legacy timestamps.\<close>

definition sane_clock :: "int \<Rightarrow> bool" where
  "sane_clock now \<longleftrightarrow> 2 ^ 31 \<le> now \<and> now < 2 ^ 48"

lemma sane_version: "sane_clock now \<Longrightarrow> kLegacyLimit \<le> clock_next lst now ov"
proof -
  assume "sane_clock now"
  then have n: "2 ^ 31 \<le> nat now" "nat now < 2 ^ 48" by (auto simp: sane_clock_def le_nat_iff nat_less_iff)
  then have "now = int (nat now)" by simp
  then have "word_of_int now = (of_nat (nat now) :: u64)" by (metis of_int_of_nat_eq)
  moreover have "unat (of_nat (nat now) :: u64) = nat now" using n by (intro unat_of_nat_u64) simp
  ultimately have "unat (push_bit 16 (word_of_int now :: u64)) = nat now * 2 ^ 16" using n unat_shift16 [of "word_of_int now"] by metis
  then have "kLegacyLimit \<le> push_bit 16 (word_of_int now)" using n less_kLegacyLimit [of "push_bit 16 (word_of_int now)"] by (simp add: not_less [symmetric])
  then show ?thesis by (simp add: clock_next_def le_max_iff_disj)
qed

lemma sane_normalize: "sane_clock now \<Longrightarrow> hlc_normalize (clock_next lst now ov) = clock_next lst now ov"
  by (rule normalize_hlc [OF sane_version])

section \<open>SET\<close>

lemma scaled_deadline: "0 < scale \<Longrightarrow> n \<le> (m - now) div scale \<Longrightarrow> now + n * scale \<le> (m :: int)"
proof -
  assume a: "0 < scale" "n \<le> (m - now) div scale"
  then have "n * scale \<le> (m - now) div scale * scale" by (simp add: mult_right_mono)
  also have "\<dots> \<le> m - now" using a(1) pos_mod_sign [of scale "m - now"] by (simp add: minus_mod_eq_div_mult [symmetric])
  finally show "now + n * scale \<le> m" by simp
qed

lemma set_deadline_range:
  "set_deadline now opt num = Some ex \<Longrightarrow> now < ex \<and> ex \<le> LLONG_MAX"
proof -
  assume run: "set_deadline now opt num = Some ex"
  define scale :: int where "scale = (if opt = ''EX'' then 1000 else 1)"
  have sc: "0 < scale" by (simp add: scale_def)
  obtain n where n: "0 < n" "n \<le> (LLONG_MAX - now) div scale" "ex = now + n * scale"
    using run by (auto simp: set_deadline_def Let_def scale_def [symmetric] not_le not_less split: if_splits option.splits)
  then show ?thesis using sc scaled_deadline [OF sc n(2)] by simp
qed

lemma set_opts_range:
  "set_opts now opts nx xx ex = Inr (nx', xx', ex') \<Longrightarrow> \<not> (nx \<and> xx) \<Longrightarrow> ex = 0 \<or> (now < ex \<and> ex \<le> LLONG_MAX) \<Longrightarrow>
    \<not> (nx' \<and> xx') \<and> (ex' = 0 \<or> (now < ex' \<and> ex' \<le> LLONG_MAX))"
proof (induction now opts nx xx ex rule: set_opts.induct)
  case (2 now a rest nx xx ex)
  show ?case
  proof (cases "(upper a = ''NX'' \<or> upper a = ''XX'') \<and> \<not> nx \<and> \<not> xx")
    case True
    have "set_opts now rest (upper a = ''NX'') (upper a = ''XX'') ex = Inr (nx', xx', ex')"
      using "2.prems"(1) True by (simp only: set_opts.simps Let_def if_True simp_thms)
    then show ?thesis using "2.IH"(1) [OF refl True] "2.prems"(3) by auto
  next
    case False
    have cond: "(upper a = ''EX'' \<or> upper a = ''PX'') \<and> ex = 0 \<and> rest \<noteq> []"
      using "2.prems"(1) False by (auto simp: Let_def split: if_splits)
    obtain e where e: "set_deadline now (upper a) (hd rest) = Some e" "set_opts now (tl rest) nx xx e = Inr (nx', xx', ex')"
      using "2.prems"(1) False cond by (auto simp: Let_def split: if_splits option.splits)
    then show ?thesis using "2.IH"(2) [OF refl False cond e(1)] set_deadline_range [OF e(1)] "2.prems"(2) by auto
  qed
qed auto

definition overwritten_ts :: "string \<Rightarrow> string \<Rightarrow> cell \<Rightarrow> u64" where
  "overwritten_ts name key c = (case view c key of Some r \<Rightarrow> timestamp_ms r | None \<Rightarrow> tomb_ts name key (snd c))"

lemma overwritten_found:
  assumes "ready name c" and "lookup name key c = (r, c1)"
  shows "(case r of Some rc \<Rightarrow> timestamp_ms rc | None \<Rightarrow> tomb_ts name key (snd c1)) = overwritten_ts name key c"
  using find_ready [OF assms] by (simp add: overwritten_ts_def tomb_ts_def split: option.split)

lemma quiet_comp_node: "quiet (\<lambda>d. aof_append name args ex ts (local_node_id d) (access_key key d))"
  using quiet_comp [OF quiet_basic(1,2)] unfolding quiet_def by blast

lemma set_run:
  assumes rdy: "ready name c" and len: "3 \<le> length args"
    and opts: "set_opts (now_ms (snd c)) (drop 3 args) False False 0 = Inr (nx, xx, ex)"
    and cond: "\<not> (nx \<and> view c (args ! 1) \<noteq> None)" "\<not> (xx \<and> view c (args ! 1) = None)"
    and v: "v = clock_next (clock (snd c)) (now_ms (snd c)) (overwritten_ts name (args ! 1) c)"
    and run: "handle_set name args c = (reply, c')" and now: "LLONG_MIN \<le> now_ms (snd c)"
  shows "reply = ''+OK'' @ CRLF" "handled name c c'" "ready name c'"
    "stored_of c' = (stored_of c)(args ! 1 \<mapsto> \<lparr>rec_value = args ! 2, expire_at = ex, timestamp_ms = v, node_id = local_node_id (snd c)\<rparr>)"
    "clock (snd c') = v"
    "logs (snd c) (snd c') [\<lparr>ar_room = name, ar_args = args, ar_expire_at = ex, ar_timestamp_ms = v, ar_node_id = local_node_id (snd c)\<rparr>]"
    "i64 ex" "ex = 0 \<or> now_ms (snd c) < ex"
proof -
  let ?key = "args ! 1" and ?c0 = "on_db (bump_sets 1) c"
  show ex: "i64 ex" "ex = 0 \<or> now_ms (snd c) < ex" using set_opts_range [OF opts] now by (auto simp: i64_iff)
  note q0 = quiet_ready [OF rdy quiet_bumps(2) [of 1] bump_frame(2)]
  obtain r c1 where lk: "lookup name ?key ?c0 = (r, c1)" by (meson surj_pair)
  note f = find_ready [OF q0(2) lk]
  have ow: "(case r of Some rc \<Rightarrow> timestamp_ms rc | None \<Rightarrow> tomb_ts name ?key (snd c1)) = overwritten_ts name ?key c"
    using overwritten_found [OF q0(2) lk] q0(3) by (simp add: overwritten_ts_def tomb_ts_def split: option.splits)
  have node: "local_node_id (snd c1) = local_node_id (snd c)" "now_ms (snd c1) = now_ms (snd c)" "clock (snd c1) = clock (snd c)"
    using handledD [OF handled_trans [OF q0(1) f(1)]] f(6) by simp_all
  let ?f = "\<lambda>d. d\<lparr>clock := v\<rparr>"
  have dr: "draw (overwritten_ts name ?key c) c1 = (v, on_db ?f c1)" using v node by (simp add: draw_def Let_def)
  obtain rc c3 where ens: "ensure_rec name ?key r (on_db ?f c1) = (rc, c3)" by (meson surj_pair)
  have node3: "local_node_id (snd c3) = local_node_id (snd c)"
    using node(1) ensure_frame [OF ens] by simp
  let ?a = "assign ?key rc (args ! 2) ex v (local_node_id (snd c)) c3"
  let ?g = "\<lambda>d. aof_append name args ex v (local_node_id d) (access_key ?key d)"
  have r: "r = view c ?key" using f(3) q0(3) by simp
  have out: "reply = ''+OK'' @ CRLF" "c' = on_db ?g ?a"
    using run len opts cond lk ow dr ens node3 unfolding r [symmetric] by (auto simp: handle_set_def Let_def)
  show "reply = ''+OK'' @ CRLF" by (rule out(1))
  note u = upsert [OF q0(2) lk quiet_basic(3) _ ens ex(1), where val = "args ! 2" and ts = v and nd = "local_node_id (snd c)", simplified]
  have g: "quiet ?g" by (rule quiet_comp_node)
  note q = quiet_ready [OF u(2) g]
  show "handled name c c'" "ready name c'" unfolding out
    by (rule handled_trans [OF q0(1) handled_trans [OF u(1) q(1)]], simp, rule q(2), simp)
  show "stored_of c' = (stored_of c)(args ! 1 \<mapsto> \<lparr>rec_value = args ! 2, expire_at = ex, timestamp_ms = v, node_id = local_node_id (snd c)\<rparr>)"
    using q(4) u(3) q0(4) by (simp add: out)
  show "clock (snd c') = v" using ensure_frame [OF ens] by (simp add: out)
  show "logs (snd c) (snd c') [\<lparr>ar_room = name, ar_args = args, ar_expire_at = ex, ar_timestamp_ms = v, ar_node_id = local_node_id (snd c)\<rparr>]"
    unfolding out snd_on_db using node3 ensure_frame [OF ens] f(7) by (simp add: logs_append)
qed

lemma lookup_resp3:
  assumes "ready name c" and "lookup name key c = (r, c1)"
  shows "resp3 (snd c1) = resp3 (snd c)"
  using lookup_spec(1) [OF readyD(1,2) [OF assms(1)] assms(2)] by (auto simp: evolves_def dest: access_frame_fields)

lemma set_refused:
  assumes rdy: "ready name c" and len: "3 \<le> length args"
    and opts: "set_opts (now_ms (snd c)) (drop 3 args) False False 0 = Inr (nx, xx, ex)"
    and cond: "(nx \<and> view c (args ! 1) \<noteq> None) \<or> (xx \<and> view c (args ! 1) = None)"
    and run: "handle_set name args c = (reply, c')"
  shows "reply = nil (snd c)" "journals name c c' []" "view c' = view c" "ready name c'"
proof -
  let ?c0 = "on_db (bump_sets 1) c"
  note q0 = quiet_ready [OF rdy quiet_bumps(2) [of 1] bump_frame(2)]
  obtain r c1 where lk: "lookup name (args ! 1) ?c0 = (r, c1)" by (meson surj_pair)
  note f = find_ready [OF q0(2) lk]
  have r: "r = view c (args ! 1)" using f(3) q0(3) by simp
  have out: "reply = nil (snd c1)" "c' = c1" using run len opts cond lk unfolding r [symmetric] by (auto simp: handle_set_def Let_def)
  show "reply = nil (snd c)" using lookup_resp3 [OF q0(2) lk] by (simp add: out nil_def)
  show v: "view c' = view c" "ready name c'" using f(2,4) q0(3) by (simp_all add: out)
  show "journals name c c' []"
    by (rule journals_none [OF handled_trans [OF q0(1) f(1)], folded out(2), OF v(2) _ v(1)]) (simp add: f(7) out)
qed

lemma set_journals:
  assumes rdy: "ready name c" and sane: "sane_clock (now_ms (snd c))" and cmd: "upper (args ! 0) = ''SET''"
    and run: "handle_set name args c = (reply, c')"
  shows "\<exists>rs. journals name c c' rs"
proof (cases "length args < 3")
  case True
  then show ?thesis using run rdy journals_none [OF handled_refl [OF readyD(1) [OF rdy]] rdy] by (auto simp: handle_set_def)
next
  case False
  then have len: "3 \<le> length args" by simp
  show ?thesis
  proof (cases "set_opts (now_ms (snd c)) (drop 3 args) False False 0")
    case (Inl e)
    then show ?thesis using run False journals_none [OF handled_refl [OF readyD(1) [OF rdy]] rdy] by (auto simp: handle_set_def)
  next
    case (Inr o3)
    obtain nx xx ex where "o3 = (nx, xx, ex)" by (metis prod_cases3)
    note opts = Inr [unfolded this]
    have lo: "LLONG_MIN \<le> now_ms (snd c)" using sane by (simp add: sane_clock_def)
    show ?thesis
    proof (cases "(nx \<and> view c (args ! 1) \<noteq> None) \<or> (xx \<and> view c (args ! 1) = None)")
      case True
      show ?thesis using set_refused(2) [OF rdy len opts True run] by blast
    next
      case no: False
      have no: "\<not> (nx \<and> view c (args ! 1) \<noteq> None)" "\<not> (xx \<and> view c (args ! 1) = None)" using no by auto
      note s = set_run [OF rdy len opts no refl run lo]
      let ?v = "clock_next (clock (snd c)) (now_ms (snd c)) (overwritten_ts name (args ! 1) c)"
      let ?r = "\<lparr>ar_room = name, ar_args = args, ar_expire_at = ex, ar_timestamp_ms = ?v, ar_node_id = local_node_id (snd c)\<rparr>"
      have "args \<noteq> []" using len by auto
      then have "changes ?r = [(args ! 1, Some \<lparr>rec_value = args ! 2, expire_at = ex, timestamp_ms = ?v, node_id = local_node_id (snd c)\<rparr>)]"
        using len cmd sane_normalize [OF sane] by (simp add: changes_def Let_def)
      then have "journals name c c' [?r]" using s(2,3,4,6) cmd by (simp add: journals_def plain_def)
      then show ?thesis by blast
    qed
  qed
qed

section \<open>MSET\<close>

lemma live_changes:
  "\<forall>(k, x) \<in> set cs. live now x = x \<Longrightarrow> live now (apply_changes m cs k) = apply_changes (\<lambda>k. live now (m k)) cs k"
proof (induction cs arbitrary: m)
  case (Cons y cs)
  obtain a x where y: "y = (a, x)" by fastforce
  have "(\<lambda>k. live now ((m(a := x)) k)) = (\<lambda>k. live now (m k))(a := x)" using Cons.prems by (auto simp: y)
  moreover have "live now (apply_changes (m(a := x)) cs k) = apply_changes (\<lambda>k. live now ((m(a := x)) k)) cs k"
    by (rule Cons.IH) (use Cons.prems in simp)
  ultimately show ?case by (simp add: y)
qed simp

lemma pair_changes_live: "\<forall>v. live now (Some (mk v)) = Some (mk v) \<Longrightarrow> \<forall>(k, x) \<in> set (pair_changes mk kvs). live now x = x"
  by (induction mk kvs rule: pair_changes.induct) auto

lemma mset_scan_step:
  assumes "ready name c" and "mset_scan name kvs ov c = (m, c')"
  shows "handled name c c' \<and> ready name c' \<and> view c' = view c \<and> db_aof (snd c') = db_aof (snd c) \<and>
    clock (snd c') = clock (snd c) \<and> (\<forall>k. find_tomb name k (snd c') = find_tomb name k (snd c)) \<and>
    ov \<le> m \<and> (\<forall>(k, x) \<in> set (pair_changes mk kvs). overwritten_ts name k c \<le> m) \<and>
    (m = ov \<or> (\<exists>(k, x) \<in> set (pair_changes mk kvs). m = overwritten_ts name k c))"
  using assms
proof (induction name kvs ov c rule: mset_scan.induct)
  case (1 name key val rest ov c)
  obtain r c1 where lk: "lookup name key c = (r, c1)" by (meson surj_pair)
  note f = find_ready [OF "1.prems"(1) lk]
  have same: "overwritten_ts name k c1 = overwritten_ts name k c" for k
    using f(4,5) by (simp add: overwritten_ts_def tomb_ts_def split: option.split)
  have "mset_scan name rest (max ov (overwritten_ts name key c)) c1 = (m, c')"
    using "1.prems"(2) lk overwritten_found [OF "1.prems"(1) lk] by simp
  with "1.IH" [OF lk [symmetric] f(2)] overwritten_found [OF "1.prems"(1) lk]
  have IH: "handled name c1 c' \<and> ready name c' \<and> view c' = view c1 \<and> db_aof (snd c') = db_aof (snd c1) \<and>
    clock (snd c') = clock (snd c1) \<and> (\<forall>k. find_tomb name k (snd c') = find_tomb name k (snd c1)) \<and>
    max ov (overwritten_ts name key c) \<le> m \<and> (\<forall>(k, x) \<in> set (pair_changes mk rest). overwritten_ts name k c \<le> m) \<and>
    (m = max ov (overwritten_ts name key c) \<or> (\<exists>(k, x) \<in> set (pair_changes mk rest). m = overwritten_ts name k c))"
    by (simp add: same)
  moreover have "m = ov \<or> m = overwritten_ts name key c \<or> (\<exists>(k, x) \<in> set (pair_changes mk rest). m = overwritten_ts name k c)"
    using IH unfolding max_def by metis
  ultimately show ?case using f handled_trans [OF f(1), of c'] by auto
qed (simp_all add: handled_refl readyD)

lemma mset_write_step:
  assumes "ready name c"
    and "mk = (\<lambda>val. \<lparr>rec_value = val, expire_at = 0, timestamp_ms = v, node_id = local_node_id (snd c)\<rparr>)"
  shows "handled name c (mset_write name v kvs c) \<and> ready name (mset_write name v kvs c) \<and>
    db_aof (snd (mset_write name v kvs c)) = db_aof (snd c) \<and> clock (snd (mset_write name v kvs c)) = clock (snd c) \<and>
    stored_of (mset_write name v kvs c) = apply_changes (stored_of c) (pair_changes mk kvs)"
  using assms
proof (induction name v kvs c rule: mset_write.induct)
  case (1 name v key val rest c)
  obtain r c1 where lk: "lookup name key c = (r, c1)" by (meson surj_pair)
  note f = find_ready [OF "1.prems"(1) lk]
  obtain rc c2 where ens: "ensure_rec name key r c1 = (rc, c2)" by (meson surj_pair)
  have id: "on_db (\<lambda>d. d) c1 = c1" by (simp add: on_db_def)
  have nd: "local_node_id (snd c2) = local_node_id (snd c)" using ensure_frame [OF ens] handledD(4) [OF f(1)] by simp
  let ?c3 = "assign key rc val 0 v (local_node_id (snd c)) c2"
  note u = upsert [OF "1.prems"(1) lk quiet_id refl, unfolded id, OF ens, of 0, where val = val and ts = v and nd = "local_node_id (snd c)"]
  have z: "i64 0" by (simp add: i64_def)
  note q = quiet_ready [OF u(2) [OF z] quiet_basic(2) [of key]]
  have h: "handled name c (on_db (access_key key) ?c3)" by (rule handled_trans [OF u(1) [OF z] q(1)]) simp
  let ?c4 = "on_db (access_key key) ?c3"
  have run: "mset_write name v (key # val # rest) c = mset_write name v rest ?c4" using lk ens nd by (simp add: Let_def)
  have fr: "db_aof (snd ?c4) = db_aof (snd c)" "clock (snd ?c4) = clock (snd c)" using ensure_frame [OF ens] f(6,7) by simp_all
  have "local_node_id (snd ?c4) = local_node_id (snd c)" using handledD(4) [OF h] .
  with "1.IH" [OF lk [symmetric] ens [symmetric] refl] "1.prems"(2) q(2) nd
  have IH: "handled name ?c4 (mset_write name v rest ?c4) \<and> ready name (mset_write name v rest ?c4) \<and>
    db_aof (snd (mset_write name v rest ?c4)) = db_aof (snd ?c4) \<and> clock (snd (mset_write name v rest ?c4)) = clock (snd ?c4) \<and>
    stored_of (mset_write name v rest ?c4) = apply_changes (stored_of ?c4) (pair_changes mk rest)" by simp
  then show ?case unfolding run using handled_trans [OF h] fr q(4) u(3) [OF z] "1.prems"(2) by simp
qed (simp_all add: handled_refl readyD)

lemma mset_run:
  assumes rdy: "ready name c" and len: "3 \<le> length args" "odd (length args)" and run: "handle_mset name args c = (reply, c')"
  shows "\<exists>ov. let v = clock_next (clock (snd c)) (now_ms (snd c)) ov;
      mk = (\<lambda>val. \<lparr>rec_value = val, expire_at = 0, timestamp_ms = v, node_id = local_node_id (snd c)\<rparr>);
      cs = pair_changes mk (tl args) in
    reply = ''+OK'' @ CRLF \<and> handled name c c' \<and> ready name c' \<and> clock (snd c') = v \<and>
    (\<forall>(k, x) \<in> set cs. overwritten_ts name k c \<le> ov) \<and> (ov = 0 \<or> (\<exists>(k, x) \<in> set cs. ov = overwritten_ts name k c)) \<and> view c' = apply_changes (view c) cs \<and>
    agree (now_ms (snd c)) (stored_of c') (apply_changes (stored_of c) cs) \<and>
    logs (snd c) (snd c') [\<lparr>ar_room = name, ar_args = args, ar_expire_at = 0, ar_timestamp_ms = v, ar_node_id = local_node_id (snd c)\<rparr>]"
proof -
  obtain ov c1 where scan: "mset_scan name (tl args) 0 c = (ov, c1)" by (meson surj_pair)
  define v where "v = clock_next (clock (snd c)) (now_ms (snd c)) ov"
  define mk where "mk = (\<lambda>val. \<lparr>rec_value = val, expire_at = 0, timestamp_ms = v, node_id = local_node_id (snd c)\<rparr>)"
  note s = mset_scan_step [OF rdy scan, of mk]
  have h1: "handled name c c1" and r1: "ready name c1" using s by blast+
  have dr: "draw ov c1 = (v, on_db (\<lambda>d. d\<lparr>clock := v\<rparr>) c1)" using s handledD(3) [OF h1] by (simp add: draw_def v_def Let_def)
  note d = draw_step [OF r1 dr]
  let ?c2 = "on_db (\<lambda>d. d\<lparr>clock := v\<rparr>) c1"
  have nd: "local_node_id (snd ?c2) = local_node_id (snd c)" using handledD(4) [OF handled_trans [OF h1 d(3)]] .
  note w = mset_write_step [OF d(4), of mk v "tl args", unfolded nd, OF mk_def]
  let ?c3 = "mset_write name v (tl args) ?c2" and ?b = "bump_sets (length args div 2)"
  have h3: "handled name c ?c3" and r3: "ready name ?c3" using w handled_trans [OF handled_trans [OF h1 d(3)]] by blast+
  note q1 = quiet_ready [OF r3 quiet_bumps(2) bump_frame(2), of "length args div 2"]
  let ?g = "\<lambda>d. aof_append name args 0 v (local_node_id d) d"
  have g: "quiet ?g" using quiet_basic(1) [of name args 0 v] unfolding quiet_def by blast
  note q2 = quiet_ready [OF q1(2) g]
  have out: "reply = ''+OK'' @ CRLF" "c' = on_db ?g (on_db ?b ?c3)"
    using run len scan dr by (auto simp: handle_mset_def Let_def not_less)
  have h: "handled name c c'" and r: "ready name c'" unfolding out
    using handled_trans [OF h3 handled_trans [OF q1(1) q2(1)]] q2(2) by simp_all
  have nd3: "local_node_id (snd ?c3) = local_node_id (snd c)" by (rule handledD(4) [OF h3])
  have st: "stored_of c' = apply_changes (stored_of c1) (pair_changes mk (tl args))"
    using q2(4) q1(4) w quiet_ready(4) [OF r1 quiet_basic(3) [of v]] unfolding out by simp
  have "agree (now_ms (snd c)) (stored_of c1) (stored_of c)"
    using s handledD(3) [OF h1] by (simp add: agree_def fun_eq_iff view_stored)
  then have ag: "agree (now_ms (snd c)) (stored_of c') (apply_changes (stored_of c) (pair_changes mk (tl args)))"
    unfolding st by (rule agree_changes)
  have lv: "\<forall>(k, x) \<in> set (pair_changes mk (tl args)). live (now_ms (snd c)) x = x"
    by (rule pair_changes_live) (simp add: mk_def live_def expired_def)
  have "view c' k = apply_changes (view c) (pair_changes mk (tl args)) k" for k
  proof -
    have "(\<lambda>k. live (now_ms (snd c)) (stored_of c k)) = view c" by (rule ext) (simp add: view_stored)
    then show ?thesis using ag live_changes [OF lv, of "stored_of c" k] handledD(3) [OF h] by (simp add: view_stored agree_def)
  qed
  then have vw: "view c' = apply_changes (view c) (pair_changes mk (tl args))" by (rule ext)
  have cl: "clock (snd c') = v" using w by (simp add: out bump_sets_def aof_append_def)
  have lg: "logs (snd c) (snd c') [\<lparr>ar_room = name, ar_args = args, ar_expire_at = 0, ar_timestamp_ms = v, ar_node_id = local_node_id (snd c)\<rparr>]"
  proof -
    have "local_node_id (bump_sets n d) = local_node_id d" for n d by (simp add: bump_sets_def)
    then show ?thesis unfolding out snd_on_db using nd3 w s by (simp add: logs_append)
  qed
  show ?thesis by (rule exI [of _ ov]) (unfold Let_def v_def [symmetric] mk_def [symmetric], use h r cl vw ag lg out(1) s in blast)
qed

lemma mset_journals:
  assumes rdy: "ready name c" and sane: "sane_clock (now_ms (snd c))" and cmd: "upper (args ! 0) = ''MSET''"
    and run: "handle_mset name args c = (reply, c')"
  shows "\<exists>rs. journals name c c' rs"
proof (cases "3 \<le> length args \<and> odd (length args)")
  case False
  then show ?thesis using run rdy journals_none [OF handled_refl [OF readyD(1) [OF rdy]] rdy] by (auto simp: handle_mset_def)
next
  case True
  obtain ov where ov: "let v = clock_next (clock (snd c)) (now_ms (snd c)) ov;
      mk = (\<lambda>val. \<lparr>rec_value = val, expire_at = 0, timestamp_ms = v, node_id = local_node_id (snd c)\<rparr>);
      cs = pair_changes mk (tl args) in
    reply = ''+OK'' @ CRLF \<and> handled name c c' \<and> ready name c' \<and> clock (snd c') = v \<and>
    (\<forall>(k, x) \<in> set cs. overwritten_ts name k c \<le> ov) \<and> (ov = 0 \<or> (\<exists>(k, x) \<in> set cs. ov = overwritten_ts name k c)) \<and> view c' = apply_changes (view c) cs \<and>
    agree (now_ms (snd c)) (stored_of c') (apply_changes (stored_of c) cs) \<and>
    logs (snd c) (snd c') [\<lparr>ar_room = name, ar_args = args, ar_expire_at = 0, ar_timestamp_ms = v, ar_node_id = local_node_id (snd c)\<rparr>]"
    using mset_run [OF rdy _ _ run] True by blast
  let ?v = "clock_next (clock (snd c)) (now_ms (snd c)) ov"
  let ?r = "\<lparr>ar_room = name, ar_args = args, ar_expire_at = 0, ar_timestamp_ms = ?v, ar_node_id = local_node_id (snd c)\<rparr>"
  have "args \<noteq> []" using True by auto
  then have "changes ?r = pair_changes (\<lambda>val. \<lparr>rec_value = val, expire_at = 0, timestamp_ms = ?v, node_id = local_node_id (snd c)\<rparr>) (tl args)"
    using cmd sane_normalize [OF sane] by (simp add: changes_def Let_def)
  then have "journals name c c' [?r]" using ov cmd by (simp add: journals_def plain_def Let_def)
  then show ?thesis by blast
qed

section \<open>DEL\<close>

text \<open>One deletion: the record goes, and nothing as old as it can come back while there are peers to send it.\<close>

lemma del_one:
  assumes rdy: "ready name c" and lk: "lookup name key c = (Some r, c1)"
    and dr: "draw (timestamp_ms r) c1 = (ts, c2)"
    and c3: "c3 = on_db (\<lambda>d. aof_append name [''DEL'', key] 0 ts nd (set_tomb name key (Version ts nd) d)) (erase key r c2)"
  shows "journals name c c3 [\<lparr>ar_room = name, ar_args = [''DEL'', key], ar_expire_at = 0, ar_timestamp_ms = ts, ar_node_id = nd\<rparr>]"
    and "view c3 = (view c)(key := None)" and "tombs_ok name c \<Longrightarrow> tombs_ok name c3"
    and "k \<noteq> key \<Longrightarrow> find_tomb name k (snd c3) = find_tomb name k (snd c)"
    and "tombs_ok name c \<Longrightarrow> peer_count (snd c) \<noteq> 0 \<Longrightarrow> timestamp_ms r \<noteq> UINT64_MAX \<Longrightarrow> stale name key None (rec_version r) (snd c3)"
proof -
  note f = find_step [OF readyD(1,2) [OF rdy] lk] and fr = find_ready [OF rdy lk]
  note d = draw_step [OF fr(2) dr]
  obtain room2 d2 where c2: "c2 = (room2, d2)" by fastforce
  have room: "room2 = fst c1" using d(1) c2 by (metis fst_conv snd_on_db(2))
  have "cell_ok name (room2, d2)" "map_of (room_keys room2) key = Some r"
    using readyD(1) [OF d(4)] f(5) [OF refl] by (simp_all add: c2 room)
  note e = erase_step [OF this, folded c2]
  let ?v = "Version ts nd" and ?e = "erase key r c2"
  let ?g = "\<lambda>d. aof_append name [''DEL'', key] 0 ts nd (set_tomb name key ?v d)"
  have "quiet ?g" by (rule quiet_comp [OF quiet_basic(1) quiet_tombs(1)])
  note q = quiet_step [OF this evolves_ok [OF e(1)], folded c3]
  have h: "handled name c c3"
    by (rule handled_trans [OF handled_trans [OF fr(1) d(3)] handled_trans [OF evolves_handled [OF e(1)] q(1)]])
  have st: "stored_of c3 = (stored_of c)(key := None)"
    using q(2) e(2) f(4) quiet_step(2) [OF quiet_basic(3) readyD(1) [OF fr(2)], of ts] d(1) by simp
  show vw: "view c3 = (view c)(key := None)" using view_upd [OF h st] by (auto simp: fun_eq_iff)
  have tm: "tombstones (snd ?e) = tombstones (snd c)" "\<And>n k. find_tomb n k (snd ?e) = find_tomb n k (snd c)"
    using find_tomb_evolves [OF e(1)] f(7,8) d(1) by simp_all
  have nok: "nested_ok (tombstones (snd c3))" using nested_ok_tombs(1) [of "snd ?e" name key ?v] readyD(3) [OF rdy] tm by (simp add: c3)
  have ft: "find_tomb name k (snd c3) = find_tomb name k (snd c)" if "k \<noteq> key" for k
    using that tm(2) [of name k] by (auto simp: c3 set_tomb_def find_tomb_def count_tomb_def split: option.splits)
  then show "k \<noteq> key \<Longrightarrow> find_tomb name k (snd c3) = find_tomb name k (snd c)" .
  show "tombs_ok name c3" if "tombs_ok name c" by (rule tombs_okI [OF nok]) (metis vw ft fun_upd_apply tombs_okD [OF that])
  have ch: "changes \<lparr>ar_room = name, ar_args = [''DEL'', key], ar_expire_at = 0, ar_timestamp_ms = ts, ar_node_id = nd\<rparr> = [(key, None)]"
    by (simp add: changes_def upper_def toupper_def Let_def)
  have lg: "logs (snd c) (snd c3) [\<lparr>ar_room = name, ar_args = [''DEL'', key], ar_expire_at = 0, ar_timestamp_ms = ts, ar_node_id = nd\<rparr>]"
    unfolding c3 snd_on_db using fr(7) d(6) by (intro logs_append) simp
  show "journals name c c3 [\<lparr>ar_room = name, ar_args = [''DEL'', key], ar_expire_at = 0, ar_timestamp_ms = ts, ar_node_id = nd\<rparr>]"
    unfolding journals_def using h lg ready_handled [OF rdy h nok] st ch by (simp add: plain_def upper_def toupper_def)
  show "stale name key None (rec_version r) (snd c3)" if tb: "tombs_ok name c" and that: "peer_count (snd c) \<noteq> 0" "timestamp_ms r \<noteq> UINT64_MAX"
  proof -
    have above: "timestamp_ms r < ts" using d(2) less_succ [OF that(2)] by (simp add: clock_next_def less_max_iff_disj)
    then have "rec_version r \<le> ?v" by (simp add: less_eq_version_def rec_version_def)
    moreover have none: "find_tomb name key (snd ?e) = None" using tombs_okD [OF tb, of key] fr(3) [symmetric] tm(2) by simp
    moreover have "peer_count (snd ?e) \<noteq> 0" "watermark (snd c3) = watermark (snd ?e)"
      using that(1) handledD(5,6) [OF handled_trans [OF handled_trans [OF fr(1) d(3)] evolves_handled [OF e(1)]]] handledD(5) [OF q(1)] by simp_all
    moreover have "find_tomb name key (snd c3) = find_tomb name key (set_tomb name key ?v (snd ?e))" by (simp add: c3)
    ultimately show ?thesis using above find_tomb_set [of "snd ?e" ?v name key key]
      by (cases "ts \<le> watermark (snd ?e)") (auto simp: stale_def set_tomb_def rec_version_def not_le)
  qed
qed

lemma stale_cong: "find_tomb name k d = find_tomb name k d' \<Longrightarrow> watermark d = watermark d' \<Longrightarrow> stale name k None v d = stale name k None v d'"
  by (simp add: stale_def split: option.split)

lemma del_loop_step:
  assumes "ready name c" and "del_loop name keys n c = (n', c')"
  shows "\<exists>rs. journals name c c' rs \<and> n' = n + length rs \<and>
    length rs = card {k \<in> set keys. view c k \<noteq> None} \<and> (\<forall>k. view c' k = (if k \<in> set keys then None else view c k)) \<and>
    (\<forall>k. k \<notin> set keys \<or> view c k = None \<longrightarrow> find_tomb name k (snd c') = find_tomb name k (snd c)) \<and>
    (tombs_ok name c \<longrightarrow> tombs_ok name c' \<and>
      (\<forall>k r. k \<in> set keys \<longrightarrow> view c k = Some r \<longrightarrow> peer_count (snd c) \<noteq> 0 \<longrightarrow> timestamp_ms r \<noteq> UINT64_MAX \<longrightarrow>
       stale name k None (rec_version r) (snd c')))"
  using assms
proof (induction keys arbitrary: n c)
  case Nil
  then show ?case using journals_none [OF handled_refl [OF readyD(1) [OF Nil(1)]] Nil(1)] by (auto intro!: exI [of _ "[]"])
next
  case (Cons key keys)
  obtain r c1 where lk: "lookup name key c = (r, c1)" by (meson surj_pair)
  note fr = find_ready [OF Cons.prems(1) lk]
  show ?case
  proof (cases r)
    case None
    have tb1: "tombs_ok name c1" if "tombs_ok name c"
      by (rule tombs_okI [OF readyD(3) [OF fr(2)]]) (metis fr(4,5) tombs_okD [OF that])
    have "del_loop name keys n c1 = (n', c')" using Cons.prems(2) lk None by simp
    from Cons.IH [OF fr(2) this, unfolded fr(4,5) handledD(6) [OF fr(1)]] obtain rs where rs: "journals name c1 c' rs" "n' = n + length rs"
      "length rs = card {k \<in> set keys. view c k \<noteq> None}" "\<forall>k. view c' k = (if k \<in> set keys then None else view c k)"
      "\<forall>k. k \<notin> set keys \<or> view c k = None \<longrightarrow> find_tomb name k (snd c') = find_tomb name k (snd c)"
      "tombs_ok name c \<Longrightarrow> tombs_ok name c' \<and>
        (\<forall>k r. k \<in> set keys \<longrightarrow> view c k = Some r \<longrightarrow> peer_count (snd c) \<noteq> 0 \<longrightarrow> timestamp_ms r \<noteq> UINT64_MAX \<longrightarrow>
         stale name k None (rec_version r) (snd c'))"
      using tb1 by blast
    have "{k \<in> set (key # keys). view c k \<noteq> None} = {k \<in> set keys. view c k \<noteq> None}" using fr(3) None by auto
    moreover have "journals name c c' rs" using journals_trans [OF journals_none [OF fr(1,2,7,4)] rs(1)] by simp
    ultimately show ?thesis using rs(2-) fr(3) None by (intro exI [of _ rs]) auto
  next
    case (Some x)
    obtain ts c2 where dr: "draw (timestamp_ms x) c1 = (ts, c2)" by (meson surj_pair)
    define c3 where "c3 = on_db (\<lambda>d. aof_append name [''DEL'', key] 0 ts (local_node_id (snd c2)) (set_tomb name key (Version ts (local_node_id (snd c2))) d)) (erase key x c2)"
    note d = del_one [OF Cons.prems(1) lk [unfolded Some] dr c3_def]
    have j3: "handled name c c3" "ready name c3" using d(1) by (simp_all add: journals_def)
    have "del_loop name keys (Suc n) c3 = (n', c')" using Cons.prems(2) lk Some dr by (simp add: Let_def c3_def)
    from Cons.IH [OF j3(2) this, unfolded handledD(6) [OF j3(1)]] obtain rs where rs: "journals name c3 c' rs" "n' = Suc n + length rs"
      "length rs = card {k \<in> set keys. view c3 k \<noteq> None}" "\<forall>k. view c' k = (if k \<in> set keys then None else view c3 k)"
      "\<forall>k. k \<notin> set keys \<or> view c3 k = None \<longrightarrow> find_tomb name k (snd c') = find_tomb name k (snd c3)"
      "tombs_ok name c \<Longrightarrow> tombs_ok name c' \<and>
        (\<forall>k r. k \<in> set keys \<longrightarrow> view c3 k = Some r \<longrightarrow> peer_count (snd c) \<noteq> 0 \<longrightarrow> timestamp_ms r \<noteq> UINT64_MAX \<longrightarrow>
         stale name k None (rec_version r) (snd c'))"
      using d(3) by blast
    have vx: "view c key = Some x" using fr(3) Some by simp
    have "{k \<in> set (key # keys). view c k \<noteq> None} = insert key {k \<in> set keys. view c3 k \<noteq> None}" using vx by (auto simp: d(2))
    then have "card {k \<in> set (key # keys). view c k \<noteq> None} = Suc (length rs)" using rs(3) by (simp add: d(2))
    moreover have "stale name key None (rec_version x) (snd c')" if "tombs_ok name c" "peer_count (snd c) \<noteq> 0" "timestamp_ms x \<noteq> UINT64_MAX"
    proof -
      have "watermark (snd c') = watermark (snd c3)" using rs(1) handledD(5) [of name c3 c'] by (simp add: journals_def)
      then show ?thesis using d(5) [OF that] stale_cong [of name key "snd c'" "snd c3"] rs(5) by (simp add: d(2))
    qed
    moreover note journals_trans [OF d(1) rs(1)]
    moreover have "find_tomb name k (snd c') = find_tomb name k (snd c)" if "k \<notin> set (key # keys) \<or> view c k = None" for k
      using that rs(5) d(4) [of k] vx by (cases "k = key") (auto simp: d(2))
    moreover have "view c' k = (if k \<in> set (key # keys) then None else view c k)" for k using rs(4) by (simp add: d(2))
    moreover have "stale name k None (rec_version r) (snd c')"
      if "tombs_ok name c" "k \<in> set keys" "k \<noteq> key" "view c k = Some r" "peer_count (snd c) \<noteq> 0" "timestamp_ms r \<noteq> UINT64_MAX" for k r
      using rs(6) that by (simp add: d(2))
    ultimately show ?thesis using rs(2,6) vx by (intro exI [of _ "_ # rs"] conjI) (assumption | fastforce)+
  qed
qed

lemma del_run:
  assumes rdy: "ready name c" and len: "2 \<le> length args" and run: "handle_del name args c = (reply, c')"
  shows "\<exists>rs. journals name c c' rs \<and> length rs = card {k \<in> set (tl args). view c k \<noteq> None} \<and>
    reply = '':'' @ dec (length rs) @ CRLF \<and> (\<forall>k. view c' k = (if k \<in> set (tl args) then None else view c k)) \<and>
    (\<forall>k. k \<notin> set (tl args) \<or> view c k = None \<longrightarrow> find_tomb name k (snd c') = find_tomb name k (snd c)) \<and>
    (tombs_ok name c \<longrightarrow> tombs_ok name c' \<and>
      (\<forall>k r. k \<in> set (tl args) \<longrightarrow> view c k = Some r \<longrightarrow> peer_count (snd c) \<noteq> 0 \<longrightarrow> timestamp_ms r \<noteq> UINT64_MAX \<longrightarrow>
       stale name k None (rec_version r) (snd c')))"
proof -
  obtain n' c1 where loop: "del_loop name (tl args) 0 c = (n', c1)" by (meson surj_pair)
  have out: "reply = '':'' @ dec n' @ CRLF" "c' = c1" using run len loop by (auto simp: handle_del_def)
  show ?thesis using del_loop_step [OF rdy loop] unfolding out by auto
qed

lemma del_journals:
  assumes "ready name c" and "handle_del name args c = (reply, c')"
  shows "\<exists>rs. journals name c c' rs"
proof (cases "2 \<le> length args")
  case True
  then show ?thesis using del_run [OF assms(1) True assms(2)] by blast
next
  case False
  then show ?thesis using assms journals_none [OF handled_refl [OF readyD(1) [OF assms(1)]] assms(1)] by (auto simp: handle_del_def)
qed

section \<open>Reads\<close>

lemma get_run:
  assumes rdy: "ready name c" and len: "length args = 2" and run: "handle_get name args c = (reply, c')"
  shows "journals name c c' []" "view c' = view c"
    "reply = (case view c (args ! 1) of None \<Rightarrow> nil (snd c) | Some r \<Rightarrow> bulk_string (rec_value r))"
proof -
  let ?c0 = "on_db (bump_gets 1) c"
  note q0 = quiet_ready [OF rdy quiet_bumps(1) [of 1] bump_frame(1)]
  obtain r c1 where lk: "lookup name (args ! 1) ?c0 = (r, c1)" by (meson surj_pair)
  note f = find_ready [OF q0(2) lk] and r3 = lookup_resp3 [OF q0(2) lk]
  note q2 = quiet_ready [OF f(2) quiet_basic(2) [of "args ! 1"]]
  have h1: "handled name c c1" by (rule handled_trans [OF q0(1) f(1)])
  have c': "c' = c1 \<or> c' = on_db (access_key (args ! 1)) c1" using run len lk by (auto simp: handle_get_def split: option.splits)
  have "handled name c c' \<and> ready name c' \<and> db_aof (snd c') = db_aof (snd c) \<and> view c' = view c"
    using c' h1 f(2,4,7) q0(3) q2(2,3) handled_trans [OF h1 q2(1)] by auto
  then show "journals name c c' []" "view c' = view c" using journals_none by blast+
  show "reply = (case view c (args ! 1) of None \<Rightarrow> nil (snd c) | Some r \<Rightarrow> bulk_string (rec_value r))"
    using run len lk f(3) q0(3) r3 by (auto simp: handle_get_def nil_def split: option.splits)
qed

text \<open>Reading several keys: the state of the room stays as it is through the loop.\<close>

lemma exists_loop_step:
  "ready name c \<Longrightarrow> exists_loop name keys n c = (n', c') \<Longrightarrow>
    journals name c c' [] \<and> view c' = view c \<and> n' = n + length (filter (\<lambda>k. view c k \<noteq> None) keys)"
proof (induction keys arbitrary: n c)
  case (Cons key keys)
  obtain r c1 where lk: "lookup name key c = (r, c1)" by (meson surj_pair)
  note f = find_ready [OF Cons.prems(1) lk]
  have "exists_loop name keys (if r \<noteq> None then Suc n else n) c1 = (n', c')" using Cons.prems(2) lk by simp
  from Cons.IH [OF f(2) this] show ?case
    using journals_trans [OF journals_none [OF f(1,2,7,4)], of c' "[]"] f(3,4) by auto
qed (simp add: journals_none handled_refl readyD)

fun mget_reply :: "database \<Rightarrow> (string \<rightharpoonup> Record) \<Rightarrow> string list \<Rightarrow> string" where
  "mget_reply d m [] = []"
| "mget_reply d m (k # ks) = (case m k of None \<Rightarrow> nil d | Some r \<Rightarrow> bulk_string (rec_value r)) @ mget_reply d m ks"

lemma mget_reply_cong: "resp3 d = resp3 d' \<Longrightarrow> mget_reply d m ks = mget_reply d' m ks"
  by (induction ks) (simp_all add: nil_def split: option.split)

lemma mget_loop_step:
  "ready name c \<Longrightarrow> mget_loop name keys out c = (res, c') \<Longrightarrow>
    journals name c c' [] \<and> view c' = view c \<and> (res = None \<or> res = Some (out @ mget_reply (snd c) (view c) keys)) \<and>
    (res = None \<longrightarrow> length (out @ mget_reply (snd c) (view c) keys) > MAX_REPLY)"
proof (induction keys arbitrary: out c)
  case (Cons key keys)
  obtain r c1 where lk: "lookup name key c = (r, c1)" by (meson surj_pair)
  note f = find_ready [OF Cons.prems(1) lk] and r3 = lookup_resp3 [OF Cons.prems(1) lk]
  have rep: "mget_reply (snd c1) m ks = mget_reply (snd c) m ks" "nil (snd c1) = nil (snd c)" for m ks
    using mget_reply_cong [OF r3] r3 by (simp_all add: nil_def)
  note j1 = journals_none [OF f(1,2,7,4)]
  show ?case
  proof (cases r)
    case None
    have "mget_loop name keys (out @ nil (snd c)) c1 = (res, c')" using Cons.prems(2) lk None rep by simp
    from Cons.IH [OF f(2) this] show ?thesis
      using journals_trans [OF j1, of c' "[]"] f(3,4) None rep by simp
  next
    case (Some x)
    note q = quiet_ready [OF f(2) quiet_basic(2) [of key]]
    let ?c2 = "on_db (access_key key) c1"
    have j2: "journals name c ?c2 []" using journals_trans [OF j1 journals_none [OF q(1,2) _ q(3)]] by simp
    have rep2: "mget_reply (snd ?c2) m ks = mget_reply (snd c) m ks" for m ks
      using mget_reply_cong [of "snd ?c2" "snd c1"] rep by (simp add: access_key_def)
    have vx: "view c key = Some x" using f(3) Some by simp
    show ?thesis
    proof (cases "length out + length (rec_value x) > MAX_REPLY")
      case True
      then have "res = None" "c' = c1" using Cons.prems(2) lk Some by simp_all
      then show ?thesis using j1 f(4) True vx by (simp add: bulk_string_def)
    next
      case False
      have "mget_loop name keys (out @ bulk_string (rec_value x)) ?c2 = (res, c')" using Cons.prems(2) lk Some False by simp
      from Cons.IH [OF q(2) this] show ?thesis
        using journals_trans [OF j2, of c' "[]"] f(4) q(3) vx rep2 by simp
    qed
  qed
qed (auto simp: journals_none handled_refl readyD)

section \<open>EXPIRE\<close>

lemma dec_1: "dec 1 = ''1''"
  by code_simp

lemma rec_upd:
  "x\<lparr>expire_at := ex, timestamp_ms := v, node_id := nd\<rparr> = \<lparr>rec_value = rec_value x, expire_at = ex, timestamp_ms = v, node_id = nd\<rparr>"
  by (cases x) simp

lemma update_as_assign:
  "update_rec key (r\<lparr>expire_at := ex, timestamp_ms := ts, node_id := nd\<rparr>) c = assign key r (rec_value r) ex ts nd c"
  by (cases c) (simp add: assign_def set_value_def update_rec_def db_charge_def charge_def al_update_twice)

lemma expire_deadline_range:
  assumes run: "expire_deadline scale now args = Some (n, ex)" and now: "0 \<le> now" and sc: "scale \<in> {0, 1, 1000}" and pos: "scale = 0 \<or> 0 < n"
  shows "i64 ex" "ex = 0 \<or> now < ex" "ex = now + n * scale \<or> scale = 0 \<and> ex = 0"
proof -
  consider (persist) "scale = 0" "ex = 0" | (set) "0 < scale" "0 < n" "n \<le> (LLONG_MAX - now) div scale" "ex = now + n * scale"
    using assms by (auto simp: expire_deadline_def split: if_splits option.splits)
  then have "i64 ex \<and> (ex = 0 \<or> now < ex) \<and> (ex = now + n * scale \<or> scale = 0 \<and> ex = 0)"
  proof cases
    case persist
    then show ?thesis by (simp add: i64_def)
  next
    case set
    have "ex \<le> LLONG_MAX" using scaled_deadline [OF set(1,3)] set(4) by simp
    moreover have "now < ex" using set by simp
    ultimately show ?thesis using set(4) now by (auto simp: i64_iff)
  qed
  then show "i64 ex" "ex = 0 \<or> now < ex" "ex = now + n * scale \<or> scale = 0 \<and> ex = 0" by blast+
qed

text \<open>The arguments are valid: the options and the requested deadline.\<close>

definition expire_parsed :: "string list \<Rightarrow> int \<Rightarrow> int \<Rightarrow> (bool \<times> bool \<times> bool \<times> bool) \<Rightarrow> int \<Rightarrow> int \<Rightarrow> bool" where
  "expire_parsed args scale now = (\<lambda>(nx, xx, gt, lt) n ex.
     (if scale \<noteq> 0 then 3 \<le> length args else length args = 2) \<and>
     expire_opts (drop 3 args) False False False False = Inr (nx, xx, gt, lt) \<and>
     \<not> (nx \<and> (xx \<or> gt \<or> lt)) \<and> \<not> (gt \<and> lt) \<and> expire_deadline scale now args = Some (n, ex))"

lemma expire_opts_error: "expire_opts xs nx xx gt lt = Inl e \<Longrightarrow> \<exists>text. e = err text"
  by (induction xs nx xx gt lt rule: expire_opts.induct) (auto simp: Let_def split: if_splits)

lemma expire_invalid:
  assumes bad: "\<And>opts n ex. \<not> expire_parsed args scale (now_ms (snd c)) opts n ex" and run: "handle_expire name args scale c = (reply, c')"
  shows "c' = c \<and> (\<exists>text. reply = err text)"
proof (cases "if scale \<noteq> 0 then length args < 3 else length args \<noteq> 2")
  case True
  show ?thesis using run unfolding handle_expire_def if_P [OF True] by auto
next
  case len: False
  note run1 = run [unfolded handle_expire_def if_not_P [OF len]]
  show ?thesis
  proof (cases "expire_opts (drop 3 args) False False False False")
    case (Inl e)
    show ?thesis using run1 expire_opts_error [OF Inl] unfolding Inl by auto
  next
    case (Inr o4)
    obtain nx xx gt lt where o4: "o4 = (nx, xx, gt, lt)" by (metis prod_cases4)
    note run2 = run1 [unfolded Inr o4 sum.case prod.case]
    consider (nx) "nx \<and> (xx \<or> gt \<or> lt)" | (gt) "\<not> (nx \<and> (xx \<or> gt \<or> lt))" "gt \<and> lt"
      | (ok) "\<not> (nx \<and> (xx \<or> gt \<or> lt))" "\<not> (gt \<and> lt)" by blast
    then show ?thesis
    proof cases
      case nx
      show ?thesis using run2 unfolding if_P [OF nx] by auto
    next
      case gt
      show ?thesis using run2 unfolding if_not_P [OF gt(1)] if_P [OF gt(2)] by auto
    next
      case ok
      have "expire_deadline scale (now_ms (snd c)) args = None"
      proof (cases "expire_deadline scale (now_ms (snd c)) args")
        case (Some ne)
        obtain n ex where "ne = (n, ex)" by fastforce
        then have "expire_parsed args scale (now_ms (snd c)) (nx, xx, gt, lt) n ex"
          unfolding expire_parsed_def using len Inr o4 ok Some by (cases "scale = 0") simp_all
        then show ?thesis using bad by blast
      qed
      then show ?thesis using run2 unfolding if_not_P [OF ok(1)] if_not_P [OF ok(2)] by auto
    qed
  qed
qed

lemma expire_run:
  assumes rdy: "ready name c" and ok: "expire_parsed args scale (now_ms (snd c)) opts n ex" and sc: "scale \<in> {0, 1, 1000}"
    and sane: "sane_clock (now_ms (snd c))" and run: "handle_expire name args scale c = (reply, c')"
  shows "\<exists>rs. journals name c c' rs \<and>
    (case view c (args ! 1) of
       None \<Rightarrow> reply = '':0'' @ CRLF \<and> view c' = view c \<and> rs = []
     | Some r \<Rightarrow>
         if (scale = 0 \<and> expire_at r = 0) \<or> expire_refused opts (expire_at r) ex
         then reply = '':0'' @ CRLF \<and> view c' = view c \<and> rs = []
         else if scale \<noteq> 0 \<and> n \<le> 0 then reply = '':1'' @ CRLF \<and> view c' = (view c)(args ! 1 := None)
         else
           (let v = clock_next (clock (snd c)) (now_ms (snd c)) (timestamp_ms r) in
            reply = '':1'' @ CRLF \<and> (ex = now_ms (snd c) + n * scale \<or> scale = 0 \<and> ex = 0) \<and>
            view c' = (view c)(args ! 1 \<mapsto> r\<lparr>expire_at := ex, timestamp_ms := v, node_id := local_node_id (snd c)\<rparr>) \<and> length rs = 1))"
proof -
  obtain nx xx gt lt where o4: "opts = (nx, xx, gt, lt)" by (metis prod_cases4)
  obtain r c1 where lk: "lookup name (args ! 1) c = (r, c1)" by (meson surj_pair)
  note f = find_step [OF readyD(1,2) [OF rdy] lk] and fr = find_ready [OF rdy lk]
  note j1 = journals_none [OF fr(1,2,7,4)]
  have parsed: "\<not> (if scale \<noteq> 0 then length args < 3 else length args \<noteq> 2)" "expire_opts (drop 3 args) False False False False = Inr (nx, xx, gt, lt)"
    "\<not> (nx \<and> (xx \<or> gt \<or> lt))" "\<not> (gt \<and> lt)" "expire_deadline scale (now_ms (snd c)) args = Some (n, ex)"
    using ok by (auto simp: expire_parsed_def o4)
  have run2: "(reply, c') = (case r of None \<Rightarrow> ('':0'' @ CRLF, c1) | Some x \<Rightarrow> expire_found name (args ! 1) scale opts n ex x c1)"
    using run unfolding handle_expire_def if_not_P [OF parsed(1)] parsed(2) o4 sum.case prod.case if_not_P [OF parsed(3)]
      if_not_P [OF parsed(4)] parsed(5) option.case lk by (cases r) simp_all
  note go = run2 [unfolded expire_found_def]
  show ?thesis
  proof (cases r)
    case None
    then show ?thesis using go fr(3,4) j1 by (intro exI [of _ "[]"]) simp
  next
    case (Some x)
    have vx: "view c (args ! 1) = Some x" using fr(3) Some by simp
    show ?thesis
    proof (cases "(scale = 0 \<and> expire_at x = 0) \<or> expire_refused opts (expire_at x) ex")
      case True
      then have "reply = '':0'' @ CRLF" "c' = c1" using go Some by (auto split: if_splits)
      then show ?thesis using True vx fr(4) j1 by (intro exI [of _ "[]"]) simp
    next
      case keep: False
      then have k: "\<not> (scale = 0 \<and> expire_at x = 0)" "\<not> expire_refused opts (expire_at x) ex" by blast+
      show ?thesis
      proof (cases "scale \<noteq> 0 \<and> n \<le> 0")
        case True
        have "handle_del name [''DEL'', args ! 1] c1 = (reply, c')" using go Some keep True by simp
        from del_run [OF fr(2) _ this] obtain rs where rs: "journals name c1 c' rs"
          "length rs = card {k \<in> set [args ! 1]. view c1 k \<noteq> None}" "reply = '':'' @ dec (length rs) @ CRLF"
          "\<forall>k. view c' k = (if k \<in> set [args ! 1] then None else view c1 k)" by auto
        have "{k \<in> set [args ! 1]. view c1 k \<noteq> None} = {args ! 1}" using vx fr(4) by auto
        then have "length rs = 1" using rs(2) by simp
        then have "reply = '':1'' @ CRLF" using rs(3) by (simp add: dec_1)
        moreover have "view c' = (view c)(args ! 1 := None)" using rs(4) fr(4) by (auto simp: fun_eq_iff)
        ultimately show ?thesis using vx keep True journals_trans [OF j1 rs(1)] by (intro exI [of _ rs]) simp
      next
        case False
        define v where "v = clock_next (clock (snd c)) (now_ms (snd c)) (timestamp_ms x)"
        let ?f = "\<lambda>d. d\<lparr>clock := v\<rparr>" and ?nd = "local_node_id (snd c)"
        have ex: "i64 ex" "ex = 0 \<or> now_ms (snd c) < ex" "ex = now_ms (snd c) + n * scale \<or> scale = 0 \<and> ex = 0"
          using expire_deadline_range [OF parsed(5) _ sc] sane False by (auto simp: sane_clock_def)
        have nd: "local_node_id (snd c1) = ?nd" "now_ms (snd c1) = now_ms (snd c)" using handledD(3,4) [OF fr(1)] by simp_all
        have dr: "draw (timestamp_ms x) c1 = (v, on_db ?f c1)" using fr(6) nd by (simp add: draw_def v_def Let_def)
        have ens: "ensure_rec name (args ! 1) r (on_db ?f c1) = (x, on_db ?f c1)" using Some by (simp add: ensure_rec_def)
        let ?c3 = "assign (args ! 1) x (rec_value x) ex v ?nd (on_db ?f c1)"
        let ?g = "aof_append name [''SET'', args ! 1, rec_value x] ex v ?nd"
        have out: "reply = '':1'' @ CRLF" "c' = on_db ?g ?c3"
          using go [unfolded Some option.case if_not_P [OF k(1)] if_not_P [OF k(2)] if_not_P [OF False] dr] nd
          by (simp_all add: update_as_assign Let_def)
        note u = upsert [OF rdy lk quiet_basic(3) _ ens ex(1), where val = "rec_value x" and ts = v and nd = ?nd, simplified]
        note q = quiet_ready [OF u(2) quiet_basic(1) tombstones_frame(1), of name "[''SET'', args ! 1, rec_value x]" ex v ?nd]
        have h: "handled name c c'" and rc: "ready name c'" unfolding out using handled_trans [OF u(1) q(1)] q(2) by simp_all
        have st: "stored_of c' = (stored_of c)(args ! 1 \<mapsto> x\<lparr>expire_at := ex, timestamp_ms := v, node_id := ?nd\<rparr>)"
          using q(4) u(3) unfolding out by (simp add: rec_upd)
        let ?rec = "\<lparr>ar_room = name, ar_args = [''SET'', args ! 1, rec_value x], ar_expire_at = ex, ar_timestamp_ms = v, ar_node_id = ?nd\<rparr>"
        have "changes ?rec = [(args ! 1, Some (x\<lparr>expire_at := ex, timestamp_ms := v, node_id := ?nd\<rparr>))]"
          using sane_normalize [OF sane] by (simp add: changes_def upper_def toupper_def Let_def v_def rec_upd)
        moreover have "logs (snd c) (snd c') [?rec]" unfolding out snd_on_db using fr(7) by (intro logs_append) simp
        ultimately have "journals name c c' [?rec]" using h rc st by (simp add: journals_def plain_def upper_def toupper_def)
        moreover have "view c' = (view c)(args ! 1 \<mapsto> x\<lparr>expire_at := ex, timestamp_ms := v, node_id := ?nd\<rparr>)"
          using view_upd [OF h st] ex(2) by (auto simp: fun_eq_iff live_def expired_def)
        ultimately show ?thesis unfolding vx option.case if_not_P [OF keep] if_not_P [OF False] Let_def v_def [symmetric]
          using out(1) ex(3) by (intro exI [of _ "[?rec]"]) simp
      qed
    qed
  qed
qed

lemma expire_journals:
  assumes "ready name c" and "sane_clock (now_ms (snd c))" and "scale \<in> {0, 1, 1000}" and "handle_expire name args scale c = (reply, c')"
  shows "\<exists>rs. journals name c c' rs"
proof (cases "\<exists>opts n ex. expire_parsed args scale (now_ms (snd c)) opts n ex")
  case True
  then obtain opts n ex where "expire_parsed args scale (now_ms (snd c)) opts n ex" by blast
  from expire_run [OF assms(1) this assms(3,2,4)] show ?thesis by blast
next
  case False
  then have "c' = c" using expire_invalid [OF _ assms(4)] by blast
  then show ?thesis using journals_none [OF handled_refl [OF readyD(1) [OF assms(1)]] assms(1)] by auto
qed

lemma ttl_run:
  assumes rdy: "ready name c" and len: "length args = 2" and run: "handle_ttl name args millis c = (reply, c')"
  shows "journals name c c' []" "view c' = view c"
    "reply = (case view c (args ! 1) of
       None \<Rightarrow> '':-2'' @ CRLF
     | Some r \<Rightarrow>
         if expire_at r = 0 then '':-1'' @ CRLF
         else (let left = max 0 (expire_at r - now_ms (snd c))
               in '':'' @ dec_int (if millis then left else (left + 500) div 1000) @ CRLF))"
proof -
  obtain r c1 where lk: "lookup name (args ! 1) c = (r, c1)" by (meson surj_pair)
  note f = find_ready [OF rdy lk] and now = handledD(3) [OF find_ready(1) [OF rdy lk]]
  have c': "c' = c1" using run len lk by (auto simp: handle_ttl_def Let_def split: option.splits if_splits)
  show "journals name c c' []" "view c' = view c" unfolding c' using journals_none [OF f(1,2,7,4)] f(4) by blast+
  have "reply = fst (handle_ttl name args millis c)" using run by simp
  also have "\<dots> = (case r of
       None \<Rightarrow> '':-2'' @ CRLF
     | Some r \<Rightarrow>
         if expire_at r = 0 then '':-1'' @ CRLF
         else (let left = max 0 (expire_at r - now_ms (snd c))
               in '':'' @ dec_int (if millis then left else (left + 500) div 1000) @ CRLF))"
    using len lk now by (simp add: handle_ttl_def Let_def split: option.split)
  finally show "reply = (case view c (args ! 1) of
       None \<Rightarrow> '':-2'' @ CRLF
     | Some r \<Rightarrow>
         if expire_at r = 0 then '':-1'' @ CRLF
         else (let left = max 0 (expire_at r - now_ms (snd c))
               in '':'' @ dec_int (if millis then left else (left + 500) div 1000) @ CRLF))" unfolding f(3) .
qed

section \<open>Replicated writes and the log\<close>

lemma incoming_cases:
  assumes "incoming_version a b d = (res, d1)"
  shows "(\<exists>e. res = Inl e \<and> d1 = d) \<or>
    (\<exists>v ts0 node. res = Inr v \<and> d1 = d\<lparr>clock := clock_observe (clock d) (v_ts v)\<rparr> \<and> parse_u64 a = Some ts0 \<and> parse_u64 b = Some node \<and>
       unat node \<le> 4294967295 \<and> v = Version (hlc_normalize ts0) (of_nat (unat node)))"
  using assms by (auto simp: incoming_version_def Let_def split: option.splits if_splits)

lemma i64_merge_expire: "merge_expire args = Some e \<Longrightarrow> i64 e"
  using parse_i64_range [of "args ! 5"] by (auto simp: merge_expire_def i64_def split: if_splits option.splits)

lemma found_rec_ok:
  assumes "ready name c" and "lookup name key c = (r, c1)" and "ensure_rec name key r c1 = (rc, c2)"
  shows "i64 (expire_at rc)"
proof (cases r)
  case None
  then show ?thesis using assms(3) by (auto simp: ensure_rec_def new_record_def i64_def)
next
  case (Some x)
  have "cell_ok name (fst c1, snd c1)" using readyD(1) [OF find_ready(2) [OF assms(1,2)]] by simp
  from cell_okD(7) [OF this find_step(5) [OF readyD(1,2) [OF assms(1)] assms(2) Some]]
  show ?thesis using assms(3) Some by (simp add: ensure_rec_def rec_ok_def)
qed

lemma merge_journals:
  assumes rdy: "ready name c" and cmd: "upper (args ! 0) = ''CRDTMERGE''" and run: "handle_crdtmerge name args c = (reply, c')"
  shows "\<exists>rs. journals name c c' rs"
proof -
  note stay = journals_none [OF handled_refl [OF readyD(1) [OF rdy]] rdy]
  obtain room d where c: "c = (room, d)" by fastforce
  note run1 = run [unfolded handle_crdtmerge_def c prod.case]
  show ?thesis
  proof (cases "length args < 5 \<or> length args > 6")
    case True
    show ?thesis using run1 stay unfolding if_P [OF True] c by auto
  next
    case len: False
    note run2 = run1 [unfolded if_not_P [OF len]]
    show ?thesis
    proof (cases "merge_expire args")
      case None
      show ?thesis using run2 stay unfolding None option.case c by auto
    next
      case (Some expire)
      obtain res d1 where iv: "incoming_version (args ! 3) (args ! 4) d = (res, d1)" by (meson surj_pair)
      note run3 = run2 [unfolded Some option.case iv prod.case]
      from incoming_cases [OF iv] show ?thesis
      proof
        assume "\<exists>e. res = Inl e \<and> d1 = d"
        then show ?thesis using run3 stay unfolding c by auto
      next
        assume "\<exists>v ts0 node. res = Inr v \<and> d1 = d\<lparr>clock := clock_observe (clock d) (v_ts v)\<rparr> \<and> parse_u64 (args ! 3) = Some ts0 \<and>
          parse_u64 (args ! 4) = Some node \<and> unat node \<le> 4294967295 \<and> v = Version (hlc_normalize ts0) (of_nat (unat node))"
        then obtain v ts0 node where v: "res = Inr v" "d1 = d\<lparr>clock := clock_observe (clock d) (v_ts v)\<rparr>" "parse_u64 (args ! 3) = Some ts0"
          "parse_u64 (args ! 4) = Some node" "unat node \<le> 4294967295" "v = Version (hlc_normalize ts0) (of_nat (unat node))" by blast
        let ?f = "\<lambda>d. d\<lparr>clock := clock_observe (clock (snd c)) (v_ts v)\<rparr>" and ?key = "args ! 1"
        have c0: "(room, d1) = on_db ?f c" by (simp add: c v(2) on_db_def)
        note q0 = quiet_ready [OF rdy quiet_basic(3)]
        have r0: "ready name (on_db ?f c)" by (rule q0(2)) simp
        have j0: "journals name c (on_db ?f c) []" by (rule journals_none [OF q0(1,2) _ q0(3)]) simp_all
        obtain r c1 where lk: "lookup name ?key (on_db ?f c) = (r, c1)" by (meson surj_pair)
        note fr = find_ready [OF r0 lk]
        have j1: "journals name c c1 []" using journals_trans [OF j0 journals_none [OF fr(1,2,7,4)]] by simp
        obtain rc c2 where ens: "ensure_rec name ?key r c1 = (rc, c2)" by (meson surj_pair)
        define ex where "ex = (if length args = 6 then expire else expire_at rc)"
        let ?c3 = "assign ?key rc (args ! 2) ex (v_ts v) (v_node v) c2"
        let ?g = "\<lambda>d. aof_append name args ex (v_ts v) (v_node v) (access_key ?key d)"
        have out: "c' = (if stale name ?key r v (snd c1) then c1 else on_db ?g ?c3)"
          using run3 lk ens unfolding v(1) c0 by (auto simp: Let_def ex_def [symmetric])
        show ?thesis
        proof (cases "stale name ?key r v (snd c1)")
          case True
          then show ?thesis using out j1 by auto
        next
          case False
          have id: "on_db (\<lambda>d. d) c1 = c1" by (simp add: on_db_def)
          have exok: "i64 ex" using i64_merge_expire [OF Some] found_rec_ok [OF r0 lk ens] by (simp add: ex_def)
          note u = upsert [OF r0 lk quiet_id refl, unfolded id, OF ens exok, where val = "args ! 2" and ts = "v_ts v" and nd = "v_node v"]
          have g: "quiet ?g" by (rule quiet_comp [OF quiet_basic(1,2)])
          note q = quiet_ready [OF u(2) g]
          let ?rec = "\<lparr>ar_room = name, ar_args = args, ar_expire_at = ex, ar_timestamp_ms = v_ts v, ar_node_id = v_node v\<rparr>"
          have "args \<noteq> []" "5 \<le> length args" using len by auto
          then have ch: "changes ?rec = [(?key, Some \<lparr>rec_value = args ! 2, expire_at = ex, timestamp_ms = v_ts v, node_id = v_node v\<rparr>)]"
            using cmd v(3-6) by (simp add: changes_def Let_def not_less)
          have lg: "logs (snd c) (snd c') [?rec]" unfolding out if_not_P [OF False] snd_on_db
            using fr(7) ensure_frame [OF ens] by (intro logs_append) simp
          have "stored_of (on_db ?f c) = stored_of c" by (rule q0(4)) simp
          then have "stored_of c' = (stored_of c)(?key \<mapsto> \<lparr>rec_value = args ! 2, expire_at = ex, timestamp_ms = v_ts v, node_id = v_node v\<rparr>)"
            using q(4) u(3) unfolding out if_not_P [OF False] by simp
          moreover have "handled name c c'" unfolding out if_not_P [OF False]
            using handled_trans [OF q0(1) handled_trans [OF u(1) q(1)]] by simp
          moreover have "ready name c'" unfolding out if_not_P [OF False] using q(2) by simp
          ultimately have "journals name c c' [?rec]" using lg ch cmd by (simp add: journals_def plain_def)
          then show ?thesis by blast
        qed
      qed
    qed
  qed
qed

lemma crdtdel_journals:
  assumes rdy: "ready name c" and cmd: "upper (args ! 0) = ''CRDTDEL''" and run: "handle_crdtdel name args c = (reply, c')"
  shows "\<exists>rs. journals name c c' rs"
proof -
  note stay = journals_none [OF handled_refl [OF readyD(1) [OF rdy]] rdy]
  obtain room d where c: "c = (room, d)" by fastforce
  note run1 = run [unfolded handle_crdtdel_def c prod.case]
  show ?thesis
  proof (cases "length args \<noteq> 4")
    case True
    show ?thesis using run1 stay unfolding if_P [OF True] c by auto
  next
    case len: False
    obtain res d1 where iv: "incoming_version (args ! 2) (args ! 3) d = (res, d1)" by (meson surj_pair)
    note run2 = run1 [unfolded if_not_P [OF len] iv prod.case]
    from incoming_cases [OF iv] consider (bad) e where "res = Inl e" "d1 = d"
      | (ok) v where "res = Inr v" "d1 = d\<lparr>clock := clock_observe (clock d) (v_ts v)\<rparr>" by blast
    then show ?thesis
    proof cases
      case bad
      then show ?thesis using run2 stay unfolding c by auto
    next
      case ok
      let ?f = "\<lambda>d. d\<lparr>clock := clock_observe (clock (snd c)) (v_ts v)\<rparr>" and ?key = "args ! 1"
      have c0: "(room, d1) = on_db ?f c" by (simp add: c ok(2) on_db_def)
      note q0 = quiet_ready [OF rdy quiet_basic(3)]
      have r0: "ready name (on_db ?f c)" by (rule q0(2)) simp
      have j0: "journals name c (on_db ?f c) []" by (rule journals_none [OF q0(1,2) _ q0(3)]) simp_all
      obtain r c1 where lk: "lookup name ?key (on_db ?f c) = (r, c1)" by (meson surj_pair)
      note fr = find_ready [OF r0 lk] and fs = find_step [OF readyD(1,2) [OF r0] lk]
      have j1: "journals name c c1 []" using journals_trans [OF j0 journals_none [OF fr(1,2,7,4)]] by simp
      define c2 where "c2 = (case r of Some x \<Rightarrow> erase ?key x c1 | None \<Rightarrow> c1)"
      let ?g = "\<lambda>d. aof_append name args 0 (v_ts v) (v_node v) (set_tomb name ?key v d)"
      have out: "c' = (if stale name ?key r v (snd c1) then c1 else on_db ?g c2)"
        using run2 lk unfolding ok(1) c0 by (auto simp: Let_def c2_def [symmetric])
      show ?thesis
      proof (cases "stale name ?key r v (snd c1)")
        case True
        then show ?thesis using out j1 by auto
      next
        case False
        have ok1: "cell_ok name (fst c1, snd c1)" using readyD(1) [OF fr(2)] by simp
        have er: "evolves name c1 c2 \<and> stored_of c2 = (stored_of c1)(?key := None) \<and> db_aof (snd c2) = db_aof (snd c1)"
        proof (cases r)
          case None
          then show ?thesis using evolves_refl [OF readyD(1) [OF fr(2)]] fs(4) by (simp add: c2_def fun_upd_idem_iff)
        next
          case (Some x)
          from erase_step [OF ok1 fs(5) [OF Some]] show ?thesis by (simp add: c2_def Some)
        qed
        have g: "quiet ?g" by (rule quiet_comp [OF quiet_basic(1) quiet_tombs(1)])
        note q = quiet_step [OF g evolves_ok [OF conjunct1 [OF er]]]
        have h: "handled name c c'" unfolding out if_not_P [OF False]
          using handled_trans [OF q0(1) handled_trans [OF fr(1) handled_trans [OF evolves_handled [OF conjunct1 [OF er]] q(1)]]] by simp
        have "tombstones (snd c2) = tombstones (snd c1)" using find_tomb_evolves [OF conjunct1 [OF er]] by simp
        then have "nested_ok (tombstones (snd c'))" unfolding out if_not_P [OF False]
          using nested_ok_tombs(1) [of "snd c2" name ?key v] readyD(3) [OF fr(2)] by simp
        then have rc: "ready name c'" by (rule ready_handled [OF rdy h])
        have st0: "stored_of (on_db ?f c) = stored_of c" by (rule q0(4)) simp
        have st: "stored_of c' = (stored_of c)(?key := None)"
          unfolding out if_not_P [OF False] using q(2) er fs(4) st0 by simp
        let ?rec = "\<lparr>ar_room = name, ar_args = args, ar_expire_at = 0, ar_timestamp_ms = v_ts v, ar_node_id = v_node v\<rparr>"
        have "args \<noteq> []" using len by auto
        then have "changes ?rec = [(?key, None)]" using cmd len by (simp add: changes_def Let_def)
        moreover have "logs (snd c) (snd c') [?rec]" unfolding out if_not_P [OF False] snd_on_db
          using fr(7) er by (intro logs_append) simp
        ultimately have "journals name c c' [?rec]" using h rc st cmd by (simp add: journals_def plain_def)
        then show ?thesis by blast
      qed
    qed
  qed
qed

section \<open>All commands of a room\<close>

lemma get_journals: "ready name c \<Longrightarrow> handle_get name args c = (reply, c') \<Longrightarrow> \<exists>rs. journals name c c' rs"
  using get_run(1) [of name c args reply c'] journals_stay [of name c]
  by (cases "length args = 2") (auto simp: handle_get_def)

lemma ttl_journals: "ready name c \<Longrightarrow> handle_ttl name args millis c = (reply, c') \<Longrightarrow> \<exists>rs. journals name c c' rs"
  using ttl_run(1) [of name c args millis reply c'] journals_stay [of name c]
  by (cases "length args = 2") (auto simp: handle_ttl_def)

lemma exists_journals: "ready name c \<Longrightarrow> handle_exists name args c = (reply, c') \<Longrightarrow> \<exists>rs. journals name c c' rs"
  using exists_loop_step [of name c "tl args" 0] journals_stay [of name c]
  by (auto simp: handle_exists_def split: prod.splits if_splits)

lemma mget_run:
  assumes rdy: "ready name c" and len: "2 \<le> length args" and run: "handle_mget name args c = (reply, c')"
  shows "journals name c c' [] \<and> view c' = view c \<and>
    (let whole = ''*'' @ dec (length args - 1) @ CRLF @ mget_reply (snd c) (view c) (tl args) in
     reply = whole \<or> (reply = err ''reply too large'' \<and> length whole > MAX_REPLY))"
proof -
  let ?out = "''*'' @ dec (length args - 1) @ CRLF"
  obtain res c1 where loop: "mget_loop name (tl args) ?out c = (res, c1)" by (meson surj_pair)
  note m = mget_loop_step [OF rdy loop]
  show ?thesis
  proof (cases res)
    case None
    then show ?thesis using run len loop m by (auto simp: handle_mget_def Let_def)
  next
    case (Some out)
    have r1: "ready name c1" using m by (simp add: journals_def)
    note q = quiet_ready [OF r1 quiet_bumps(1) [of "length args - 1"] bump_frame(1)]
    have out: "reply = out" "c' = on_db (bump_gets (length args - 1)) c1" using run len loop Some by (auto simp: handle_mget_def)
    have "journals name c c' []" using journals_trans [OF conjunct1 [OF m] journals_none [OF q(1,2) _ q(3)]] by (simp add: out)
    then show ?thesis using m q(3) Some unfolding out by (simp add: Let_def)
  qed
qed

lemma mget_journals: "ready name c \<Longrightarrow> handle_mget name args c = (reply, c') \<Longrightarrow> \<exists>rs. journals name c c' rs"
  using mget_run [of name c args reply c'] journals_stay [of name c]
  by (cases "2 \<le> length args") (auto simp: handle_mget_def)

lemma key_table_journals:
  "list_all (\<lambda>(cmd, h). \<forall>name args c reply c'. ready name c \<longrightarrow> sane_clock (now_ms (snd c)) \<longrightarrow> upper (args ! 0) = cmd \<longrightarrow>
     h name args c = (reply, c') \<longrightarrow> (\<exists>rs. journals name c c' rs)) key_table"
proof -
  note ex = expire_journals [of _ _ 1000, simplified] expire_journals [of _ _ 1, simplified] expire_journals [of _ _ 0, simplified]
  have sv: "\<exists>rs. journals name c c' rs" if "ready name c" "handle_save name args c = (reply, c')" for name args c reply c'
    using that journals_stay [OF that(1)] by (auto simp: handle_save_def)
  show ?thesis unfolding key_table_def list.pred_inject prod.case
    by (intro conjI allI impI TrueI)
      ((rule get_journals; assumption) | (rule set_journals; assumption) | (rule del_journals; assumption) | (rule merge_journals; assumption)
        | (rule crdtdel_journals; assumption) | (rule mget_journals; assumption) | (rule mset_journals; assumption)
        | (rule exists_journals; assumption) | (rule ttl_journals; assumption) | (rule sv; assumption) | (rule ex(1); assumption)
        | (rule ex(2); assumption) | (rule ex(3); assumption) | simp)+
qed

lemma key_command_journals:
  assumes rdy: "ready name c" and sane: "sane_clock (now_ms (snd c))" and run: "key_command name (upper (args ! 0)) args c = (reply, c')"
  shows "\<exists>rs. journals name c c' rs"
proof (cases "map_of key_table (upper (args ! 0))")
  case None
  then show ?thesis using run journals_stay [OF rdy] by (auto simp: key_command_def)
next
  case (Some h)
  have "(upper (args ! 0), h) \<in> set key_table" using Some by (rule map_of_SomeD)
  with key_table_journals have "\<forall>name args' c reply c'. ready name c \<longrightarrow> sane_clock (now_ms (snd c)) \<longrightarrow> upper (args' ! 0) = upper (args ! 0) \<longrightarrow>
     h name args' c = (reply, c') \<longrightarrow> (\<exists>rs. journals name c c' rs)" unfolding list_all_iff by fast
  moreover have "h name args c = (reply, c')" using run Some by (simp add: key_command_def)
  ultimately show ?thesis using rdy sane by blast
qed

section \<open>Sequences of commands\<close>

text \<open>
  The contract of a store with a write-ahead log: whatever a step did to the store, the records it
  logged say; two stores may count as the same although they differ in what nobody can see any more.
  What follows for every such store: the log of a whole run says what the whole run did.
\<close>

locale journaled =
  fixes inv :: "'s \<Rightarrow> bool" and ok :: "'s \<Rightarrow> 'o \<Rightarrow> bool" and step :: "'s \<Rightarrow> 'o \<Rightarrow> 's" and store :: "'s \<Rightarrow> 'm"
    and logged :: "'s \<Rightarrow> 's \<Rightarrow> 'r list \<Rightarrow> bool" and redo :: "'m \<Rightarrow> 'r list \<Rightarrow> 'm" and same :: "'s \<Rightarrow> 'm \<Rightarrow> 'm \<Rightarrow> bool"
  assumes step_inv: "inv s \<Longrightarrow> ok s x \<Longrightarrow> inv (step s x)"
    and step_log: "inv s \<Longrightarrow> ok s x \<Longrightarrow> \<exists>rs. logged s (step s x) rs \<and> same (step s x) (store (step s x)) (redo (store s) rs)"
    and logged_refl: "logged s s []"
    and logged_trans: "logged s t rs \<Longrightarrow> logged t u us \<Longrightarrow> logged s u (rs @ us)"
    and redo_nil: "redo m [] = m" and redo_append: "redo m (rs @ us) = redo (redo m rs) us"
    and same_refl: "same s m m" and same_trans: "same s m n \<Longrightarrow> same s n k \<Longrightarrow> same s m k"
    and same_redo: "same s m n \<Longrightarrow> same s (redo m rs) (redo n rs)"
    and same_step: "inv s \<Longrightarrow> ok s x \<Longrightarrow> same s m n \<Longrightarrow> same (step s x) m n"
begin

fun run_ok :: "'s \<Rightarrow> 'o list \<Rightarrow> bool" where
  "run_ok s [] \<longleftrightarrow> True"
| "run_ok s (x # xs) \<longleftrightarrow> ok s x \<and> run_ok (step s x) xs"

lemma run_same: "inv s \<Longrightarrow> run_ok s xs \<Longrightarrow> same s m n \<Longrightarrow> same (foldl step s xs) m n"
  by (induction xs arbitrary: s) (auto intro: step_inv same_step)

lemma run_log:
  "inv s \<Longrightarrow> run_ok s xs \<Longrightarrow>
    \<exists>rs. logged s (foldl step s xs) rs \<and> inv (foldl step s xs) \<and>
      same (foldl step s xs) (store (foldl step s xs)) (redo (store s) rs)"
proof (induction xs arbitrary: s)
  case Nil
  then show ?case using logged_refl same_refl redo_nil by (intro exI [of _ "[]"]) simp
next
  case (Cons x xs)
  let ?t = "step s x" and ?u = "foldl step (step s x) xs"
  obtain rs where rs: "logged s ?t rs" "same ?t (store ?t) (redo (store s) rs)" using step_log Cons.prems by auto
  obtain us where us: "logged ?t ?u us" "inv ?u" "same ?u (store ?u) (redo (store ?t) us)"
    using Cons.IH [of ?t] step_inv Cons.prems by auto
  have "same ?u (store ?t) (redo (store s) rs)" using run_same [OF _ _ rs(2)] step_inv Cons.prems by simp
  then have "same ?u (store ?u) (redo (store s) (rs @ us))" using same_redo same_trans us(3) by (fastforce simp: redo_append)
  then show ?case using logged_trans [OF rs(1) us(1)] us(2) by auto
qed

end

definition set_now :: "int \<Rightarrow> database \<Rightarrow> database" where
  "set_now t d = d\<lparr>now_ms := t\<rparr>"

text \<open>A turn of the room: the clock is read, the command runs, keys are evicted.\<close>

definition turn :: "string \<Rightarrow> cell \<Rightarrow> int \<times> string list \<Rightarrow> cell" where
  "turn name c = (\<lambda>(t, args). snd (run_in_room name (upper (args ! 0)) args (on_db (set_now t) c)))"

text \<open>What a turn asks of the environment: a sane clock that does not go back, and readable cold storage.\<close>

definition turn_ok :: "string \<Rightarrow> cell \<Rightarrow> int \<times> string list \<Rightarrow> bool" where
  "turn_ok name c = (\<lambda>(t, args). sane_clock t \<and> now_ms (snd c) \<le> t \<and> reads_ok (snd (turn name c (t, args))))"

definition redo_changes :: "(string \<rightharpoonup> Record) \<Rightarrow> AofRecord list \<Rightarrow> (string \<rightharpoonup> Record)" where
  "redo_changes m rs = apply_changes m (concat (map changes rs))"

lemma evict_cell_step:
  assumes ok: "cell_ok name c"
  shows "cell_ok name (evict_cell c)" "stored_of (evict_cell c) = stored_of c" "slack_kept c (evict_cell c)"
    "now_ms (snd (evict_cell c)) = now_ms (snd c)" "db_aof (snd (evict_cell c)) = db_aof (snd c)"
    "tombstones (snd (evict_cell c)) = tombstones (snd c)" "rooms (snd (evict_cell c)) = rooms (snd c)"
    "room_state (fst (evict_cell c)) = room_state (fst c)" "active_rooms (snd (evict_cell c)) = active_rooms (snd c)"
    "db_disk (snd (evict_cell c)) = db_disk (snd c)"
    "n \<noteq> name \<Longrightarrow> cold_get (db_eviction (snd (evict_cell c))) n k = cold_get (db_eviction (snd c)) n k"
    "side_state (snd (evict_cell c)) = side_state (snd c)"
proof -
  obtain room d where c: "c = (room, d)" by fastforce
  obtain room' m' e' where run: "evict_loop (io_evict (io d) (tick d)) 0 room (db_metrics d) (db_eviction d) = (room', m', e')" by (metis prod_cases3)
  note t = cell_okD(1,2) [OF ok [unfolded c]]
  note k = evict_loop_keeps [OF t(1) run]
  have eq: "evict_cell c = (room', d\<lparr>db_metrics := publish_metrics e' m', db_eviction := e', tick := Suc (tick d)\<rparr>)"
    by (simp add: evict_cell_def c evict_despised_keys_def run)
  show "cell_ok name (evict_cell c)" "stored_of (evict_cell c) = stored_of c" "slack_kept c (evict_cell c)"
    "now_ms (snd (evict_cell c)) = now_ms (snd c)" "db_aof (snd (evict_cell c)) = db_aof (snd c)"
    "tombstones (snd (evict_cell c)) = tombstones (snd c)" "rooms (snd (evict_cell c)) = rooms (snd c)"
    "room_state (fst (evict_cell c)) = room_state (fst c)" "active_rooms (snd (evict_cell c)) = active_rooms (snd c)"
    "db_disk (snd (evict_cell c)) = db_disk (snd c)"
    "n \<noteq> name \<Longrightarrow> cold_get (db_eviction (snd (evict_cell c))) n k = cold_get (db_eviction (snd c)) n k"
    "side_state (snd (evict_cell c)) = side_state (snd c)"
    using k t unfolding eq by (auto simp: c cell_ok_def stored_of_def slack_kept_def same_slack_def publish_metrics_def)
qed

lemma turn_log:
  assumes rdy: "ready name c" and ok: "turn_ok name c x"
  shows "ready name (turn name c x) \<and> (\<exists>rs. logs (snd c) (snd (turn name c x)) rs \<and> (\<forall>r \<in> set rs. ar_room r = name) \<and>
    agree (now_ms (snd (turn name c x))) (stored_of (turn name c x)) (redo_changes (stored_of c) rs)) \<and>
    now_ms (snd c) \<le> now_ms (snd (turn name c x))"
proof -
  obtain t args where x: "x = (t, args)" by fastforce
  let ?c0 = "on_db (set_now t) c"
  have c0: "ready name ?c0" "stored_of ?c0 = stored_of c" "db_aof (snd ?c0) = db_aof (snd c)" "now_ms (snd ?c0) = t"
    using rdy by (auto simp: ready_def cell_ok_def reads_ok_def stored_of_def on_db_def set_now_def split: prod.splits)
  obtain reply c1 where run: "key_command name (upper (args ! 0)) args ?c0 = (reply, c1)" by (meson surj_pair)
  have sane: "sane_clock (now_ms (snd ?c0))" using ok c0(4) by (simp add: x turn_ok_def)
  obtain rs where j: "journals name ?c0 c1 rs" using key_command_journals [OF c0(1) sane run] by blast
  then have j1: "ready name c1" "handled name ?c0 c1" by (simp_all add: journals_def)
  have t: "turn name c x = evict_cell c1" using run by (simp add: x turn_def run_in_room_def)
  note e = evict_cell_step [OF readyD(1) [OF j1(1)]]
  have now: "now_ms (snd (turn name c x)) = t" using e(4) handledD(3) [OF j1(2)] c0(4) by (simp add: t)
  have "reads_ok (snd (turn name c x))" using ok by (simp add: x turn_ok_def)
  then have "ready name (turn name c x)" using e(1,6) j1(1) by (simp add: ready_def t)
  moreover have "logs (snd c) (snd (turn name c x)) rs" using j c0(3) e(5) by (simp add: journals_def logs_def t)
  moreover have "agree t (stored_of (turn name c x)) (redo_changes (stored_of c) rs)"
    using j e(2) c0(2,4) by (simp add: journals_def t redo_changes_def)
  moreover have "\<forall>r \<in> set rs. ar_room r = name" using j by (simp add: journals_def)
  ultimately show ?thesis using now ok by (auto simp: x turn_ok_def)
qed

interpretation room_log: journaled "ready name" "turn_ok name" "turn name" stored_of
  "\<lambda>c c' rs. logs (snd c) (snd c') rs \<and> (\<forall>r \<in> set rs. ar_room r = name)" redo_changes "\<lambda>c. agree (now_ms (snd c))" for name
proof unfold_locales
  show "ready name s \<Longrightarrow> turn_ok name s x \<Longrightarrow> ready name (turn name s x)" for s x using turn_log by blast
  show "ready name s \<Longrightarrow> turn_ok name s x \<Longrightarrow> \<exists>rs. (logs (snd s) (snd (turn name s x)) rs \<and> (\<forall>r \<in> set rs. ar_room r = name)) \<and>
    agree (now_ms (snd (turn name s x))) (stored_of (turn name s x)) (redo_changes (stored_of s) rs)" for s x using turn_log by blast
  show "logs (snd s) (snd s) [] \<and> (\<forall>r \<in> set []. ar_room r = name)" for s :: cell by (simp add: logs_none)
  show "logs (snd s) (snd t) rs \<and> (\<forall>r \<in> set rs. ar_room r = name) \<Longrightarrow> logs (snd t) (snd u) us \<and> (\<forall>r \<in> set us. ar_room r = name) \<Longrightarrow>
    logs (snd s) (snd u) (rs @ us) \<and> (\<forall>r \<in> set (rs @ us). ar_room r = name)" for s t u :: cell and rs us using logs_trans by auto
  show "redo_changes m [] = m" "redo_changes m (rs @ us) = redo_changes (redo_changes m rs) us" for m rs us
    by (simp_all add: redo_changes_def)
  show "agree (now_ms (snd s)) m n \<Longrightarrow> agree (now_ms (snd s)) (redo_changes m rs) (redo_changes n rs)" for s :: cell and m n rs
    unfolding redo_changes_def by (rule agree_changes)
  show "ready name s \<Longrightarrow> turn_ok name s x \<Longrightarrow> agree (now_ms (snd s)) m n \<Longrightarrow> agree (now_ms (snd (turn name s x))) m n" for s x m n
    using turn_log [of name s x] agree_later by blast
qed (auto intro: agree_trans)

fun turns_ok :: "string \<Rightarrow> cell \<Rightarrow> (int \<times> string list) list \<Rightarrow> bool" where
  "turns_ok name c [] \<longleftrightarrow> True"
| "turns_ok name c (x # xs) \<longleftrightarrow> turn_ok name c x \<and> turns_ok name (turn name c x) xs"

lemma turns_ok_run: "turns_ok name c xs = room_log.run_ok name c xs"
  by (induction xs arbitrary: c) simp_all

section \<open>Properties\<close>

text \<open>
  C6. \<^verbatim>\<open>SET\<close> on every path. Too few words or invalid options: the error, and nothing changes. A
  condition that fails (\<^verbatim>\<open>NX\<close> on a present key, \<^verbatim>\<open>XX\<close> on an absent one, cold storage and expiry
  taken into account): nil, no key changes and nothing is logged. Otherwise \<^verbatim>\<open>+OK\<close>: exactly that key
  changes, to the value, the absolute deadline and a fresh version of this node that is above the
  clock and above the overwritten record or tombstone; exactly one record with all of this is logged.
\<close>

theorem set_spec:
  assumes "ready name c" and "sane_clock (now_ms (snd c))" and "handle_set name args c = (reply, c')"
  shows "if length args < 3 then reply = err ''Wrong number of arguments for SET'' \<and> c' = c
    else
      (case set_opts (now_ms (snd c)) (drop 3 args) False False 0 of
         Inl e \<Rightarrow> reply = e \<and> c' = c
       | Inr (nx, xx, ex) \<Rightarrow>
           let key = args ! 1; ow = overwritten_ts name key c; v = clock_next (clock (snd c)) (now_ms (snd c)) ow; node = local_node_id (snd c) in
           if (nx \<and> view c key \<noteq> None) \<or> (xx \<and> view c key = None)
           then reply = nil (snd c) \<and> view c' = view c \<and> logs (snd c) (snd c') []
           else
             reply = ''+OK'' @ CRLF \<and>
             view c' = (view c)(key \<mapsto> \<lparr>rec_value = args ! 2, expire_at = ex, timestamp_ms = v, node_id = node\<rparr>) \<and>
             logs (snd c) (snd c') [\<lparr>ar_room = name, ar_args = args, ar_expire_at = ex, ar_timestamp_ms = v, ar_node_id = node\<rparr>] \<and>
             clock (snd c') = v \<and> (ow \<noteq> UINT64_MAX \<longrightarrow> ow < v) \<and> (clock (snd c) \<noteq> UINT64_MAX \<longrightarrow> clock (snd c) < v) \<and>
             (ex = 0 \<or> now_ms (snd c) < ex))"
proof (cases "length args < 3")
  case True
  then show ?thesis using assms(3) by (simp add: handle_set_def)
next
  case False
  then have len: "3 \<le> length args" by simp
  show ?thesis
  proof (cases "set_opts (now_ms (snd c)) (drop 3 args) False False 0")
    case (Inl e)
    then show ?thesis using assms(3) False by (simp add: handle_set_def)
  next
    case (Inr o3)
    obtain nx xx ex where o3: "o3 = (nx, xx, ex)" by (metis prod_cases3)
    note opts = Inr [unfolded o3]
    have lo: "LLONG_MIN \<le> now_ms (snd c)" using assms(2) by (simp add: sane_clock_def)
    show ?thesis
    proof (cases "(nx \<and> view c (args ! 1) \<noteq> None) \<or> (xx \<and> view c (args ! 1) = None)")
      case True
      note r = set_refused [OF assms(1) len opts True assms(3)]
      show ?thesis using r(1-3) False True by (simp add: opts journals_def Let_def)
    next
      case no: False
      then have cond: "\<not> (nx \<and> view c (args ! 1) \<noteq> None)" "\<not> (xx \<and> view c (args ! 1) = None)" by blast+
      let ?ow = "overwritten_ts name (args ! 1) c"
      define v where "v = clock_next (clock (snd c)) (now_ms (snd c)) ?ow"
      note r = set_run [OF assms(1) len opts cond v_def assms(3) lo]
      have up: "?ow \<noteq> UINT64_MAX \<longrightarrow> ?ow < v" "clock (snd c) \<noteq> UINT64_MAX \<longrightarrow> clock (snd c) < v"
        by (auto simp: v_def clock_next_def less_max_iff_disj less_succ)
      have "view c' = (view c)(args ! 1 \<mapsto> \<lparr>rec_value = args ! 2, expire_at = ex, timestamp_ms = v, node_id = local_node_id (snd c)\<rparr>)"
        using view_upd [OF r(2,4)] r(8) by (auto simp: fun_eq_iff live_def expired_def)
      then show ?thesis using r(1,5,6,8) up unfolding if_not_P [OF False] opts sum.case prod.case Let_def v_def [symmetric] if_not_P [OF no] by blast
    qed
  qed
qed

lemma ex_ready: "ready ''default'' ex_cell" "sane_clock (now_ms (snd ex_cell))"
  using ex_cell_ok by (simp_all add: ready_def sane_clock_def ex_cell_def ex_db_def database_init_def nested_ok_def al_ok_def)

theorem set_spec_witness:
  "let (reply, c') = handle_set ''default'' [''SET'', ''k'', ''v''] ex_cell
   in reply = ''+OK'' @ CRLF \<and> view c' ''k'' \<noteq> None \<and> view c' ''l'' = view ex_cell ''l''"
proof -
  obtain reply c' where run: "handle_set ''default'' [''SET'', ''k'', ''v''] ex_cell = (reply, c')" by (meson surj_pair)
  show ?thesis using set_spec [OF ex_ready run] by (simp add: run Let_def)
qed

fun pair_keys :: "string list \<Rightarrow> string set" where
  "pair_keys (key # val # rest) = insert key (pair_keys rest)"
| "pair_keys _ = {}"

lemma pair_keys_changes: "k \<in> pair_keys kvs \<longleftrightarrow> (\<exists>x. (k, x) \<in> set (pair_changes mk kvs))"
  by (induction mk kvs rule: pair_changes.induct) auto

lemma pair_change_key: "(k, x) \<in> set (pair_changes mk kvs) \<Longrightarrow> k \<in> pair_keys kvs"
  using pair_keys_changes by blast

text \<open>
  C8. \<^verbatim>\<open>MSET\<close> is one write: a malformed command changes nothing; otherwise all pairs are stored in
  order (the last value of a repeated key stands), without expiry, all with one version that is
  above every overwritten record and tombstone, other keys keep their records, and exactly one
  record is logged for all of them.
\<close>

theorem mset_atomic:
  assumes "ready name c" and "handle_mset name args c = (reply, c')"
  shows "if length args < 3 \<or> even (length args) then reply = err ''Wrong number of arguments for MSET'' \<and> c' = c
    else \<exists>v. reply = ''+OK'' @ CRLF \<and>
      view c' = apply_changes (view c)
        (pair_changes (\<lambda>val. \<lparr>rec_value = val, expire_at = 0, timestamp_ms = v, node_id = local_node_id (snd c)\<rparr>) (tl args)) \<and>
      logs (snd c) (snd c') [\<lparr>ar_room = name, ar_args = args, ar_expire_at = 0, ar_timestamp_ms = v, ar_node_id = local_node_id (snd c)\<rparr>] \<and>
      (UINT64_MAX \<notin> (\<lambda>k. overwritten_ts name k c) ` pair_keys (tl args) \<longrightarrow> (\<forall>k \<in> pair_keys (tl args). overwritten_ts name k c < v))"
proof (cases "3 \<le> length args \<and> odd (length args)")
  case False
  then show ?thesis using assms(2) by (auto simp: handle_mset_def)
next
  case True
  obtain ov where ov: "let v = clock_next (clock (snd c)) (now_ms (snd c)) ov;
      mk = (\<lambda>val. \<lparr>rec_value = val, expire_at = 0, timestamp_ms = v, node_id = local_node_id (snd c)\<rparr>);
      cs = pair_changes mk (tl args) in
    reply = ''+OK'' @ CRLF \<and> handled name c c' \<and> ready name c' \<and> clock (snd c') = v \<and>
    (\<forall>(k, x) \<in> set cs. overwritten_ts name k c \<le> ov) \<and> (ov = 0 \<or> (\<exists>(k, x) \<in> set cs. ov = overwritten_ts name k c)) \<and> view c' = apply_changes (view c) cs \<and>
    agree (now_ms (snd c)) (stored_of c') (apply_changes (stored_of c) cs) \<and>
    logs (snd c) (snd c') [\<lparr>ar_room = name, ar_args = args, ar_expire_at = 0, ar_timestamp_ms = v, ar_node_id = local_node_id (snd c)\<rparr>]"
    using mset_run [OF assms(1) _ _ assms(2)] True by blast
  let ?v = "clock_next (clock (snd c)) (now_ms (snd c)) ov"
  have "UINT64_MAX \<notin> (\<lambda>k. overwritten_ts name k c) ` pair_keys (tl args) \<longrightarrow> (\<forall>k \<in> pair_keys (tl args). overwritten_ts name k c < ?v)"
  proof (intro impI ballI)
    fix k
    assume top: "UINT64_MAX \<notin> (\<lambda>k. overwritten_ts name k c) ` pair_keys (tl args)" and k: "k \<in> pair_keys (tl args)"
    let ?mk = "\<lambda>val. \<lparr>rec_value = val, expire_at = 0, timestamp_ms = ?v, node_id = local_node_id (snd c)\<rparr>"
    have le: "\<forall>(k, x) \<in> set (pair_changes ?mk (tl args)). overwritten_ts name k c \<le> ov"
      and at: "ov = 0 \<or> (\<exists>(k, x) \<in> set (pair_changes ?mk (tl args)). ov = overwritten_ts name k c)"
      using ov unfolding Let_def by blast+
    have "ov \<noteq> UINT64_MAX" using at top by (auto dest: pair_change_key)
    then have "ov < ?v" using less_succ [of ov] by (simp add: clock_next_def less_max_iff_disj)
    moreover have "overwritten_ts name k c \<le> ov" using le k pair_keys_changes [of k "tl args" ?mk] by auto
    ultimately show "overwritten_ts name k c < ?v" by simp
  qed
  moreover have "\<not> (length args < 3 \<or> even (length args))" using True by auto
  ultimately show ?thesis using ov unfolding Let_def by (simp only: if_False) blast
qed

theorem mset_atomic_witness:
  "let (reply, c') = handle_mset ''default'' [''MSET'', ''k'', ''v'', ''l'', ''w''] ex_cell
   in reply = ''+OK'' @ CRLF \<and> map_option rec_value (view c' ''k'') = Some ''v'' \<and> map_option rec_value (view c' ''l'') = Some ''w''"
proof -
  obtain reply c' where run: "handle_mset ''default'' [''MSET'', ''k'', ''v'', ''l'', ''w''] ex_cell = (reply, c')" by (meson surj_pair)
  show ?thesis using mset_atomic [OF ex_ready(1) run] by (auto simp: run)
qed

text \<open>
  C7. \<^verbatim>\<open>DEL\<close>. The reply counts the distinct named keys that were present (in RAM or cold storage, not
  expired); afterwards none of the named keys is visible and the others are untouched; one record
  is logged for each deleted key. While the node has peers, no write as old as a deleted record can
  bring its key back: for every peer's write with that version or below the handlers answer stale.
\<close>

theorem del_spec:
  assumes "ready name c" and "handle_del name args c = (reply, c')"
  shows "if length args < 2 then reply = err ''Wrong number of arguments for DEL'' \<and> c' = c
    else \<exists>rs. logs (snd c) (snd c') rs \<and> length rs = card {k \<in> set (tl args). view c k \<noteq> None} \<and>
      reply = '':'' @ dec (length rs) @ CRLF \<and> (\<forall>k. view c' k = (if k \<in> set (tl args) then None else view c k)) \<and>
      (tombs_ok name c \<and> peer_count (snd c) \<noteq> 0 \<longrightarrow>
        (\<forall>k r. k \<in> set (tl args) \<and> view c k = Some r \<and> timestamp_ms r \<noteq> UINT64_MAX \<longrightarrow> stale name k None (rec_version r) (snd c')))"
proof (cases "2 \<le> length args")
  case False
  then show ?thesis using assms(2) by (simp add: handle_del_def)
next
  case True
  obtain rs where "journals name c c' rs" "length rs = card {k \<in> set (tl args). view c k \<noteq> None}"
    "reply = '':'' @ dec (length rs) @ CRLF" "\<forall>k. view c' k = (if k \<in> set (tl args) then None else view c k)"
    "tombs_ok name c \<longrightarrow> tombs_ok name c' \<and>
      (\<forall>k r. k \<in> set (tl args) \<longrightarrow> view c k = Some r \<longrightarrow> peer_count (snd c) \<noteq> 0 \<longrightarrow> timestamp_ms r \<noteq> UINT64_MAX \<longrightarrow>
       stale name k None (rec_version r) (snd c'))"
    using del_run [OF assms(1) True assms(2)] by blast
  then have "\<exists>rs. logs (snd c) (snd c') rs \<and> length rs = card {k \<in> set (tl args). view c k \<noteq> None} \<and>
      reply = '':'' @ dec (length rs) @ CRLF \<and> (\<forall>k. view c' k = (if k \<in> set (tl args) then None else view c k)) \<and>
      (tombs_ok name c \<and> peer_count (snd c) \<noteq> 0 \<longrightarrow>
        (\<forall>k r. k \<in> set (tl args) \<and> view c k = Some r \<and> timestamp_ms r \<noteq> UINT64_MAX \<longrightarrow> stale name k None (rec_version r) (snd c')))"
    unfolding journals_def by blast
  then show ?thesis using True by (simp only: not_less [symmetric] if_False)
qed

theorem del_spec_witness:
  "let (reply, c') = handle_del ''default'' [''DEL'', ''k'', ''k''] ex_cell in view c' ''k'' = None \<and> view c' ''l'' = view ex_cell ''l''"
proof -
  obtain reply c' where run: "handle_del ''default'' [''DEL'', ''k'', ''k''] ex_cell = (reply, c')" by (meson surj_pair)
  show ?thesis using del_spec [OF ex_ready(1) run] by (auto simp: run)
qed

text \<open>
  C9. \<^verbatim>\<open>EXPIRE\<close>, \<^verbatim>\<open>PEXPIRE\<close> and \<^verbatim>\<open>PERSIST\<close> (scale 1000, 1 and 0). Invalid words: an error, and nothing
  changes. An absent key, a key without expiry for \<^verbatim>\<open>PERSIST\<close>, or a condition that refuses: \<^verbatim>\<open>:0\<close>,
  nothing changes and nothing is logged. A deadline in the past deletes the key. Otherwise the key
  keeps its value and gets the absolute deadline (none for \<^verbatim>\<open>PERSIST\<close>) under a fresh version, and
  one record is logged.
\<close>

theorem expire_spec:
  assumes "ready name c" and "sane_clock (now_ms (snd c))" and "scale \<in> {0, 1, 1000}" and "handle_expire name args scale c = (reply, c')"
  shows "((\<forall>opts n ex. \<not> expire_parsed args scale (now_ms (snd c)) opts n ex) \<longrightarrow> c' = c \<and> (\<exists>text. reply = err text)) \<and>
    (\<forall>opts n ex. expire_parsed args scale (now_ms (snd c)) opts n ex \<longrightarrow> (\<exists>rs. logs (snd c) (snd c') rs \<and>
      (case view c (args ! 1) of
         None \<Rightarrow> reply = '':0'' @ CRLF \<and> view c' = view c \<and> rs = []
       | Some r \<Rightarrow>
           if (scale = 0 \<and> expire_at r = 0) \<or> expire_refused opts (expire_at r) ex
           then reply = '':0'' @ CRLF \<and> view c' = view c \<and> rs = []
           else if scale \<noteq> 0 \<and> n \<le> 0 then reply = '':1'' @ CRLF \<and> view c' = (view c)(args ! 1 := None)
           else
             (let v = clock_next (clock (snd c)) (now_ms (snd c)) (timestamp_ms r) in
              reply = '':1'' @ CRLF \<and> (ex = now_ms (snd c) + n * scale \<or> scale = 0 \<and> ex = 0) \<and>
              view c' = (view c)(args ! 1 \<mapsto> r\<lparr>expire_at := ex, timestamp_ms := v, node_id := local_node_id (snd c)\<rparr>) \<and> length rs = 1))))"
  using expire_invalid [OF _ assms(4)] expire_run [OF assms(1) _ assms(3,2,4)] unfolding journals_def
  by (intro conjI impI allI) blast+

theorem expire_spec_witness:
  "let (reply, c') = handle_expire ''default'' [''EXPIRE'', ''k''] 1000 ex_cell in c' = ex_cell \<and> (\<exists>text. reply = err text)"
proof -
  obtain reply c' where run: "handle_expire ''default'' [''EXPIRE'', ''k''] 1000 ex_cell = (reply, c')" by (meson surj_pair)
  have "\<not> expire_parsed [''EXPIRE'', ''k''] 1000 (now_ms (snd ex_cell)) opts n ex" for opts n ex
    by (cases opts) (simp add: expire_parsed_def)
  then show ?thesis using expire_spec [OF ex_ready _ run] by (simp add: run)
qed

text \<open>
  C10. Reads. \<^verbatim>\<open>GET\<close>, \<^verbatim>\<open>MGET\<close>, \<^verbatim>\<open>EXISTS\<close>, \<^verbatim>\<open>TTL\<close> and \<^verbatim>\<open>PTTL\<close> answer from the logical store of the room
  (RAM and cold storage, expired keys absent), log nothing and change no key. \<^verbatim>\<open>MGET\<close> refuses only
  when the whole reply would exceed the limit; \<^verbatim>\<open>EXISTS\<close> counts repeated keys each time; \<^verbatim>\<open>TTL\<close> rounds
  the remaining milliseconds to the nearest second.
\<close>

theorem reads_exact:
  assumes "ready name c"
  shows "(\<forall>reply c'. handle_get name [w, key] c = (reply, c') \<longrightarrow> view c' = view c \<and> logs (snd c) (snd c') [] \<and>
      reply = (case view c key of None \<Rightarrow> nil (snd c) | Some r \<Rightarrow> bulk_string (rec_value r))) \<and>
    (\<forall>reply c'. keys \<noteq> [] \<and> handle_mget name (w # keys) c = (reply, c') \<longrightarrow> view c' = view c \<and> logs (snd c) (snd c') [] \<and>
      (let whole = ''*'' @ dec (length keys) @ CRLF @ mget_reply (snd c) (view c) keys in
       reply = whole \<or> (reply = err ''reply too large'' \<and> length whole > MAX_REPLY))) \<and>
    (\<forall>reply c'. keys \<noteq> [] \<and> handle_exists name (w # keys) c = (reply, c') \<longrightarrow> view c' = view c \<and> logs (snd c) (snd c') [] \<and>
      reply = '':'' @ dec (length (filter (\<lambda>k. view c k \<noteq> None) keys)) @ CRLF) \<and>
    (\<forall>reply c' millis. handle_ttl name [w, key] millis c = (reply, c') \<longrightarrow> view c' = view c \<and> logs (snd c) (snd c') [] \<and>
      reply = (case view c key of
         None \<Rightarrow> '':-2'' @ CRLF
       | Some r \<Rightarrow>
           if expire_at r = 0 then '':-1'' @ CRLF
           else (let left = max 0 (expire_at r - now_ms (snd c))
                 in '':'' @ dec_int (if millis then left else (left + 500) div 1000) @ CRLF)))"
proof (intro conjI allI impI)
  fix reply c'
  assume g: "handle_get name [w, key] c = (reply, c')"
  note r = get_run [OF assms _ g, simplified]
  show "view c' = view c" "logs (snd c) (snd c') []"
    "reply = (case view c key of None \<Rightarrow> nil (snd c) | Some r \<Rightarrow> bulk_string (rec_value r))"
    using r by (simp_all add: journals_def)
next
  fix reply c'
  assume m: "keys \<noteq> [] \<and> handle_mget name (w # keys) c = (reply, c')"
  then have "2 \<le> length (w # keys)" by (cases keys) simp_all
  from mget_run [OF assms this conjunct2 [OF m]]
  show "view c' = view c" "logs (snd c) (snd c') []"
    "let whole = ''*'' @ dec (length keys) @ CRLF @ mget_reply (snd c) (view c) keys in
     reply = whole \<or> (reply = err ''reply too large'' \<and> length whole > MAX_REPLY)"
    by (simp_all add: journals_def)
next
  fix reply c'
  assume e: "keys \<noteq> [] \<and> handle_exists name (w # keys) c = (reply, c')"
  obtain n c1 where l: "exists_loop name keys 0 c = (n, c1)" by (meson surj_pair)
  have "2 \<le> length (w # keys)" using e by (cases keys) simp_all
  then have "reply = '':'' @ dec n @ CRLF" "c' = c1" using e l by (auto simp: handle_exists_def)
  with exists_loop_step [OF assms l]
  show "view c' = view c" "logs (snd c) (snd c') []" "reply = '':'' @ dec (length (filter (\<lambda>k. view c k \<noteq> None) keys)) @ CRLF"
    by (simp_all add: journals_def)
next
  fix reply c' millis
  assume t: "handle_ttl name [w, key] millis c = (reply, c')"
  note r = ttl_run [OF assms _ t, simplified]
  show "view c' = view c" "logs (snd c) (snd c') []" using r by (simp_all add: journals_def)
  show "reply = (case view c key of
         None \<Rightarrow> '':-2'' @ CRLF
       | Some r \<Rightarrow>
           if expire_at r = 0 then '':-1'' @ CRLF
           else (let left = max 0 (expire_at r - now_ms (snd c))
                 in '':'' @ dec_int (if millis then left else (left + 500) div 1000) @ CRLF))"
    using r(3) by simp
qed

theorem reads_exact_witness:
  "let (reply, c') = handle_get ''default'' [''GET'', ''k''] ex_cell in reply = nil ex_db \<and> view c' = view ex_cell"
proof -
  obtain reply c' where run: "handle_get ''default'' [''GET'', ''k''] ex_cell = (reply, c')" by (meson surj_pair)
  have none: "view ex_cell ''k'' = None"
    by (simp add: ex_cell_def ex_db_def database_init_def view_stored stored_of_def stored_def new_room_def eviction_init_def cold_get_def)
  have "snd ex_cell = ex_db" by (simp add: ex_cell_def)
  then show ?thesis using reads_exact [OF ex_ready(1), of "''GET''" "''k''" "[]"] none by (cases c') (simp add: run)
qed

text \<open>
  C2. The log says what happened. Over any sequence of commands of a room (any words, valid or not),
  each followed by eviction and each at its own time of a clock that does not go back, the records
  appended to the log, read as state changes on top of the initial store, give the final store, for
  every observer from then on: keys may differ only while they are expired.
\<close>

theorem log_tells_all:
  assumes "ready name c" and "turns_ok name c xs" and "foldl (turn name) c xs = c'"
  shows "\<exists>rs. logs (snd c) (snd c') rs \<and> (\<forall>r \<in> set rs. ar_room r = name) \<and>
    (\<forall>t k. now_ms (snd c') \<le> t \<longrightarrow> live t (stored_of c' k) = live t (redo_changes (stored_of c) rs k))"
proof -
  obtain rs where "logs (snd c) (snd c') rs" "\<forall>r \<in> set rs. ar_room r = name"
    "agree (now_ms (snd c')) (stored_of c') (redo_changes (stored_of c) rs)"
    using room_log.run_log [OF assms(1) assms(2) [unfolded turns_ok_run]] unfolding assms(3) by blast
  then show ?thesis using agree_later unfolding agree_def by blast
qed

lemma ex_turn_ok: "turn_ok ''default'' ex_cell (3000000001, [''SET'', ''k'', ''v''])"
proof -
  have "cold_index (db_eviction (snd (turn ''default'' ex_cell (3000000001, [''SET'', ''k'', ''v''])))) = []"
    by (simp add: turn_def run_in_room_def key_command_def key_table_def upper_def toupper_def handle_set_def lookup_def
        ex_cell_def ex_db_def database_init_def new_room_def on_db_def set_now_def bump_sets_def bump_misses_def cold_take_def eviction_init_def
        Let_def draw_def ensure_rec_def insert_rec_def emplace_def db_charge_def charge_def count_key_def clear_tomb_def find_tomb_def
        assign_def set_value_def update_rec_def access_key_def aof_append_def record_access_def evict_cell_def evict_despised_keys_def
        evict_loop.simps over_limits_def fits_def nget_def inner_def)
  then show ?thesis by (simp add: turn_ok_def reads_ok_def sane_clock_def nget_def inner_def)
     (simp add: ex_cell_def ex_db_def database_init_def)
qed

theorem log_tells_all_witness:
  "let c' = turn ''default'' ex_cell (3000000001, [''SET'', ''k'', ''v''])
   in \<exists>rs. logs ex_db (snd c') rs \<and> (\<exists>t. live t (stored_of c' ''k'') = live t (redo_changes (stored_of ex_cell) rs ''k''))"
proof -
  define c' where "c' = turn ''default'' ex_cell (3000000001, [''SET'', ''k'', ''v''])"
  have "turns_ok ''default'' ex_cell [(3000000001, [''SET'', ''k'', ''v''])]" using ex_turn_ok by simp
  from log_tells_all [OF ex_ready(1) this, of c'] obtain rs where "logs (snd ex_cell) (snd c') rs"
    "\<forall>t k. now_ms (snd c') \<le> t \<longrightarrow> live t (stored_of c' k) = live t (redo_changes (stored_of ex_cell) rs k)" by (auto simp: c'_def)
  then show ?thesis unfolding Let_def c'_def [symmetric] by (auto simp: ex_cell_def)
qed

declare One_nat_def [simp]

end
