(* ===== verification/Rooms.thy ===== *)
theory Rooms
  imports Commands
begin

text \<open>
  The life cycle of rooms, \<^verbatim>\<open>src/src/core/rooms.cpp\<close>: the registry, waking up, hibernating, the
  \<^verbatim>\<open>ROOM.*\<close> commands, the hibernation of idle rooms and the removal of expired keys. A room is taken
  out of the registry, worked on under its lock, and written back by \<open>put_room\<close>. The order of the
  registry is the iteration order of the hash map.
\<close>

section \<open>Operations\<close>

definition find_room :: "string \<Rightarrow> bool \<Rightarrow> database \<Rightarrow> Room option \<times> database" where
  "find_room name create d =
     (case map_of (rooms d) name of
        Some room \<Rightarrow> (Some room, d)
      | None \<Rightarrow>
          if \<not> create then (None, d)
          else (Some (new_room name), d\<lparr>rooms := AList.update name (new_room name) (rooms d)\<rparr>))"

definition put_room :: "cell \<Rightarrow> database" where
  "put_room = (\<lambda>(room, d). d\<lparr>rooms := AList.update (room_name room) room (rooms d)\<rparr>)"

definition activate :: "bool \<Rightarrow> cell \<Rightarrow> bool \<times> cell" where
  "activate over_budget = (\<lambda>(room, d).
     let room0 = room\<lparr>last_access_time := now_ms d\<rparr> in
     if room_state room0 = Active then (True, room0, d)
     else if active_rooms d \<ge> MAX_ACTIVE_ROOMS \<and> \<not> over_budget then (False, room0, d)
     else
       (case wakeup_room (io_wake (io d) (tick d)) (room0\<lparr>room_state := Loading\<rparr>) (db_disk d) of
          (_, room1, dk) \<Rightarrow>
            (let d1 = d\<lparr>active_rooms := Suc (active_rooms d), db_disk := dk, tick := Suc (tick d)\<rparr>;
                 cost = keys_cost room1 in
             if \<not> over_budget \<and> \<not> fits (db_eviction d1) (db_metrics d1) cost
             then (False, room1\<lparr>room_keys := [], room_state := Sleeping\<rparr>, d1\<lparr>active_rooms := active_rooms d1 - 1\<rparr>)
             else
               (case db_charge cost (room1, count_key (of_nat (length (room_keys room1))) d1) of
                  (room2, d2) \<Rightarrow> (True, room2\<lparr>room_state := Active\<rparr>, d2)))))"

definition hibernate :: "cell \<Rightarrow> bool \<times> cell" where
  "hibernate = (\<lambda>(room, d).
     if room_state room = Sleeping then (True, room, d)
     else
       (let resident = of_nat (length (room_keys room)); cost = keys_cost room in
        case hibernate_room (io_snap (io d) (tick d)) (room\<lparr>room_state := Hibernating\<rparr>) (db_disk d) of
          (saved, room1, dk) \<Rightarrow>
            (let d1 = d\<lparr>db_disk := dk, tick := Suc (tick d)\<rparr> in
             if \<not> saved then (False, room1\<lparr>room_state := Active\<rparr>, d1)
             else
               (case db_charge (- cost) (room1, count_key (- resident) d1) of
                  (room2, d2) \<Rightarrow>
                    (True, room2\<lparr>room_state := Sleeping\<rparr>, d2\<lparr>active_rooms := active_rooms d2 - 1\<rparr>)))))"

definition bad_room_name :: "string \<Rightarrow> bool" where
  "bad_room_name name \<longleftrightarrow> name = [] \<or> length name > 200 \<or> CHR ''/'' \<in> set name \<or> CHR 0x00 \<in> set name"

text \<open>\<open>Some\<close> is the error.\<close>

definition wake_room :: "string \<Rightarrow> database \<Rightarrow> string option \<times> database" where
  "wake_room name d =
     (if bad_room_name name then (Some (err ''invalid room name''), d)
      else
        (case find_room name False d of
           (None, _) \<Rightarrow>
             if length (rooms d) \<ge> max_rooms d then (Some (err ''too many rooms''), d)
             else
               (case find_room name True d of
                  (Some room, d1) \<Rightarrow>
                    (case activate False (room, d1) of (ok, c) \<Rightarrow> (if ok then None else Some ROOMS_FULL, put_room c))
                | (None, d1) \<Rightarrow> (Some ROOMS_FULL, d1))
         | (Some room, _) \<Rightarrow>
             (case activate False (room, d) of (ok, c) \<Rightarrow> (if ok then None else Some ROOMS_FULL, put_room c))))"

definition set_client_room :: "int \<Rightarrow> string \<Rightarrow> database \<Rightarrow> database" where
  "set_client_room fd name d = d\<lparr>client_rooms := AList.update fd name (client_rooms d)\<rparr>"

definition get_client_room :: "int \<Rightarrow> database \<Rightarrow> string \<times> database" where
  "get_client_room fd d =
     (case map_of (client_rooms d) fd of
        Some name \<Rightarrow> (name, d)
      | None \<Rightarrow> (''default'', set_client_room fd ''default'' d))"

definition handle_room :: "int \<Rightarrow> string list \<Rightarrow> database \<Rightarrow> string \<times> database" where
  "handle_room fd args d =
     (if length args \<noteq> 2 then (err ''Wrong number of arguments for ROOM'', d)
      else
        (case wake_room (args ! 1) d of
           (Some e, d1) \<Rightarrow> (e, d1)
         | (None, d1) \<Rightarrow> (''+OK'' @ CRLF, set_client_room fd (args ! 1) d1)))"

fun state_name :: "RoomState \<Rightarrow> string" where
  "state_name Sleeping = ''sleeping''"
| "state_name Loading = ''loading''"
| "state_name Active = ''active''"
| "state_name Hibernating = ''hibernating''"

definition room_info :: "Room \<Rightarrow> database \<Rightarrow> string" where
  "room_info room d =
     (let shown = (room_state room = Active) in
      map_header d 4 @ bulk_string ''state'' @ bulk_string (state_name (room_state room)) @
      bulk_string ''last_access_ms'' @ integer_reply (last_access_time room) @
      bulk_string ''keys'' @ '':'' @ dec (if shown then length (room_keys room) else 0) @ CRLF @
      bulk_string ''bytes'' @ '':'' @ dec (if shown then unat (room_bytes room) else 0) @ CRLF)"

definition handle_room_admin :: "string \<Rightarrow> string list \<Rightarrow> database \<Rightarrow> string \<times> database" where
  "handle_room_admin command args d =
     (if command = ''ROOMS''
      then (''*'' @ dec (length (rooms d)) @ CRLF @ concat (map (bulk_string \<circ> fst) (rooms d)), d)
      else if length args \<noteq> 2 then (err (''Wrong number of arguments for '' @ command), d)
      else if command = ''ROOM.WAKE''
      then (case wake_room (args ! 1) d of (e, d1) \<Rightarrow> (case e of Some m \<Rightarrow> m | None \<Rightarrow> ''+OK'' @ CRLF, d1))
      else
        (case find_room (args ! 1) False d of
           (None, _) \<Rightarrow> (err ''no such room'', d)
         | (Some room, _) \<Rightarrow>
             if command = ''ROOM.HIBERNATE'' then
               (if args ! 1 = ''default'' then (err ''the default room is pinned'', d)
                else
                  (case hibernate (room, d) of
                     (ok, c) \<Rightarrow> (if ok then ''+OK'' @ CRLF else err ''snapshot failed, room stays active'', put_room c)))
             else if command = ''ROOM.INFO'' then (room_info room d, d)
             else (err ''unknown command'', d)))"

section \<open>Background work\<close>

definition idle :: "database \<Rightarrow> Room \<Rightarrow> bool" where
  "idle d room \<longleftrightarrow> room_state room = Active \<and> now_ms d - last_access_time room > ROOM_IDLE_MS"

definition idle_rooms :: "database \<Rightarrow> string list" where
  "idle_rooms d = map fst (filter (\<lambda>(name, room). idle d room \<and> name \<noteq> ''default'') (rooms d))"

text \<open>One candidate, checked again under its lock.\<close>

definition hibernate_idle :: "database \<Rightarrow> string \<Rightarrow> database" where
  "hibernate_idle d name =
     (case map_of (rooms d) name of
        None \<Rightarrow> d
      | Some room \<Rightarrow> if \<not> idle d room then d else put_room (snd (hibernate (room, d))))"

definition hibernate_inactive_rooms :: "database \<Rightarrow> database" where
  "hibernate_inactive_rooms d = foldl hibernate_idle d (idle_rooms d)"

fun expire_loop :: "(string \<times> Record) list \<Rightarrow> cell \<Rightarrow> cell" where
  "expire_loop [] c = c"
| "expire_loop ((key, r) # kvs) c =
     expire_loop kvs (if expired r (now_ms (snd c)) then erase key r c else c)"

definition clean_room :: "database \<Rightarrow> string \<Rightarrow> database" where
  "clean_room d name =
     (case map_of (rooms d) name of
        None \<Rightarrow> d
      | Some room \<Rightarrow> put_room (expire_loop (room_keys room) (room, d)))"

definition clean_expired_keys :: "database \<Rightarrow> database" where
  "clean_expired_keys d = foldl clean_room d (map fst (rooms d))"

section \<open>Commands in a room\<close>

definition execute_in_room :: "string \<Rightarrow> string \<Rightarrow> string list \<Rightarrow> database \<Rightarrow> string \<times> database" where
  "execute_in_room name command args d =
     (case find_room name True d of
        (None, d1) \<Rightarrow> (ROOMS_FULL, d1)
      | (Some room, d1) \<Rightarrow>
          (case activate False (room, d1) of
             (ok, c) \<Rightarrow>
               if \<not> ok then (ROOMS_FULL, put_room c)
               else (case run_in_room name command args c of (reply, c1) \<Rightarrow> (reply, put_room c1))))"

section \<open>The registry invariant\<close>

text \<open>The records of a room's snapshot file; a missing or corrupt file holds none.\<close>

definition shelved :: "database \<Rightarrow> string \<Rightarrow> string \<Rightarrow> Record option" where
  "shelved d name =
     (case db_disk d (snap_filename name) of
        None \<Rightarrow> Map.empty
      | Some data \<Rightarrow> (case snap_parse data of None \<Rightarrow> Map.empty | Some kvs \<Rightarrow> map_of kvs))"

lemma shelved_rooms [simp]: "shelved (d\<lparr>rooms := x\<rparr>) n = shelved d n"
  by (simp add: shelved_def)

definition is_active :: "database \<Rightarrow> string \<Rightarrow> bool" where
  "is_active d name \<longleftrightarrow> (case map_of (rooms d) name of Some room \<Rightarrow> room_state room = Active | None \<Rightarrow> False)"

text \<open>What the database holds of a key, wherever it is: RAM, snapshot, cold storage.\<close>

definition logical :: "database \<Rightarrow> string \<Rightarrow> string \<Rightarrow> Record option" where
  "logical d name key =
     (case (case map_of (rooms d) name of
              Some room \<Rightarrow> if room_state room = Active then map_of (room_keys room) key else shelved d name key
            | None \<Rightarrow> shelved d name key) of
        Some r \<Rightarrow> Some r
      | None \<Rightarrow> cold_get (db_eviction d) name key)"

text \<open>Between operations a room is active, or asleep with nothing in RAM.\<close>

definition settled :: "Room \<Rightarrow> bool" where
  "settled room \<longleftrightarrow> room_state room = Active \<or> (room_state room = Sleeping \<and> room_keys room = [])"

definition active_count :: "Room \<Rightarrow> int" where
  "active_count room = (if room_state room = Active then 1 else 0)"

text \<open>
  The registry: rooms under their own names, well formed and settled; the counters of active rooms,
  resident bytes and resident keys are the sums over the rooms; no key is both in the snapshot of
  a sleeping room and in cold storage.
\<close>

definition registry_ok :: "database \<Rightarrow> bool" where
  "registry_ok d \<longleftrightarrow>
     al_ok (rooms d) \<and> cold_ok (db_eviction d) \<and> nested_ok (tombstones d) \<and>
     (\<forall>name room. map_of (rooms d) name = Some room \<longrightarrow> room_name room = name \<and> tiers_ok room (db_eviction d) \<and> settled room) \<and>
     int (active_rooms d) = al_sum (\<lambda>_. active_count) (rooms d) \<and>
     resident_bytes (db_metrics d) = al_sum (\<lambda>_. room_bytes) (rooms d) \<and>
     keys_in_ram (db_metrics d) = al_sum (\<lambda>_ room. of_nat (length (room_keys room))) (rooms d) \<and>
     (\<forall>name key. \<not> is_active d name \<longrightarrow> shelved d name key \<noteq> None \<longrightarrow> cold_get (db_eviction d) name key = None)"

lemma registry_okD:
  assumes "registry_ok d"
  shows "al_ok (rooms d)" "cold_ok (db_eviction d)" "nested_ok (tombstones d)"
    "map_of (rooms d) name = Some room \<Longrightarrow> room_name room = name"
    "map_of (rooms d) name = Some room \<Longrightarrow> tiers_ok room (db_eviction d)"
    "map_of (rooms d) name = Some room \<Longrightarrow> settled room"
    "\<not> is_active d name \<Longrightarrow> shelved d name key \<noteq> None \<Longrightarrow> cold_get (db_eviction d) name key = None"
  using assms by (auto simp: registry_ok_def)

text \<open>
  One step on a room, as its lock holder sees it. The counters move with the room, nothing that
  belongs to another room changes, and if the room is left asleep its snapshot does not overlap
  cold storage.
\<close>

definition room_step :: "string \<Rightarrow> cell \<Rightarrow> cell \<Rightarrow> bool" where
  "room_step name c c' \<longleftrightarrow>
     cell_ok name c' \<and> slack_kept c c' \<and> settled (fst c') \<and> rooms (snd c') = rooms (snd c) \<and>
     int (active_rooms (snd c')) - active_count (fst c') = int (active_rooms (snd c)) - active_count (fst c) \<and>
     (nested_ok (tombstones (snd c)) \<longrightarrow> nested_ok (tombstones (snd c'))) \<and>
     (\<forall>n k. n \<noteq> name \<longrightarrow> cold_get (db_eviction (snd c')) n k = cold_get (db_eviction (snd c)) n k) \<and>
     (\<forall>n. n \<noteq> name \<longrightarrow> db_disk (snd c') (snap_filename n) = db_disk (snd c) (snap_filename n)) \<and>
     (room_state (fst c') \<noteq> Active \<longrightarrow>
        (\<forall>k. shelved (snd c') name k \<noteq> None \<longrightarrow> cold_get (db_eviction (snd c')) name k = None))"

lemma room_step_trans:
  "room_step name a b \<Longrightarrow> room_step name b c \<Longrightarrow> room_step name a c"
  unfolding room_step_def slack_kept_def by (auto intro: same_slack_trans)

lemma cold_get_None: "cold_get e n k = None \<longleftrightarrow> nget (cold_index e) n k = None"
  by (simp add: cold_get_def)

lemma tiers_other:
  assumes "tiers_ok room e" and "cold_ok e'" and "\<And>k. cold_get e' (room_name room) k = cold_get e (room_name room) k"
  shows "tiers_ok room e'"
proof -
  have "nget (cold_index e') (room_name room) k = None \<longleftrightarrow> nget (cold_index e) (room_name room) k = None" for k
    using assms(3) [of k] by (simp add: cold_get_None [symmetric])
  then show ?thesis using assms(1,2) by (simp add: tiers_ok_def)
qed

lemma moved: "a' - x' = a - (x :: 'a :: ab_group_add) \<Longrightarrow> a = s \<Longrightarrow> a' = s + x' - x"
  by (simp add: algebra_simps)

lemma registry_put:
  assumes reg: "registry_ok d" and old: "map_of (rooms d) name = Some room" and st: "room_step name (room, d) (room', d')"
  shows "registry_ok (put_room (room', d'))"
proof -
  note r = registry_okD [OF reg]
  have ok: "tiers_ok room' (db_eviction d')" "room_name room' = name" "cold_ok (db_eviction d')"
    using st tiers_okD(2) by (auto simp: room_step_def cell_ok_def)
  have rooms: "rooms d' = rooms d" using st by (simp add: room_step_def)
  let ?rs = "AList.update name room' (rooms d)"
  have put: "put_room (room', d') = d'\<lparr>rooms := ?rs\<rparr>" by (simp add: put_room_def ok rooms)
  have each: "room_name x = n \<and> tiers_ok x (db_eviction d') \<and> settled x" if "map_of ?rs n = Some x" for n x
  proof (cases "n = name")
    case True
    then show ?thesis using that ok st by (simp add: update_Some_unfold room_step_def)
  next
    case False
    then have x: "map_of (rooms d) n = Some x" using that by (simp add: update_conv')
    have "tiers_ok x (db_eviction d')"
      by (rule tiers_other [OF r(5) [OF x] ok(3)]) (use st False r(4) [OF x] in \<open>auto simp: room_step_def\<close>)
    then show ?thesis using r(4,6) [OF x] by simp
  qed
  have now: "int (active_rooms d) = al_sum (\<lambda>_. active_count) (rooms d)"
    "resident_bytes (db_metrics d) = al_sum (\<lambda>_. room_bytes) (rooms d)"
    "keys_in_ram (db_metrics d) = al_sum (\<lambda>_ room. of_nat (length (room_keys room))) (rooms d)"
    using reg by (simp_all add: registry_ok_def)
  have moves: "int (active_rooms d') - active_count room' = int (active_rooms d) - active_count room"
    "resident_bytes (db_metrics d') - room_bytes room' = resident_bytes (db_metrics d) - room_bytes room"
    "keys_in_ram (db_metrics d') - of_nat (length (room_keys room')) = keys_in_ram (db_metrics d) - of_nat (length (room_keys room))"
    using st by (simp_all add: room_step_def slack_kept_def same_slack_def)
  have sums: "int (active_rooms d') = al_sum (\<lambda>_. active_count) ?rs"
    "resident_bytes (db_metrics d') = al_sum (\<lambda>_. room_bytes) ?rs"
    "keys_in_ram (db_metrics d') = al_sum (\<lambda>_ room. of_nat (length (room_keys room))) ?rs"
    unfolding al_sum_update_old [OF r(1) old] by (rule moved [OF moves(1) now(1)], rule moved [OF moves(2) now(2)], rule moved [OF moves(3) now(3)])
  have act: "is_active (put_room (room', d')) n = (if n = name then room_state room' = Active else is_active d n)" for n
    by (simp add: put is_active_def update_conv')
  have shel: "shelved (put_room (room', d')) n = shelved d n" if "n \<noteq> name" for n
    using st that by (simp add: put shelved_def room_step_def)
  have "shelved (put_room (room', d')) name = shelved d' name" by (simp add: put shelved_def)
  then have "cold_get (db_eviction d') n k = None" if "\<not> is_active (put_room (room', d')) n" "shelved (put_room (room', d')) n k \<noteq> None" for n k
    using that st r(7) [of n k] shel [of n] by (cases "n = name") (auto simp: act room_step_def)
  then show ?thesis using each sums ok(3) r(1) st r(3) unfolding registry_ok_def by (simp add: put al_ok_update room_step_def)
qed

section \<open>Snapshot files\<close>

lemma bytes_i64_range: "i64 (bytes_i64 s)"
  using sint_ge [of "of_nat (le_decode s) :: u64"] sint_lt [of "of_nat (le_decode s) :: u64"] by (simp add: bytes_i64_def i64_def)

lemma load_loop_ok:
  "load_loop v n loaded s = Some kvs \<Longrightarrow> al_ok loaded \<Longrightarrow> \<forall>(k, r) \<in> set loaded. rec_ok r \<Longrightarrow> al_ok kvs \<and> (\<forall>(k, r) \<in> set kvs. rec_ok r)"
proof (induction v n loaded s rule: load_loop.induct)
  case (1 v n loaded s)
  show ?case
  proof (cases "length loaded < n")
    case False
    then show ?thesis using "1.prems" by (simp add: load_loop.simps [of v n loaded s])
  next
    case True
    then obtain key r s' where e: "read_entry v s = Some ((key, r), s')" and
      go: "load_loop v n (AList.update key r loaded) s' = Some kvs"
      using "1.prems"(1) by (auto simp: load_loop.simps [of v n loaded s] split: option.splits)
    have "rec_ok r" using e by (auto simp: read_entry_def rec_ok_def bytes_i64_range split: bind_splits if_splits)
    moreover have "set (AList.update key r loaded) \<subseteq> insert (key, r) (set loaded)" by (induction loaded) auto
    ultimately have "\<forall>(k, r) \<in> set (AList.update key r loaded). rec_ok r" using "1.prems"(3) by fastforce
    then show ?thesis using "1.IH" [OF True e refl refl go] "1.prems"(2) by simp
  qed
qed

lemma snap_parse_ok:
  assumes "snap_parse data = Some kvs"
  shows "al_ok kvs" "map_of kvs k = Some r \<Longrightarrow> rec_ok r"
proof -
  obtain v n s where "load_loop v n [] s = Some kvs"
    using assms by (auto simp: snap_parse_def Let_def split: if_splits option.splits)
  from load_loop_ok [OF this] show "al_ok kvs" "map_of kvs k = Some r \<Longrightarrow> rec_ok r" by (auto dest: map_of_SomeD)
qed

lemma snap_filename_inj [simp]: "snap_filename a = snap_filename b \<longleftrightarrow> a = b"
  by (simp add: snap_filename_def)

lemma last_dec: "last (dec n) \<noteq> CHR ''n''"
proof
  assume "last (dec n) = CHR ''n''"
  moreover have "last (dec n) = char_of (48 + n mod 10)" by (subst dec.simps) simp
  ultimately have "(of_char (char_of (48 + n mod 10) :: char) :: nat) = of_char CHR ''n''" by simp
  moreover have "n mod 10 < 10" by simp
  ultimately show False by simp
qed

lemma snap_other_names:
  "snap_tmpname a \<noteq> snap_filename b" "snap_filename a @ ''.corrupt.'' @ dec_int t \<noteq> snap_filename b"
proof -
  have l: "last (snap_filename b) = CHR ''n''" by (simp add: snap_filename_def)
  have "last (snap_tmpname a) = CHR ''p''" by (simp add: snap_tmpname_def)
  then show "snap_tmpname a \<noteq> snap_filename b" using l by force
  have "last (snap_filename a @ ''.corrupt.'' @ dec_int t) \<noteq> CHR ''n''" using last_dec by (simp add: dec_int_def)
  then show "snap_filename a @ ''.corrupt.'' @ dec_int t \<noteq> snap_filename b" using l by metis
qed

lemma wake_cases:
  assumes "wakeup_room env room dk = (done, room', dk')"
  shows "\<exists>kvs. room' = room\<lparr>room_keys := kvs\<rparr> \<and>
    (kvs = room_keys room \<or> (\<exists>data. dk (snap_filename (room_name room)) = Some data \<and> snap_parse data = Some kvs)) \<and>
    (\<forall>n. n \<noteq> room_name room \<longrightarrow> dk' (snap_filename n) = dk (snap_filename n)) \<and>
    (dk' (snap_filename (room_name room)) = dk (snap_filename (room_name room)) \<or>
     (dk' (snap_filename (room_name room)) = None \<and> (\<exists>data. dk (snap_filename (room_name room)) = Some data \<and> snap_parse data = None))) \<and>
    (we_read env \<and> (\<exists>data. dk (snap_filename (room_name room)) = Some data \<and> snap_parse data \<noteq> None) \<longrightarrow>
       (\<exists>data. dk (snap_filename (room_name room)) = Some data \<and> snap_parse data = Some kvs)) \<and>
    ((\<forall>data. dk (snap_filename (room_name room)) = Some data \<longrightarrow> snap_parse data = None) \<longrightarrow> kvs = room_keys room)"
proof -
  have keep: "room = room\<lparr>room_keys := room_keys room\<rparr>" by simp
  show ?thesis
  proof (cases "dk (snap_filename (room_name room))")
    case None
    then have "room' = room" "dk' = dk" using assms by (auto simp: wakeup_room_def)
    then show ?thesis using None keep by auto
  next
    case (Some data)
    consider (unread) "\<not> we_read env" "room' = room" "dk' = dk"
      | (corrupt) "we_read env" "snap_parse data = None" "room' = room"
        "dk' = dk \<or> dk' = dk(snap_filename (room_name room) := None, snap_filename (room_name room) @ ''.corrupt.'' @ dec_int (we_now_ms env) := Some data)"
      | (loaded) kvs where "we_read env" "snap_parse data = Some kvs" "room' = room\<lparr>room_keys := kvs\<rparr>" "dk' = dk"
      using assms Some by (auto simp: wakeup_room_def Let_def split: if_splits option.splits)
    then show ?thesis
    proof cases
      case unread
      then show ?thesis using keep by (intro exI [of _ "room_keys room"]) auto
    next
      case corrupt
      have "dk' (snap_filename n) = dk (snap_filename n)" if "n \<noteq> room_name room" for n
        using corrupt(4) that snap_other_names(2) [symmetric] by auto
      moreover have "dk' (snap_filename (room_name room)) = dk (snap_filename (room_name room)) \<or> dk' (snap_filename (room_name room)) = None"
        using corrupt(4) snap_other_names(2) [symmetric] by auto
      ultimately show ?thesis using corrupt Some keep by (intro exI [of _ "room_keys room"]) auto
    next
      case loaded
      then show ?thesis using Some by (intro exI [of _ kvs]) auto
    qed
  qed
qed

section \<open>Waking and hibernating\<close>

text \<open>What the lock holder of a room sees of it, in whatever state it is.\<close>

definition held :: "string \<Rightarrow> cell \<Rightarrow> string \<Rightarrow> Record option" where
  "held name = (\<lambda>(room, d) key.
     case (if room_state room = Active then map_of (room_keys room) key else shelved d name key) of
       Some r \<Rightarrow> Some r
     | None \<Rightarrow> cold_get (db_eviction d) name key)"

lemma held_active: "cell_ok name c \<Longrightarrow> room_state (fst c) = Active \<Longrightarrow> held name c = stored_of c"
  by (auto simp: held_def stored_of_def stored_def cell_ok_def fun_eq_iff split: prod.splits option.splits)

lemma logical_held: "map_of (rooms d) name = Some room \<Longrightarrow> logical d name = held name (room, d)"
  by (auto simp: logical_def held_def fun_eq_iff)

lemma logical_put:
  assumes "room_step name (room, d) c'" and "map_of (rooms d) name = Some room"
  shows "logical (put_room c') n = (if n = name then held name c' else logical d n)"
proof -
  obtain room' d' where c': "c' = (room', d')" by fastforce
  have "room_name room' = name" "rooms d' = rooms d" using assms(1) by (simp_all add: c' room_step_def cell_ok_def)
  moreover have "shelved (d'\<lparr>rooms := x\<rparr>) m = shelved d' m" for x m by (simp add: shelved_def)
  moreover have "n \<noteq> name \<Longrightarrow> shelved d' n = shelved d n" using assms(1) by (simp add: c' room_step_def shelved_def)
  moreover have "n \<noteq> name \<Longrightarrow> cold_get (db_eviction d') n k = cold_get (db_eviction d) n k" for k using assms(1) by (simp add: c' room_step_def)
  ultimately show ?thesis
    by (auto simp: c' put_room_def logical_def held_def update_conv' fun_eq_iff split: option.splits)
qed

text \<open>A room in the registry, as the operations below find it.\<close>

definition room_at_rest :: "string \<Rightarrow> cell \<Rightarrow> bool" where
  "room_at_rest name c \<longleftrightarrow> cell_ok name c \<and> settled (fst c) \<and>
     (room_state (fst c) \<noteq> Active \<longrightarrow> (\<forall>k. shelved (snd c) name k \<noteq> None \<longrightarrow> cold_get (db_eviction (snd c)) name k = None))"

lemma registry_at_rest:
  assumes "registry_ok d" and "map_of (rooms d) name = Some room"
  shows "room_at_rest name (room, d)"
  using registry_okD [OF assms(1)] assms(2) by (auto simp: room_at_rest_def cell_ok_def is_active_def)

lemma room_step_at_rest: "room_step name c c' \<Longrightarrow> room_at_rest name c'"
  by (simp add: room_step_def room_at_rest_def)

lemma room_step_refl: "room_at_rest name c \<Longrightarrow> room_step name c c"
  by (simp add: room_step_def room_at_rest_def slack_kept_def)

lemma tiers_ok_cong:
  "room_name r' = room_name r \<Longrightarrow> room_keys r' = room_keys r \<Longrightarrow> room_bytes r' = room_bytes r \<Longrightarrow> tiers_ok r' e = tiers_ok r e"
  by (simp add: tiers_ok_def room_ok_def keys_cost_def)

lemma asleep_bytes: "room_ok room \<Longrightarrow> room_keys room = [] \<Longrightarrow> room_bytes room = 0"
  by (simp add: room_ok_def keys_cost_def)

lemma activate_step:
  assumes rest: "room_at_rest name c" and run: "activate ob c = (ok, c')"
  shows "room_step name c c' \<and> (room_state (fst c') = Active \<longleftrightarrow> ok) \<and> now_ms (snd c') = now_ms (snd c) \<and>
    db_aof (snd c') = db_aof (snd c) \<and> tombstones (snd c') = tombstones (snd c) \<and> io (snd c') = io (snd c) \<and>
    db_eviction (snd c') = db_eviction (snd c) \<and> clock (snd c') = clock (snd c) \<and>
    ((\<forall>i. we_read (io_wake (io (snd c)) i)) \<longrightarrow> held name c' = held name c) \<and> shelved (snd c') name = shelved (snd c) name \<and>
    side_state (snd c') = side_state (snd c) \<and>
    (\<not> ob \<and> ok \<and> room_state (fst c) \<noteq> Active \<longrightarrow> active_rooms (snd c) < MAX_ACTIVE_ROOMS)"
proof -
  obtain room d where c: "c = (room, d)" by fastforce
  have tiers: "tiers_ok room (db_eviction d)" "room_name room = name" "cold_ok (db_eviction d)" "settled room"
    using rest tiers_okD(2) by (auto simp: c room_at_rest_def cell_ok_def)
  let ?room0 = "room\<lparr>last_access_time := now_ms d\<rparr>"
  have t0: "tiers_ok ?room0 (db_eviction d)" using tiers(1) tiers_ok_cong [of ?room0 room] by simp
  consider (active) "room_state room = Active"
    | (full) "room_state room \<noteq> Active" "active_rooms d \<ge> MAX_ACTIVE_ROOMS \<and> \<not> ob"
    | (wake) "room_state room \<noteq> Active" "\<not> (active_rooms d \<ge> MAX_ACTIVE_ROOMS \<and> \<not> ob)" by blast
  then show ?thesis
  proof cases
    case active
    then have "ok" "c' = (?room0, d)" using run by (simp_all add: c activate_def Let_def)
    then show ?thesis using active t0 tiers by (simp add: c room_step_def cell_ok_def slack_kept_def same_slack_def settled_def active_count_def held_def)
  next
    case full
    then have "\<not> ok" "c' = (?room0, d)" using run by (auto simp: c activate_def Let_def)
    then show ?thesis using full t0 tiers rest
      by (simp add: c room_step_def cell_ok_def slack_kept_def same_slack_def settled_def active_count_def room_at_rest_def held_def)
  next
    case wake
    then have asleep: "room_keys room = []" "room_state room = Sleeping" using tiers(4) by (simp_all add: settled_def)
    then have zero: "room_bytes room = 0" using asleep_bytes tiers_okD(1) [OF tiers(1)] by blast
    have free: "\<And>k. shelved d name k \<noteq> None \<Longrightarrow> cold_get (db_eviction d) name k = None" using rest wake(1) by (simp add: c room_at_rest_def)
    let ?env = "io_wake (io d) (tick d)"
    obtain b room1 dk where w: "wakeup_room ?env (?room0\<lparr>room_state := Loading\<rparr>) (db_disk d) = (b, room1, dk)" by (metis prod_cases3)
    have ld: "room_name (?room0\<lparr>room_state := Loading\<rparr>) = name" "room_keys (?room0\<lparr>room_state := Loading\<rparr>) = []"
      using tiers(2) asleep(1) by simp_all
    obtain kvs where room1: "room1 = ?room0\<lparr>room_state := Loading, room_keys := kvs\<rparr>"
      and kvs: "kvs = [] \<or> (\<exists>data. db_disk d (snap_filename name) = Some data \<and> snap_parse data = Some kvs)"
      and other: "\<forall>n. n \<noteq> name \<longrightarrow> dk (snap_filename n) = db_disk d (snap_filename n)"
      and mine: "dk (snap_filename name) = db_disk d (snap_filename name) \<or>
        (dk (snap_filename name) = None \<and> (\<exists>data. db_disk d (snap_filename name) = Some data \<and> snap_parse data = None))"
      and good: "we_read ?env \<and> (\<exists>data. db_disk d (snap_filename name) = Some data \<and> snap_parse data \<noteq> None) \<longrightarrow>
        (\<exists>data. db_disk d (snap_filename name) = Some data \<and> snap_parse data = Some kvs)"
      and bad: "(\<forall>data. db_disk d (snap_filename name) = Some data \<longrightarrow> snap_parse data = None) \<longrightarrow> kvs = []"
      using wake_cases [OF w, unfolded ld] by blast
    have k: "al_ok kvs" "\<And>k r. map_of kvs k = Some r \<Longrightarrow> rec_ok r \<and> nget (cold_index (db_eviction d)) name k = None"
      using kvs snap_parse_ok free by (auto simp: shelved_def cold_get_None)
    have shel: "shelved (d\<lparr>db_disk := dk\<rparr>) name k = shelved d name k" for k using mine by (auto simp: shelved_def)
    have loaded: "map_of kvs = shelved d name" if "we_read ?env"
      using that good bad by (auto simp: shelved_def split: option.splits)
    let ?cost = "keys_cost room1" and ?d1 = "d\<lparr>active_rooms := Suc (active_rooms d), db_disk := dk, tick := Suc (tick d)\<rparr>"
    have ran: "(ok, c') = (if \<not> ob \<and> \<not> fits (db_eviction d) (db_metrics d) ?cost
        then (False, room1\<lparr>room_keys := [], room_state := Sleeping\<rparr>, ?d1\<lparr>active_rooms := active_rooms d\<rparr>)
        else (True, room1\<lparr>room_bytes := room_bytes room1 + ?cost, room_state := Active\<rparr>,
          ?d1\<lparr>db_metrics := (db_metrics d)\<lparr>keys_in_ram := keys_in_ram (db_metrics d) + of_nat (length (room_keys room1)),
             resident_bytes := resident_bytes (db_metrics d) + ?cost\<rparr>\<rparr>))"
      using run wake w by (auto simp: c activate_def Let_def db_charge_def charge_def count_key_def)
    show ?thesis
    proof (cases "\<not> ob \<and> \<not> fits (db_eviction d) (db_metrics d) ?cost")
      case True
      have out: "\<not> ok" "c' = (?room0\<lparr>room_keys := [], room_state := Sleeping\<rparr>, d\<lparr>db_disk := dk, tick := Suc (tick d)\<rparr>)"
        using ran [unfolded if_P [OF True]] by (simp_all add: room1)
      have "tiers_ok (?room0\<lparr>room_keys := [], room_state := Sleeping\<rparr>) (db_eviction d)"
        using t0 asleep by (subst tiers_ok_cong [of _ ?room0]) simp_all
      moreover have "shelved (d\<lparr>db_disk := dk, tick := Suc (tick d)\<rparr>) name k = shelved d name k" for k
        using shel [of k] by (simp add: shelved_def)
      moreover from this have "held name c' = held name c" using out asleep by (simp add: c held_def fun_eq_iff split: option.split)
      moreover have "shelved (snd c') name = shelved d name" using shel by (auto simp: out shelved_def)
      ultimately show ?thesis using out tiers other free wake asleep
        by (simp add: c room_step_def cell_ok_def slack_kept_def same_slack_def settled_def active_count_def)
    next
      case False
      have out: "ok" "c' = (?room0\<lparr>room_keys := kvs, room_bytes := ?cost, room_state := Active\<rparr>,
          ?d1\<lparr>db_metrics := (db_metrics d)\<lparr>keys_in_ram := keys_in_ram (db_metrics d) + of_nat (length kvs),
             resident_bytes := resident_bytes (db_metrics d) + ?cost\<rparr>\<rparr>)"
        using ran [unfolded if_not_P [OF False]] zero by (simp_all add: room1)
      have cost: "?cost = al_sum record_cost kvs" by (simp add: room1 keys_cost_def)
      have "tiers_ok (?room0\<lparr>room_keys := kvs, room_bytes := ?cost, room_state := Active\<rparr>) (db_eviction d)"
        using k tiers unfolding cost by (simp add: tiers_ok_def room_ok_def keys_cost_def)
      moreover have "held name c' = held name c" if "we_read ?env"
        using out asleep loaded [OF that] by (simp add: c held_def fun_eq_iff split: option.split)
      moreover have "shelved (snd c') name = shelved d name" using shel by (auto simp: out shelved_def)
      ultimately show ?thesis using out tiers other wake asleep zero
        by (auto simp add: c room_step_def cell_ok_def slack_kept_def same_slack_def settled_def active_count_def not_le)
    qed
  qed
qed

text \<open>
  Lengths that fit their 64-bit fields in the snapshot, and versions that the loader does not take
  for legacy timestamps.
\<close>

definition sized :: "Room \<Rightarrow> bool" where
  "sized room \<longleftrightarrow> length (room_keys room) < 2 ^ 64 \<and>
     (\<forall>(k, r) \<in> set (room_keys room). length k < 2 ^ 64 \<and> length (rec_value r) < 2 ^ 64)"

definition normal_versions :: "Room \<Rightarrow> bool" where
  "normal_versions room \<longleftrightarrow> (\<forall>(k, r) \<in> set (room_keys room). timestamp_ms r = 0 \<or> kLegacyLimit \<le> timestamp_ms r)"

lemma map_of_entry_view: "map_of (map entry_view kvs) k = None \<longleftrightarrow> map_of kvs k = None"
  by (induction kvs) (auto simp: entry_view_def)

lemma sized_parse:
  assumes "tiers_ok room e" and "sized room"
  shows "snap_parse (snap_bytes (room_keys room)) = Some (map entry_view (room_keys room))"
    "normal_versions room \<Longrightarrow> map entry_view (room_keys room) = room_keys room"
proof -
  note t = tiers_okD [OF assms(1)]
  have "\<forall>x \<in> set (room_keys room). entry_ok x"
    using assms(2) t(3,5) by (auto simp: sized_def entry_ok_def al_ok_def)
  then show "snap_parse (snap_bytes (room_keys room)) = Some (map entry_view (room_keys room))"
    using snap_parse_roundtrip [OF t(3)] assms(2) by (simp add: sized_def)
  show "map entry_view (room_keys room) = room_keys room" if n: "normal_versions room"
  proof (rule map_idI)
    show "entry_view x = x" if "x \<in> set (room_keys room)" for x
      using that n by (cases x) (auto simp: normal_versions_def entry_view_def hlc_normalize_def)
  qed
qed

lemma hibernate_step:
  assumes rest: "room_at_rest name c" and sz: "sized (fst c)" and cnt: "room_state (fst c) = Active \<Longrightarrow> 0 < active_rooms (snd c)"
    and run: "hibernate c = (ok, c')"
  shows "room_step name c c' \<and> (ok \<longrightarrow> room_state (fst c') = Sleeping) \<and> (\<not> ok \<longrightarrow> fst c' = fst c \<and> shelved (snd c') name = shelved (snd c) name) \<and> now_ms (snd c') = now_ms (snd c) \<and>
    db_aof (snd c') = db_aof (snd c) \<and> tombstones (snd c') = tombstones (snd c) \<and> io (snd c') = io (snd c) \<and>
    db_eviction (snd c') = db_eviction (snd c) \<and> clock (snd c') = clock (snd c) \<and>
    side_state (snd c') = side_state (snd c) \<and>
    (normal_versions (fst c) \<longrightarrow> held name c' = held name c) \<and> active_rooms (snd c') \<le> active_rooms (snd c)"
proof -
  obtain room d where c: "c = (room, d)" by fastforce
  have tiers: "tiers_ok room (db_eviction d)" "room_name room = name" "cold_ok (db_eviction d)" "settled room"
    using rest tiers_okD(2) by (auto simp: c room_at_rest_def cell_ok_def)
  show ?thesis
  proof (cases "room_state room = Sleeping")
    case True
    then have "ok" "c' = c" using run by (simp_all add: c hibernate_def)
    then show ?thesis using room_step_refl [OF rest] True by (simp add: c)
  next
    case False
    then have active: "room_state room = Active" using tiers(4) by (simp add: settled_def)
    obtain saved room1 dk where h: "hibernate_room (io_snap (io d) (tick d)) (room\<lparr>room_state := Hibernating\<rparr>) (db_disk d) = (saved, room1, dk)"
      by (metis prod_cases3)
    have h1: "room1 = room\<lparr>room_state := Hibernating, room_keys := if saved then [] else room_keys room\<rparr>"
      "n \<noteq> name \<Longrightarrow> dk (snap_filename n) = db_disk d (snap_filename n)"
      "saved \<Longrightarrow> dk (snap_filename name) = Some (snap_bytes (room_keys room))"
      "\<not> saved \<Longrightarrow> dk (snap_filename name) = db_disk d (snap_filename name)" for n
      using h snap_write_ok [of "io_snap (io d) (tick d)" "room_keys room"] snap_other_names(1) [symmetric]
      by (auto simp: hibernate_room_def Let_def tiers(2) split: if_splits)
    show ?thesis
    proof (cases saved)
      case no: False
      have out: "\<not> ok" "c' = (room, d\<lparr>db_disk := dk, tick := Suc (tick d)\<rparr>)"
        using run h active h1(1) no by (auto simp: c hibernate_def Let_def)
      then have "held name c' = held name c" "shelved (snd c') name = shelved d name"
        using active h1(4) [OF no] by (simp_all add: c held_def shelved_def fun_eq_iff split: option.split)
      then show ?thesis using out h1(2) active tiers
        by (auto simp: c room_step_def cell_ok_def slack_kept_def same_slack_def settled_def)
    next
      case True
      let ?cost = "keys_cost room"
      have bytes: "room_bytes room = ?cost" using tiers_okD(1) [OF tiers(1)] by (simp add: room_ok_def)
      have out: "ok" "c' = (room\<lparr>room_state := Sleeping, room_keys := [], room_bytes := 0\<rparr>,
          d\<lparr>db_disk := dk, tick := Suc (tick d), active_rooms := active_rooms d - 1,
            db_metrics := (db_metrics d)\<lparr>keys_in_ram := keys_in_ram (db_metrics d) - of_nat (length (room_keys room)),
               resident_bytes := resident_bytes (db_metrics d) - ?cost\<rparr>\<rparr>)"
        using run h active h1(1) True bytes by (auto simp: c hibernate_def Let_def db_charge_def charge_def count_key_def)
      have shel: "shelved (snd c') name = map_of (map entry_view (room_keys room))"
        using h1(3) [OF True] sized_parse(1) [OF tiers(1)] sz by (simp add: out shelved_def c)
      have "tiers_ok (room\<lparr>room_state := Sleeping, room_keys := [], room_bytes := 0\<rparr>) (db_eviction d)"
        using tiers by (simp add: tiers_ok_def room_ok_def keys_cost_def)
      moreover have "cold_get (db_eviction d) name k = None" if "map_of (map entry_view (room_keys room)) k \<noteq> None" for k
      proof -
        have "map_of (room_keys room) k \<noteq> None" using that by (simp only: map_of_entry_view not_False_eq_True simp_thms)
        then show ?thesis using tiers(1,2) by (auto simp: tiers_ok_def cold_get_None)
      qed
      moreover have "held name c' = held name c" if "normal_versions room"
        using shel active sized_parse(2) [OF tiers(1) _ that] sz by (simp add: out c held_def fun_eq_iff split: option.split)
      moreover have "int (active_rooms d - 1) = int (active_rooms d) - 1" using cnt active by (simp add: c of_nat_diff)
      ultimately show ?thesis using h1(2) active tiers shel bytes
        by (simp add: out c room_step_def cell_ok_def slack_kept_def same_slack_def settled_def active_count_def)
    qed
  qed
qed

lemma active_counted:
  assumes "registry_ok d" and "map_of (rooms d) name = Some room" and "room_state room = Active"
  shows "0 < active_rooms d"
proof -
  have "0 \<le> al_sum (\<lambda>_. active_count) xs" for xs :: "(string \<times> Room) list" by (induction xs) (auto simp: active_count_def)
  moreover have "al_sum (\<lambda>_. active_count) (rooms d) = 1 + al_sum (\<lambda>_. active_count) (AList.delete name (rooms d))"
    using al_sum_split [OF registry_okD(1) [OF assms(1)] assms(2), of "\<lambda>_. active_count"] assms(3) by (simp add: active_count_def)
  ultimately have "1 \<le> int (active_rooms d)" using assms(1) by (simp add: registry_ok_def)
  then show ?thesis by simp
qed

section \<open>Commands and expiry in a room\<close>

lemma handled_room_step:
  assumes "handled name c c'" and "room_state (fst c) = Active" and "nested_ok (tombstones (snd c'))"
  shows "room_step name c c'"
  using assms by (simp add: handled_def room_step_def settled_def active_count_def)

lemma evict_room_step:
  assumes "cell_ok name c" and "room_state (fst c) = Active"
  shows "room_step name c (evict_cell c)"
  using evict_cell_step [OF assms(1)] assms(2) by (simp add: room_step_def settled_def active_count_def)

text \<open>A command in an active room.\<close>

lemma run_in_room_step:
  assumes rdy: "ready name c" and sane: "sane_clock (now_ms (snd c))" and act: "room_state (fst c) = Active"
    and run: "run_in_room name (upper (args ! 0)) args c = (reply, c')"
  shows "room_step name c c'" "room_state (fst c') = Active" "now_ms (snd c') = now_ms (snd c)" "db_disk (snd c') = db_disk (snd c)" "side_state (snd c') = side_state (snd c)"
    "\<exists>rs. logs (snd c) (snd c') rs \<and> (\<forall>r \<in> set rs. ar_room r = name \<and> plain r) \<and>
      agree (now_ms (snd c)) (held name c') (redo_changes (held name c) rs)"
proof -
  obtain reply1 c1 where k: "key_command name (upper (args ! 0)) args c = (reply1, c1)" by (meson surj_pair)
  obtain rs where j: "journals name c c1 rs" using key_command_journals [OF rdy sane k] by blast
  then have h: "handled name c c1" and r1: "ready name c1" by (simp_all add: journals_def)
  have c': "c' = evict_cell c1" using run k by (simp add: run_in_room_def)
  have act1: "room_state (fst c1) = Active" using h act by (simp add: handled_def)
  note e = evict_cell_step [OF readyD(1) [OF r1]]
  show st: "room_step name c c'" unfolding c'
    by (rule room_step_trans [OF handled_room_step [OF h act readyD(3) [OF r1]] evict_room_step [OF readyD(1) [OF r1] act1]])
  show act': "room_state (fst c') = Active" using e(8) act1 by (simp add: c')
  show "now_ms (snd c') = now_ms (snd c)" "db_disk (snd c') = db_disk (snd c)" "side_state (snd c') = side_state (snd c)"
    using e(4,10,12) handledD(3) [OF h] h by (simp_all add: c' handled_def)
  have "held name c' = stored_of c1" using held_active [OF _ act'] e(1,2) by (simp add: c')
  moreover have "held name c = stored_of c" by (rule held_active [OF readyD(1) [OF rdy] act])
  ultimately show "\<exists>rs. logs (snd c) (snd c') rs \<and> (\<forall>r \<in> set rs. ar_room r = name \<and> plain r) \<and>
      agree (now_ms (snd c)) (held name c') (redo_changes (held name c) rs)"
    using j e(5) by (intro exI [of _ rs]) (simp add: journals_def logs_def redo_changes_def c')
qed

lemma expire_loop_step:
  assumes "cell_ok name c" and "al_ok kvs" and "\<And>k r. map_of kvs k = Some r \<Longrightarrow> map_of (room_keys (fst c)) k = Some r"
  shows "evolves name c (expire_loop kvs c) \<and> agree (now_ms (snd c)) (stored_of (expire_loop kvs c)) (stored_of c)"
  using assms
proof (induction kvs arbitrary: c)
  case Nil
  then show ?case by (simp add: evolves_refl)
next
  case (Cons x kvs)
  obtain key r where x: "x = (key, r)" by fastforce
  obtain room d where c: "c = (room, d)" by fastforce
  have old: "map_of (room_keys room) key = Some r" using Cons.prems(3) [of key r] by (simp add: x c)
  show ?case
  proof (cases "expired r (now_ms d)")
    case False
    moreover have "map_of (room_keys (fst c)) k = Some v" if "map_of kvs k = Some v" for k v
      using that Cons.prems(2) Cons.prems(3) [of k v] by (cases "k = key") (auto simp: x)
    ultimately show ?thesis using Cons.IH [OF Cons.prems(1)] Cons.prems(2) by (simp add: x c)
  next
    case True
    note e = erase_step [OF Cons.prems(1) [unfolded c] old, folded c]
    have keys: "map_of (room_keys (fst (erase key r c))) = (map_of (room_keys room))(key := None)"
      by (simp add: erase_def db_charge_def charge_def count_key_def c delete_conv')
    have "map_of (room_keys (fst (erase key r c))) k = Some v" if "map_of kvs k = Some v" for k v
      using that Cons.prems(2) Cons.prems(3) [of k v] unfolding keys by (cases "k = key") (auto simp: x c)
    from Cons.IH [OF evolves_ok [OF e(1)] _ this] Cons.prems(2)
    have IH: "evolves name (erase key r c) (expire_loop kvs (erase key r c))"
      "agree (now_ms (snd (erase key r c))) (stored_of (expire_loop kvs (erase key r c))) (stored_of (erase key r c))" by (simp_all add: x)
    have now: "now_ms (snd (erase key r c)) = now_ms d" using evolves_now [OF e(1)] by (simp add: c)
    have "agree (now_ms d) (stored_of (erase key r c)) (stored_of c)"
      using True old e(2) by (auto simp: agree_def c stored_of_def stored_def live_def)
    then have "agree (now_ms d) (stored_of (expire_loop kvs (erase key r c))) (stored_of c)"
      using IH(2) agree_trans unfolding now by blast
    then show ?thesis using evolves_trans [OF e(1) IH(1)] True by (simp add: x c)
  qed
qed

section \<open>The database between commands\<close>

text \<open>What the environment does in a step: reads succeed and the clock is sane.\<close>

definition env_ok :: "database \<Rightarrow> bool" where
  "env_ok d \<longleftrightarrow> reads_ok d \<and> sane_clock (now_ms d) \<and> (\<forall>i. we_read (io_wake (io d) i))"

definition mentions :: "AofRecord list \<Rightarrow> string \<Rightarrow> bool" where
  "mentions rs key \<longleftrightarrow> key \<in> fst ` set (concat (map changes rs))"

lemma mentions_append [simp]: "mentions (rs @ us) k \<longleftrightarrow> mentions rs k \<or> mentions us k" "\<not> mentions [] k"
  by (auto simp: mentions_def)

text \<open>
  A step of the whole database, with the log records it appended. Rooms stay in the registry, and a
  key that appears in a snapshot was in the store before or is in the new records.
\<close>

definition db_step :: "database \<Rightarrow> AofRecord list \<Rightarrow> database \<Rightarrow> bool" where
  "db_step d rs d' \<longleftrightarrow>
     registry_ok d' \<and> active_rooms d' \<le> max (active_rooms d) MAX_ACTIVE_ROOMS \<and> now_ms d' = now_ms d \<and> logs d d' rs \<and>
     side_state d' = side_state d \<and>
     (\<forall>n. agree (now_ms d) (logical d' n) (redo_changes (logical d n) (filter (\<lambda>r. ar_room r = n) rs))) \<and>
     (\<forall>r \<in> set rs. plain r \<and> map_of (rooms d') (ar_room r) \<noteq> None) \<and>
     (\<forall>n. map_of (rooms d) n \<noteq> None \<longrightarrow> map_of (rooms d') n \<noteq> None) \<and>
     (\<forall>n k. live (now_ms d) (shelved d' n k) \<noteq> None \<longrightarrow>
        live (now_ms d) (shelved d n k) \<noteq> None \<or> live (now_ms d) (logical d n k) \<noteq> None \<or> mentions (filter (\<lambda>r. ar_room r = n) rs) k)"

lemma redo_nil [simp]: "redo_changes m [] = m"
  and redo_append [simp]: "redo_changes m (rs @ us) = redo_changes (redo_changes m rs) us"
  by (simp_all add: redo_changes_def)

lemma agree_redo: "agree now f g \<Longrightarrow> agree now (redo_changes f rs) (redo_changes g rs)"
  unfolding redo_changes_def by (rule agree_changes)

lemma apply_unmentioned: "k \<notin> fst ` set cs \<Longrightarrow> apply_changes m cs k = m k"
  by (induction cs arbitrary: m) auto

lemma apply_mentioned: "k \<in> fst ` set cs \<Longrightarrow> apply_changes m cs k = apply_changes m' cs k"
proof (induction cs arbitrary: m m')
  case (Cons x cs)
  obtain j y where x: "x = (j, y)" by fastforce
  show ?case
  proof (cases "k \<in> fst ` set cs")
    case True
    show ?thesis unfolding x apply_changes_simps by (rule Cons.IH [OF True])
  next
    case False
    then show ?thesis using Cons.prems by (simp add: x apply_unmentioned)
  qed
qed simp

lemma redo_unmentioned: "\<not> mentions rs k \<Longrightarrow> redo_changes m rs k = m k"
  unfolding mentions_def redo_changes_def by (rule apply_unmentioned)

lemma redo_mentioned: "mentions rs k \<Longrightarrow> redo_changes m rs k = redo_changes m' rs k"
  unfolding mentions_def redo_changes_def by (rule apply_mentioned)

lemma db_step_refl: "registry_ok d \<Longrightarrow> db_step d [] d"
  by (simp add: db_step_def logs_none)

lemma db_step_trans:
  assumes "db_step a rs b" and "db_step b us c"
  shows "db_step a (rs @ us) c"
proof -
  have now: "now_ms b = now_ms a" using assms(1) by (simp add: db_step_def)
  have "agree (now_ms a) (logical c n) (redo_changes (logical a n) (filter (\<lambda>r. ar_room r = n) (rs @ us)))" for n
  proof -
    have "agree (now_ms a) (logical c n) (redo_changes (logical b n) (filter (\<lambda>r. ar_room r = n) us))"
      using assms(2) now by (simp add: db_step_def)
    moreover have "agree (now_ms a) (logical b n) (redo_changes (logical a n) (filter (\<lambda>r. ar_room r = n) rs))"
      using assms(1) by (simp add: db_step_def)
    ultimately show ?thesis using agree_redo agree_trans by (simp add: agree_def)
  qed
  moreover have "live (now_ms a) (shelved a n k) \<noteq> None \<or> live (now_ms a) (logical a n k) \<noteq> None \<or> mentions (filter (\<lambda>r. ar_room r = n) (rs @ us)) k"
    if l: "live (now_ms a) (shelved c n k) \<noteq> None" for n k
  proof -
    let ?rs = "filter (\<lambda>r. ar_room r = n) rs" and ?us = "filter (\<lambda>r. ar_room r = n) us"
    have "live (now_ms a) (shelved b n k) \<noteq> None \<or> live (now_ms a) (logical b n k) \<noteq> None \<or> mentions ?us k"
      using assms(2) l now unfolding db_step_def by metis
    moreover have "live (now_ms a) (shelved a n k) \<noteq> None \<or> live (now_ms a) (logical a n k) \<noteq> None \<or> mentions ?rs k"
      if "live (now_ms a) (shelved b n k) \<noteq> None" using assms(1) that unfolding db_step_def by metis
    moreover have "live (now_ms a) (logical b n k) = live (now_ms a) (redo_changes (logical a n) ?rs k)"
      using assms(1) by (simp add: db_step_def agree_def)
    ultimately show ?thesis using redo_unmentioned [of ?rs k "logical a n"] by auto
  qed
  moreover have "logs a c (rs @ us)" using assms logs_trans by (auto simp: db_step_def)
  moreover have "active_rooms c \<le> max (active_rooms a) MAX_ACTIVE_ROOMS" using assms by (auto simp: db_step_def)
  moreover have "\<forall>r \<in> set (rs @ us). plain r \<and> map_of (rooms c) (ar_room r) \<noteq> None" using assms unfolding db_step_def by auto
  ultimately show ?thesis using assms now unfolding db_step_def by simp
qed

lemma put_db_step:
  assumes reg: "registry_ok d" and old: "map_of (rooms d) name = Some room" and st: "room_step name (room, d) c'"
    and now: "now_ms (snd c') = now_ms d" and act: "active_rooms (snd c') \<le> max (active_rooms d) MAX_ACTIVE_ROOMS"
    and rw: "side_state (snd c') = side_state d"
    and lg: "logs d (snd c') rs" "\<forall>r \<in> set rs. ar_room r = name \<and> plain r"
    and ag: "agree (now_ms d) (held name c') (redo_changes (held name (room, d)) rs)"
    and sh: "\<And>k. shelved (snd c') name k \<noteq> None \<Longrightarrow>
      shelved (snd c') name k = shelved d name k \<or> shelved (snd c') name k = held name (room, d) k"
  shows "db_step d rs (put_room c')"
proof -
  obtain room' d' where c': "c' = (room', d')" by fastforce
  have "filter (\<lambda>r. ar_room r = n) rs = (if n = name then rs else [])" for n
    using lg(2) by (induction rs) auto
  then have "agree (now_ms d) (logical (put_room c') n) (redo_changes (logical d n) (filter (\<lambda>r. ar_room r = n) rs))" for n
    unfolding logical_put [OF st old] using ag logical_held [OF old] by simp
  moreover have "db_aof (put_room c') = db_aof d'" "now_ms (put_room c') = now_ms d'" "active_rooms (put_room c') = active_rooms d'"
    "side_state (put_room c') = side_state d'"
    by (simp_all add: c' put_room_def)
  moreover have "shelved (put_room c') n = shelved d' n" for n by (simp add: c' put_room_def)
  moreover have "n \<noteq> name \<Longrightarrow> shelved d' n = shelved d n" for n using st by (simp add: c' room_step_def shelved_def)
  moreover have "map_of (rooms (put_room c')) n = (if n = name then Some room' else map_of (rooms d) n)" for n
    using st by (simp add: c' put_room_def room_step_def cell_ok_def update_conv')
  moreover have "live (now_ms d) (shelved d name k) \<noteq> None \<or> live (now_ms d) (logical d name k) \<noteq> None"
    if "live (now_ms d) (shelved d' name k) \<noteq> None" for k
  proof -
    have "shelved d' name k \<noteq> None" using that by (cases "shelved d' name k") (auto simp: live_def)
    then show ?thesis using sh [of k] that logical_held [OF old] by (auto simp: c')
  qed
  ultimately show ?thesis using registry_put [OF reg old] st now act lg rw
    unfolding db_step_def logs_def by (simp add: c') metis
qed

lemma find_room_step:
  assumes "registry_ok d" and "find_room name create d = (res, d1)"
  shows "db_step d [] d1 \<and> (\<forall>room. res = Some room \<longrightarrow> map_of (rooms d1) name = Some room) \<and> (create \<longrightarrow> res \<noteq> None) \<and>
    active_rooms d1 = active_rooms d \<and> env_ok d1 = env_ok d \<and> db_aof d1 = db_aof d"
proof (cases "map_of (rooms d) name")
  case (Some room)
  then have "res = Some room" "d1 = d" using assms(2) by (simp_all add: find_room_def)
  then show ?thesis using assms(1) db_step_refl Some by simp
next
  case None
  note r = registry_okD [OF assms(1)]
  let ?d = "d\<lparr>rooms := AList.update name (new_room name) (rooms d)\<rparr>"
  have tiers: "tiers_ok (new_room name) (db_eviction d)" using r(2) by (simp add: tiers_ok_def) (simp add: new_room_def)
  have sh: "shelved ?d n = shelved d n" for n by simp
  have act: "is_active ?d n = is_active d n" for n using None by (simp add: is_active_def update_conv' new_room_def)
  have "room_name x = n \<and> tiers_ok x (db_eviction d) \<and> settled x" if "map_of (AList.update name (new_room name) (rooms d)) n = Some x" for n x
    using that tiers r(4-6) by (auto simp: update_conv' settled_def new_room_def split: if_splits)
  then have "registry_ok ?d"
    using assms(1) None r(1) r(7) unfolding registry_ok_def act sh
    by (simp add: al_sum_update_new active_count_def new_room_def)
  moreover have "logical ?d n = logical d n" for n
    using None by (auto simp: logical_def fun_eq_iff update_conv' new_room_def split: option.splits)
  ultimately have "db_step d [] ?d" by (simp add: db_step_def logs_none)
  then show ?thesis using assms(2) None db_step_refl [OF assms(1)]
    by (auto simp: find_room_def env_ok_def reads_ok_def split: if_splits)
qed

lemma find_room_logical: "registry_ok d \<Longrightarrow> find_room name create d = (res, d1) \<Longrightarrow> logical d1 = logical d \<and> shelved d1 = shelved d"
  by (auto simp: find_room_def logical_def fun_eq_iff update_conv' new_room_def split: option.splits if_splits)

lemma activate_db_step:
  assumes reg: "registry_ok d" and env: "env_ok d" and old: "map_of (rooms d) name = Some room" and run: "activate False (room, d) = (ok, c)"
  shows "db_step d [] (put_room c)"
proof -
  note a = activate_step [OF registry_at_rest [OF reg old] run]
  have "active_rooms (snd c) \<le> max (active_rooms d) MAX_ACTIVE_ROOMS"
  proof -
    have "int (active_rooms (snd c)) = int (active_rooms d) + active_count (fst c) - active_count room"
      using a by (simp add: room_step_def)
    moreover have "active_count (fst c) \<le> active_count room \<or> (ok \<and> room_state room \<noteq> Active)"
      using a by (auto simp: active_count_def)
    moreover have "active_count (fst c) \<le> 1" "0 \<le> active_count room" by (simp_all add: active_count_def)
    ultimately show ?thesis using a by auto
  qed
  then show ?thesis using a env
    by (intro put_db_step [OF reg old, where rs = "[]"]) (auto simp: env_ok_def logs_none)
qed

lemma execute_in_room_step:
  assumes reg: "registry_ok d" and env: "env_ok d" and run: "execute_in_room name (upper (args ! 0)) args d = (reply, d')"
  shows "\<exists>rs. db_step d rs d' \<and> (\<forall>r \<in> set rs. ar_room r = name)"
proof -
  obtain res d1 where f: "find_room name True d = (res, d1)" by (meson surj_pair)
  note fs = find_room_step [OF reg f]
  obtain room where room: "res = Some room" "map_of (rooms d1) name = Some room" using fs by auto
  have reg1: "registry_ok d1" and env1: "env_ok d1" using fs env by (auto simp: db_step_def)
  obtain ok c where a: "activate False (room, d1) = (ok, c)" by (meson surj_pair)
  note as = activate_step [OF registry_at_rest [OF reg1 room(2)] a]
  show ?thesis
  proof (cases ok)
    case False
    then have "d' = put_room c" using run f room a by (simp add: execute_in_room_def)
    then show ?thesis using db_step_trans [OF conjunct1 [OF fs] activate_db_step [OF reg1 env1 room(2) a]] by (intro exI [of _ "[]"]) simp
  next
    case True
    obtain reply1 c1 where r: "run_in_room name (upper (args ! 0)) args c = (reply1, c1)" by (meson surj_pair)
    have d': "d' = put_room c1" using run f room a True r by (simp add: execute_in_room_def)
    have act: "room_state (fst c) = Active" using as True by simp
    have "cell_ok name c" using as by (simp add: room_step_def)
    moreover have "reads_ok (snd c)" using as env1 by (simp add: env_ok_def reads_ok_def)
    moreover have "nested_ok (tombstones (snd c))" using as registry_okD(3) [OF reg1] by simp
    ultimately have rdy: "ready name c" by (simp add: ready_def)
    have sane: "sane_clock (now_ms (snd c))" using as env1 by (simp add: env_ok_def)
    note rs = run_in_room_step [OF rdy sane act r]
    obtain rs where lg: "logs (snd c) (snd c1) rs" "\<forall>r \<in> set rs. ar_room r = name \<and> plain r"
      "agree (now_ms (snd c)) (held name c1) (redo_changes (held name c) rs)" using rs(6) by blast
    have st: "room_step name (room, d1) c1" using room_step_trans [OF _ rs(1)] as by blast
    have now: "now_ms (snd c1) = now_ms d1" using rs(3) as by simp
    have "active_count (fst c1) = active_count (fst c)" using act rs(2) by (simp add: active_count_def)
    then have "active_rooms (snd c1) = active_rooms (snd c)" using rs(1) by (simp add: room_step_def)
    moreover have "active_rooms (snd c) \<le> max (active_rooms d1) MAX_ACTIVE_ROOMS"
      using activate_db_step [OF reg1 env1 room(2) a] by (cases c) (simp add: db_step_def put_room_def)
    ultimately have bd: "active_rooms (snd c1) \<le> max (active_rooms d1) MAX_ACTIVE_ROOMS" by simp
    have hd: "held name c = held name (room, d1)" using as env1 by (simp add: env_ok_def)
    have "logs d1 (snd c1) rs" using lg(1) as by (simp add: logs_def)
    moreover have "shelved (snd c1) name = shelved d1 name" using as rs(4) by (simp add: shelved_def)
    ultimately have "db_step d1 rs (put_room c1)"
      using put_db_step [OF reg1 room(2) st now bd _ _ lg(2)] lg(3) hd as rs(5) by simp
    from db_step_trans [OF conjunct1 [OF fs] this] show ?thesis using d' lg(2) by auto
  qed
qed

lemma wake_room_step:
  assumes reg: "registry_ok d" and env: "env_ok d" and run: "wake_room name d = (res, d')"
  shows "db_step d [] d'"
proof (cases "bad_room_name name")
  case True
  then show ?thesis using run db_step_refl [OF reg] by (simp add: wake_room_def)
next
  case good: False
  show ?thesis
  proof (cases "map_of (rooms d) name")
    case (Some room)
    obtain ok c where a: "activate False (room, d) = (ok, c)" by (meson surj_pair)
    show ?thesis using activate_db_step [OF reg env Some a] run good Some a by (auto simp: wake_room_def find_room_def)
  next
    case None
    obtain res1 d1 where f: "find_room name True d = (res1, d1)" by (meson surj_pair)
    note fs = find_room_step [OF reg f]
    obtain room where room: "res1 = Some room" "map_of (rooms d1) name = Some room" using fs by auto
    have reg1: "registry_ok d1" and env1: "env_ok d1" using fs env by (auto simp: db_step_def)
    obtain ok c where a: "activate False (room, d1) = (ok, c)" by (meson surj_pair)
    have none: "find_room name False d = (None, d)" using None by (simp add: find_room_def)
    have "d' = d \<or> d' = put_room c" using run good none f room a by (auto simp: wake_room_def split: if_splits)
    then show ?thesis using db_step_refl [OF reg] db_step_trans [OF conjunct1 [OF fs] activate_db_step [OF reg1 env1 room(2) a]] by auto
  qed
qed

text \<open>Rooms that may be written to a snapshot and read back unchanged.\<close>

definition all_storable :: "database \<Rightarrow> bool" where
  "all_storable d \<longleftrightarrow> (\<forall>name room. map_of (rooms d) name = Some room \<longrightarrow> sized room \<and> normal_versions room)"

lemma hibernate_db_step:
  assumes reg: "registry_ok d" and st: "all_storable d" and old: "map_of (rooms d) name = Some room" and run: "hibernate (room, d) = (ok, c)"
  shows "db_step d [] (put_room c)" "all_storable (put_room c)"
proof -
  have sz: "sized room" "normal_versions room" using st old by (auto simp: all_storable_def)
  note h = hibernate_step [OF registry_at_rest [OF reg old] _ _ run, simplified, OF sz(1) active_counted [OF reg old]]
  have "shelved (snd c) name k = held name (room, d) k" if "ok" "shelved (snd c) name k \<noteq> None" for k
  proof -
    have "held name c = held name (room, d)" "room_state (fst c) = Sleeping" using h sz(2) that(1) by simp_all
    moreover from this(2) that(2) have "held name c k = shelved (snd c) name k" by (auto simp: held_def split: prod.splits)
    ultimately show ?thesis by simp
  qed
  then show "db_step d [] (put_room c)" using h sz(2)
    by (intro put_db_step [OF reg old, where rs = "[]"]) (auto simp: logs_none)
  have "sized (fst c) \<and> normal_versions (fst c)"
  proof (cases ok)
    case True
    then have "room_state (fst c) = Sleeping" "settled (fst c)" using h by (auto simp: room_step_def)
    then show ?thesis by (simp add: settled_def sized_def normal_versions_def)
  qed (use h sz in simp)
  then show "all_storable (put_room c)" using st h
    by (cases c) (auto simp: all_storable_def put_room_def room_step_def update_conv')
qed

lemma hibernate_inactive_step:
  assumes "registry_ok d" and "all_storable d"
  shows "db_step d [] (hibernate_inactive_rooms d)"
proof -
  have one: "db_step d [] (hibernate_idle d name) \<and> all_storable (hibernate_idle d name)" if "registry_ok d" "all_storable d" for d name
  proof (cases "map_of (rooms d) name")
    case None
    then show ?thesis using that db_step_refl by (simp add: hibernate_idle_def)
  next
    case (Some room)
    obtain ok c where run: "hibernate (room, d) = (ok, c)" by (meson surj_pair)
    show ?thesis using hibernate_db_step [OF that Some run] that db_step_refl Some run by (simp add: hibernate_idle_def)
  qed
  have "db_step d [] (foldl hibernate_idle d ns)" if "registry_ok d" "all_storable d" for d ns
    using that
  proof (induction ns arbitrary: d)
    case (Cons n ns)
    note o = one [OF Cons.prems, of n]
    have "registry_ok (hibernate_idle d n)" using o by (simp add: db_step_def)
    then show ?case using db_step_trans [OF conjunct1 [OF o] Cons.IH] o by simp
  qed (simp add: db_step_refl)
  then show ?thesis using assms by (simp add: hibernate_inactive_rooms_def)
qed

lemma clean_step:
  assumes "registry_ok d"
  shows "db_step d [] (clean_expired_keys d)"
proof -
  have one: "db_step d [] (clean_room d name)" if reg: "registry_ok d" for d name
  proof (cases "map_of (rooms d) name")
    case None
    then show ?thesis using that db_step_refl by (simp add: clean_room_def)
  next
    case (Some room)
    let ?c = "expire_loop (room_keys room) (room, d)"
    note rest = registry_at_rest [OF reg Some]
    have ok: "cell_ok name (room, d)" using rest by (simp add: room_at_rest_def)
    have e: "evolves name (room, d) ?c" "agree (now_ms d) (stored_of ?c) (stored_of (room, d))"
      using expire_loop_step [OF ok cell_okD(5) [OF ok]] by simp_all
    have h: "handled name (room, d) ?c" by (rule evolves_handled [OF e(1)])
    show ?thesis
    proof (cases "room_state room = Active")
      case True
      have "tombstones (snd ?c) = tombstones d" using find_tomb_evolves [OF e(1)] by simp
      then have st: "room_step name (room, d) ?c" using handled_room_step [OF h] True registry_okD(3) [OF reg] by simp
      have "room_state (fst ?c) = Active" using h True by (simp add: handled_def)
      then have "held name ?c = stored_of ?c" "held name (room, d) = stored_of (room, d)"
        using held_active [of name ?c] held_active [OF ok] True handledD(1) [OF h] by simp_all
      moreover have "db_aof (snd ?c) = db_aof d" "active_rooms (snd ?c) = active_rooms d" "side_state (snd ?c) = side_state d" "shelved (snd ?c) name = shelved d name"
        unfolding shelved_def using e(1) by (auto simp: evolves_def dest: access_frame_fields)
      ultimately have "db_step d [] (put_room ?c)"
        using e(2) st handledD(3) [OF h] by (intro put_db_step [OF reg Some]) (simp_all add: logs_none)
      then show ?thesis using Some by (simp add: clean_room_def)
    next
      case False
      then have "room_keys room = []" using rest by (simp add: room_at_rest_def settled_def)
      then have "clean_room d name = put_room (room, d)" using Some by (simp add: clean_room_def)
      moreover have "db_step d [] (put_room (room, d))"
        by (rule put_db_step [OF reg Some room_step_refl [OF rest]]) (simp_all add: logs_none)
      ultimately show ?thesis by simp
    qed
  qed
  have "db_step d [] (foldl clean_room d ns)" if "registry_ok d" for d ns
    using that
  proof (induction ns arbitrary: d)
    case (Cons n ns)
    have "registry_ok (clean_room d n)" using one [OF Cons.prems] by (simp add: db_step_def)
    then show ?case using db_step_trans [OF one [OF Cons.prems] Cons.IH] by simp
  qed (simp add: db_step_refl)
  then show ?thesis using assms by (simp add: clean_expired_keys_def)
qed

section \<open>Runs\<close>

text \<open>
  What happens to rooms while the server runs, in any order: commands in a room, waking, hibernating one room or all idle ones, the removal of
  expired keys, and time passing. The list names the rooms in which commands ran.
\<close>

inductive room_run :: "database \<Rightarrow> string list \<Rightarrow> database \<Rightarrow> bool" for d where
  start: "room_run d [] d"
| clock: "room_run d names d1 \<Longrightarrow> now_ms d1 \<le> t \<Longrightarrow> room_run d names (set_now t d1)"
| command: "room_run d names d1 \<Longrightarrow> env_ok d1 \<Longrightarrow> execute_in_room name (upper (args ! 0)) args d1 = (reply, d2) \<Longrightarrow> room_run d (names @ [name]) d2"
| wake: "room_run d names d1 \<Longrightarrow> env_ok d1 \<Longrightarrow> wake_room name d1 = (e, d2) \<Longrightarrow> room_run d names d2"
| sleep: "room_run d names d1 \<Longrightarrow> all_storable d1 \<Longrightarrow> map_of (rooms d1) name = Some room \<Longrightarrow> hibernate (room, d1) = (saved, c) \<Longrightarrow>
    room_run d names (put_room c)"
| sweep: "room_run d names d1 \<Longrightarrow> all_storable d1 \<Longrightarrow> room_run d names (hibernate_inactive_rooms d1)"
| expire: "room_run d names d1 \<Longrightarrow> room_run d names (clean_expired_keys d1)"

lemma registry_set_now [simp]: "registry_ok (set_now t d) = registry_ok d"
proof -
  have "shelved (set_now t d) = shelved d" by (simp add: set_now_def shelved_def fun_eq_iff)
  then show ?thesis by (simp add: registry_ok_def is_active_def) (simp add: set_now_def)
qed

text \<open>What a run has done to the store is what the records \<open>rs\<close> tell.\<close>

definition told :: "database \<Rightarrow> string list \<Rightarrow> AofRecord list \<Rightarrow> database \<Rightarrow> bool" where
  "told d names rs d' \<longleftrightarrow>
     registry_ok d' \<and> active_rooms d' \<le> max (active_rooms d) MAX_ACTIVE_ROOMS \<and> logs d d' rs \<and> (\<forall>r \<in> set rs. ar_room r \<in> set names) \<and>
     (\<forall>n. agree (now_ms d') (logical d' n) (redo_changes (logical d n) (filter (\<lambda>r. ar_room r = n) rs)))"

lemma told_step:
  assumes t: "told d names rs d1" and s: "db_step d1 us d2" and us: "\<forall>r \<in> set us. ar_room r \<in> set names'"
  shows "told d (names @ names') (rs @ us) d2"
proof -
  have now: "now_ms d2 = now_ms d1" using s by (simp add: db_step_def)
  have "agree (now_ms d2) (logical d2 n) (redo_changes (logical d n) (filter (\<lambda>r. ar_room r = n) (rs @ us)))" for n
  proof -
    have "agree (now_ms d1) (logical d2 n) (redo_changes (logical d1 n) (filter (\<lambda>r. ar_room r = n) us))" using s by (simp add: db_step_def)
    moreover have "agree (now_ms d1) (logical d1 n) (redo_changes (logical d n) (filter (\<lambda>r. ar_room r = n) rs))" using t by (simp add: told_def)
    ultimately show ?thesis using agree_trans agree_redo unfolding now by (fastforce simp: redo_changes_def)
  qed
  then show ?thesis using t s us logs_trans [of d d1 rs d2 us] unfolding told_def db_step_def by auto
qed

lemma told_clock: "told d names rs d1 \<Longrightarrow> now_ms d1 \<le> t \<Longrightarrow> told d names rs (set_now t d1)"
proof -
  have "logical (set_now t d1) = logical d1" by (simp add: set_now_def logical_def shelved_def fun_eq_iff split: option.split)
  moreover have "db_aof (set_now t d1) = db_aof d1" "now_ms (set_now t d1) = t" "active_rooms (set_now t d1) = active_rooms d1" by (simp_all add: set_now_def)
  ultimately show "told d names rs d1 \<Longrightarrow> now_ms d1 \<le> t \<Longrightarrow> told d names rs (set_now t d1)"
    using agree_later [of "now_ms d1" _ _ t] by (simp add: told_def logs_def)
qed

lemma room_run_told: "room_run d names d' \<Longrightarrow> registry_ok d \<Longrightarrow> \<exists>rs. told d names rs d'"
proof (induction rule: room_run.induct)
  case start
  then show ?case by (intro exI [of _ "[]"]) (simp add: told_def logs_none redo_changes_def)
next
  case (clock names d1 t)
  then show ?case using told_clock by blast
next
  case (command names d1 name args reply d2)
  then obtain rs where rs: "told d names rs d1" by blast
  then obtain us where "db_step d1 us d2" "\<forall>r \<in> set us. ar_room r = name"
    using execute_in_room_step [OF _ command.hyps(2,3)] by (auto simp: told_def)
  then show ?case using told_step [OF rs, of us d2 "[name]"] by auto
next
  case (wake names d1 name e d2)
  then obtain rs where rs: "told d names rs d1" by blast
  then show ?case using told_step [OF rs wake_room_step [OF _ wake.hyps(2,3)], of "[]"] by (auto simp: told_def)
next
  case (sleep names d1 name room saved c)
  then obtain rs where rs: "told d names rs d1" by blast
  then show ?case using told_step [OF rs hibernate_db_step(1) [OF _ sleep.hyps(2-4)], of "[]"] by (auto simp: told_def)
next
  case (sweep names d1)
  then obtain rs where rs: "told d names rs d1" by blast
  then show ?case using told_step [OF rs hibernate_inactive_step [OF _ sweep.hyps(2)], of "[]"] by (auto simp: told_def)
next
  case (expire names d1)
  then obtain rs where rs: "told d names rs d1" by blast
  then show ?case using told_step [OF rs clean_step, of "[]"] by (auto simp: told_def)
qed

text \<open>One room at a time: what \<open>hibernate\<close> and \<open>activate\<close> leave behind, when they succeed and when they do not.\<close>

lemma sleep_and_wake:
  assumes reg: "registry_ok d" and old: "map_of (rooms d) name = Some room"
  shows "(\<forall>saved c. hibernate (room, d) = (saved, c) \<and> sized room \<and> normal_versions room \<longrightarrow>
      logical (put_room c) = logical d \<and> registry_ok (put_room c) \<and>
      (saved \<longrightarrow> room_state (fst c) = Sleeping \<and> room_keys (fst c) = []) \<and> (\<not> saved \<longrightarrow> fst c = room)) \<and>
    (\<forall>over awake c. activate over (room, d) = (awake, c) \<and> (\<forall>i. we_read (io_wake (io d) i)) \<longrightarrow>
      logical (put_room c) = logical d \<and> registry_ok (put_room c) \<and>
      (awake \<longrightarrow> room_state (fst c) = Active) \<and> (\<not> awake \<longrightarrow> room_state (fst c) = Sleeping \<and> room_keys (fst c) = []))"
proof (intro conjI allI impI)
  fix saved c
  assume h: "hibernate (room, d) = (saved, c) \<and> sized room \<and> normal_versions room"
  note s = hibernate_step [OF registry_at_rest [OF reg old] _ _ conjunct1 [OF h], simplified, OF conjunct1 [OF conjunct2 [OF h]] active_counted [OF reg old]]
  have st: "room_step name (room, d) c" using s by blast
  show "logical (put_room c) = logical d"
    using logical_put [OF st old] s h logical_held [OF old] by (simp add: fun_eq_iff)
  show "registry_ok (put_room c)" using registry_put [OF reg old] st by (cases c) simp
  show "fst c = room" if "\<not> saved" using s that by simp
  show sl: "room_state (fst c) = Sleeping" if "saved" using s that by simp
  show "room_keys (fst c) = []" if "saved" using sl [OF that] st by (simp add: room_step_def settled_def)
next
  fix over awake c
  assume a: "activate over (room, d) = (awake, c) \<and> (\<forall>i. we_read (io_wake (io d) i))"
  note s = activate_step [OF registry_at_rest [OF reg old] conjunct1 [OF a]]
  have st: "room_step name (room, d) c" using s by blast
  show "logical (put_room c) = logical d"
    using logical_put [OF st old] s a logical_held [OF old] by (simp add: fun_eq_iff)
  show "registry_ok (put_room c)" using registry_put [OF reg old] st by (cases c) simp
  show "room_state (fst c) = Active" if "awake" using s that by simp
  show "room_state (fst c) = Sleeping" "room_keys (fst c) = []" if "\<not> awake" using s that by (auto simp: room_step_def settled_def)
qed

section \<open>A concrete registry\<close>

definition ex_rooms_db :: database where
  "ex_rooms_db = put_room (new_room ''r'', ex_db\<lparr>db_disk := [''room_r.bin'' \<mapsto> snap_bytes ex_kvs]\<rparr>)"

lemma ex_snapshot: "snap_parse (snap_bytes ex_kvs) = Some ex_kvs"
proof -
  have "map entry_view ex_kvs = ex_kvs" by (simp add: ex_kvs_def entry_view_def new_record_def hlc_normalize_def)
  then show ?thesis using snap_parse_roundtrip [OF ex_kvs_ok] by simp
qed

lemma ex_registry: "registry_ok ex_rooms_db" "map_of (rooms ex_rooms_db) ''r'' = Some (new_room ''r'')"
proof -
  have e: "db_eviction ex_db = eviction_init True 100 0" "rooms ex_db = []" "tombstones ex_db = []" "active_rooms ex_db = 0"
    "db_metrics ex_db = metrics_init" by (simp_all add: ex_db_def database_init_def)
  have cold: "cold_get (eviction_init True 100 0) n k = None" for n k by (simp add: cold_get_def eviction_init_def)
  have tiers: "tiers_ok (new_room ''r'') (eviction_init True 100 0)"
    using cold_ok_init by (simp add: tiers_ok_def) (simp add: new_room_def)
  show "map_of (rooms ex_rooms_db) ''r'' = Some (new_room ''r'')" by (simp add: ex_rooms_db_def put_room_def e new_room_def)
  show "registry_ok ex_rooms_db" unfolding registry_ok_def
    using tiers cold cold_ok_init
    by (simp add: ex_rooms_db_def put_room_def e settled_def active_count_def metrics_init_def nested_ok_def al_ok_def) (simp add: new_room_def)
qed

lemma ex_env: "env_ok ex_rooms_db"
  by (simp add: env_ok_def reads_ok_def sane_clock_def ex_rooms_db_def put_room_def ex_db_def database_init_def ex_io_def)
    (simp add: eviction_init_def nget_def inner_def)

section \<open>Properties\<close>

text \<open>
  C17. The life of rooms. Over any run of commands in rooms, wakings, hibernations (of one room, or of all idle ones), removals of
  expired keys and passing of time, the registry invariant holds (counters exact, no key in two tiers), the number of active
  rooms never rises over the limit (or over what it was), and there are log records, all of rooms in which commands ran and handed to the log in this order, such that the
  unexpired keys of every room, with value, expiry and version, are exactly what these records make of the store at the
  beginning: a run without commands changes nothing that can be seen. Hibernating and waking themselves change no key of any room, whether the snapshot
  succeeds or fails and whether waking succeeds or is refused for want of a room slot or of memory; a room that went to sleep holds
  nothing in RAM, and one that could not be saved stays as it was. This asks that snapshots and cold storage can be
  read and that the rooms that are put to sleep hold versions of the hybrid clock.
\<close>

theorem room_lifecycle:
  assumes reg: "registry_ok d"
  shows "(\<forall>names d'. room_run d names d' \<longrightarrow>
      registry_ok d' \<and> active_rooms d' \<le> max (active_rooms d) MAX_ACTIVE_ROOMS \<and>
      (\<exists>rs. logs d d' rs \<and> (\<forall>r \<in> set rs. ar_room r \<in> set names) \<and>
        (\<forall>n. agree (now_ms d') (logical d' n) (redo_changes (logical d n) (filter (\<lambda>r. ar_room r = n) rs))))) \<and>
    (\<forall>name room. map_of (rooms d) name = Some room \<longrightarrow>
      (\<forall>saved c. hibernate (room, d) = (saved, c) \<and> sized room \<and> normal_versions room \<longrightarrow>
        logical (put_room c) = logical d \<and> registry_ok (put_room c) \<and>
        (saved \<longrightarrow> room_state (fst c) = Sleeping \<and> room_keys (fst c) = []) \<and> (\<not> saved \<longrightarrow> fst c = room)) \<and>
      (\<forall>over awake c. activate over (room, d) = (awake, c) \<and> (\<forall>i. we_read (io_wake (io d) i)) \<longrightarrow>
        logical (put_room c) = logical d \<and> registry_ok (put_room c) \<and>
        (awake \<longrightarrow> room_state (fst c) = Active) \<and> (\<not> awake \<longrightarrow> room_state (fst c) = Sleeping \<and> room_keys (fst c) = [])))"
proof (intro conjI allI impI)
  show "registry_ok d'" "active_rooms d' \<le> max (active_rooms d) MAX_ACTIVE_ROOMS"
    "\<exists>rs. logs d d' rs \<and> (\<forall>r \<in> set rs. ar_room r \<in> set names) \<and>
        (\<forall>n. agree (now_ms d') (logical d' n) (redo_changes (logical d n) (filter (\<lambda>r. ar_room r = n) rs)))" if "room_run d names d'" for names d'
    using room_run_told [OF that reg] unfolding told_def by blast+
qed (use sleep_and_wake [OF reg] in blast)+

theorem room_lifecycle_witness:
  "let (reply, d') = execute_in_room ''r'' ''GET'' [''GET'', ''k''] ex_rooms_db; (awake, c) = activate False (new_room ''r'', ex_rooms_db)
   in registry_ok d' \<and> active_rooms d' \<le> MAX_ACTIVE_ROOMS \<and> agree (now_ms d') (logical d' ''s'') (logical ex_rooms_db ''s'') \<and>
     logical (put_room c) = logical ex_rooms_db \<and> logical ex_rooms_db ''r'' ''k'' = map_of ex_kvs ''k''"
proof -
  obtain awake c where run: "activate False (new_room ''r'', ex_rooms_db) = (awake, c)" by (meson surj_pair)
  obtain reply d' where ex: "execute_in_room ''r'' ''GET'' [''GET'', ''k''] ex_rooms_db = (reply, d')" by (meson surj_pair)
  then have "execute_in_room ''r'' (upper ([''GET'', ''k''] ! 0)) [''GET'', ''k''] ex_rooms_db = (reply, d')" by (simp add: upper_def toupper_def)
  from room_run.command [OF room_run.start ex_env this] have rr: "room_run ex_rooms_db [''r''] d'" by simp
  have "\<forall>i. we_read (io_wake (io ex_rooms_db) i)" by (simp add: ex_rooms_db_def put_room_def ex_db_def database_init_def ex_io_def)
  note rl = room_lifecycle [OF ex_registry(1)]
  then have "logical (put_room c) = logical ex_rooms_db" using ex_registry(2) run \<open>\<forall>i. we_read (io_wake (io ex_rooms_db) i)\<close> by blast
  moreover have "registry_ok d'" "active_rooms d' \<le> max (active_rooms ex_rooms_db) MAX_ACTIVE_ROOMS" using conjunct1 [OF rl] rr by blast+
  moreover obtain rs where rs: "\<forall>r \<in> set rs. ar_room r \<in> set [''r'']"
    "\<forall>n. agree (now_ms d') (logical d' n) (redo_changes (logical ex_rooms_db n) (filter (\<lambda>r. ar_room r = n) rs))" using conjunct1 [OF rl] rr by blast
  have "filter (\<lambda>r. ar_room r = ''s'') rs = []" using rs(1) by (auto simp: filter_empty_conv)
  then have "agree (now_ms d') (logical d' ''s'') (logical ex_rooms_db ''s'')" using rs(2) [rule_format, of "''s''"] by (simp add: redo_changes_def)
  moreover have "active_rooms ex_rooms_db = 0" by (simp add: ex_rooms_db_def put_room_def ex_db_def database_init_def)
  moreover have "logical ex_rooms_db ''r'' ''k'' = map_of ex_kvs ''k''"
  proof -
    have "shelved ex_rooms_db ''r'' = map_of ex_kvs"
      using ex_snapshot by (simp add: shelved_def ex_rooms_db_def put_room_def snap_filename_def)
    then show ?thesis using ex_registry(2) by (simp add: logical_def new_room_def ex_kvs_def)
  qed
  ultimately show ?thesis by (simp add: run ex)
qed

text \<open>
  C39. An unreadable snapshot is lost (a defect of \<open>activate\<close>, which ignores the result of the load). If
  the file cannot be read when the room is woken, the room is served empty, and the next
  hibernation that succeeds replaces the intact file by an empty snapshot.
\<close>

theorem unreadable_snapshot_lost:
  assumes "room_state room = Sleeping" and "room_keys room = []" and "active_rooms d < MAX_ACTIVE_ROOMS"
    and "fits (db_eviction d) (db_metrics d) 0" and "\<not> we_read (io_wake (io d) (tick d))"
    and "activate False (room, d) = (awake, c)" and "hibernate c = (True, c')"
  shows "awake \<and> map_of (room_keys (fst c)) = Map.empty \<and>
    db_disk (snd c') (snap_filename (room_name room)) = Some (snap_bytes [])"
proof -
  have "wakeup_room (io_wake (io d) (tick d)) (room\<lparr>last_access_time := now_ms d, room_state := Loading\<rparr>) (db_disk d) =
      (False, room\<lparr>last_access_time := now_ms d, room_state := Loading\<rparr>, db_disk d)"
    using assms(5) by (simp add: wakeup_room_def Let_def split: option.split)
  then have a: "awake" "room_keys (fst c) = []" "room_state (fst c) = Active" "room_name (fst c) = room_name room"
    using assms(1-4,6) by (auto simp: activate_def Let_def keys_cost_def db_charge_def charge_def count_key_def)
  obtain room1 d1 where c: "c = (room1, d1)" by fastforce
  obtain saved room2 dk where h: "hibernate_room (io_snap (io d1) (tick d1)) (room1\<lparr>room_state := Hibernating\<rparr>) (db_disk d1) = (saved, room2, dk)"
    by (metis prod_cases3)
  have s: "saved" and disk: "db_disk (snd c') = dk" using assms(7) a(3) h
    by (auto simp: c hibernate_def Let_def db_charge_def charge_def count_key_def split: if_splits)
  have "dk (snap_filename (room_name room1)) = Some (snap_bytes (room_keys room1))"
    using h s snap_write_ok [of "io_snap (io d1) (tick d1)" "room_keys room1"]
    by (auto simp: hibernate_room_def Let_def split: if_splits)
  then show ?thesis using a disk by (simp add: c)
qed

theorem unreadable_snapshot_lost_witness:
  "let d = ex_rooms_db\<lparr>io := ex_io\<lparr>io_wake := (\<lambda>_. \<lparr>we_read = False, we_rename = True, we_now_ms = 0\<rparr>)\<rparr>\<rparr>;
       (awake, c) = activate False (new_room ''r'', d); (saved, c') = hibernate c
   in db_disk d ''room_r.bin'' = Some (snap_bytes ex_kvs) \<and> saved \<and> db_disk (snd c') ''room_r.bin'' = Some (snap_bytes [])"
proof -
  define d where "d = ex_rooms_db\<lparr>io := ex_io\<lparr>io_wake := (\<lambda>_. \<lparr>we_read = False, we_rename = True, we_now_ms = 0\<rparr>)\<rparr>\<rparr>"
  obtain awake c where a: "activate False (new_room ''r'', d) = (awake, c)" by (meson surj_pair)
  obtain saved c' where h: "hibernate c = (saved, c')" by (meson surj_pair)
  have e: "active_rooms d = 0" "db_disk d = [''room_r.bin'' \<mapsto> snap_bytes ex_kvs]" "max_bytes (db_eviction d) = 0"
    "io d = ex_io\<lparr>io_wake := (\<lambda>_. \<lparr>we_read = False, we_rename = True, we_now_ms = 0\<rparr>)\<rparr>"
    by (simp_all add: d_def ex_rooms_db_def put_room_def ex_db_def database_init_def eviction_init_def)
  have c: "room_keys (fst c) = []" "room_state (fst c) = Active" "io (snd c) = io d"
    using a e by (auto simp: activate_def Let_def new_room_def MAX_ACTIVE_ROOMS_def fits_def wakeup_room_def ex_io_def
      db_charge_def charge_def count_key_def split: option.splits)
  have "writes_ok (io_snap ex_io i) (length (snap_bytes []))" for i
    by (auto simp: writes_ok_def write_all_def ex_io_def snap_bytes_def)
  from snap_write_succeeds [OF this] have s: "saved" using h c e(4)
    by (cases c) (auto simp: hibernate_def hibernate_room_def Let_def ex_io_def split: if_splits prod.splits)
  have "db_disk (snd c') ''room_r.bin'' = Some (snap_bytes [])"
    using unreadable_snapshot_lost [OF _ _ _ _ _ a] h s e by (simp add: new_room_def MAX_ACTIVE_ROOMS_def fits_def snap_filename_def)
  then show ?thesis using a h s e by (simp add: Let_def d_def [symmetric])
qed

end
