(* ===== verification/Persistence.thy ===== *)
theory Persistence
  imports Rooms
begin

text \<open>
  Persistence, \<^verbatim>\<open>src/src/core/persistence.cpp\<close>, and the constructor of \<^verbatim>\<open>database.cpp\<close>: dumping the
  state, rewriting the log (synchronously and in a forked child), replaying it at start.

  The forked child sees the memory and the files as they are at the fork; it is run to its end
  there, and its result and what it wrote are looked at when the parent reaps it.
\<close>

section \<open>Dumping the state\<close>

type_synonym 'w writer = "AofRecord \<Rightarrow> 'w \<Rightarrow> bool \<times> 'w"

definition set_record :: "string \<Rightarrow> string \<Rightarrow> Record \<Rightarrow> AofRecord" where
  "set_record room key r =
     \<lparr>ar_room = room, ar_args = [''SET'', key, rec_value r], ar_expire_at = expire_at r, ar_timestamp_ms = timestamp_ms r,
      ar_node_id = node_id r\<rparr>"

definition del_record :: "string \<Rightarrow> string \<Rightarrow> version \<Rightarrow> AofRecord" where
  "del_record room key v =
     \<lparr>ar_room = room, ar_args = [''DEL'', key], ar_expire_at = 0, ar_timestamp_ms = v_ts v, ar_node_id = v_node v\<rparr>"

definition emit :: "'w writer \<Rightarrow> int \<Rightarrow> bool \<times> 'w \<Rightarrow> string \<times> string \<times> Record \<Rightarrow> bool \<times> 'w" where
  "emit write now = (\<lambda>(ok, w) (room, key, r). if ok \<and> \<not> expired r now then write (set_record room key r) w else (ok, w))"

text \<open>The records of one room: those in RAM, or those of the snapshot, read into a temporary room.\<close>

definition room_source :: "wake_env \<Rightarrow> string \<Rightarrow> Room \<Rightarrow> disk \<Rightarrow> bool \<times> (string \<times> Record) list \<times> disk" where
  "room_source env name room dk =
     (if room_state room = Sleeping then
        (if has_snapshot name dk
         then (case wakeup_room env (new_room name) dk of (loaded, snapshot, dk1) \<Rightarrow> (loaded, room_keys snapshot, dk1))
         else (True, room_keys (new_room name), dk))
      else (True, room_keys room, dk))"

fun dump_rooms :: "(nat \<Rightarrow> wake_env) \<Rightarrow> 'w writer \<Rightarrow> int \<Rightarrow> nat \<Rightarrow> (string \<times> Room) list \<Rightarrow> disk \<Rightarrow> 'w \<Rightarrow> bool \<times> disk \<times> 'w" where
  "dump_rooms env write now i [] dk w = (True, dk, w)"
| "dump_rooms env write now i ((name, room) # rs) dk w =
     (case room_source (env i) name room dk of
        (loaded, kvs, dk1) \<Rightarrow>
          (case foldl (emit write now) (loaded, w) (map (\<lambda>(k, r). (name, k, r)) kvs) of
             (ok, w1) \<Rightarrow> if \<not> ok then (False, dk1, w1) else dump_rooms env write now (Suc i) rs dk1 w1))"

definition emit_tomb :: "'w writer \<Rightarrow> bool \<times> 'w \<Rightarrow> string \<times> string \<times> version \<Rightarrow> bool \<times> 'w" where
  "emit_tomb write = (\<lambda>(ok, w) (room, key, v). if ok then write (del_record room key v) w else (ok, w))"

definition dump_state :: "'w writer \<Rightarrow> database \<Rightarrow> 'w \<Rightarrow> bool \<times> disk \<times> 'w" where
  "dump_state write d w =
     (case dump_rooms (\<lambda>i. io_wake (io d) (tick d + i)) write (now_ms d) 0 (rooms d) (db_disk d) w of
        (ok, dk, w1) \<Rightarrow>
          if \<not> ok then (False, dk, w1)
          else
            (case cold_for_each (\<lambda>i. io_read (io d) (tick d + i)) 0 (cold_file (db_eviction d)) (nitems (cold_index (db_eviction d))) of
               (items, complete) \<Rightarrow>
                 (case foldl (emit write (now_ms d)) (True, w1) items of
                    (ok2, w2) \<Rightarrow>
                      (case foldl (emit_tomb write) (ok2 \<and> complete, w2) (nitems (tombstones d)) of
                         (ok3, w3) \<Rightarrow> (ok3, dk, w3)))))"

text \<open>Calls of the schedule that a dump may use up.\<close>

definition spent :: "database \<Rightarrow> nat" where
  "spent d = length (rooms d) + length (nitems (cold_index (db_eviction d)))"

section \<open>Rewriting the log\<close>

definition discard_active_snapshots :: "database \<Rightarrow> database" where
  "discard_active_snapshots d =
     d\<lparr>db_disk := foldl (\<lambda>dk (name, room). if room_state room \<noteq> Sleeping then discard name dk else dk) (db_disk d) (rooms d)\<rparr>"

definition rewrite_writer :: "io_env \<Rightarrow> (aof \<times> nat) writer" where
  "rewrite_writer env r = (\<lambda>(a, n). case append_rewrite (io_dump env n) r a of (ok, a1) \<Rightarrow> (ok, a1, Suc n))"

definition rewrite_aof :: "database \<Rightarrow> bool \<times> database" where
  "rewrite_aof d =
     (case start_rewrite (fst (io_start (io d) (tick d))) (snd (io_start (io d) (tick d))) (db_aof d) of
        (started, a) \<Rightarrow>
          let d0 = d\<lparr>db_aof := a, tick := Suc (tick d)\<rparr> in
          if \<not> started then (False, d0)
          else
            let d1 = discard_active_snapshots d0 in
            (case dump_state (rewrite_writer (io d1)) d1 (db_aof d1, tick d1) of
               (ok, dk, a1, n) \<Rightarrow>
                 if \<not> ok then (False, d1\<lparr>db_disk := dk, db_aof := abort_rewrite a1, tick := n + spent d1\<rparr>)
                 else
                   (case commit_rewrite (io_commit (io d1) n) a1 of
                      (done, a2) \<Rightarrow> (done, d1\<lparr>db_disk := dk, db_aof := a2, tick := Suc (n + spent d1)\<rparr>))))"

text \<open>The child's writer: its own flag, a buffer, what reached the file, and a count of calls.\<close>

record child =
  ch_ok :: bool
  ch_buf :: string
  ch_out :: string
  ch_calls :: nat

definition child_writer :: "(nat \<Rightarrow> sysret list) \<Rightarrow> child writer" where
  "child_writer sys r c =
     (let c1 = c\<lparr>ch_buf := ch_buf c @ encode_record r\<rparr>;
          c2 = (if length (ch_buf c1) \<ge> 65536 then
                  (case write_all (sys (ch_calls c1)) (ch_buf c1) of
                     (ok, k) \<Rightarrow> c1\<lparr>ch_ok := ok, ch_out := ch_out c1 @ take k (ch_buf c1), ch_buf := [], ch_calls := Suc (ch_calls c1)\<rparr>)
                else c1)
      in (ch_ok c2, c2))"

definition run_child :: "database \<Rightarrow> bool \<times> disk \<times> string" where
  "run_child d =
     (let sys = (\<lambda>i. io_dump (io d) (tick d + i)) in
      case dump_state (child_writer sys) d \<lparr>ch_ok = True, ch_buf = [], ch_out = [], ch_calls = 0\<rparr> of
        (ok, dk, c) \<Rightarrow>
          if \<not> ok then (False, dk, ch_out c)
          else
            (case write_all (sys (ch_calls c)) (ch_buf c) of
               (wrote, k) \<Rightarrow> (wrote \<and> io_childsync (io d) (tick d), dk, ch_out c @ take k (ch_buf c))))"

definition start_background_rewrite :: "database \<Rightarrow> string \<times> database" where
  "start_background_rewrite d =
     (if rewrite_child d then (err ''AOF rewrite already in progress'', d)
      else
        (case start_rewrite (fst (io_start (io d) (tick d))) (snd (io_start (io d) (tick d))) (db_aof d) of
           (started, a) \<Rightarrow>
             let d0 = d\<lparr>db_aof := a, tick := Suc (tick d)\<rparr> in
             if \<not> started then (err ''AOF rewrite failed, previous AOF kept'', d0)
             else
               let d1 = (discard_active_snapshots d0)\<lparr>rewrite_from := aof_size a\<rparr> in
               if \<not> io_fork (io d1) (tick d1)
               then (err ''AOF rewrite failed (fork), previous AOF kept'', d1\<lparr>db_aof := abort_rewrite (db_aof d1), tick := Suc (tick d1)\<rparr>)
               else
                 (case run_child d1 of
                    (result, dk, out) \<Rightarrow>
                      (''+Background AOF rewrite started'' @ CRLF,
                       d1\<lparr>db_disk := dk, db_aof := (db_aof d1)\<lparr>aof_tmp := Some (tmp_of (db_aof d1) @ out)\<rparr>,
                          rewrite_child := True, rewrite_result := result, tick := Suc (tick d1 + spent d1)\<rparr>))))"

definition finish_background_rewrite :: "database \<Rightarrow> database" where
  "finish_background_rewrite d =
     (if \<not> rewrite_child d then d
      else
        let d0 = d\<lparr>tick := Suc (tick d)\<rparr> in
        (case io_child (io d) (tick d) of
           None \<Rightarrow> d0
         | Some normal \<Rightarrow>
             let d1 = d0\<lparr>rewrite_child := False\<rparr> in
             if \<not> (normal \<and> rewrite_result d) then d1\<lparr>db_aof := abort_rewrite (db_aof d1)\<rparr>
             else
               (case append_tail (io_tail (io d) (tick d)) (rewrite_from d1) (db_aof d1) of
                  (tail, a1) \<Rightarrow>
                    if \<not> tail then d1\<lparr>db_aof := abort_rewrite a1\<rparr>
                    else
                      (case commit_rewrite (io_commit (io d) (tick d)) a1 of
                         (done, a2) \<Rightarrow> d1\<lparr>db_aof := (if done then a2 else abort_rewrite a2)\<rparr>))))"

section \<open>Replaying the log\<close>

definition replay_put :: "int \<Rightarrow> string \<Rightarrow> string \<Rightarrow> u64 \<Rightarrow> u64 \<Rightarrow> cell \<Rightarrow> cell" where
  "replay_put ex key val ts node c =
     (case (case map_of (room_keys (fst c)) key of Some r \<Rightarrow> (r, c) | None \<Rightarrow> (new_record, insert_rec key c)) of
        (r, c1) \<Rightarrow>
          on_db (\<lambda>d. d\<lparr>clock := clock_observe (clock d) (hlc_normalize ts)\<rparr>)
            (assign key r val ex (hlc_normalize ts) (ucast node) c1))"

fun replay_pairs :: "int \<Rightarrow> u64 \<Rightarrow> u64 \<Rightarrow> string list \<Rightarrow> cell \<Rightarrow> cell" where
  "replay_pairs ex ts node (key # val # rest) c = replay_pairs ex ts node rest (replay_put ex key val ts node c)"
| "replay_pairs ex ts node _ c = c"

definition replay_merge :: "AofRecord \<Rightarrow> cell \<Rightarrow> cell" where
  "replay_merge r c =
     (let args = ar_args r in
      case parse_u64 (args ! 3) of
        None \<Rightarrow> c
      | Some ts \<Rightarrow>
          (case parse_u64 (args ! 4) of
             None \<Rightarrow> c
           | Some node \<Rightarrow>
               if unat node > 4294967295 then c else replay_put (ar_expire_at r) (args ! 1) (args ! 2) ts node c))"

definition replay_expire :: "AofRecord \<Rightarrow> cell \<Rightarrow> cell" where
  "replay_expire r c =
     (case map_of (room_keys (fst c)) (ar_args r ! 1) of
        Some x \<Rightarrow> update_rec (ar_args r ! 1) (x\<lparr>expire_at := ar_expire_at r\<rparr>) c
      | None \<Rightarrow> c)"

definition replay_del :: "AofRecord \<Rightarrow> cell \<Rightarrow> cell" where
  "replay_del r c =
     (let key = ar_args r ! 1;
          c1 = (case map_of (room_keys (fst c)) key of Some x \<Rightarrow> erase key x c | None \<Rightarrow> c);
          v = Version (hlc_normalize (ar_timestamp_ms r)) (ar_node_id r)
      in on_db (\<lambda>d. (set_tomb (ar_room r) key v d)\<lparr>clock := clock_observe (clock d) (v_ts v)\<rparr>) c1)"

definition replay_cell :: "AofRecord \<Rightarrow> cell \<Rightarrow> cell" where
  "replay_cell r c =
     (let args = ar_args r; command = upper (args ! 0) in
      if command = ''CRDTMERGE'' \<and> length args \<ge> 5 then replay_merge r c
      else if command = ''SET'' \<and> length args \<ge> 3
      then replay_put (ar_expire_at r) (args ! 1) (args ! 2) (ar_timestamp_ms r) (ucast (ar_node_id r)) c
      else if command = ''MSET'' then replay_pairs (ar_expire_at r) (ar_timestamp_ms r) (ucast (ar_node_id r)) (tl args) c
      else if (command = ''EXPIRE'' \<or> command = ''PEXPIRE'' \<or> command = ''PERSIST'') \<and> length args \<ge> 2 then replay_expire r c
      else if (command = ''DEL'' \<and> length args \<ge> 2) \<or> (command = ''CRDTDEL'' \<and> length args \<ge> 4) then replay_del r c
      else c)"

definition replay_record :: "AofRecord \<Rightarrow> database \<Rightarrow> database" where
  "replay_record r d =
     (if ar_args r = [] then d
      else
        (case find_room (ar_room r) True d of
           (None, d1) \<Rightarrow> d1
         | (Some room, d1) \<Rightarrow> put_room (replay_cell r (snd (activate True (room, d1))))))"

definition construct :: "recover_env \<Rightarrow> open_env \<Rightarrow> database \<Rightarrow> database" where
  "construct re oe d =
     (case recover re (db_aof d) of
        (rs, a) \<Rightarrow>
          let d1 = foldl (\<lambda>d r. replay_record r d) (d\<lparr>db_aof := a\<rparr>) rs;
              d2 = (if needs_rewrite (db_aof d1) then snd (rewrite_aof d1) else d1);
              d3 = d2\<lparr>db_aof := snd (open_file oe (db_aof d2))\<rparr>;
              v = clock_next (clock d3) (now_ms d3) 0
          in d3\<lparr>clock := v, frontier := v\<rparr>)"

section \<open>What replay does to the store\<close>

declare One_nat_def [simp del]

text \<open>
  The meaning of a record for a store. The records that only old logs hold change the expiry of a
  record that is there; all others set or remove keys.
\<close>

definition redo_record :: "(string \<rightharpoonup> Record) \<Rightarrow> AofRecord \<Rightarrow> (string \<rightharpoonup> Record)" where
  "redo_record m r =
     (if ar_args r = [] \<or> plain r then apply_changes m (changes r)
      else if length (ar_args r) \<ge> 2
      then m(ar_args r ! 1 := map_option (\<lambda>x. x\<lparr>expire_at := ar_expire_at r\<rparr>) (m (ar_args r ! 1)))
      else m)"

lemma redo_plain: "\<forall>r \<in> set rs. plain r \<Longrightarrow> foldl redo_record m rs = redo_changes m rs"
  by (induction rs arbitrary: m) (simp_all add: redo_record_def redo_changes_def)

definition replayed :: "string \<Rightarrow> cell \<Rightarrow> cell \<Rightarrow> bool" where
  "replayed name c c' \<longleftrightarrow>
     handled name c c' \<and> db_eviction (snd c') = db_eviction (snd c) \<and> db_aof (snd c') = db_aof (snd c) \<and> io (snd c') = io (snd c) \<and>
     clock (snd c) \<le> clock (snd c') \<and> (nested_ok (tombstones (snd c)) \<longrightarrow> nested_ok (tombstones (snd c')))"

lemma replayed_refl: "cell_ok name c \<Longrightarrow> replayed name c c"
  by (simp add: replayed_def handled_refl)

lemma replayed_trans: "replayed name a b \<Longrightarrow> replayed name b c \<Longrightarrow> replayed name a c"
  unfolding replayed_def by (auto intro: handled_trans)

lemma eviction_frame [simp]:
  "db_eviction (snd (assign key r val ex ts nd c)) = db_eviction (snd c)" "db_eviction (snd (insert_rec key c)) = db_eviction (snd c)"
  "db_eviction (snd (erase key r c)) = db_eviction (snd c)" "db_eviction (set_tomb n k v d) = db_eviction d"
  "io (snd (insert_rec key c)) = io (snd c)" "io (snd (erase key r c)) = io (snd c)" "io (set_tomb n k v d) = io d"
  "tombstones (snd (assign key r val ex ts nd c)) = tombstones (snd c)" "tombstones (snd (insert_rec key c)) = tombstones (snd c)"
  "tombstones (snd (erase key r c)) = tombstones (snd c)"
  by (simp_all add: assign_def set_value_def update_rec_def insert_rec_def emplace_def erase_def set_tomb_def count_tomb_def
      db_charge_def count_key_def case_prod_unfold split: option.split)

lemma clock_observe_ge: "clk \<le> clock_observe clk ts" "ts \<le> clock_observe clk ts"
  by (simp_all add: clock_observe_def)

lemma quiet_observe: "quiet (\<lambda>d. d\<lparr>clock := clock_observe (clock d) ts\<rparr>)"
proof -
  have "\<exists>s. e = e\<lparr>cms := s\<rparr>" for e :: eviction by (rule exI [of _ "cms e"]) simp
  then show ?thesis by (simp add: quiet_def)
qed

lemma replay_put_step:
  assumes ok: "cell_ok name c" and cold: "cold_index (db_eviction (snd c)) = []" and ex: "i64 ex"
  shows "replayed name c (replay_put ex key val ts nd c)"
    "stored_of (replay_put ex key val ts nd c) =
      (stored_of c)(key \<mapsto> \<lparr>rec_value = val, expire_at = ex, timestamp_ms = hlc_normalize ts, node_id = ucast nd\<rparr>)"
    "hlc_normalize ts \<le> clock (snd (replay_put ex key val ts nd c))"
proof -
  obtain room d where c: "c = (room, d)" by fastforce
  define rc where "rc = (case map_of (room_keys (fst c)) key of Some r \<Rightarrow> (r, c) | None \<Rightarrow> (new_record, insert_rec key c))"
  obtain r c1 where rc1: "rc = (r, c1)" by (cases rc)
  have c1: "evolves name c c1" "stored_of c1 = (if map_of (room_keys room) key = None then (stored_of c)(key \<mapsto> new_record) else stored_of c)"
    "map_of (room_keys (fst c1)) key = Some r" "clock (snd c1) = clock d" "db_aof (snd c1) = db_aof d" "db_eviction (snd c1) = db_eviction d"
    "io (snd c1) = io d" "tombstones (snd c1) = tombstones d"
    using rc1 emplace_step [OF ok [unfolded c] _ _ rec_ok_new, of key, folded insert_rec_def] evolves_refl [OF ok] cold
    by (auto simp: rc_def c split: option.splits)
  obtain room1 d1 where c1': "c1 = (room1, d1)" by fastforce
  note a = assign_step [OF evolves_ok [OF c1(1), unfolded c1'] _ ex, of key r val "hlc_normalize ts" "ucast nd", folded c1']
  have a: "evolves name c1 (assign key r val ex (hlc_normalize ts) (ucast nd) c1)"
    "stored_of (assign key r val ex (hlc_normalize ts) (ucast nd) c1) =
      (stored_of c1)(key \<mapsto> \<lparr>rec_value = val, expire_at = ex, timestamp_ms = hlc_normalize ts, node_id = ucast nd\<rparr>)"
    using a c1(3) by (simp_all add: c1')
  let ?f = "\<lambda>d. d\<lparr>clock := clock_observe (clock d) (hlc_normalize ts)\<rparr>"
  have eq: "replay_put ex key val ts nd c = on_db ?f (assign key r val ex (hlc_normalize ts) (ucast nd) c1)"
    using rc1 by (simp add: replay_put_def rc_def)
  note q = quiet_step [OF quiet_observe evolves_ok [OF a(1)], of "hlc_normalize ts"]
  show "replayed name c (replay_put ex key val ts nd c)" unfolding replayed_def eq
    using handled_trans [OF evolves_handled [OF evolves_trans [OF c1(1) a(1)]] q(1)] c1(4-8) clock_observe_ge q(4) by (simp add: c)
  show "stored_of (replay_put ex key val ts nd c) =
      (stored_of c)(key \<mapsto> \<lparr>rec_value = val, expire_at = ex, timestamp_ms = hlc_normalize ts, node_id = ucast nd\<rparr>)"
    using a(2) c1(2) q(2) unfolding eq by auto
  show "hlc_normalize ts \<le> clock (snd (replay_put ex key val ts nd c))" unfolding eq using clock_observe_ge q(4) by simp
qed

lemma replay_pairs_step:
  assumes "cell_ok name c" and "cold_index (db_eviction (snd c)) = []" and "i64 ex"
  shows "replayed name c (replay_pairs ex ts nd kvs c) \<and>
    stored_of (replay_pairs ex ts nd kvs c) = apply_changes (stored_of c) (pair_changes
      (\<lambda>val. \<lparr>rec_value = val, expire_at = ex, timestamp_ms = hlc_normalize ts, node_id = ucast nd\<rparr>) kvs) \<and>
    (pair_keys kvs \<noteq> {} \<longrightarrow> hlc_normalize ts \<le> clock (snd (replay_pairs ex ts nd kvs c)))"
  using assms
proof (induction ex ts nd kvs c rule: replay_pairs.induct)
  case (1 ex ts nd key val rest c)
  note p = replay_put_step [OF "1.prems", where key = key and val = val and ts = ts and nd = nd]
  have c1: "cell_ok name (replay_put ex key val ts nd c)" "db_eviction (snd (replay_put ex key val ts nd c)) = db_eviction (snd c)"
    using p(1) by (auto simp: replayed_def dest: handledD)
  have IH: "replayed name (replay_put ex key val ts nd c) (replay_pairs ex ts nd rest (replay_put ex key val ts nd c))"
    "stored_of (replay_pairs ex ts nd rest (replay_put ex key val ts nd c)) = apply_changes (stored_of (replay_put ex key val ts nd c))
      (pair_changes (\<lambda>val. \<lparr>rec_value = val, expire_at = ex, timestamp_ms = hlc_normalize ts, node_id = ucast nd\<rparr>) rest)"
    using "1.IH" [OF c1(1) _ "1.prems"(3)] c1(2) "1.prems"(2) by simp_all
  have "clock (snd (replay_put ex key val ts nd c)) \<le> clock (snd (replay_pairs ex ts nd rest (replay_put ex key val ts nd c)))"
    using IH(1) by (simp add: replayed_def)
  then have "hlc_normalize ts \<le> clock (snd (replay_pairs ex ts nd rest (replay_put ex key val ts nd c)))" using p(3) by (rule order_trans [rotated])
  then show ?case using replayed_trans [OF p(1) IH(1)] IH(2) p(2) by simp
qed (simp_all add: replayed_refl)

lemma ucast_u32_u64 [simp]: "ucast (ucast (x :: u32) :: u64) = x"
  by (simp add: unsigned_ucast_eq take_bit_word_eq_self)

lemma replay_merge_step:
  assumes "cell_ok name c" and "cold_index (db_eviction (snd c)) = []" and "i64 (ar_expire_at r)"
    and "upper (ar_args r ! 0) = ''CRDTMERGE''" and "5 \<le> length (ar_args r)"
  shows "replayed name c (replay_merge r c) \<and> stored_of (replay_merge r c) = apply_changes (stored_of c) (changes r) \<and>
    (\<forall>k x. (k, Some x) \<in> set (changes r) \<longrightarrow> timestamp_ms x \<le> clock (snd (replay_merge r c)))"
proof -
  have "ar_args r \<noteq> []" using assms(5) by auto
  then show ?thesis using replayed_refl [OF assms(1)] replay_put_step [OF assms(1-3)] assms(4,5)
    by (auto simp: replay_merge_def changes_def Let_def split: option.split)
qed

lemma replay_expire_step:
  assumes ok: "cell_ok name c" and cold: "cold_index (db_eviction (snd c)) = []" and ex: "i64 (ar_expire_at r)"
  shows "replayed name c (replay_expire r c) \<and> stored_of (replay_expire r c) = (stored_of c)(ar_args r ! 1 :=
    map_option (\<lambda>x. x\<lparr>expire_at := ar_expire_at r\<rparr>) (stored_of c (ar_args r ! 1)))"
proof -
  obtain room d where c: "c = (room, d)" by fastforce
  let ?key = "ar_args r ! 1"
  have st: "stored_of c = map_of (room_keys room)" using cold by (auto simp: c stored_of_def stored_def cold_get_def split: option.split)
  show ?thesis
  proof (cases "map_of (room_keys room) ?key")
    case None
    then show ?thesis using replayed_refl [OF ok] by (auto simp: replay_expire_def c st [unfolded c] fun_eq_iff)
  next
    case (Some x)
    note a = assign_step [OF ok [unfolded c] Some ex, where val = "rec_value x" and ts = "timestamp_ms x" and node = "node_id x", folded c]
    have x: "x\<lparr>expire_at := ar_expire_at r\<rparr> = \<lparr>rec_value = rec_value x, expire_at = ar_expire_at r, timestamp_ms = timestamp_ms x, node_id = node_id x\<rparr>"
      by (cases x) simp
    have eq: "replay_expire r c = assign ?key x (rec_value x) (ar_expire_at r) (timestamp_ms x) (node_id x) c"
      using Some update_as_assign [where key = ?key and r = x and ex = "ar_expire_at r" and ts = "timestamp_ms x" and nd = "node_id x" and c = c]
      by (simp add: replay_expire_def c)
    show ?thesis unfolding eq using a evolves_handled [OF a(1)] Some by (simp add: replayed_def st x)
  qed
qed

lemma replay_del_step:
  assumes ok: "cell_ok name c" and cold: "cold_index (db_eviction (snd c)) = []"
  shows "replayed name c (replay_del r c) \<and> stored_of (replay_del r c) = (stored_of c)(ar_args r ! 1 := None)"
proof -
  obtain room d where c: "c = (room, d)" by fastforce
  let ?key = "ar_args r ! 1" and ?v = "Version (hlc_normalize (ar_timestamp_ms r)) (ar_node_id r)"
  define c1 where "c1 = (case map_of (room_keys (fst c)) ?key of Some x \<Rightarrow> erase ?key x c | None \<Rightarrow> c)"
  have st: "stored_of c = map_of (room_keys room)" using cold by (auto simp: c stored_of_def stored_def cold_get_def split: option.split)
  have c1: "evolves name c c1" "stored_of c1 = (stored_of c)(?key := None)" "clock (snd c1) = clock d" "db_aof (snd c1) = db_aof d"
    "db_eviction (snd c1) = db_eviction d" "io (snd c1) = io d" "tombstones (snd c1) = tombstones d"
    using erase_step [OF ok [unfolded c], of ?key] evolves_refl [OF ok] st by (auto simp: c1_def c split: option.split)
  let ?f = "\<lambda>d. (set_tomb (ar_room r) ?key ?v d)\<lparr>clock := clock_observe (clock d) (v_ts ?v)\<rparr>"
  have q: "quiet ?f" using quiet_comp [OF quiet_observe [where ts = "v_ts ?v"] quiet_tombs(1) [where name = "ar_room r" and key = ?key and v = ?v]] by simp
  have eq: "replay_del r c = on_db ?f c1" by (simp add: replay_del_def c1_def Let_def)
  note s = quiet_step [OF q evolves_ok [OF c1(1)]]
  have "nested_ok (tombstones d) \<Longrightarrow> nested_ok (tombstones (?f (snd c1)))" using c1(7) nested_ok_tombs(1) by simp
  then show ?thesis unfolding eq using handled_trans [OF evolves_handled [OF c1(1)] s(1)] s(2,4) c1(2-6) clock_observe_ge(1)
    by (auto simp: replayed_def c)
qed

lemma replay_cell_step:
  assumes ok: "cell_ok name c" and cold: "cold_index (db_eviction (snd c)) = []" and ex: "i64 (ar_expire_at r)" and ne: "ar_args r \<noteq> []"
  shows "replayed name c (replay_cell r c) \<and> stored_of (replay_cell r c) = redo_record (stored_of c) r \<and>
    (\<forall>k x. (k, Some x) \<in> set (changes r) \<longrightarrow> timestamp_ms x \<le> clock (snd (replay_cell r c)))"
proof -
  let ?cmd = "upper (ar_args r ! 0)"
  consider (merge) "?cmd = ''CRDTMERGE''" "5 \<le> length (ar_args r)" | (set) "?cmd = ''SET''" "3 \<le> length (ar_args r)"
    | (mset) "?cmd = ''MSET''" | (expire) "?cmd \<in> {''EXPIRE'', ''PEXPIRE'', ''PERSIST''}" "2 \<le> length (ar_args r)"
    | (del) "(?cmd = ''DEL'' \<and> 2 \<le> length (ar_args r)) \<or> (?cmd = ''CRDTDEL'' \<and> 4 \<le> length (ar_args r))"
    | (none) "\<not> (?cmd = ''CRDTMERGE'' \<and> 5 \<le> length (ar_args r))" "\<not> (?cmd = ''SET'' \<and> 3 \<le> length (ar_args r))" "?cmd \<noteq> ''MSET''"
        "\<not> (?cmd \<in> {''EXPIRE'', ''PEXPIRE'', ''PERSIST''} \<and> 2 \<le> length (ar_args r))"
        "\<not> ((?cmd = ''DEL'' \<and> 2 \<le> length (ar_args r)) \<or> (?cmd = ''CRDTDEL'' \<and> 4 \<le> length (ar_args r)))"
    by blast
  then show ?thesis
  proof cases
    case merge
    then show ?thesis using replay_merge_step [OF ok cold ex merge] by (simp add: replay_cell_def redo_record_def plain_def Let_def)
  next
    case set
    then have "changes r = [(ar_args r ! 1, Some \<lparr>rec_value = ar_args r ! 2, expire_at = ar_expire_at r,
        timestamp_ms = hlc_normalize (ar_timestamp_ms r), node_id = ar_node_id r\<rparr>)]" using ne by (simp add: changes_def Let_def)
    then show ?thesis using set replay_put_step [OF ok cold ex] by (simp add: replay_cell_def redo_record_def plain_def Let_def)
  next
    case mset
    let ?mk = "\<lambda>val. \<lparr>rec_value = val, expire_at = ar_expire_at r, timestamp_ms = hlc_normalize (ar_timestamp_ms r), node_id = ar_node_id r\<rparr>"
    have ch: "changes r = pair_changes ?mk (tl (ar_args r))" using mset ne by (simp add: changes_def Let_def)
    have ts: "pair_keys kvs \<noteq> {} \<and> timestamp_ms x = hlc_normalize (ar_timestamp_ms r)" if "(k, Some x) \<in> set (pair_changes ?mk kvs)" for k x kvs
      using that by (induction ?mk kvs rule: pair_changes.induct) auto
    note p = replay_pairs_step [OF ok cold ex, where ts = "ar_timestamp_ms r" and nd = "ucast (ar_node_id r)" and kvs = "tl (ar_args r)"]
    have eq: "replay_cell r c = replay_pairs (ar_expire_at r) (ar_timestamp_ms r) (ucast (ar_node_id r)) (tl (ar_args r)) c"
      using mset by (simp add: replay_cell_def Let_def)
    show ?thesis using p ts mset unfolding eq ch redo_record_def by (fastforce simp: plain_def)
  next
    case expire
    then have "changes r = []" using ne by (auto simp: changes_def Let_def)
    then show ?thesis using replay_expire_step [OF ok cold ex] expire ne by (auto simp: replay_cell_def redo_record_def plain_def Let_def)
  next
    case del
    then have "changes r = [(ar_args r ! 1, None)]" using ne by (auto simp: changes_def Let_def)
    then show ?thesis using del replay_del_step [OF ok cold, of r] by (auto simp: replay_cell_def redo_record_def plain_def Let_def)
  next
    case none
    have ex': "\<not> ((?cmd = ''EXPIRE'' \<or> ?cmd = ''PEXPIRE'' \<or> ?cmd = ''PERSIST'') \<and> 2 \<le> length (ar_args r))" using none(4) by blast
    have "replay_cell r c = c" "changes r = []"
      unfolding replay_cell_def changes_def Let_def if_not_P [OF none(1)] if_not_P [OF none(2)] if_not_P [OF none(3)] if_not_P [OF none(5)]
        if_not_P [OF ex'] if_not_P [OF ne] by (rule refl)+
    moreover have "redo_record (stored_of c) r = stored_of c" using none(4) calculation(2) unfolding redo_record_def plain_def by auto
    ultimately show ?thesis using replayed_refl [OF ok] by simp
  qed
qed

text \<open>The database while it replays: nothing is in cold storage yet, and the snapshots can be read.\<close>

definition replaying_ok :: "database \<Rightarrow> bool" where
  "replaying_ok d \<longleftrightarrow> registry_ok d \<and> cold_index (db_eviction d) = [] \<and> (\<forall>i. we_read (io_wake (io d) i))"

lemma shelved_cong: "db_disk a (snap_filename n) = db_disk b (snap_filename n) \<Longrightarrow> shelved a n = shelved b n"
  by (simp add: shelved_def)

lemma replay_record_step:
  assumes rp: "replaying_ok d" and ex: "i64 (ar_expire_at r)"
  shows "replaying_ok (replay_record r d) \<and> db_aof (replay_record r d) = db_aof d \<and> now_ms (replay_record r d) = now_ms d \<and>
    clock d \<le> clock (replay_record r d) \<and> shelved (replay_record r d) = shelved d \<and>
    (\<forall>n. logical (replay_record r d) n = (if n = ar_room r then redo_record (logical d n) r else logical d n)) \<and>
    (\<forall>k x. (k, Some x) \<in> set (changes r) \<longrightarrow> timestamp_ms x \<le> clock (replay_record r d)) \<and>
    (\<forall>n. map_of (rooms d) n \<noteq> None \<longrightarrow> map_of (rooms (replay_record r d)) n \<noteq> None) \<and>
    (ar_args r \<noteq> [] \<longrightarrow> map_of (rooms (replay_record r d)) (ar_room r) \<noteq> None)"
proof (cases "ar_args r = []")
  case True
  then show ?thesis using rp by (simp add: replay_record_def redo_record_def changes_def)
next
  case ne: False
  let ?n = "ar_room r"
  have reg: "registry_ok d" and cold: "cold_index (db_eviction d) = []" and rd: "\<forall>i. we_read (io_wake (io d) i)"
    using rp by (simp_all add: replaying_ok_def)
  obtain res d1 where f: "find_room ?n True d = (res, d1)" by (meson surj_pair)
  note fs = find_room_step [OF reg f]
  have d1: "registry_ok d1" "db_eviction d1 = db_eviction d" "io d1 = io d" "db_aof d1 = db_aof d" "now_ms d1 = now_ms d" "clock d1 = clock d"
    "shelved d1 = shelved d" "logical d1 = logical d" "\<forall>n. map_of (rooms d) n \<noteq> None \<longrightarrow> map_of (rooms d1) n \<noteq> None"
    using fs f find_room_logical [OF reg f] by (auto simp: db_step_def find_room_def split: option.splits)
  obtain room where room: "res = Some room" "map_of (rooms d1) ?n = Some room" using fs by auto
  obtain ok c where a: "activate True (room, d1) = (ok, c)" by (meson surj_pair)
  note as = activate_step [OF registry_at_rest [OF d1(1) room(2)] a]
  have awake: "ok" using a by (auto simp: activate_def Let_def db_charge_def charge_def count_key_def split: if_splits prod.splits)
  have c: "cell_ok ?n c" "cold_index (db_eviction (snd c)) = []" "room_state (fst c) = Active"
    using as awake cold d1(2) by (simp_all add: room_step_def)
  note s = replay_cell_step [OF c(1,2) ex ne]
  let ?c' = "replay_cell r c"
  have rp': "replayed ?n c ?c'" and st: "stored_of ?c' = redo_record (stored_of c) r" using s by simp_all
  have d': "replay_record r d = put_room ?c'" using f room a ne by (simp add: replay_record_def)
  have nok: "nested_ok (tombstones (snd ?c'))" using rp' as registry_okD(3) [OF d1(1)] by (simp add: replayed_def)
  have "handled ?n c ?c'" using rp' by (simp add: replayed_def)
  note step = handled_room_step [OF this c(3) nok]
  have full: "room_step ?n (room, d1) ?c'" using room_step_trans [OF _ step] as by blast
  have reg': "registry_ok (replay_record r d)" unfolding d' using registry_put [OF d1(1) room(2)] full by (cases ?c') simp
  have "held ?n ?c' = redo_record (logical d ?n) r"
  proof -
    have "room_state (fst ?c') = Active" using rp' c(3) by (simp add: replayed_def handled_def)
    then have "held ?n ?c' = stored_of ?c'" using held_active [OF _ _] step by (simp add: room_step_def)
    moreover have "stored_of c = logical d ?n" using held_active [OF c(1,3)] as rd d1(3,8) logical_held [OF room(2)] by simp
    ultimately show ?thesis using st by simp
  qed
  then have lg: "\<forall>n. logical (replay_record r d) n = (if n = ?n then redo_record (logical d n) r else logical d n)"
    unfolding d' logical_put [OF full room(2)] using d1(8) by simp
  have put: "db_aof (put_room x) = db_aof (snd x)" "now_ms (put_room x) = now_ms (snd x)" "clock (put_room x) = clock (snd x)"
    "io (put_room x) = io (snd x)" "db_eviction (put_room x) = db_eviction (snd x)" "shelved (put_room x) = shelved (snd x)"
    "map_of (rooms (put_room x)) n = (if n = room_name (fst x) then Some (fst x) else map_of (rooms (snd x)) n)" for x n
    by (cases x; simp add: put_room_def update_conv' fun_eq_iff)+
  have h: "db_aof (snd ?c') = db_aof d" "now_ms (snd ?c') = now_ms d" "io (snd ?c') = io d" "db_eviction (snd ?c') = db_eviction d"
    "clock d \<le> clock (snd ?c')" "db_disk (snd ?c') = db_disk (snd c)" "rooms (snd ?c') = rooms d1" "room_name (fst ?c') = ?n"
  proof -
    have c0: "db_aof (snd c) = db_aof d1" "now_ms (snd c) = now_ms d1" "io (snd c) = io d1" "db_eviction (snd c) = db_eviction d1" "clock (snd c) = clock d1"
      using as by simp_all
    show "db_aof (snd ?c') = db_aof d" "io (snd ?c') = io d" "db_eviction (snd ?c') = db_eviction d" "clock d \<le> clock (snd ?c')"
      using rp' unfolding replayed_def by (simp_all add: c0 d1)
    have hd: "handled ?n c ?c'" using rp' by (simp add: replayed_def)
    show "now_ms (snd ?c') = now_ms d" using handledD(3) [OF hd] by (simp add: c0 d1)
    show "db_disk (snd ?c') = db_disk (snd c)" using hd by (simp add: handled_def)
    show "rooms (snd ?c') = rooms d1" "room_name (fst ?c') = ?n" using full by (auto simp: room_step_def cell_ok_def split: prod.splits)
  qed
  have "shelved (snd ?c') = shelved d"
  proof (rule ext)
    fix n
    have "shelved (snd ?c') n = shelved (snd c) n" by (rule shelved_cong) (simp add: h(6))
    moreover have "room_step ?n (room, d1) c" "shelved (snd c) ?n = shelved d1 ?n" using as by simp_all
    ultimately show "shelved (snd ?c') n = shelved d n"
      using d1(7) shelved_cong [of "snd c" n d1] by (cases "n = ?n") (simp_all add: room_step_def)
  qed
  then have "shelved (replay_record r d) = shelved d" by (simp add: d' put)
  moreover have "replaying_ok (replay_record r d)" using reg' cold rd h(3,4) by (simp add: replaying_ok_def d' put)
  moreover have "\<forall>k x. (k, Some x) \<in> set (changes r) \<longrightarrow> timestamp_ms x \<le> clock (replay_record r d)" using s by (simp add: d' put)
  moreover have "\<forall>n. map_of (rooms d) n \<noteq> None \<longrightarrow> map_of (rooms (replay_record r d)) n \<noteq> None"
    "map_of (rooms (replay_record r d)) ?n \<noteq> None" using d1(9) h(7,8) by (simp_all add: d' put)
  ultimately show ?thesis using lg h(1,2,5) by (simp add: d' put)
qed

definition of_room :: "string \<Rightarrow> AofRecord list \<Rightarrow> AofRecord list" where
  "of_room n rs = filter (\<lambda>r. ar_room r = n) rs"

lemma replay_all:
  "replaying_ok d \<Longrightarrow> \<forall>r \<in> set rs. i64 (ar_expire_at r) \<Longrightarrow> foldl (\<lambda>d r. replay_record r d) d rs = d' \<Longrightarrow>
    replaying_ok d' \<and> db_aof d' = db_aof d \<and> now_ms d' = now_ms d \<and> clock d \<le> clock d' \<and> shelved d' = shelved d \<and>
    (\<forall>n. logical d' n = foldl redo_record (logical d n) (of_room n rs)) \<and>
    (\<forall>r \<in> set rs. (\<forall>k x. (k, Some x) \<in> set (changes r) \<longrightarrow> timestamp_ms x \<le> clock d') \<and>
       (ar_args r \<noteq> [] \<longrightarrow> map_of (rooms d') (ar_room r) \<noteq> None)) \<and>
    (\<forall>n. map_of (rooms d) n \<noteq> None \<longrightarrow> map_of (rooms d') n \<noteq> None)"
proof (induction rs arbitrary: d)
  case Nil
  then show ?case by (simp add: of_room_def)
next
  case (Cons r rs)
  note s = replay_record_step [OF Cons.prems(1), of r]
  note IH = Cons.IH [of "replay_record r d"]
  have IH: "replaying_ok d'" "db_aof d' = db_aof d" "now_ms d' = now_ms d" "clock (replay_record r d) \<le> clock d'" "shelved d' = shelved d"
    "\<And>n. logical d' n = foldl redo_record (logical (replay_record r d) n) (of_room n rs)"
    "\<forall>r \<in> set rs. (\<forall>k x. (k, Some x) \<in> set (changes r) \<longrightarrow> timestamp_ms x \<le> clock d') \<and> (ar_args r \<noteq> [] \<longrightarrow> map_of (rooms d') (ar_room r) \<noteq> None)"
    "\<And>n. map_of (rooms (replay_record r d)) n \<noteq> None \<Longrightarrow> map_of (rooms d') n \<noteq> None"
    using IH s Cons.prems(2,3) by auto
  have s: "clock d \<le> clock (replay_record r d)" "\<And>n. logical (replay_record r d) n = (if n = ar_room r then redo_record (logical d n) r else logical d n)"
    "\<And>k x. (k, Some x) \<in> set (changes r) \<Longrightarrow> timestamp_ms x \<le> clock (replay_record r d)"
    "\<And>n. map_of (rooms d) n \<noteq> None \<Longrightarrow> map_of (rooms (replay_record r d)) n \<noteq> None"
    "ar_args r \<noteq> [] \<Longrightarrow> map_of (rooms (replay_record r d)) (ar_room r) \<noteq> None"
    using s Cons.prems(2) by auto
  have "logical d' n = foldl redo_record (logical d n) (of_room n (r # rs))" for n
    using IH(6) [of n] s(2) [of n] by (simp add: of_room_def)
  then show ?case using IH(1-3,5,7) order_trans [OF s(1) IH(4)] order_trans [OF s(3) IH(4)] IH(8) [OF s(4)] IH(8) [OF s(5)] by auto
qed

section \<open>Durability\<close>

text \<open>
  The database is durable with respect to a log: the log file holds these records (and perhaps a torn
  one after them), the store is what they say, every live key of a snapshot is among them, and the
  rooms that hold something are in the registry.
\<close>

definition all_registered :: "database \<Rightarrow> bool" where
  "all_registered d \<longleftrightarrow> (\<forall>n k. live (now_ms d) (logical d n k) \<noteq> None \<longrightarrow> map_of (rooms d) n \<noteq> None)"

definition covers :: "database \<Rightarrow> AofRecord list \<Rightarrow> bool" where
  "covers d rs \<longleftrightarrow>
     (\<forall>r \<in> set rs. plain r) \<and> all_registered d \<and>
     (\<forall>n. agree (now_ms d) (logical d n) (redo_changes Map.empty (of_room n rs))) \<and>
     (\<forall>n k. live (now_ms d) (shelved d n k) \<noteq> None \<longrightarrow> mentions (of_room n rs) k)"

definition durable :: "database \<Rightarrow> AofRecord list \<Rightarrow> bool" where
  "durable d rs \<longleftrightarrow> log_ok (db_aof d) rs \<and> covers d rs"

lemma coversD:
  assumes "covers d rs"
  shows "r \<in> set rs \<Longrightarrow> plain r" "all_registered d"
    "agree (now_ms d) (logical d n) (redo_changes Map.empty (of_room n rs))"
    "live (now_ms d) (shelved d n k) \<noteq> None \<Longrightarrow> mentions (of_room n rs) k"
  using assms by (auto simp: covers_def)

lemma durableD:
  assumes "durable d rs"
  shows "log_ok (db_aof d) rs" "r \<in> set rs \<Longrightarrow> plain r" "all_registered d"
    "agree (now_ms d) (logical d n) (redo_changes Map.empty (of_room n rs))"
    "live (now_ms d) (shelved d n k) \<noteq> None \<Longrightarrow> mentions (of_room n rs) k"
  using assms coversD [of d rs] by (auto simp: durable_def)

lemma of_room_append [simp]: "of_room n (rs @ us) = of_room n rs @ of_room n us"
  by (simp add: of_room_def)

lemma mentions_room: "mentions (of_room n rs) k \<Longrightarrow> \<exists>r \<in> set rs. ar_room r = n \<and> ar_args r \<noteq> []"
proof -
  have "ar_args r = [] \<Longrightarrow> changes r = []" for r by (simp add: changes_def)
  then show "mentions (of_room n rs) k \<Longrightarrow> \<exists>r \<in> set rs. ar_room r = n \<and> ar_args r \<noteq> []"
    by (force simp: mentions_def of_room_def)
qed

lemma live_redo:
  assumes "live now (redo_changes m rs k) \<noteq> None"
  shows "live now (m k) \<noteq> None \<or> mentions rs k"
  using assms redo_unmentioned [of rs k m] by auto

text \<open>Every step whose records all reached the log keeps the database durable.\<close>

lemma covers_step:
  assumes dur: "covers d LOG" and st: "db_step d rs d'"
  shows "covers d' (LOG @ rs)"
proof -
  note s = st [unfolded db_step_def, folded of_room_def]
  have now: "now_ms d' = now_ms d" using s by simp
  have ag: "agree (now_ms d) (logical d' n) (redo_changes (logical d n) (of_room n rs))" for n using s by simp
  have redo: "agree (now_ms d) (logical d' n) (redo_changes Map.empty (of_room n (LOG @ rs)))" for n
    using agree_trans [OF ag [of n] agree_redo [OF coversD(3) [OF dur, of n]]] by simp
  have old: "mentions (of_room n LOG) k" if "live (now_ms d) (logical d n k) \<noteq> None" for n k
  proof -
    have "live (now_ms d) (redo_changes Map.empty (of_room n LOG) k) \<noteq> None" using coversD(3) [OF dur, of n] that by (simp add: agree_def)
    then show ?thesis using live_redo by (fastforce simp: live_def)
  qed
  have "mentions (of_room n (LOG @ rs)) k" if "live (now_ms d) (shelved d' n k) \<noteq> None" for n k
  proof -
    have "live (now_ms d) (shelved d n k) \<noteq> None \<or> live (now_ms d) (logical d n k) \<noteq> None \<or> mentions (of_room n rs) k"
      using s that by blast
    then show ?thesis using coversD(4) [OF dur] old by auto
  qed
  moreover have "map_of (rooms d') n \<noteq> None" if l: "live (now_ms d) (logical d' n k) \<noteq> None" for n k
  proof -
    have "live (now_ms d) (redo_changes (logical d n) (of_room n rs) k) \<noteq> None" using ag [of n] l by (simp add: agree_def)
    from live_redo [OF this] show ?thesis
    proof
      assume "live (now_ms d) (logical d n k) \<noteq> None"
      then have "map_of (rooms d) n \<noteq> None" using coversD(2) [OF dur] unfolding all_registered_def by blast
      then show ?thesis using s by blast
    next
      assume "mentions (of_room n rs) k"
      then obtain r where "r \<in> set rs" "ar_room r = n" using mentions_room by blast
      then show ?thesis using s by blast
    qed
  qed
  moreover have "\<forall>r \<in> set (LOG @ rs). plain r" using s coversD(1) [OF dur] by auto
  ultimately show ?thesis using redo now unfolding covers_def all_registered_def by metis
qed

lemma durable_step: "durable d LOG \<Longrightarrow> db_step d rs d' \<Longrightarrow> log_ok (db_aof d') (LOG @ rs) \<Longrightarrow> durable d' (LOG @ rs)"
  unfolding durable_def using covers_step by blast

text \<open>A process started on the files that another one left.\<close>

definition reboot :: "u32 \<Rightarrow> nat \<Rightarrow> int \<Rightarrow> nat \<Rightarrow> SyncPolicy \<Rightarrow> u64 \<Rightarrow> nat \<Rightarrow> u64 \<Rightarrow> int \<Rightarrow> io_env \<Rightarrow> string option \<Rightarrow> disk \<Rightarrow> database" where
  "reboot node peers offs max_r pol mn keys mem now env fc dk =
     database_init node peers offs max_r (aof_init pol mn fc) (eviction_init True keys mem) dk now env"

lemma reboot_fields [simp]:
  fixes node peers offs max_r pol mn keys mem now env fc dk
  defines "d \<equiv> reboot node peers offs max_r pol mn keys mem now env fc dk"
  shows "rooms d = []" "db_aof d = aof_init pol mn fc" "db_eviction d = eviction_init True keys mem" "db_disk d = dk" "now_ms d = now"
    "io d = env" "tombstones d = []" "active_rooms d = 0" "db_metrics d = metrics_init" "clock d = 0" "local_node_id d = node"
    "peer_count d = peers" "watermark d = 0"
  by (simp_all add: d_def reboot_def database_init_def)

lemma cold_get_init [simp]: "cold_get (eviction_init b n mx) r k = None"
  by (simp add: cold_get_def eviction_init_def)

lemma reboot_ok:
  assumes "\<forall>i. we_read (io_wake env i)"
  shows "replaying_ok ((reboot node peers offs max_r pol mn keys mem now env fc dk)\<lparr>db_aof := a\<rparr>)"
  using assms cold_ok_init [of True keys mem]
  by (simp add: replaying_ok_def registry_ok_def metrics_init_def nested_ok_def) (simp add: eviction_init_def)

lemma logical_empty: "rooms d = [] \<Longrightarrow> cold_index (db_eviction d) = [] \<Longrightarrow> logical d n = shelved d n"
  by (auto simp: logical_def cold_get_def fun_eq_iff split: option.split)

text \<open>What starting on a log gives: the replayed store, and the log as it was, cut back to its records.\<close>

lemma construct_log:
  assumes log: "log_ok a LOG" and plain: "\<forall>r \<in> set LOG. plain r"
    and env: "re_open re" "length (file_of a) \<le> re_limit re" "\<forall>i. we_read (io_wake env i)"
    and d': "d' = construct re oe (reboot node peers offs max_r pol mn keys mem now env (aof_file a) dk)"
    and sn: "\<And>n. sn n = shelved (reboot node peers offs max_r pol mn keys mem now env (aof_file a) dk) n"
  shows "registry_ok d'" "\<And>n. logical d' n = redo_changes (sn n) (of_room n LOG)" "\<And>n. shelved d' n = sn n"
    "now_ms d' = now" "\<exists>seen. clock d' = clock_next seen now 0 \<and> (\<forall>r \<in> set LOG. \<forall>k x. (k, Some x) \<in> set (changes r) \<longrightarrow> timestamp_ms x \<le> seen)"
    "\<And>r. r \<in> set LOG \<Longrightarrow> ar_args r \<noteq> [] \<Longrightarrow> map_of (rooms d') (ar_room r) \<noteq> None"
proof -
  let ?d0 = "reboot node peers offs max_r pol mn keys mem now env (aof_file a) dk"
  obtain m r where tail: "aofrec_ok r" "m < length (encode_record r)" "aof_file a = Some (log_image LOG @ take m (encode_record r))"
    and ok: "\<forall>x \<in> set LOG. aofrec_ok x" using log by (auto simp: log_ok_def)
  let ?a0 = "aof_init pol mn (aof_file a)"
  have a0: "aof_file ?a0 = Some (log_image LOG @ take m (encode_record r))" "length (file_of ?a0) \<le> re_limit re"
    using tail(3) env(2) by (simp_all add: aof_init_def file_of_def)
  obtain a1 where rec: "recover re ?a0 = (LOG, a1)" "\<not> needs_rewrite a1"
    using recover_log [OF ok tail(1,2) a0(1) env(1) a0(2)] by (simp add: aof_init_def)
  define d1 where "d1 = foldl (\<lambda>d r. replay_record r d) (?d0\<lparr>db_aof := a1\<rparr>) LOG"
  have "\<forall>x \<in> set LOG. i64 (ar_expire_at x)" using ok by (simp add: aofrec_ok_def)
  note r = replay_all [OF reboot_ok [OF env(3)] this d1_def [symmetric]]
  have l0: "logical (?d0\<lparr>db_aof := a1\<rparr>) n = sn n" for n
    using logical_empty [of "?d0\<lparr>db_aof := a1\<rparr>" n] sn [of n] by (simp add: eviction_init_def shelved_def)
  let ?d3 = "d1\<lparr>db_aof := snd (open_file oe (db_aof d1))\<rparr>" and ?v = "clock_next (clock d1) (now_ms d1) 0"
  have d'1: "d' = ?d3\<lparr>clock := ?v, frontier := ?v\<rparr>" using rec r unfolding d' construct_def by (simp add: d1_def Let_def)
  have lg: "logical (d\<lparr>db_aof := x, clock := c, frontier := f\<rparr>) n = logical d n" "shelved (d\<lparr>db_aof := x, clock := c, frontier := f\<rparr>) n = shelved d n"
    for d :: database and x c f n by (simp_all add: logical_def shelved_def fun_eq_iff split: option.split)
  have "registry_ok (d\<lparr>db_aof := x, clock := c, frontier := f\<rparr>) = registry_ok d" for d :: database and x c f
    unfolding registry_ok_def is_active_def lg by simp
  then show "registry_ok d'" using r by (simp add: d'1 replaying_ok_def)
  have of: "\<forall>r \<in> set (of_room n LOG). plain r" for n using plain by (simp add: of_room_def)
  have r1: "logical d1 n = foldl redo_record (logical (?d0\<lparr>db_aof := a1\<rparr>) n) (of_room n LOG)" "shelved d1 n = shelved ?d0 n" for n
    using r by (simp_all add: shelved_def fun_eq_iff)
  show "logical d' n = redo_changes (sn n) (of_room n LOG)" for n
    unfolding d'1 lg r1 l0 by (rule redo_plain [OF of])
  show "shelved d' n = sn n" for n unfolding d'1 lg r1 sn ..
  show "now_ms d' = now" using r by (simp add: d'1)
  show "\<exists>seen. clock d' = clock_next seen now 0 \<and> (\<forall>r \<in> set LOG. \<forall>k x. (k, Some x) \<in> set (changes r) \<longrightarrow> timestamp_ms x \<le> seen)"
    using r by (intro exI [of _ "clock d1"]) (simp add: d'1)
  show "r \<in> set LOG \<Longrightarrow> ar_args r \<noteq> [] \<Longrightarrow> map_of (rooms d') (ar_room r) \<noteq> None" for r using r by (simp add: d'1)
qed

lemma durable_recovered:
  assumes dur: "durable d LOG" and now: "now_ms d \<le> now" and sn: "\<And>n. shelved d n = sn n"
  shows "agree now (redo_changes (sn n) (of_room n LOG)) (logical d n)"
    "live now (sn n k) \<noteq> None \<Longrightarrow> mentions (of_room n LOG) k"
proof -
  have dead: "live now x = None" if "live (now_ms d) x = None" for x
    using that now by (cases x) (auto simp: live_def expired_def split: if_splits)
  have "live now (redo_changes (sn n) (of_room n LOG) k) = live now (redo_changes Map.empty (of_room n LOG) k)" for k
  proof (cases "mentions (of_room n LOG) k")
    case True
    then show ?thesis using redo_mentioned [OF True, of "sn n" Map.empty] by simp
  next
    case False
    then have "live now (sn n k) = None" using durableD(5) [OF dur, of n k] dead sn by auto
    then show ?thesis using redo_unmentioned [OF False] by simp
  qed
  then have "agree now (redo_changes (sn n) (of_room n LOG)) (redo_changes Map.empty (of_room n LOG))" by (simp add: agree_def)
  then show "agree now (redo_changes (sn n) (of_room n LOG)) (logical d n)"
    using agree_trans agree_sym [OF agree_later [OF durableD(4) [OF dur] now]] by blast
  show "mentions (of_room n LOG) k" if "live now (sn n k) \<noteq> None"
    using durableD(5) [OF dur, of n k] dead [of "sn n k"] that sn by auto
qed

section \<open>Properties\<close>

text \<open>
  C1. Crash and restart lose nothing. Take a database that is durable with respect to its log; this
  is so after every step whose records all reached the file, as \<open>durable_step\<close> shows, and the file may
  end in a torn record. Kill it, and start again on the files it left, at any later time: the
  constructor terminates in a state with the registry invariant in which every room shows exactly the
  records it showed, values, expiries and versions, whether they were in RAM, in cold storage or in a
  snapshot at the crash; only keys that have expired meanwhile are gone. The restarted database is
  durable again when its log can be opened, and the clock it goes on with was moved past every version in the log.
\<close>

theorem crash_recovery:
  assumes dur: "durable d LOG" and now: "now_ms d \<le> now"
    and env: "re_open re" "length (file_of (db_aof d)) \<le> re_limit re" "\<forall>i. we_read (io_wake env i)"
    and d': "d' = construct re oe (reboot node peers offs max_r pol mn keys mem now env (aof_file (db_aof d)) (db_disk d))"
  shows "registry_ok d' \<and> (\<forall>n. agree now (logical d' n) (logical d n)) \<and>
    (log_ok (db_aof d') LOG \<longrightarrow> durable d' LOG) \<and>
    (\<exists>seen. clock d' = clock_next seen now 0 \<and> (\<forall>r \<in> set LOG. \<forall>k x. (k, Some x) \<in> set (changes r) \<longrightarrow> timestamp_ms x \<le> seen))"
proof -
  have sn: "shelved d n = shelved (reboot node peers offs max_r pol mn keys mem now env (aof_file (db_aof d)) (db_disk d)) n" for n
    by (rule shelved_cong) simp
  have plain: "\<forall>r \<in> set LOG. plain r" using durableD(2) [OF dur] by blast
  note c = construct_log [OF durableD(1) [OF dur] plain env d' sn]
  note rc = durable_recovered [OF dur now, of "shelved d", OF refl]
  have ag: "agree now (logical d' n) (logical d n)" for n unfolding c(2) by (rule rc(1))
  moreover have "durable d' LOG" if log: "log_ok (db_aof d') LOG"
  proof -
    have m: "mentions (of_room n LOG) k" if "live now (logical d' n k) \<noteq> None" for n k
      using that live_redo [of now "shelved d n" "of_room n LOG" k] rc(2) unfolding c(2) by blast
    have "map_of (rooms d') n \<noteq> None" if "live now (logical d' n k) \<noteq> None" for n k
      using mentions_room [OF m [OF that]] c(6) by auto
    moreover have "agree now (logical d' n) (redo_changes Map.empty (of_room n LOG))" for n
      using agree_trans [OF ag agree_later [OF durableD(4) [OF dur] now]] .
    ultimately show ?thesis using log plain rc(2) unfolding durable_def covers_def all_registered_def c(3,4) by blast
  qed
  ultimately show ?thesis using c(1,5) by blast
qed

text \<open>A database with one key, logged.\<close>

definition ex_kept :: Record where
  "ex_kept = \<lparr>rec_value = ''v'', expire_at = 0, timestamp_ms = 196608000000000, node_id = 7\<rparr>"

definition ex_logged :: database where
  "ex_logged = ex_db\<lparr>rooms := [(''default'', (new_room ''default'')\<lparr>room_state := Active, room_keys := [(''k'', ex_kept)],
         room_bytes := record_cost ''k'' ex_kept\<rparr>)],
     active_rooms := 1, db_metrics := metrics_init\<lparr>resident_bytes := record_cost ''k'' ex_kept, keys_in_ram := 1\<rparr>,
     db_aof := ex_aof\<lparr>aof_file := Some (log_image [set_record ''default'' ''k'' ex_kept]),
       aof_size := length (log_image [set_record ''default'' ''k'' ex_kept])\<rparr>\<rparr>"

lemma changes_set_record:
  "changes (set_record n k r) = [(k, Some (r\<lparr>timestamp_ms := hlc_normalize (timestamp_ms r)\<rparr>))]" "plain (set_record n k r)"
  by (cases r; simp add: changes_def plain_def set_record_def upper_def toupper_def Let_def)+

lemma ex_logged_durable: "durable ex_logged [set_record ''default'' ''k'' ex_kept]" "now_ms ex_logged = 3000000000"
proof -
  let ?r = "set_record ''default'' ''k'' ex_kept"
  have "aofrec_ok ?r" by (simp add: aofrec_ok_def set_record_def ex_kept_def kMaxArgs_def kMaxBulk_def i64_def)
  then have "log_ok (db_aof ex_logged) [?r]" by (intro log_ok_intro) (simp_all add: ex_logged_def ex_aof_def aof_init_def)
  moreover have norm: "changes ?r = [(''k'', Some ex_kept)]"
    unfolding changes_set_record by (simp add: ex_kept_def hlc_normalize_def kLegacyLimit_def)
  moreover have lg: "logical ex_logged n = (if n = ''default'' then [''k'' \<mapsto> ex_kept] else Map.empty)" "shelved ex_logged n = Map.empty" for n
    by (auto simp: ex_logged_def logical_def shelved_def ex_db_def database_init_def fun_eq_iff split: option.split)
  moreover have "of_room n [?r] = (if n = ''default'' then [?r] else [])" for n by (simp add: of_room_def set_record_def)
  ultimately show "durable ex_logged [?r]"
    by (auto simp: durable_def covers_def all_registered_def changes_set_record(2) redo_changes_def) (simp add: ex_logged_def)
  show "now_ms ex_logged = 3000000000" by (simp add: ex_logged_def ex_db_def database_init_def)
qed

theorem crash_recovery_witness:
  "let a = db_aof ex_logged; re = \<lparr>re_open = True, re_limit = length (file_of a), re_trunc = True, re_rename = True\<rparr>;
       oe = \<lparr>oe_open = True, oe_fstat = True, oe_write = [], oe_trunc = True, oe_sync = True\<rparr>;
       d' = construct re oe (reboot 7 1 500 10 Everysec 0 100 0 4000000000 ex_io (aof_file a) (db_disk ex_logged))
   in registry_ok d' \<and> agree 4000000000 (logical d' ''default'') [''k'' \<mapsto> ex_kept]"
proof -
  have "\<forall>i. we_read (io_wake ex_io i)" by (simp add: ex_io_def)
  moreover have "logical ex_logged ''default'' = [''k'' \<mapsto> ex_kept]"
    by (auto simp: ex_logged_def logical_def shelved_def ex_db_def database_init_def fun_eq_iff split: option.split)
  ultimately show ?thesis unfolding Let_def
    using crash_recovery [OF ex_logged_durable(1) _ _ _ _ refl, of 4000000000
      "\<lparr>re_open = True, re_limit = length (file_of (db_aof ex_logged)), re_trunc = True, re_rename = True\<rparr>" ex_io
      "\<lparr>oe_open = True, oe_fstat = True, oe_write = [], oe_trunc = True, oe_sync = True\<rparr>" 7 1 500 10 Everysec 0 100 0]
    by (simp add: ex_logged_durable(2)) metis
qed

declare One_nat_def [simp]

end
