(* ===== verification/Rewrite.thy ===== *)
theory Rewrite
  imports Persistence
begin

text \<open>
  Rewriting the log: what a dump of the state contains, and that replacing the log by it, in the migration at the
  start or from a forked child while commands go on, changes nothing that a restart would show; and the one case in which it does.
\<close>

section \<open>What a dump contains\<close>

definition source :: "database \<Rightarrow> string \<times> Room \<Rightarrow> (string \<times> Record) list" where
  "source d = (\<lambda>(name, room).
     if room_state room = Sleeping then
       (case db_disk d (snap_filename name) of
          None \<Rightarrow> []
        | Some data \<Rightarrow> (case snap_parse data of None \<Rightarrow> [] | Some kvs \<Rightarrow> kvs))
     else room_keys room)"

definition fresh :: "int \<Rightarrow> (string \<times> string \<times> Record) list \<Rightarrow> AofRecord list" where
  "fresh now items = map (\<lambda>(n, k, r). set_record n k r) (filter (\<lambda>(n, k, r). \<not> expired r now) items)"

definition room_items :: "database \<Rightarrow> (string \<times> Room) list \<Rightarrow> (string \<times> string \<times> Record) list" where
  "room_items d rs = concat (map (\<lambda>x. map (\<lambda>(k, r). (fst x, k, r)) (source d x)) rs)"

definition cold_items :: "eviction \<Rightarrow> (string \<times> string \<times> Record) list" where
  "cold_items e = map (\<lambda>(n, k, ref). (n, k, cold_decode (take (cr_len ref) (drop (cr_off ref) (cold_file e))))) (nitems (cold_index e))"

definition tomb_items :: "database \<Rightarrow> AofRecord list" where
  "tomb_items d = map (\<lambda>(n, k, v). del_record n k v) (nitems (tombstones d))"

definition dump_image :: "database \<Rightarrow> AofRecord list" where
  "dump_image d = fresh (now_ms d) (room_items d (rooms d) @ cold_items (db_eviction d)) @ tomb_items d"

lemma fresh_append [simp]: "fresh now (xs @ ys) = fresh now xs @ fresh now ys"
  by (simp add: fresh_def)

text \<open>
  A sink for records: what a successful write adds, and what every write keeps. The dump is written
  once for any sink.
\<close>

locale dump_sink =
  fixes sink :: "'w writer" and keeps :: "'w \<Rightarrow> bool" and holds :: "'w \<Rightarrow> AofRecord list \<Rightarrow> bool" and ok :: "AofRecord \<Rightarrow> bool"
  assumes write_keeps: "keeps w \<Longrightarrow> sink r w = (b, w') \<Longrightarrow> keeps w'"
    and write_holds: "keeps w \<Longrightarrow> holds w img \<Longrightarrow> ok r \<Longrightarrow> sink r w = (True, w') \<Longrightarrow> holds w' (img @ [r])"
begin

lemma emit_all:
  "foldl (emit sink now) (b, w) xs = (b', w') \<Longrightarrow> keeps w \<Longrightarrow>
    keeps w' \<and> (b' \<longrightarrow> b \<and> (holds w img \<and> (\<forall>r \<in> set (fresh now xs). ok r) \<longrightarrow> holds w' (img @ fresh now xs)))"
proof (induction xs arbitrary: b w img)
  case Nil
  then show ?case by (simp add: fresh_def)
next
  case (Cons x xs)
  obtain n k r where x: "x = (n, k, r)" by (metis prod_cases3)
  show ?case
  proof (cases "b \<and> \<not> expired r now")
    case False
    then have "emit sink now (b, w) x = (b, w)" by (auto simp: emit_def x)
    then have "foldl (emit sink now) (b, w) xs = (b', w')" using Cons.prems(1) by simp
    note IH = Cons.IH [OF this Cons.prems(2)]
    show ?thesis
    proof (cases b)
      case True
      then have "fresh now (x # xs) = fresh now xs" using False by (simp add: fresh_def x)
      then show ?thesis using IH by simp
    qed (use IH in blast)
  next
    case True
    obtain b1 w1 where w1: "sink (set_record n k r) w = (b1, w1)" by (meson surj_pair)
    have "foldl (emit sink now) (b1, w1) xs = (b', w')" using Cons.prems(1) True w1 by (simp add: emit_def x)
    note IH = Cons.IH [OF this write_keeps [OF Cons.prems(2) w1]]
    have "fresh now (x # xs) = set_record n k r # fresh now xs" using True by (simp add: fresh_def x)
    then show ?thesis using IH [of "img @ [set_record n k r]"] IH True write_holds [OF Cons.prems(2), of img "set_record n k r" w1] w1 by auto
  qed
qed

lemma emit_tombs:
  "foldl (emit_tomb sink) (b, w) xs = (b', w') \<Longrightarrow> keeps w \<Longrightarrow>
    keeps w' \<and> (b' \<longrightarrow> b \<and> (holds w img \<and> (\<forall>(n, k, v) \<in> set xs. ok (del_record n k v)) \<longrightarrow> holds w' (img @ map (\<lambda>(n, k, v). del_record n k v) xs)))"
proof (induction xs arbitrary: b w img)
  case Nil
  then show ?case by simp
next
  case (Cons x xs)
  obtain n k v where x: "x = (n, k, v)" by (metis prod_cases3)
  obtain b1 w1 where w1: "emit_tomb sink (b, w) x = (b1, w1)" by (meson surj_pair)
  have k1: "keeps w1" using w1 write_keeps [OF Cons.prems(2)] Cons.prems(2) by (auto simp: emit_tomb_def x split: if_splits)
  have "foldl (emit_tomb sink) (b1, w1) xs = (b', w')" using Cons.prems(1) w1 by simp
  note IH = Cons.IH [OF this k1]
  have "b1 \<longrightarrow> b \<and> (holds w img \<and> ok (del_record n k v) \<longrightarrow> holds w1 (img @ [del_record n k v]))"
    using w1 write_holds [OF Cons.prems(2), of img] by (auto simp: emit_tomb_def x split: if_splits)
  then show ?case using IH [of "img @ [del_record n k v]"] IH by (auto simp: x)
qed

lemma dump_rooms_ok:
  "dump_rooms env sink now i rs dk w = (b, dk', w') \<Longrightarrow> db_disk d = dk \<Longrightarrow> keeps w \<Longrightarrow>
    keeps w' \<and> (b \<longrightarrow> dk' = dk \<and>
      (holds w img \<and> (\<forall>r \<in> set (fresh now (room_items d rs)). ok r) \<longrightarrow> holds w' (img @ fresh now (room_items d rs))))"
proof (induction rs arbitrary: i dk w img)
  case Nil
  then show ?case by (simp add: room_items_def fresh_def)
next
  case (Cons x rs)
  obtain name room where x: "x = (name, room)" by fastforce
  obtain loaded kvs dk1 where src: "room_source (env i) name room dk = (loaded, kvs, dk1)" by (metis prod_cases3)
  obtain b1 w1 where e: "foldl (emit sink now) (loaded, w) (map (\<lambda>(k, r). (name, k, r)) kvs) = (b1, w1)" by (meson surj_pair)
  note em = emit_all [OF e Cons.prems(3)]
  have s: "loaded \<longrightarrow> dk1 = dk \<and> kvs = source d x"
    using src Cons.prems(2)
    by (auto simp: room_source_def source_def x has_snapshot_def wakeup_room_def Let_def new_room_def
        split: if_splits prod.splits bool.splits option.splits)
  show ?case
  proof (cases b1)
    case False
    then show ?thesis using Cons.prems(1) src e em by (simp add: x)
  next
    case True
    then have ld: "dk1 = dk" "kvs = source d x" using em s by blast+
    have run: "dump_rooms env sink now (Suc i) rs dk w1 = (b, dk', w')" using Cons.prems(1) src e True ld by (simp add: x)
    have k1: "keeps w1" using em by blast
    note IH = Cons.IH [OF run Cons.prems(2) k1]
    have "room_items d (x # rs) = map (\<lambda>(k, r). (name, k, r)) kvs @ room_items d rs" by (simp add: room_items_def ld x)
    then show ?thesis using IH [of "img @ fresh now (map (\<lambda>(k, r). (name, k, r)) kvs)"] em [of img] True by auto
  qed
qed

lemma dump_ok:
  assumes "dump_state sink d w = (b, dk, w')" and "keeps w"
  shows "keeps w' \<and> (b \<longrightarrow> dk = db_disk d \<and> (holds w img \<and> (\<forall>r \<in> set (dump_image d). ok r) \<longrightarrow> holds w' (img @ dump_image d)))"
proof -
  let ?now = "now_ms d" and ?e = "db_eviction d"
  obtain b1 dk1 w1 where r: "dump_rooms (\<lambda>i. io_wake (io d) (tick d + i)) sink ?now 0 (rooms d) (db_disk d) w = (b1, dk1, w1)" by (metis prod_cases3)
  note dr = dump_rooms_ok [OF r refl assms(2)]
  have k1: "keeps w1" using dr by blast
  show ?thesis
  proof (cases b1)
    case False
    then show ?thesis using assms(1) r k1 by (simp add: dump_state_def)
  next
    case True
    obtain items complete where c: "cold_for_each (\<lambda>i. io_read (io d) (tick d + i)) 0 (cold_file ?e) (nitems (cold_index ?e)) = (items, complete)" by (meson surj_pair)
    obtain b2 w2 where e: "foldl (emit sink ?now) (True, w1) items = (b2, w2)" by (meson surj_pair)
    obtain b3 w3 where t: "foldl (emit_tomb sink) (b2 \<and> complete, w2) (nitems (tombstones d)) = (b3, w3)" by (meson surj_pair)
    have out: "b = b3" "dk = dk1" "w' = w3" using assms(1) r c e t True by (simp_all add: dump_state_def)
    have items: "complete \<longrightarrow> items = cold_items ?e"
    proof -
      have "cold_for_each rd i fc xs = (ys, True) \<Longrightarrow>
          ys = map (\<lambda>(n, k, ref). (n, k, cold_decode (take (cr_len ref) (drop (cr_off ref) fc)))) xs" for rd i fc xs ys
        by (induction xs arbitrary: i ys) (auto split: option.splits prod.splits dest: pread_all_Some)
      then show ?thesis using c by (auto simp: cold_items_def)
    qed
    note em = emit_all [OF e k1]
    have k2: "keeps w2" using em by blast
    note tm = emit_tombs [OF t k2]
    have img: "dump_image d = fresh ?now (room_items d (rooms d)) @ fresh ?now (cold_items ?e) @ tomb_items d" by (simp add: dump_image_def)
    have tomb_ok: "(\<forall>r \<in> set (tomb_items d). ok r) = (\<forall>(n, k, v) \<in> set (nitems (tombstones d)). ok (del_record n k v))"
      by (auto simp: tomb_items_def)
    show ?thesis
    proof (intro conjI impI)
      show "keeps w'" using tm out by blast
      show "dk = db_disk d" using dr True out by blast
      assume b: "b" and h: "holds w img \<and> (\<forall>r \<in> set (dump_image d). ok r)"
      have full: "complete" "b2" using tm b out by blast+
      have "holds w1 (img @ fresh ?now (room_items d (rooms d)))" using dr True h by (simp add: img)
      then have "holds w2 ((img @ fresh ?now (room_items d (rooms d))) @ fresh ?now (cold_items ?e))" using em [of "img @ fresh ?now (room_items d (rooms d))"] full items h by (simp add: img)
      then show "holds w' (img @ dump_image d)"
        using tm [of "(img @ fresh ?now (room_items d (rooms d))) @ fresh ?now (cold_items ?e)"] b out h tomb_ok
        by (simp add: img tomb_items_def)
    qed
  qed
qed

end

text \<open>The synchronous rewrite writes each record to the temporary file; nothing else of the log changes.\<close>

interpretation rewrite_sink: dump_sink "rewrite_writer env" "\<lambda>w. rewrite_fd (fst w) \<and> (\<exists>t. fst w = a\<lparr>aof_tmp := t\<rparr>)" "\<lambda>w. rewriting (fst w)" aofrec_ok for env a
proof unfold_locales
  show "rewrite_fd (fst w') \<and> (\<exists>t. fst w' = a\<lparr>aof_tmp := t\<rparr>)"
    if "rewrite_fd (fst w) \<and> (\<exists>t. fst w = a\<lparr>aof_tmp := t\<rparr>)" "rewrite_writer env r w = (b, w')" for w r b w'
    using that by (cases w) (auto simp: rewrite_writer_def append_rewrite_def split: prod.splits if_splits)
  show "rewriting (fst w') (img @ [r])"
    if "rewrite_fd (fst w) \<and> (\<exists>t. fst w = a\<lparr>aof_tmp := t\<rparr>)" "rewriting (fst w) img" "aofrec_ok r" "rewrite_writer env r w = (True, w')" for w img r w'
    using that append_rewrite_log [of "io_dump env (snd w)" r "fst w" True "fst w'"]
    by (cases w) (auto simp: rewrite_writer_def split: prod.splits)
qed

text \<open>The child's buffer and file together hold the records, as long as its writes succeed.\<close>

interpretation child_sink: dump_sink "child_writer sys" "\<lambda>_. True" "\<lambda>c img. ch_out c @ ch_buf c = concat (map encode_record img)" "\<lambda>_. True" for sys
proof unfold_locales
  show "ch_out w' @ ch_buf w' = concat (map encode_record (img @ [r]))"
    if "ch_out w @ ch_buf w = concat (map encode_record img)" "child_writer sys r w = (True, w')" for w img r w'
    using that write_all_True [of "sys (ch_calls w)" "ch_buf w @ encode_record r"]
    by (auto simp: child_writer_def Let_def split: if_splits prod.splits)
qed simp

lemma run_child_ok:
  assumes "run_child d = (True, dk, out)"
  shows "dk = db_disk d \<and> out = concat (map encode_record (dump_image d))"
proof -
  let ?sys = "\<lambda>i. io_dump (io d) (tick d + i)"
  obtain b dk1 c where run: "dump_state (child_writer ?sys) d \<lparr>ch_ok = True, ch_buf = [], ch_out = [], ch_calls = 0\<rparr> = (b, dk1, c)" by (metis prod_cases3)
  have b: "b" using assms run by (auto simp: run_child_def Let_def split: if_splits)
  then obtain k where wr: "write_all (?sys (ch_calls c)) (ch_buf c) = (True, k)" "out = ch_out c @ take k (ch_buf c)" "dk = dk1"
    using assms run by (auto simp: run_child_def Let_def split: prod.splits)
  show ?thesis using child_sink.dump_ok [OF run, of "[]"] b wr(2,3) write_all_True [OF wr(1)] by simp
qed

section \<open>A dump stands for the store\<close>

definition unexpired :: "int \<Rightarrow> Record option \<Rightarrow> Record option \<Rightarrow> Record option" where
  "unexpired now x y = (case live now x of Some r \<Rightarrow> Some r | None \<Rightarrow> y)"

definition normal :: "Record \<Rightarrow> bool" where
  "normal r \<longleftrightarrow> hlc_normalize (timestamp_ms r) = timestamp_ms r"

lemma redo_fresh_Cons:
  assumes "normal r"
  shows "redo_changes m (of_room n (fresh now ((n1, k1, r) # items))) =
    redo_changes (if n1 = n \<and> \<not> expired r now then m(k1 \<mapsto> r) else m) (of_room n (fresh now items))"
proof -
  have "ar_room (set_record n1 k1 r) = n1" by (simp add: set_record_def)
  then show ?thesis using assms
    by (auto simp: fresh_def of_room_def redo_changes_def changes_set_record normal_def)
qed

lemma redo_one:
  assumes "al_ok kvs" and "\<forall>(k, r) \<in> set kvs. normal r"
  shows "redo_changes m (of_room n (fresh now (map (\<lambda>(k, r). (n1, k, r)) kvs @ items))) k =
    redo_changes (if n1 = n then (\<lambda>k. unexpired now (map_of kvs k) (m k)) else m) (of_room n (fresh now items)) k"
  using assms
proof (induction kvs arbitrary: m)
  case Nil
  then show ?case by (simp add: unexpired_def)
next
  case (Cons x kvs)
  obtain k1 r1 where x: "x = (k1, r1)" by fastforce
  let ?m = "if n1 = n \<and> \<not> expired r1 now then m(k1 \<mapsto> r1) else m"
  have nr: "normal r1" using Cons.prems by (simp add: x)
  have new: "map_of kvs k1 = None" "al_ok kvs" using Cons.prems(1) by (simp_all add: x)
  then have upd: "(\<lambda>k. unexpired now (map_of kvs k) (?m k)) = (\<lambda>k. unexpired now (map_of (x # kvs) k) (m k))" if "n1 = n"
    using that by (auto simp: x unexpired_def live_def fun_eq_iff split: option.split)
  have "redo_changes m (of_room n (fresh now (map (\<lambda>(k, r). (n1, k, r)) (x # kvs) @ items))) k =
      redo_changes ?m (of_room n (fresh now (map (\<lambda>(k, r). (n1, k, r)) kvs @ items))) k"
    using redo_fresh_Cons [OF nr, of m n now n1 k1 "map (\<lambda>(k, r). (n1, k, r)) kvs @ items"] by (simp add: x)
  also have "\<dots> = redo_changes (if n1 = n then (\<lambda>k. unexpired now (map_of kvs k) (?m k)) else ?m) (of_room n (fresh now items)) k"
    by (rule Cons.IH) (use Cons.prems new(2) in \<open>auto simp: x\<close>)
  also have "\<dots> = redo_changes (if n1 = n then (\<lambda>k. unexpired now (map_of (x # kvs) k) (m k)) else m) (of_room n (fresh now items)) k"
    using upd by (cases "n1 = n") simp_all
  finally show ?case .
qed

lemma redo_groups:
  assumes "al_ok g" and "\<forall>(n, kvs) \<in> set g. al_ok kvs \<and> (\<forall>(k, r) \<in> set kvs. normal r)"
  shows "redo_changes m (of_room n (fresh now (nitems g))) k =
    unexpired now (case map_of g n of Some kvs \<Rightarrow> map_of kvs k | None \<Rightarrow> None) (m k)"
  using assms
proof (induction g arbitrary: m)
  case Nil
  then show ?case by (simp add: fresh_def of_room_def unexpired_def)
next
  case (Cons x g)
  obtain n1 kvs where x: "x = (n1, kvs)" by fastforce
  have kv: "al_ok kvs" "\<forall>(k, r) \<in> set kvs. normal r" using Cons.prems(2) by (auto simp: x)
  have items: "nitems (x # g) = map (\<lambda>(k, r). (n1, k, r)) kvs @ nitems g" by (simp add: nitems_def x)
  have "map_of g n1 = None" "al_ok g" using Cons.prems(1) by (simp_all add: x)
  then show ?case unfolding items redo_one [OF kv] using Cons.IH Cons.prems(2) by (auto simp: x unexpired_def)
qed

lemma changes_del_record: "changes (del_record n k v) = [(k, None)]" "ar_room (del_record n k v) = n" "plain (del_record n k v)"
  by (simp_all add: changes_def plain_def del_record_def upper_def toupper_def Let_def)

lemma redo_tombs: "redo_changes m (of_room n (map (\<lambda>(n, k, v). del_record n k v) xs)) k = (if \<exists>v. (n, k, v) \<in> set xs then None else m k)"
proof (induction xs arbitrary: m)
  case Nil
  then show ?case by (simp add: of_room_def)
next
  case (Cons x xs)
  obtain n1 k1 v1 where x: "x = (n1, k1, v1)" by (metis prod_cases3)
  have "redo_changes m (of_room n (map (\<lambda>(n, k, v). del_record n k v) (x # xs))) =
      redo_changes (if n1 = n then m(k1 := None) else m) (of_room n (map (\<lambda>(n, k, v). del_record n k v) xs))"
    by (simp add: of_room_def redo_changes_def x changes_del_record)
  then show ?case using Cons.IH by (auto simp: x)
qed

text \<open>Every record of the store carries a version that reading it back does not change.\<close>

definition all_normal :: "database \<Rightarrow> bool" where
  "all_normal d \<longleftrightarrow> (\<forall>n k r. logical d n k = Some r \<longrightarrow> normal r)"

lemma room_groups: "room_items d rs = nitems (map (\<lambda>x. (fst x, source d x)) rs)"
  by (simp add: room_items_def nitems_def comp_def)

lemma map_of_source: "map_of (map (\<lambda>x. (fst x, source d x)) rs) n = map_option (\<lambda>room. source d (n, room)) (map_of rs n)"
  by (induction rs) auto

lemma map_of_shelf: "room_state room = Sleeping \<Longrightarrow> map_of (source d (n, room)) = shelved d n"
  by (auto simp: source_def shelved_def fun_eq_iff split: option.split)

definition cold_groups :: "eviction \<Rightarrow> (string \<times> (string \<times> Record) list) list" where
  "cold_groups e = map (\<lambda>(n, ks). (n, map (\<lambda>(k, ref). (k, cold_decode (take (cr_len ref) (drop (cr_off ref) (cold_file e))))) ks)) (cold_index e)"

lemma cold_items_groups: "cold_items e = nitems (cold_groups e)"
  by (simp add: cold_items_def nitems_def cold_groups_def map_concat comp_def case_prod_unfold)

lemma map_of_cold_groups:
  "(case map_of (cold_groups e) n of Some kvs \<Rightarrow> map_of kvs k | None \<Rightarrow> None) = cold_get e n k"
  by (simp add: cold_groups_def cold_get_def nget_def inner_def map_of_map_filter_snd split: option.split)

lemma logical_sources:
  assumes "registry_ok d" and "map_of (rooms d) n = Some room"
  shows "logical d n k = (case map_of (source d (n, room)) k of Some r \<Rightarrow> Some r | None \<Rightarrow> cold_get (db_eviction d) n k)"
    "al_ok (source d (n, room))" "map_of (source d (n, room)) k = Some r \<Longrightarrow> cold_get (db_eviction d) n k = None"
proof -
  have st: "settled room" and ti: "tiers_ok room (db_eviction d)" "room_name room = n" using registry_okD [OF assms(1)] assms(2) by blast+
  show "logical d n k = (case map_of (source d (n, room)) k of Some r \<Rightarrow> Some r | None \<Rightarrow> cold_get (db_eviction d) n k)"
    using st assms(2) map_of_shelf [of room d n] by (auto simp: logical_def settled_def source_def)
  show "al_ok (source d (n, room))"
    using tiers_okD(3) [OF ti(1)] snap_parse_ok(1) by (auto simp: source_def split: option.split)
  show "cold_get (db_eviction d) n k = None" if k: "map_of (source d (n, room)) k = Some r"
  proof (cases "room_state room = Sleeping")
    case True
    then show ?thesis using registry_okD(7) [OF assms(1), of n k] k map_of_shelf [OF True, of d n] assms(2) by (simp add: is_active_def)
  next
    case False
    then show ?thesis using k ti by (auto simp: source_def tiers_ok_def cold_get_None)
  qed
qed

lemma cold_groups_ok:
  assumes "registry_ok d" and "all_normal d"
  shows "al_ok (cold_groups (db_eviction d))"
    "\<forall>(n, kvs) \<in> set (cold_groups (db_eviction d)). al_ok kvs \<and> (\<forall>(k, r) \<in> set kvs. normal r)"
proof -
  let ?e = "db_eviction d"
  have nok: "nested_ok (cold_index ?e)" using registry_okD(2) [OF assms(1)] by (simp add: cold_ok_def)
  have keys: "map fst (cold_groups ?e) = map fst (cold_index ?e)" by (simp add: cold_groups_def case_prod_unfold)
  show al: "al_ok (cold_groups ?e)" using nok unfolding al_ok_def keys by (simp add: nested_ok_def al_ok_def)
  have "al_ok kvs \<and> (\<forall>(k, r) \<in> set kvs. normal r)" if grp: "(n, kvs) \<in> set (cold_groups ?e)" for n kvs
  proof -
    obtain ks where "(n, ks) \<in> set (cold_index ?e)"
      "kvs = map (\<lambda>(k, ref). (k, cold_decode (take (cr_len ref) (drop (cr_off ref) (cold_file ?e))))) ks"
      using grp by (auto simp: cold_groups_def)
    then have ks: "(n, ks) \<in> set (cold_index ?e)" "map fst kvs = map fst ks" by (simp_all add: case_prod_unfold)
    have "map_of (cold_index ?e) n = Some ks" using ks(1) nok by (simp add: nested_ok_def al_ok_def)
    then have "al_ok ks" using nok by (auto simp: nested_ok_def)
    then have kv: "al_ok kvs" using ks(2) by (simp add: al_ok_def)
    have "normal r" if "(k, r) \<in> set kvs" for k r
    proof -
      have "map_of (cold_groups ?e) n = Some kvs" using grp al by (simp add: al_ok_def)
      then have cg: "cold_get ?e n k = Some r" using map_of_cold_groups [where e = ?e and n = n and k = k] that kv by (simp add: al_ok_def)
      have "logical d n k = Some r"
      proof (cases "map_of (rooms d) n")
        case None
        then have "shelved d n k = None" using registry_okD(7) [OF assms(1), of n k] cg by (cases "shelved d n k") (auto simp: is_active_def)
        then show ?thesis using None cg by (simp add: logical_def)
      next
        case (Some room)
        then show ?thesis using logical_sources(1,3) [OF assms(1) Some, of k] cg by (auto split: option.splits)
      qed
      then show ?thesis using assms(2) by (simp add: all_normal_def)
    qed
    then show ?thesis using kv by auto
  qed
  then show "\<forall>(n, kvs) \<in> set (cold_groups ?e). al_ok kvs \<and> (\<forall>(k, r) \<in> set kvs. normal r)" by blast
qed

text \<open>What redoing a dump makes of a store, for rooms the registry knows and for others.\<close>

lemma dump_redo_from:
  assumes reg: "registry_ok d" and nm: "all_normal d"
  shows "redo_changes m (of_room n (dump_image d)) k =
    (if nget (tombstones d) n k \<noteq> None then None
     else unexpired (now_ms d) (if map_of (rooms d) n = None then cold_get (db_eviction d) n k else logical d n k) (m k))"
proof -
  let ?now = "now_ms d" and ?e = "db_eviction d"
  let ?g = "map (\<lambda>x. (fst x, source d x)) (rooms d)"
  have rn: "normal r" if "map_of (rooms d) n = Some room" "(k, r) \<in> set (source d (n, room))" for n room k r
  proof -
    have "map_of (source d (n, room)) k = Some r" using logical_sources(2) [OF reg that(1)] that(2) by (simp add: al_ok_def)
    then show ?thesis using logical_sources(1) [OF reg that(1), of k] nm by (auto simp: all_normal_def)
  qed
  have alr: "al_ok (rooms d)" "cold_ok ?e" using registry_okD [OF reg] by blast+
  have mem: "map_of (rooms d) n = Some room" if "(n, room) \<in> set (rooms d)" for n room using alr(1) that by (simp add: al_ok_def)
  have g: "al_ok ?g" "\<forall>(n, kvs) \<in> set ?g. al_ok kvs \<and> (\<forall>(k, r) \<in> set kvs. normal r)"
    using alr(1) mem logical_sources(2) [OF reg] rn by (auto simp: al_ok_def comp_def)
  have c: "al_ok (cold_groups ?e)" "\<forall>(n, kvs) \<in> set (cold_groups ?e). al_ok kvs \<and> (\<forall>(k, r) \<in> set kvs. normal r)"
    using cold_groups_ok [OF reg nm] by blast+
  let ?room = "case map_of ?g n of Some kvs \<Rightarrow> map_of kvs k | None \<Rightarrow> None"
  have "redo_changes m (of_room n (fresh ?now (room_items d (rooms d) @ cold_items ?e))) k =
      unexpired ?now (cold_get ?e n k) (unexpired ?now ?room (m k))"
    unfolding room_groups cold_items_groups fresh_append of_room_append redo_append redo_groups [OF c] redo_groups [OF g] map_of_cold_groups ..
  also have "\<dots> = unexpired ?now (if map_of (rooms d) n = None then cold_get ?e n k else logical d n k) (m k)"
  proof (cases "map_of (rooms d) n")
    case None
    then show ?thesis using map_of_source [of d "rooms d" n] by (simp add: unexpired_def)
  next
    case (Some room)
    show ?thesis using logical_sources(1,3) [OF reg Some, of k] Some map_of_source [of d "rooms d" n]
      by (auto simp: unexpired_def split: option.split)
  qed
  finally show ?thesis
    using redo_tombs [of _ n "nitems (tombstones d)" k] set_nitems [OF registry_okD(3) [OF reg], of n k]
    by (auto simp: dump_image_def tomb_items_def)
qed

lemma dump_redo:
  assumes reg: "registry_ok d" and all: "all_registered d" and nm: "all_normal d"
  shows "redo_changes Map.empty (of_room n (dump_image d)) k =
    (if nget (tombstones d) n k \<noteq> None then None else live (now_ms d) (logical d n k))"
proof (cases "map_of (rooms d) n")
  case None
  let ?now = "now_ms d" and ?e = "db_eviction d"
  have dead: "live ?now (logical d n k) = None" using all None unfolding all_registered_def by blast
  have "live ?now (cold_get ?e n k) = None"
  proof (cases "shelved d n k")
    case (Some r)
    then show ?thesis using registry_okD(7) [OF reg, of n k] None by (simp add: is_active_def)
  qed (use dead None in \<open>simp add: logical_def\<close>)
  then show ?thesis using dump_redo_from [OF reg nm, of Map.empty n k] dead None by (simp add: unexpired_def)
next
  case (Some room)
  then show ?thesis using dump_redo_from [OF reg nm, of Map.empty n k] by (simp add: unexpired_def split: option.split)
qed

section \<open>Replacing the log\<close>

text \<open>Changes of the log, of the schedule and of the snapshots of active rooms are invisible.\<close>

definition same_store :: "database \<Rightarrow> database \<Rightarrow> bool" where
  "same_store d d' \<longleftrightarrow>
     rooms d' = rooms d \<and> db_eviction d' = db_eviction d \<and> tombstones d' = tombstones d \<and> active_rooms d' = active_rooms d \<and>
     db_metrics d' = db_metrics d \<and> now_ms d' = now_ms d \<and> io d' = io d \<and>
     (\<forall>n. shelved d' n = shelved d n \<or> (is_active d n \<and> shelved d' n = Map.empty))"

lemma same_store_keeps:
  assumes "same_store d d'"
  shows "logical d' = logical d" "registry_ok d \<Longrightarrow> registry_ok d'" "is_active d' = is_active d"
proof -
  note s = assms [unfolded same_store_def]
  show act: "is_active d' = is_active d" using s by (simp add: is_active_def fun_eq_iff)
  have sh: "shelved d' n = shelved d n" if "\<not> is_active d n" for n using s that by blast
  show "logical d' = logical d"
    using s sh by (auto simp: logical_def is_active_def fun_eq_iff split: option.splits)
  show "registry_ok d \<Longrightarrow> registry_ok d'" using s sh unfolding registry_ok_def act by simp
qed

lemma same_store_trans: "same_store a b \<Longrightarrow> same_store b c \<Longrightarrow> same_store a c"
  using same_store_keeps(3) [of a b] unfolding same_store_def by (metis (no_types, lifting))

lemma same_store_covers:
  assumes "same_store d d'" and "covers d LOG"
  shows "covers d' LOG"
proof -
  have "live (now_ms d) (shelved d n k) \<noteq> None" if "live (now_ms d) (shelved d' n k) \<noteq> None" for n k
    using assms(1) that unfolding same_store_def by (metis live_simps(1))
  then show ?thesis using assms same_store_keeps(1) [OF assms(1)]
    unfolding covers_def all_registered_def by (simp add: same_store_def)
qed

lemma same_store_durable: "same_store d d' \<Longrightarrow> durable d LOG \<Longrightarrow> log_ok (db_aof d') LOG \<Longrightarrow> durable d' LOG"
  unfolding durable_def using same_store_covers by blast

lemma discard_shelved: "shelved (d\<lparr>db_disk := discard name dk\<rparr>) n = (if n = name then Map.empty else shelved (d\<lparr>db_disk := dk\<rparr>) n)"
  by (auto simp: discard_def has_snapshot_def shelved_def)

lemma discard_same:
  assumes "registry_ok d"
  shows "same_store d (discard_active_snapshots d)" "dump_image (discard_active_snapshots d) = dump_image d"
proof -
  let ?f = "\<lambda>dk (name, room). if room_state room \<noteq> Sleeping then discard name dk else dk"
  have al: "al_ok (rooms d)" using registry_okD(1) [OF assms] .
  have st: "room_state room = Active \<or> room_state room = Sleeping" if "(name, room) \<in> set (rooms d)" for name room
  proof -
    have "map_of (rooms d) name = Some room" using that al by (simp add: al_ok_def)
    then show ?thesis using registry_okD(6) [OF assms] by (auto simp: settled_def)
  qed
  have act: "is_active d n \<longleftrightarrow> (\<exists>room. (n, room) \<in> set (rooms d) \<and> room_state room \<noteq> Sleeping)" for n
    using st al by (fastforce simp: is_active_def al_ok_def map_of_eq_None_iff split: option.splits)
  have fold: "shelved (d\<lparr>db_disk := foldl ?f dk rs\<rparr>) n = (if \<exists>room. (n, room) \<in> set rs \<and> room_state room \<noteq> Sleeping then Map.empty else shelved (d\<lparr>db_disk := dk\<rparr>) n)" for dk rs n
    by (induction rs arbitrary: dk) (auto simp: discard_shelved)
  have sh: "shelved (discard_active_snapshots d) n = (if is_active d n then Map.empty else shelved d n)" for n
    unfolding discard_active_snapshots_def act fold by auto
  then show same: "same_store d (discard_active_snapshots d)" by (auto simp: same_store_def discard_active_snapshots_def)
  have other: "foldl ?f dk rs (snap_filename n) = dk (snap_filename n)" if "\<forall>room. (n, room) \<in> set rs \<longrightarrow> room_state room = Sleeping" for dk rs n
    using that
  proof (induction rs arbitrary: dk)
    case (Cons x rs)
    obtain name room where x: "x = (name, room)" by fastforce
    have "n = name \<Longrightarrow> room_state room = Sleeping" using Cons.prems [rule_format, of room] by (simp add: x)
    then have "?f dk x (snap_filename n) = dk (snap_filename n)" by (simp add: x discard_def)
    moreover have "\<forall>room. (n, room) \<in> set rs \<longrightarrow> room_state room = Sleeping" using Cons.prems by (meson list.set_intros(2))
    ultimately show ?case using Cons.IH by (simp add: x)
  qed simp
  have "source (discard_active_snapshots d) x = source d x" if "x \<in> set (rooms d)" for x
  proof -
    obtain n room where x: "x = (n, room)" by fastforce
    have "room' = room" if "(n, room') \<in> set (rooms d)" for room'
      using that \<open>x \<in> set (rooms d)\<close> al by (simp add: x al_ok_def eq_key_imp_eq_value)
    then have "db_disk (discard_active_snapshots d) (snap_filename n) = db_disk d (snap_filename n)" if "room_state room = Sleeping"
      using other [of n "rooms d" "db_disk d"] that unfolding discard_active_snapshots_def by auto
    then show ?thesis by (simp add: x source_def discard_active_snapshots_def)
  qed
  then have "room_items (discard_active_snapshots d) (rooms d) = room_items d (rooms d)"
    unfolding room_items_def by (metis (no_types, lifting) map_cong)
  then show "dump_image (discard_active_snapshots d) = dump_image d"
    using same by (simp add: dump_image_def tomb_items_def same_store_def)
qed

lemma discard_shelved_active:
  assumes "registry_ok d" and "is_active d n"
  shows "shelved (discard_active_snapshots d) n = Map.empty"
proof -
  let ?f = "\<lambda>dk (name, room). if room_state room \<noteq> Sleeping then discard name dk else dk"
  obtain room where room: "(n, room) \<in> set (rooms d)" "room_state room \<noteq> Sleeping"
    using assms(2) by (auto simp: is_active_def split: option.splits dest: map_of_SomeD)
  have "shelved (d\<lparr>db_disk := foldl ?f dk rs\<rparr>) n = Map.empty" if "(n, room) \<in> set rs \<or> shelved (d\<lparr>db_disk := dk\<rparr>) n = Map.empty" for dk rs
    using that room(2) by (induction rs arbitrary: dk) (auto simp: discard_shelved)
  then show ?thesis using room(1) by (simp add: discard_active_snapshots_def)
qed

lemma dump_rooms_shelved:
  "dump_rooms env sink now i rs dk w = (b, dk', w') \<Longrightarrow> shelved (d\<lparr>db_disk := dk'\<rparr>) n = shelved (d\<lparr>db_disk := dk\<rparr>) n"
proof (induction rs arbitrary: i dk w)
  case (Cons x rs)
  obtain name room where x: "x = (name, room)" by fastforce
  obtain loaded kvs dk1 where src: "room_source (env i) name room dk = (loaded, kvs, dk1)" by (metis prod_cases3)
  have "shelved (d\<lparr>db_disk := dk1\<rparr>) n = shelved (d\<lparr>db_disk := dk\<rparr>) n"
  proof (cases "room_state room = Sleeping \<and> has_snapshot name dk")
    case True
    obtain l sn where w: "wakeup_room (env i) (new_room name) dk = (l, sn, dk1)" using src True by (auto simp: room_source_def split: prod.splits)
    have nr: "room_name (new_room name) = name" "room_keys (new_room name) = []" by (simp_all add: new_room_def)
    note wc = wake_cases [OF w, unfolded nr]
    have "dk1 (snap_filename n) = dk (snap_filename n) \<or>
        (dk1 (snap_filename n) = None \<and> (\<exists>data. dk (snap_filename n) = Some data \<and> snap_parse data = None))"
      using wc by (cases "n = name") blast+
    then show ?thesis by (auto simp: shelved_def)
  qed (use src in \<open>auto simp: room_source_def split: if_splits\<close>)
  moreover obtain b1 w1 where "foldl (emit sink now) (loaded, w) (map (\<lambda>(k, r). (name, k, r)) kvs) = (b1, w1)" by (meson surj_pair)
  ultimately show ?case using Cons src by (cases b1) (auto simp: x)
qed simp

lemma dump_shelved: "dump_state sink d w = (b, dk, w') \<Longrightarrow> shelved (d\<lparr>db_disk := dk\<rparr>) n = shelved d n"
proof -
  assume run: "dump_state sink d w = (b, dk, w')"
  obtain b1 dk1 w1 where r: "dump_rooms (\<lambda>i. io_wake (io d) (tick d + i)) sink (now_ms d) 0 (rooms d) (db_disk d) w = (b1, dk1, w1)" by (metis prod_cases3)
  have "dk = dk1" using run r by (auto simp: dump_state_def split: prod.splits if_splits)
  then have "shelved (d\<lparr>db_disk := dk\<rparr>) n = shelved (d\<lparr>db_disk := db_disk d\<rparr>) n" using dump_rooms_shelved [OF r] by simp
  then show ?thesis by simp
qed

lemma dump_same: "dump_state sink d w = (b, dk, w') \<Longrightarrow> same_store d (d\<lparr>db_disk := dk, db_aof := a, tick := t\<rparr>)"
proof -
  assume "dump_state sink d w = (b, dk, w')"
  note sh = dump_shelved [OF this]
  have "shelved (d\<lparr>db_disk := dk, db_aof := a, tick := t\<rparr>) n = shelved (d\<lparr>db_disk := dk\<rparr>) n" for n by (simp add: shelved_def)
  then show ?thesis using sh by (simp add: same_store_def)
qed

lemma run_child_same: "run_child d = (b, dk, out) \<Longrightarrow> shelved (d\<lparr>db_disk := dk\<rparr>) n = shelved d n"
proof -
  assume run: "run_child d = (b, dk, out)"
  obtain ok dk1 c where r: "dump_state (child_writer (\<lambda>i. io_dump (io d) (tick d + i))) d \<lparr>ch_ok = True, ch_buf = [], ch_out = [], ch_calls = 0\<rparr> = (ok, dk1, c)"
    by (metis prod_cases3)
  have "dk = dk1" using run r by (auto simp: run_child_def Let_def split: prod.splits if_splits)
  then show ?thesis using dump_shelved [OF r] by simp
qed

text \<open>Tombstones of keys that are not in the store.\<close>

definition tombs_apart :: "database \<Rightarrow> bool" where
  "tombs_apart d \<longleftrightarrow> (\<forall>n k. nget (tombstones d) n k \<noteq> None \<longrightarrow> live (now_ms d) (logical d n k) = None)"

lemma plain_dump: "\<forall>r \<in> set (dump_image d). plain r"
  by (auto simp: dump_image_def fresh_def tomb_items_def changes_set_record changes_del_record)

text \<open>A dump stands for the store, once the snapshots of active rooms are gone.\<close>

lemma dump_covers:
  assumes reg: "registry_ok d" and all: "all_registered d" and nm: "all_normal d" and ap: "tombs_apart d"
    and gone: "\<forall>n. is_active d n \<longrightarrow> shelved d n = Map.empty"
  shows "covers d (dump_image d)"
proof -
  let ?now = "now_ms d"
  have redo: "redo_changes Map.empty (of_room n (dump_image d)) k = live ?now (logical d n k)" for n k
    unfolding dump_redo [OF reg all nm] using ap by (simp add: tombs_apart_def)
  have "mentions (of_room n (dump_image d)) k" if l: "live ?now (shelved d n k) \<noteq> None" for n k
  proof -
    have na: "\<not> is_active d n" using gone l by auto
    then have "logical d n k = shelved d n k" using l by (auto simp: logical_def is_active_def split: option.splits)
    then have "live ?now (redo_changes Map.empty (of_room n (dump_image d)) k) \<noteq> None" using redo l by simp
    then show ?thesis using live_redo by fastforce
  qed
  moreover have "agree ?now (logical d n) (redo_changes Map.empty (of_room n (dump_image d)))" for n by (simp add: agree_def redo)
  ultimately show ?thesis using plain_dump all by (simp add: covers_def)
qed

lemma same_store_refl: "rooms d' = rooms d \<Longrightarrow> db_eviction d' = db_eviction d \<Longrightarrow> tombstones d' = tombstones d \<Longrightarrow>
    active_rooms d' = active_rooms d \<Longrightarrow> db_metrics d' = db_metrics d \<Longrightarrow> now_ms d' = now_ms d \<Longrightarrow> io d' = io d \<Longrightarrow>
    db_disk d' = db_disk d \<Longrightarrow> same_store d d'"
  by (simp add: same_store_def shelved_def)

text \<open>
  What a dump needs of the store: the registry invariant, versions that are read back as they are, no tombstone of a key that is in the
  store (which a replay may leave, see \<open>rewrite_after_replay_loses\<close>), and records within the limits of the log format.
\<close>

definition dumpable :: "database \<Rightarrow> bool" where
  "dumpable d \<longleftrightarrow> registry_ok d \<and> all_normal d \<and> tombs_apart d \<and> (\<forall>r \<in> set (dump_image d). aofrec_ok r)"

lemma dump_image_cong:
  "rooms d' = rooms d \<Longrightarrow> db_eviction d' = db_eviction d \<Longrightarrow> tombstones d' = tombstones d \<Longrightarrow> now_ms d' = now_ms d \<Longrightarrow>
    db_disk d' = db_disk d \<Longrightarrow> dump_image d' = dump_image d"
proof -
  have "source d' = source d" if "db_disk d' = db_disk d" using that by (simp add: source_def fun_eq_iff)
  then show "rooms d' = rooms d \<Longrightarrow> db_eviction d' = db_eviction d \<Longrightarrow> tombstones d' = tombstones d \<Longrightarrow> now_ms d' = now_ms d \<Longrightarrow>
    db_disk d' = db_disk d \<Longrightarrow> dump_image d' = dump_image d"
    by (simp add: dump_image_def room_items_def tomb_items_def)
qed

lemma dump_covers_discarded:
  assumes all: "all_registered d" and able: "dumpable d"
  shows "covers (discard_active_snapshots d) (dump_image d)"
proof -
  have reg: "registry_ok d" using able by (simp add: dumpable_def)
  let ?d = "discard_active_snapshots d"
  have full: "same_store d ?d" by (rule discard_same(1) [OF reg])
  note k = same_store_keeps [OF full]
  have now: "now_ms ?d = now_ms d" "tombstones ?d = tombstones d" "rooms ?d = rooms d" using full by (simp_all add: same_store_def)
  have ps: "all_registered ?d" "all_normal ?d" "tombs_apart ?d"
    using all able now unfolding all_registered_def all_normal_def tombs_apart_def dumpable_def k(1) by simp_all
  have "\<forall>n. is_active ?d n \<longrightarrow> shelved ?d n = Map.empty" using discard_shelved_active [OF reg] by (simp add: k(3))
  then show ?thesis using dump_covers [OF k(2) [OF reg] ps] discard_same(2) [OF reg] by simp
qed

text \<open>The dump over the snapshots that are left, read back, is the store.\<close>

lemma dump_over:
  assumes reg: "registry_ok d" and nm: "all_normal d" and ap: "tombs_apart d" and same: "same_store d d'"
    and gone: "\<forall>n. is_active d n \<longrightarrow> shelved d' n = Map.empty"
  shows "agree (now_ms d) (redo_changes (shelved d' n) (of_room n (dump_image d))) (logical d' n)"
proof -
  have "live (now_ms d) (unexpired (now_ms d) (if map_of (rooms d) n = None then cold_get (db_eviction d) n k else logical d n k) (shelved d' n k)) =
      live (now_ms d) (logical d n k)" for k
  proof (cases "is_active d n")
    case True
    then obtain room where "map_of (rooms d) n = Some room" by (auto simp: is_active_def split: option.splits)
    then show ?thesis using gone True by (auto simp: unexpired_def live_def split: option.split)
  next
    case False
    then have "logical d n k = (case shelved d n k of Some r \<Rightarrow> Some r | None \<Rightarrow> cold_get (db_eviction d) n k)"
      by (auto simp: logical_def is_active_def split: option.split)
    moreover have "shelved d' n = shelved d n" using same False by (auto simp: same_store_def)
    ultimately show ?thesis using registry_okD(7) [OF reg False, of k] by (auto simp: unexpired_def live_def split: option.splits)
  qed
  then show ?thesis using ap unfolding same_store_keeps(1) [OF same] agree_def dump_redo_from [OF reg nm] tombs_apart_def by auto
qed

text \<open>
  What the synchronous rewrite does, whatever system calls fail: the store stays as it is, and the log is the file it was or the whole dump.
\<close>

lemma rewrite_aof_effect:
  assumes reg: "registry_ok d" and able: "\<forall>r \<in> set (dump_image d). aofrec_ok r" and fd: "\<not> rewrite_fd (db_aof d)"
    and run: "rewrite_aof d = (ok, d')"
  shows "same_store d d' \<and> aof_corrupt (db_aof d') = aof_corrupt (db_aof d) \<and> frontier d' = frontier d \<and>
    (\<not> ok \<and> aof_file (db_aof d') = aof_file (db_aof d) \<and> needs_rewrite (db_aof d') = needs_rewrite (db_aof d) \<or>
     aof_file (db_aof d') = Some (log_image (dump_image d)) \<and> \<not> needs_rewrite (db_aof d') \<and> (\<forall>n. is_active d n \<longrightarrow> shelved d' n = Map.empty))"
proof -
  obtain started a where st: "start_rewrite (fst (io_start (io d) (tick d))) (snd (io_start (io d) (tick d))) (db_aof d) = (started, a)" by (meson surj_pair)
  note sl = start_rewrite_log [OF st fd]
  have fa: "aof_file a = aof_file (db_aof d)" "needs_rewrite a = needs_rewrite (db_aof d)" "aof_corrupt a = aof_corrupt (db_aof d)"
    using st by (auto simp: start_rewrite_def Let_def split: if_splits prod.splits bool.splits)
  let ?d0 = "d\<lparr>db_aof := a, tick := Suc (tick d)\<rparr>"
  have s0: "same_store d ?d0" by (rule same_store_refl) simp_all
  have reg0: "registry_ok ?d0" using same_store_keeps(2) [OF s0 reg] .
  have im0: "dump_image ?d0 = dump_image d" by (rule dump_image_cong) simp_all
  show ?thesis
  proof (cases started)
    case False
    then have "\<not> ok" "d' = ?d0" using run st by (simp_all add: rewrite_aof_def Let_def)
    then show ?thesis using s0 fa by simp
  next
    case True
    define d1 where "d1 = discard_active_snapshots ?d0"
    have s1: "same_store ?d0 d1" unfolding d1_def by (rule discard_same(1) [OF reg0])
    have d1: "db_aof d1 = a" "io d1 = io d" "frontier d1 = frontier d" by (simp_all add: d1_def discard_active_snapshots_def)
    obtain b dk a1 n where dump: "dump_state (rewrite_writer (io d1)) d1 (db_aof d1, tick d1) = (b, dk, a1, n)" by (metis prod_cases4)
    have im: "dump_image d1 = dump_image d" unfolding d1_def using discard_same(2) [OF reg0] im0 by simp
    have "rewriting a []" using sl True by blast
    then have k: "rewrite_fd (fst (db_aof d1, tick d1)) \<and> (\<exists>t. fst (db_aof d1, tick d1) = a\<lparr>aof_tmp := t\<rparr>)"
      by (auto simp: d1 rewriting_def intro: exI [of _ "aof_tmp a"])
    have w: "\<exists>t. a1 = a\<lparr>aof_tmp := t\<rparr>" "b \<longrightarrow> rewriting a1 (dump_image d)"
      using rewrite_sink.dump_ok [OF dump k, where img = "[]"] \<open>rewriting a []\<close> able im d1(1) by simp_all
    then have f1: "aof_file a1 = aof_file a" "needs_rewrite a1 = needs_rewrite a" "aof_corrupt a1 = aof_corrupt a" by auto
    let ?d2 = "\<lambda>x t. d1\<lparr>db_disk := dk, db_aof := x, tick := t\<rparr>"
    have same: "same_store d (?d2 x t)" for x t using same_store_trans [OF s0 same_store_trans [OF s1 dump_same [OF dump]]] .
    have gone: "shelved (?d2 x t) n = Map.empty" if "is_active d n" for x t n
    proof -
      have "is_active ?d0 n" using that by (simp add: is_active_def)
      then have "shelved d1 n = Map.empty" unfolding d1_def by (rule discard_shelved_active [OF reg0])
      moreover have "shelved (?d2 x t) n = shelved (d1\<lparr>db_disk := dk\<rparr>) n" by (simp add: shelved_def)
      ultimately show ?thesis using dump_shelved [OF dump, of n] by simp
    qed
    show ?thesis
    proof (cases b)
      case False
      then have "\<not> ok" "d' = ?d2 (abort_rewrite a1) (n + spent d1)"
        using run st True dump by (simp_all add: rewrite_aof_def Let_def d1_def)
      then show ?thesis using same fa f1 d1(3) by (simp add: abort_rewrite_def)
    next
      case bt: True
      obtain cm a2 where c: "commit_rewrite (io_commit (io d1) n) a1 = (cm, a2)" by (meson surj_pair)
      have out: "ok = cm" "d' = ?d2 a2 (Suc (n + spent d1))"
        using run st True dump bt c by (simp_all add: rewrite_aof_def Let_def d1_def)
      have "tmp_of a1 = log_image (dump_image d)" using w(2) bt by (simp add: rewriting_def tmp_of_def)
      then have "aof_corrupt a2 = aof_corrupt a1 \<and> (\<not> cm \<and> aof_file a2 = aof_file a1 \<and> needs_rewrite a2 = needs_rewrite a1 \<or>
          aof_file a2 = Some (log_image (dump_image d)) \<and> \<not> needs_rewrite a2)"
        using c by (auto simp: commit_rewrite_def abort_rewrite_def bump_generation_def Let_def split: if_splits)
      then show ?thesis using same gone out fa f1 d1(3) by auto
    qed
  qed
qed

section \<open>Rewriting in the background\<close>

text \<open>
  While a child rewrites, the log grows by \<open>later\<close>; the image the child wrote, followed by these records,
  stands for the store just as the log does.
\<close>

definition shadowed :: "database \<Rightarrow> AofRecord list \<Rightarrow> AofRecord list \<Rightarrow> AofRecord list \<Rightarrow> bool" where
  "shadowed d LOG img later \<longleftrightarrow>
     durable d (LOG @ later) \<and> rewrite_child d \<and> rewrite_fd (db_aof d) \<and> rewrite_from d = length (log_image LOG) \<and>
     (rewrite_result d \<longrightarrow> rewriting (db_aof d) img \<and> covers d (img @ later))"

lemma run_appends_rewrite:
  "rewrite_fd (snd (run_appends xs a)) = rewrite_fd a \<and> aof_tmp (snd (run_appends xs a)) = aof_tmp a"
proof (induction xs arbitrary: a)
  case (Cons x xs)
  obtain env r where x: "x = (env, r)" by fastforce
  obtain ack a1 where ap: "append env r a = (ack, a1)" by fastforce
  have "rewrite_fd a1 = rewrite_fd a \<and> aof_tmp a1 = aof_tmp a"
    using ap by (auto simp: append_def append_fd_def bump_generation_def sync_locked_def Let_def split: if_splits prod.splits bool.splits option.splits)
  then show ?case using Cons by (simp add: x ap case_prod_unfold)
qed simp

lemma shadowed_step:
  assumes sh: "shadowed d LOG img later" and st: "db_step d us d'" and log: "log_ok (db_aof d') (LOG @ later @ us)"
  shows "shadowed d' LOG img (later @ us)"
proof -
  have rw: "side_state d' = side_state d" and lg: "logs d d' us" using st by (simp_all add: db_step_def)
  have fd: "rewrite_fd (db_aof d') = rewrite_fd (db_aof d)" "aof_tmp (db_aof d') = aof_tmp (db_aof d)"
    using lg run_appends_rewrite by (auto simp: logs_def)
  have "durable d' ((LOG @ later) @ us)" using durable_step [OF _ st, of "LOG @ later"] sh log by (simp add: shadowed_def)
  moreover have "rewrite_result d \<Longrightarrow> covers d' ((img @ later) @ us)" using covers_step [OF _ st, of "img @ later"] sh by (simp add: shadowed_def)
  ultimately show ?thesis using sh rw fd by (simp add: shadowed_def rewriting_def)
qed

lemma start_background_ok:
  assumes dur: "durable d LOG" and able: "dumpable d" and idle: "\<not> rewrite_child d" "\<not> rewrite_fd (db_aof d)"
    and run: "start_background_rewrite d = (reply, d')"
  shows "logical d' = logical d \<and> registry_ok d' \<and> now_ms d' = now_ms d \<and>
    (rewrite_child d' \<longrightarrow> shadowed d' LOG (dump_image d) []) \<and>
    (\<not> rewrite_child d' \<longrightarrow> durable d' LOG \<and> \<not> rewrite_fd (db_aof d'))"
proof -
  have reg: "registry_ok d" using able by (simp add: dumpable_def)
  obtain started a where st: "start_rewrite (fst (io_start (io d) (tick d))) (snd (io_start (io d) (tick d))) (db_aof d) = (started, a)" by (meson surj_pair)
  note sl = start_rewrite_log [OF st idle(2), of LOG]
  have la: "log_ok a LOG" using sl durableD(1) [OF dur] by blast
  let ?d0 = "d\<lparr>db_aof := a, tick := Suc (tick d)\<rparr>"
  have s0: "same_store d ?d0" by (rule same_store_refl) simp_all
  have reg0: "registry_ok ?d0" using same_store_keeps(2) [OF s0 reg] .
  have im0: "dump_image ?d0 = dump_image d" by (rule dump_image_cong) simp_all
  have able0: "dumpable ?d0"
    using able reg0 same_store_keeps(1) [OF s0] im0 by (simp add: dumpable_def all_normal_def tombs_apart_def)
  show ?thesis
  proof (cases started)
    case False
    then have "d' = ?d0" using run st idle by (simp add: start_background_rewrite_def Let_def)
    moreover have "\<not> rewrite_fd a" using st False idle by (auto simp: start_rewrite_def Let_def split: if_splits prod.splits bool.splits)
    moreover have "durable ?d0 LOG" by (rule same_store_durable [OF s0 dur]) (simp add: la)
    ultimately show ?thesis using same_store_keeps(1) [OF s0] reg0 idle by simp
  next
    case True
    define d1 where "d1 = (discard_active_snapshots ?d0)\<lparr>rewrite_from := aof_size a\<rparr>"
    have sz: "aof_size a = length (log_image LOG)" using la by (simp add: log_ok_def)
    have "same_store (discard_active_snapshots ?d0) d1" unfolding d1_def by (rule same_store_refl) simp_all
    then have s1: "same_store d d1" "covers d1 (dump_image d)"
      using same_store_trans [OF s0 same_store_trans [OF discard_same(1) [OF reg0]]]
        same_store_covers [OF _ dump_covers_discarded [OF _ able0]] durableD(3) [OF same_store_durable [OF s0 dur]] la im0 by auto
    have d1: "db_aof d1 = a" "rewrite_from d1 = aof_size a" "rewrite_child d1 = rewrite_child d" "tick d1 = Suc (tick d)" "io d1 = io d"
      by (simp_all add: d1_def discard_active_snapshots_def)
    have cov: "covers d1 LOG" using same_store_covers [OF s1(1)] dur by (simp add: durable_def)
    have shl: "shelved (d1\<lparr>db_disk := dk, db_aof := x, rewrite_child := b, rewrite_result := c, tick := t\<rparr>) = shelved (d1\<lparr>db_disk := dk\<rparr>)" for dk x b c t
      by (simp add: shelved_def fun_eq_iff)
    show ?thesis
    proof (cases "io_fork (io d1) (tick d1)")
      case False
      have out: "d' = d1\<lparr>db_aof := abort_rewrite a, tick := Suc (tick d1)\<rparr>"
        using run st True False idle d1 by (simp add: start_background_rewrite_def Let_def d1_def)
      have s2: "same_store d1 d'" unfolding out by (rule same_store_refl) simp_all
      have "log_ok (abort_rewrite a) LOG" "\<not> rewrite_fd (abort_rewrite a)" using la by (simp_all add: abort_rewrite_def)
      then have "durable d' LOG" using same_store_covers [OF s2 cov] by (simp add: durable_def out)
      then show ?thesis using same_store_keeps [OF same_store_trans [OF s1(1) s2]] reg same_store_trans [OF s1(1) s2] idle d1
        by (simp add: out same_store_def abort_rewrite_def)
    next
      case fk: True
      obtain res dk cout where ch: "run_child d1 = (res, dk, cout)" by (metis prod_cases3)
      have out: "d' = d1\<lparr>db_disk := dk, db_aof := a\<lparr>aof_tmp := Some (tmp_of a @ cout)\<rparr>, rewrite_child := True, rewrite_result := res,
          tick := Suc (tick d1 + spent d1)\<rparr>"
        using run st True fk idle d1 ch by (simp add: start_background_rewrite_def Let_def d1_def)
      have s2: "same_store d1 d'" using run_child_same [OF ch] by (simp add: out same_store_def shl)
      have im: "dump_image d1 = dump_image d" unfolding d1_def
        using discard_same(2) [OF reg0] dump_image_cong [of d1 "discard_active_snapshots ?d0"] im0 by (simp add: d1_def)
      have fd: "rewriting a []" using sl True by blast
      have "rewriting (db_aof d') (dump_image d)" if "res"
        using fd run_child_ok [of d1 dk cout] ch that im able by (auto simp: out rewriting_def tmp_of_def log_image_def dumpable_def)
      moreover have "durable d' LOG" using same_store_covers [OF s2 cov] la by (simp add: durable_def out)
      moreover have "covers d' (dump_image d)" using same_store_covers [OF s2 s1(2)] .
      moreover have "rewrite_child d'" "rewrite_fd (db_aof d')" "rewrite_from d' = length (log_image LOG)" "rewrite_result d' = res"
        using fd sz d1 by (simp_all add: out rewriting_def)
      ultimately have "shadowed d' LOG (dump_image d) []" by (simp add: shadowed_def)
      then show ?thesis using same_store_keeps [OF same_store_trans [OF s1(1) s2]] reg same_store_trans [OF s1(1) s2]
        by (simp add: same_store_def out)
    qed
  qed
qed

lemma finish_background_ok:
  assumes sh: "shadowed d LOG img later" and fst: "\<forall>i. cm_fstat (io_commit (io d) i)" and reg: "registry_ok d"
    and run: "finish_background_rewrite d = d'"
  shows "logical d' = logical d \<and> registry_ok d' \<and> now_ms d' = now_ms d \<and>
    (rewrite_child d' \<longrightarrow> shadowed d' LOG img later) \<and>
    (\<not> rewrite_child d' \<longrightarrow> (durable d' (LOG @ later) \<or> durable d' (img @ later)) \<and> \<not> rewrite_fd (db_aof d'))"
proof -
  note s = sh [unfolded shadowed_def]
  have log: "log_ok (db_aof d) (LOG @ later)" and cov: "covers d (LOG @ later)" using s by (simp_all add: durable_def)
  have same: "same_store d (d\<lparr>tick := t, rewrite_child := b, db_aof := x\<rparr>)" for t b x by (rule same_store_refl) simp_all
  note keep = same_store_keeps(1,2) [OF same]
  show ?thesis
  proof (cases "io_child (io d) (tick d)")
    case None
    then have out: "d' = d\<lparr>tick := Suc (tick d), rewrite_child := True, db_aof := db_aof d\<rparr>"
      using run s by (auto simp: finish_background_rewrite_def Let_def)
    have "covers d' rs" if "covers d rs" for rs unfolding out by (rule same_store_covers [OF same that])
    moreover have "logical d' = logical d" "registry_ok d'" unfolding out by (rule keep(1), rule keep(2) [OF reg])
    moreover have "db_aof d' = db_aof d" "now_ms d' = now_ms d" "side_state d' = side_state d" using s by (simp_all add: out)
    ultimately show ?thesis using s by (simp add: shadowed_def durable_def)
  next
    case (Some norm)
    obtain tail a1 where t: "append_tail (io_tail (io d) (tick d)) (rewrite_from d) (db_aof d) = (tail, a1)" by (meson surj_pair)
    obtain cm a2 where c: "commit_rewrite (io_commit (io d) (tick d)) a1 = (cm, a2)" by (meson surj_pair)
    define x where "x = (if \<not> (norm \<and> rewrite_result d) then abort_rewrite (db_aof d) else if \<not> tail then abort_rewrite a1
      else if cm then a2 else abort_rewrite a2)"
    have out: "d' = d\<lparr>tick := Suc (tick d), rewrite_child := False, db_aof := x\<rparr>"
      using run s Some t c by (auto simp: finish_background_rewrite_def Let_def x_def)
    have ab: "log_ok (abort_rewrite y) rs = log_ok y rs" "\<not> rewrite_fd (abort_rewrite y)" for y rs by (simp_all add: abort_rewrite_def)
    have "((log_ok x (LOG @ later)) \<or> (log_ok x (img @ later) \<and> covers d (img @ later))) \<and> \<not> rewrite_fd x"
    proof (cases "norm \<and> rewrite_result d")
      case False
      then show ?thesis using log ab by (simp add: x_def)
    next
      case True
      have img: "rewriting (db_aof d) img" "covers d (img @ later)" using s True by blast+
      have rf: "rewrite_from d = length (log_image LOG)" using s by blast
      note tl = append_tail_log [OF t [unfolded rf] img(1) log]
      show ?thesis
      proof (cases tail)
        case False
        then show ?thesis using tl ab True by (simp add: x_def)
      next
        case tt: True
        note cl = commit_rewrite_log [OF c _ _ fst [rule_format], of "img @ later" "LOG @ later"]
        have "(log_ok a2 (LOG @ later) \<or> log_ok a2 (img @ later)) \<and> \<not> rewrite_fd a2" using cl tl tt by blast
        then show ?thesis using True tt img(2) ab by (auto simp: x_def)
      qed
    qed
    then have "(durable d' (LOG @ later) \<or> durable d' (img @ later)) \<and> \<not> rewrite_fd (db_aof d')"
      using same_store_covers [OF same cov] same_store_covers [OF same, of "img @ later"] by (auto simp: out durable_def)
    then show ?thesis using keep reg by (simp add: out)
  qed
qed

section \<open>Serving\<close>

text \<open>
  Runs of the server on a log: commands in rooms, waking, hibernating, expiry, and time passing. A
  command's records are the ones its step is specified by, and they all reached the file; what a
  step asks of the environment is what its own lemma asks.
\<close>

inductive serves :: "AofRecord list \<Rightarrow> database \<Rightarrow> AofRecord list \<Rightarrow> database \<Rightarrow> bool" for LOG d where
  start: "serves LOG d [] d"
| clock: "serves LOG d rs d1 \<Longrightarrow> now_ms d1 \<le> t \<Longrightarrow> serves LOG d rs (set_now t d1)"
| command: "serves LOG d rs d1 \<Longrightarrow> env_ok d1 \<Longrightarrow> execute_in_room name (upper (args ! 0)) args d1 = (reply, d2) \<Longrightarrow>
    db_step d1 us d2 \<Longrightarrow> log_ok (db_aof d2) (LOG @ rs @ us) \<Longrightarrow> serves LOG d (rs @ us) d2"
| wake: "serves LOG d rs d1 \<Longrightarrow> env_ok d1 \<Longrightarrow> wake_room name d1 = (e, d2) \<Longrightarrow> serves LOG d rs d2"
| sleep: "serves LOG d rs d1 \<Longrightarrow> all_storable d1 \<Longrightarrow> map_of (rooms d1) name = Some room \<Longrightarrow> hibernate (room, d1) = (saved, c) \<Longrightarrow>
    serves LOG d rs (put_room c)"
| sweep: "serves LOG d rs d1 \<Longrightarrow> all_storable d1 \<Longrightarrow> serves LOG d rs (hibernate_inactive_rooms d1)"
| expire: "serves LOG d rs d1 \<Longrightarrow> serves LOG d rs (clean_expired_keys d1)"

lemma covers_later:
  assumes "covers d rs" and "now_ms d \<le> t"
  shows "covers (set_now t d) rs"
proof -
  have lg: "logical (set_now t d) = logical d" "shelved (set_now t d) = shelved d" "rooms (set_now t d) = rooms d"
    by (simp_all add: set_now_def logical_def shelved_def fun_eq_iff split: option.split)
  have dead: "live (now_ms d) x \<noteq> None" if "live t x \<noteq> None" for x
    using that assms(2) by (cases x) (auto simp: live_def expired_def split: if_splits)
  have now: "now_ms (set_now t d) = t" by (simp add: set_now_def)
  show ?thesis using assms(1) dead agree_later [OF _ assms(2)]
    unfolding covers_def all_registered_def lg now by metis
qed

text \<open>Every invariant that steps and the passing of time keep holds along a run.\<close>

lemma serves_induct:
  assumes run: "serves LOG d rs d'" and reg: "registry_ok d" and base: "P [] d"
    and step: "\<And>rs d1 us d2. P rs d1 \<Longrightarrow> db_step d1 us d2 \<Longrightarrow> log_ok (db_aof d1) (LOG @ rs) \<Longrightarrow> log_ok (db_aof d2) (LOG @ rs @ us) \<Longrightarrow> P (rs @ us) d2"
    and time: "\<And>rs d1 t. P rs d1 \<Longrightarrow> now_ms d1 \<le> t \<Longrightarrow> P rs (set_now t d1)" and log: "log_ok (db_aof d) LOG"
  shows "P rs d' \<and> registry_ok d' \<and> log_ok (db_aof d') (LOG @ rs)"
proof -
  have quiet: "P rs d2 \<and> registry_ok d2 \<and> log_ok (db_aof d2) (LOG @ rs)"
    if "P rs d1 \<and> registry_ok d1 \<and> log_ok (db_aof d1) (LOG @ rs)" "db_step d1 [] d2" for rs d1 d2
  proof -
    have "db_aof d2 = db_aof d1" using that(2) by (simp add: db_step_def logs_def)
    then show ?thesis using that step [of rs d1 "[]" d2] by (simp add: db_step_def)
  qed
  from run show ?thesis
  proof (induction rule: serves.induct)
    case start
    then show ?case using reg base log by simp
  next
    case (clock rs d1 t)
    moreover have "db_aof (set_now t d1) = db_aof d1" by (simp add: set_now_def)
    ultimately show ?case using time by simp
  next
    case (command rs d1 name args reply d2 us)
    then show ?case using step [of rs d1 us d2] by (simp add: db_step_def)
  next
    case (wake rs d1 name e d2)
    then show ?case using quiet [OF wake.IH wake_room_step [OF _ wake.hyps(2,3)]] by blast
  next
    case (sleep rs d1 name room saved c)
    then show ?case using quiet [OF sleep.IH hibernate_db_step(1) [OF _ sleep.hyps(2-4)]] by blast
  next
    case (sweep rs d1)
    then show ?case using quiet [OF sweep.IH hibernate_inactive_step [OF _ sweep.hyps(2)]] by blast
  next
    case (expire rs d1)
    then show ?case using quiet [OF expire.IH clean_step] by blast
  qed
qed

lemma serves_durable:
  assumes "serves LOG d rs d'" and "registry_ok d" and "durable d LOG"
  shows "durable d' (LOG @ rs)" "registry_ok d'"
proof -
  have "covers d' (LOG @ rs) \<and> registry_ok d' \<and> log_ok (db_aof d') (LOG @ rs)"
  proof (rule serves_induct [where P = "\<lambda>rs d. covers d (LOG @ rs)", OF assms(1,2)])
    show "covers d (LOG @ [])" "log_ok (db_aof d) LOG" using assms(3) by (simp_all add: durable_def)
    show "covers d1 (LOG @ rs) \<Longrightarrow> db_step d1 us d2 \<Longrightarrow> covers d2 (LOG @ rs @ us)" for rs d1 us d2
      using covers_step [of d1 "LOG @ rs" us d2] by simp
    show "covers d1 (LOG @ rs) \<Longrightarrow> now_ms d1 \<le> t \<Longrightarrow> covers (set_now t d1) (LOG @ rs)" for rs d1 t by (rule covers_later)
  qed
  then show "durable d' (LOG @ rs)" "registry_ok d'" by (simp_all add: durable_def)
qed

lemma serves_shadowed:
  assumes run: "serves LOG d rs d'" and reg: "registry_ok d" and sh: "shadowed d LOG img []"
  shows "shadowed d' LOG img rs \<and> registry_ok d'"
proof -
  have "shadowed d' LOG img rs \<and> registry_ok d' \<and> log_ok (db_aof d') (LOG @ rs)"
  proof (rule serves_induct [where P = "\<lambda>rs d. shadowed d LOG img rs", OF run reg sh])
    show "shadowed d2 LOG img (rs @ us)" if "shadowed d1 LOG img rs" "db_step d1 us d2" "log_ok (db_aof d2) (LOG @ rs @ us)" for rs d1 us d2
      using shadowed_step [OF that] .
    show "shadowed (set_now t d1) LOG img rs" if "shadowed d1 LOG img rs" "now_ms d1 \<le> t" for rs d1 t
    proof -
      have "db_aof (set_now t d1) = db_aof d1" "side_state (set_now t d1) = side_state d1" by (simp_all add: set_now_def)
      then show ?thesis using that covers_later [OF _ that(2)] by (simp add: shadowed_def durable_def)
    qed
    show "log_ok (db_aof d) LOG" using sh by (simp add: shadowed_def durable_def)
  qed
  then show ?thesis by blast
qed

section \<open>Tombstones in a replay\<close>

lemma activated:
  assumes rp: "replaying_ok d"
  obtains c where "\<And>r. ar_room r = n \<Longrightarrow> ar_args r \<noteq> [] \<Longrightarrow> replay_record r d = put_room (replay_cell r c)" "cell_ok n c"
    "cold_index (db_eviction (snd c)) = []" "tombstones (snd c) = tombstones d" "peer_count (snd c) = peer_count d" "watermark (snd c) = watermark d"
proof -
  have reg: "registry_ok d" using rp by (simp add: replaying_ok_def)
  obtain res d1 where f: "find_room n True d = (res, d1)" by (meson surj_pair)
  note fs = find_room_step [OF reg f]
  obtain room where room: "res = Some room" "map_of (rooms d1) n = Some room" using fs by auto
  have d1: "registry_ok d1" "db_eviction d1 = db_eviction d" "tombstones d1 = tombstones d" "peer_count d1 = peer_count d" "watermark d1 = watermark d"
    using fs f by (auto simp: db_step_def find_room_def split: option.splits)
  obtain ok c where a: "activate True (room, d1) = (ok, c)" by (meson surj_pair)
  note as = activate_step [OF registry_at_rest [OF d1(1) room(2)] a]
  have "peer_count (snd c) = peer_count d1 \<and> watermark (snd c) = watermark d1"
    using a by (auto simp: activate_def Let_def db_charge_def charge_def count_key_def split: if_splits prod.splits)
  moreover have "cell_ok n c" "cold_index (db_eviction (snd c)) = []" "tombstones (snd c) = tombstones d1"
    using as rp d1(2) by (simp_all add: room_step_def replaying_ok_def)
  moreover have "replay_record r d = put_room (replay_cell r c)" if "ar_room r = n" "ar_args r \<noteq> []" for r
    using f room a that by (simp add: replay_record_def)
  ultimately show ?thesis using that d1 by metis
qed

lemma put_room_tombs [simp]: "tombstones (put_room c) = tombstones (snd c)"
  by (cases c) (simp add: put_room_def)

lemma replay_set_tomb: "replaying_ok d \<Longrightarrow> tombstones (replay_record (set_record n k r) d) = tombstones d"
proof -
  assume "replaying_ok d"
  from activated [OF this, of n] obtain c where c: "replay_record (set_record n k r) d = put_room (replay_cell (set_record n k r) c)" "tombstones (snd c) = tombstones d"
    by (metis AofRecord.select_convs(1,2) list.distinct(1) set_record_def)
  have "tombstones (snd (replay_put ex key val ts nd c)) = tombstones (snd c)" for ex key val ts nd
    by (simp add: replay_put_def on_db_def case_prod_unfold split: option.split)
  then show ?thesis using c by (simp add: replay_cell_def set_record_def upper_def toupper_def Let_def)
qed

lemma replay_del_tomb:
  assumes "replaying_ok d" and "peer_count d \<noteq> 0" and "watermark d < hlc_normalize (v_ts v)"
  shows "nget (tombstones (replay_record (del_record n k v) d)) n k \<noteq> None"
proof -
  from activated [OF assms(1), of n] obtain c where c: "replay_record (del_record n k v) d = put_room (replay_cell (del_record n k v) c)"
    "cell_ok n c" "tombstones (snd c) = tombstones d" "peer_count (snd c) = peer_count d" "watermark (snd c) = watermark d"
    by (metis AofRecord.select_convs(1,2) list.distinct(1) del_record_def)
  define c1 where "c1 = (case map_of (room_keys (fst c)) k of Some x \<Rightarrow> erase k x c | None \<Rightarrow> c)"
  have c1: "peer_count (snd c1) = peer_count d" "watermark (snd c1) = watermark d"
    using c(4,5) by (auto simp: c1_def erase_def db_charge_def count_key_def case_prod_unfold split: option.split)
  have "replay_cell (del_record n k v) c = on_db (\<lambda>d. (set_tomb n k (Version (hlc_normalize (v_ts v)) (v_node v)) d)
      \<lparr>clock := clock_observe (clock d) (hlc_normalize (v_ts v))\<rparr>) c1"
    by (simp add: replay_cell_def replay_del_def c1_def del_record_def upper_def toupper_def Let_def)
  then show ?thesis using c(1) c1 assms(2,3) by (simp add: on_db_def set_tomb_def find_tomb_def count_tomb_def not_le case_prod_unfold split: option.split)
qed

section \<open>Migrating a log at start\<close>

text \<open>Whatever the log holds, the expiries read from it are 64-bit numbers.\<close>

lemma build_record_i64: "build_record fmt tokens = Some r \<Longrightarrow> i64 (ar_expire_at r)"
  by (cases fmt) (auto simp: Let_def i64_def split: if_splits option.splits dest: parse_i64_range)

lemma recover_loop_i64: "recover_loop fmt needs rd = (rs, disp, n) \<Longrightarrow> \<forall>r \<in> set rs. i64 (ar_expire_at r)"
proof (induction fmt needs rd arbitrary: rs disp n rule: recover_loop.induct)
  case (1 fmt needs rd)
  show ?case using "1.prems" "1.IH"
    by (subst (asm) recover_loop.simps) (fastforce simp: Let_def dest: build_record_i64 split: prod.splits status.splits detected.splits option.splits if_splits)
qed

lemma recover_i64: "recover env a = (rs, a') \<Longrightarrow> \<forall>r \<in> set rs. i64 (ar_expire_at r)"
  by (auto simp: recover_def Let_def split: if_splits prod.splits dest: recover_loop_i64)

lemma recover_frame: "recover env a = (rs, a') \<Longrightarrow> aof_fd a' = aof_fd a \<and> rewrite_fd a' = rewrite_fd a"
  by (auto simp: recover_def Let_def split: if_splits prod.splits disposition.splits)

lemma open_file_keeps: "needs_rewrite (snd (open_file oe a)) = needs_rewrite a \<and> aof_corrupt (snd (open_file oe a)) = aof_corrupt a \<and>
    (file_of a \<noteq> [] \<longrightarrow> aof_file (snd (open_file oe a)) = aof_file a)"
  by (auto simp: open_file_def Let_def bump_generation_def sync_locked_def file_of_def split: prod.split bool.split option.splits)

text \<open>What a replay leaves alone; without peers it makes no tombstones.\<close>

definition untouched :: "database \<Rightarrow> database \<Rightarrow> bool" where
  "untouched d d' \<longleftrightarrow> peer_count d' = peer_count d \<and> watermark d' = watermark d \<and> rewrite_child d' = rewrite_child d \<and>
     (peer_count d = 0 \<longrightarrow> tombstones d' = tombstones d)"

lemma replay_put_untouched: "untouched (snd c) (snd (replay_put ex key val ts nd c))"
  by (simp add: untouched_def replay_put_def on_db_def assign_def set_value_def update_rec_def insert_rec_def emplace_def db_charge_def count_key_def
      case_prod_unfold Let_def split: option.split)

lemma replay_pairs_untouched: "untouched (snd c) (snd (replay_pairs ex ts nd kvs c))"
proof (induction ex ts nd kvs c rule: replay_pairs.induct)
  case (1 ex ts node key val rest c)
  then show ?case using replay_put_untouched [of c ex key val ts node] by (simp add: untouched_def)
qed (simp_all add: untouched_def)

lemma replay_cell_untouched: "untouched (snd c) (snd (replay_cell r c))"
proof -
  have same: "untouched (snd c) (snd c)" by (simp add: untouched_def)
  have "untouched (snd c) (snd (replay_merge r c))"
    using same by (simp add: replay_merge_def Let_def replay_put_untouched split: option.split)
  moreover have "untouched (snd c) (snd (replay_expire r c))"
    by (simp add: untouched_def replay_expire_def update_rec_def case_prod_unfold split: option.split)
  moreover have "untouched (snd c) (snd (replay_del r c))"
    by (simp add: untouched_def replay_del_def on_db_def set_tomb_def count_tomb_def erase_def db_charge_def count_key_def Let_def case_prod_unfold
        split: option.split)
  ultimately show ?thesis using same by (simp add: replay_cell_def Let_def replay_put_untouched replay_pairs_untouched)
qed

lemma replay_record_untouched: "untouched d (replay_record r d)"
proof -
  obtain res d1 where f: "find_room (ar_room r) True d = (res, d1)" by (meson surj_pair)
  have d1: "untouched d d1" "tombstones d1 = tombstones d" using f by (auto simp: untouched_def find_room_def split: option.splits if_splits)
  show ?thesis
  proof (cases res)
    case (Some room)
    obtain ok c where a: "activate True (room, d1) = (ok, c)" by (meson surj_pair)
    have "untouched d1 (snd c)"
      using a by (auto simp: untouched_def activate_def Let_def db_charge_def charge_def count_key_def split: if_splits prod.splits)
    then show ?thesis using replay_cell_untouched [of c r] d1 f Some a by (simp add: untouched_def replay_record_def put_room_def case_prod_unfold)
  qed (use f d1 in \<open>simp add: replay_record_def untouched_def\<close>)
qed

lemma replay_all_untouched: "untouched d (foldl (\<lambda>d r. replay_record r d) d rs)"
proof (induction rs arbitrary: d)
  case (Cons r rs)
  then show ?case using replay_record_untouched [of d r] Cons [of "replay_record r d"] by (simp add: untouched_def)
qed (simp add: untouched_def)

lemma clock_frame:
  "logical (d\<lparr>db_aof := x, clock := c, frontier := f\<rparr>) = logical d" "registry_ok (d\<lparr>db_aof := x, clock := c, frontier := f\<rparr>) = registry_ok d"
  "shelved (d\<lparr>db_aof := x, clock := c, frontier := f\<rparr>) = shelved d"
proof -
  show lg: "logical (d\<lparr>db_aof := x, clock := c, frontier := f\<rparr>) = logical d" "shelved (d\<lparr>db_aof := x, clock := c, frontier := f\<rparr>) = shelved d"
    by (simp_all add: logical_def shelved_def fun_eq_iff split: option.split)
  show "registry_ok (d\<lparr>db_aof := x, clock := c, frontier := f\<rparr>) = registry_ok d" unfolding registry_ok_def is_active_def lg by simp
qed

text \<open>A restart on a file that holds just these records.\<close>

lemma restart_on_image:
  assumes "aof_file a = Some (log_image LOG)" and "\<forall>r \<in> set LOG. aofrec_ok r \<and> plain r"
    and env: "re_open re" "length (file_of a) \<le> re_limit re" "\<forall>i. we_read (io_wake env i)"
    and d: "db_disk d = dk"
  shows "logical (construct re oe (reboot node peers offs max_r pol mn keys mem now env (aof_file a) dk)) n = redo_changes (shelved d n) (of_room n LOG)"
proof -
  let ?a = "a\<lparr>aof_size := length (log_image LOG), replaying := False\<rparr>"
  have log: "log_ok ?a LOG" using assms(1,2) by (intro log_ok_intro) simp_all
  have e: "length (file_of ?a) \<le> re_limit re" using env(2) by (simp add: file_of_def)
  have sn: "shelved d n = shelved (reboot node peers offs max_r pol mn keys mem now env (aof_file ?a) dk) n" for n using d by (simp add: shelved_def)
  have pl: "\<forall>r \<in> set LOG. plain r" using assms(2) by blast
  show ?thesis using construct_log(2) [OF log pl env(1) e env(3) refl, of "shelved d"] sn by simp
qed

text \<open>The constructor on a log that must be migrated.\<close>

lemma construct_migrates:
  fixes node peers offs max_r pol mn keys mem now env fc dk
  defines "d0 \<equiv> reboot node peers offs max_r pol mn keys mem now env fc dk"
  assumes env: "\<forall>i. we_read (io_wake env i)" and rec: "recover re (aof_init pol mn fc) = (rs, a)" and needs: "needs_rewrite a"
    and d1: "d1 = foldl (\<lambda>d r. replay_record r d) (d0\<lparr>db_aof := a\<rparr>) rs" and able: "\<forall>r \<in> set (dump_image d1). aofrec_ok r"
    and d': "d' = construct re oe d0"
  shows "same_store d1 d' \<and> registry_ok d1 \<and> now_ms d1 = now \<and> (\<forall>n. logical d1 n = foldl redo_record (shelved d0 n) (of_room n rs)) \<and>
    (peers = 0 \<longrightarrow> tombstones d1 = []) \<and> aof_corrupt (db_aof d') = aof_corrupt a \<and>
    (needs_rewrite (db_aof d') \<and> (file_of a \<noteq> [] \<longrightarrow> aof_file (db_aof d') = aof_file a) \<or>
     \<not> needs_rewrite (db_aof d') \<and> aof_file (db_aof d') = Some (log_image (dump_image d1)) \<and> (\<forall>n. is_active d1 n \<longrightarrow> shelved d' n = Map.empty))"
proof -
  let ?d0 = "d0\<lparr>db_aof := a\<rparr>"
  note r = replay_all [OF reboot_ok [OF env] recover_i64 [OF rec] d1 [unfolded d0_def, symmetric], folded d0_def]
  have a: "db_aof d1 = a" "\<not> rewrite_fd (db_aof d1)" using r recover_frame [OF rec] by (simp_all add: aof_init_def)
  have reg: "registry_ok d1" using r by (simp add: replaying_ok_def)
  have l0: "logical ?d0 n = shelved d0 n" for n
    using logical_empty [of ?d0 n] by (simp add: d0_def eviction_init_def shelved_def)
  obtain ok d2 where rw: "rewrite_aof d1 = (ok, d2)" by fastforce
  note e = rewrite_aof_effect [OF reg able a(2) rw]
  have "recover re (db_aof d0) = (rs, a)" using rec by (simp add: d0_def)
  then obtain v w where d'2: "d' = d2\<lparr>db_aof := snd (open_file oe (db_aof d2)), clock := v, frontier := w\<rparr>"
    using needs rw a(1) unfolding d' construct_def by (simp add: d1 [symmetric] Let_def)
  note o = open_file_keeps [of oe "db_aof d2"]
  have same: "same_store d1 d'" using e by (simp add: same_store_def d'2 clock_frame(3))
  have af: "db_aof d' = snd (open_file oe (db_aof d2))" by (simp add: d'2)
  have sh: "shelved d' = shelved d2" by (simp add: d'2 clock_frame(3))
  have "log_image (dump_image d1) \<noteq> []" by (simp add: log_image_def kAofHeader_def)
  then have fs: "aof_file (db_aof d2) = Some (log_image (dump_image d1)) \<longrightarrow> file_of (db_aof d2) \<noteq> []" by (simp add: file_of_def)
  have fa: "aof_file (db_aof d2) = aof_file a \<longrightarrow> file_of (db_aof d2) = file_of a" by (simp add: file_of_def)
  have "peers = 0 \<longrightarrow> tombstones d1 = []" using replay_all_untouched [of ?d0 rs] by (simp add: d1 d0_def untouched_def)
  moreover have "needs_rewrite (db_aof d') \<and> (file_of a \<noteq> [] \<longrightarrow> aof_file (db_aof d') = aof_file a) \<or>
     \<not> needs_rewrite (db_aof d') \<and> aof_file (db_aof d') = Some (log_image (dump_image d1)) \<and> (\<forall>n. is_active d1 n \<longrightarrow> shelved d' n = Map.empty)"
    using e o fs fa needs unfolding sh af a(1) by auto
  ultimately show ?thesis using same reg r l0 e o by (simp add: d'2 a(1) d0_def)
qed

text \<open>A start on a log that needs no migration: the replayed records, and the log opened.\<close>

lemma construct_replays:
  fixes node peers offs max_r pol mn keys mem now env dk LOG
  defines "d0 \<equiv> reboot node peers offs max_r pol mn keys mem now env (Some (log_image LOG)) dk"
  assumes "\<forall>r \<in> set LOG. aofrec_ok r" and "re_open re" "length (log_image LOG) \<le> re_limit re" "\<forall>i. we_read (io_wake env i)"
  obtains a c f where "construct re oe d0 = (foldl (\<lambda>d r. replay_record r d) (d0\<lparr>db_aof := a\<rparr>) LOG)\<lparr>db_aof := snd (open_file oe a), clock := c, frontier := f\<rparr>"
    "\<not> rewrite_fd (snd (open_file oe a))" "aof_file (snd (open_file oe a)) = Some (log_image LOG)"
proof -
  let ?a0 = "aof_init pol mn (Some (log_image LOG))"
  obtain a where rec: "recover re ?a0 = (LOG, a)" "\<not> needs_rewrite a" "\<not> rewrite_fd a" "aof_file a = Some (log_image LOG)"
    using recover_log [of LOG blank_record 0 ?a0 re] assms encode_record_nonempty by (simp add: aof_init_def file_of_def)
  have "\<forall>r \<in> set LOG. i64 (ar_expire_at r)" using assms(2) by (simp add: aofrec_ok_def)
  then have "db_aof (foldl (\<lambda>d r. replay_record r d) (d0\<lparr>db_aof := a\<rparr>) LOG) = a"
    using replay_all [OF reboot_ok [OF assms(5)] _ refl] by (simp add: d0_def)
  moreover have "\<not> rewrite_fd (snd (open_file oe a))" using rec(3)
    by (auto simp: open_file_def Let_def bump_generation_def sync_locked_def split: prod.split bool.split)
  moreover have "aof_file (snd (open_file oe a)) = Some (log_image LOG)" using rec(4) open_file_keeps [of oe a] by (simp add: file_of_def log_image_def kAofHeader_def)
  ultimately show ?thesis using that rec unfolding construct_def d0_def by (simp add: Let_def)
qed

text \<open>A background rewrite whose file is taken into use has put the dump of the state in the place of the log.\<close>

lemma background_image:
  assumes reg: "registry_ok d" and idle: "\<not> rewrite_child d" "\<not> rewrite_fd (db_aof d)"
    and run: "start_background_rewrite d = (reply, d1)" and d2: "d2 = finish_background_rewrite d1" and new: "generation (db_aof d2) \<noteq> generation (db_aof d1)"
  shows "same_store d d2 \<and> aof_file (db_aof d2) = Some (log_image (dump_image d))"
proof -
  obtain started a where st: "start_rewrite (fst (io_start (io d) (tick d))) (snd (io_start (io d) (tick d))) (db_aof d) = (started, a)" by (meson surj_pair)
  let ?d0 = "d\<lparr>db_aof := a, tick := Suc (tick d)\<rparr>"
  have s0: "same_store d ?d0" by (rule same_store_refl) simp_all
  have reg0: "registry_ok ?d0" using same_store_keeps(2) [OF s0 reg] .
  define e where "e = (discard_active_snapshots ?d0)\<lparr>rewrite_from := aof_size a\<rparr>"
  have e: "db_aof e = a" "rewrite_child e = rewrite_child d" "rewrite_from e = aof_size a" by (simp_all add: e_def discard_active_snapshots_def)
  have child: "rewrite_child d1" using new unfolding d2 finish_background_rewrite_def by (auto split: if_splits)
  obtain res dk out where ch: "run_child e = (res, dk, out)" by (metis prod_cases3)
  have go: "started" "d1 = e\<lparr>db_disk := dk, db_aof := a\<lparr>aof_tmp := Some (tmp_of a @ out)\<rparr>, rewrite_child := True, rewrite_result := res, tick := Suc (tick e + spent e)\<rparr>"
    using run st ch idle(1) child e by (auto simp: start_background_rewrite_def Let_def e_def [symmetric] split: if_splits)
  have "same_store (discard_active_snapshots ?d0) e" unfolding e_def by (rule same_store_refl) simp_all
  then have s1: "same_store d e" using same_store_trans [OF s0 same_store_trans [OF discard_same(1) [OF reg0]]] by blast
  have "shelved d1 = shelved (e\<lparr>db_disk := dk\<rparr>)" by (simp add: go(2) shelved_def fun_eq_iff)
  then have s2: "same_store e d1" using run_child_same [OF ch] by (simp add: go(2) same_store_def)
  have im: "dump_image e = dump_image d"
    using discard_same(2) [OF reg0] dump_image_cong [of e "discard_active_snapshots ?d0"] dump_image_cong [of ?d0 d] by (simp add: e_def)
  have fd: "rewrite_fd a" "tmp_of a = kAofHeader"
    using start_rewrite_log [OF st idle(2)] go(1) by (auto simp: rewriting_def tmp_of_def log_image_def)
  let ?a = "db_aof d1"
  obtain norm where norm: "io_child (io d1) (tick d1) = Some norm" "norm" "rewrite_result d1"
    using new child unfolding d2 finish_background_rewrite_def
    by (auto simp: Let_def abort_rewrite_def split: option.splits if_splits)
  obtain tail a1 where t: "append_tail (io_tail (io d1) (tick d1)) (rewrite_from d1) ?a = (tail, a1)" by (meson surj_pair)
  have a1: "a1 = ?a \<or> a1 = ?a\<lparr>last_tail := 0, aof_tmp := aof_tmp ?a\<rparr>" using t e
    by (auto simp: append_tail_def go(2) tail_loop.simps tmp_of_def split: if_splits)
  obtain cm a2 where c: "commit_rewrite (io_commit (io d1) (tick d1)) a1 = (cm, a2)" by (meson surj_pair)
  have fin: "d2 = d1\<lparr>tick := Suc (tick d1), rewrite_child := False, db_aof := (if \<not> tail then abort_rewrite a1 else if cm then a2 else abort_rewrite a2)\<rparr>"
    using child norm t c unfolding d2 finish_background_rewrite_def by (simp add: Let_def)
  have out: "out = concat (map encode_record (dump_image d))" using run_child_ok [of e dk out] ch norm(3) im by (simp add: go(2))
  have "aof_file a2 = Some (tmp_of a1)"
    using new c a1 unfolding fin
    by (auto simp: commit_rewrite_def abort_rewrite_def Let_def split: if_splits)
  moreover have "tmp_of a1 = log_image (dump_image d)" using a1 fd(2) out by (auto simp: tmp_of_def go(2) log_image_def)
  moreover have "aof_file (db_aof d2) = aof_file a2" using new a1 unfolding fin by (auto simp: abort_rewrite_def split: if_splits)
  moreover have "same_store d1 d2" unfolding fin by (rule same_store_refl) simp_all
  ultimately show ?thesis using same_store_trans [OF same_store_trans [OF s1 s2]] by simp
qed

lemma replayed_tomb:
  assumes rp: "replaying_ok d" and peers: "peer_count d \<noteq> 0" and wm: "watermark d < hlc_normalize (v_ts v)" and ex: "\<forall>x \<in> set pre. i64 (ar_expire_at x)"
  shows "nget (tombstones (foldl (\<lambda>d r. replay_record r d) d (pre @ [del_record n k v, set_record n k r]))) n k \<noteq> None"
proof -
  let ?d = "foldl (\<lambda>d r. replay_record r d) d pre"
  have d: "replaying_ok ?d" "peer_count ?d \<noteq> 0" "watermark ?d < hlc_normalize (v_ts v)"
    using replay_all [OF rp ex refl] replay_all_untouched [of d pre] peers wm by (simp_all add: untouched_def)
  have "replaying_ok (replay_record (del_record n k v) ?d)"
    using replay_record_step [OF d(1), of "del_record n k v"] by (simp add: del_record_def i64_def)
  from replay_set_tomb [OF this, of n k r] show ?thesis using replay_del_tomb [OF d] by simp
qed

section \<open>Properties\<close>

lemma write_all_one: "length data \<le> n \<Longrightarrow> data \<noteq> [] \<Longrightarrow> write_all [Ret n] data = (True, length data)"
  by (cases n) (auto simp: write_all_def)

text \<open>The log of an older version, with one SET of the key k.\<close>

definition ex_v1 :: string where
  "ex_v1 = resp_encode [''SET'', ''k'', ''v'']"

definition ex_v1_record :: AofRecord where
  "ex_v1_record = \<lparr>ar_room = ''default'', ar_args = [''SET'', ''k'', ''v''], ar_expire_at = 0, ar_timestamp_ms = 0, ar_node_id = 1\<rparr>"

definition ex_open :: open_env where
  "ex_open = \<lparr>oe_open = True, oe_fstat = True, oe_write = [Ret 100], oe_trunc = True, oe_sync = True\<rparr>"

lemma ex_v1_recover:
  assumes "re_open re" and "length ex_v1 \<le> re_limit re"
  shows "recover re (aof_init pol mn (Some ex_v1)) = ([ex_v1_record], (aof_init pol mn (Some ex_v1))\<lparr>replaying := False, needs_rewrite := True\<rparr>)"
proof -
  have c: "parse ex_v1 0 = Complete (length ex_v1) [''SET'', ''k'', ''v'']"
    using parse_encoded [of "[''SET'', ''k'', ''v'']" "[]" "[]"] by (simp add: ex_v1_def kMaxArgs_def kMaxBulk_def)
  have e: "parse ex_v1 (length ex_v1) = NeedMore" by (simp add: parse_def header_def)
  have "scan Undetected False ex_v1 0 = ([ex_v1_record], Clean, True)"
    using c e by (simp add: scan.simps detect_def kMagicToken_def is_write_cmd_def ex_v1_record_def)
  moreover have "ex_v1 \<noteq> []" by (simp add: ex_v1_def resp_encode_def)
  ultimately show ?thesis using recover_scan [of "aof_init pol mn (Some ex_v1)" ex_v1 re] assms by (simp add: aof_init_def)
qed

definition ex_replayed :: database where
  "ex_replayed = replay_record ex_v1_record ((reboot 7 0 500 10 Everysec 0 100 0 3000000000 ex_io (Some ex_v1) Map.empty)
     \<lparr>db_aof := (aof_init Everysec 0 (Some ex_v1))\<lparr>replaying := False, needs_rewrite := True\<rparr>\<rparr>)"

lemma ex_replayed_facts:
  shows "\<exists>room. rooms ex_replayed = [(''default'', room)] \<and> room_state room = Active \<and>
    room_keys room = [(''k'', \<lparr>rec_value = ''v'', expire_at = 0, timestamp_ms = 0, node_id = 1\<rparr>)]"
    "db_disk ex_replayed = Map.empty" "cold_index (db_eviction ex_replayed) = []" "tombstones ex_replayed = []" "now_ms ex_replayed = 3000000000"
    "io ex_replayed = ex_io" "db_aof ex_replayed = (aof_init Everysec 0 (Some ex_v1))\<lparr>replaying := False, needs_rewrite := True\<rparr>"
proof -
  note ev = ex_replayed_def ex_v1_record_def replay_record_def find_room_def activate_def Let_def wakeup_room_def has_snapshot_def fits_def db_charge_def charge_def
    count_key_def new_room_def keys_cost_def reboot_def database_init_def replay_cell_def upper_def toupper_def replay_put_def on_db_def assign_def set_value_def
    update_rec_def insert_rec_def emplace_def put_room_def hlc_normalize_def kLegacyLimit_def eviction_init_def new_record_def
  show "\<exists>room. rooms ex_replayed = [(''default'', room)] \<and> room_state room = Active \<and>
    room_keys room = [(''k'', \<lparr>rec_value = ''v'', expire_at = 0, timestamp_ms = 0, node_id = 1\<rparr>)]"
    by (simp add: ev)
  show "db_disk ex_replayed = Map.empty" by (simp add: ev)
  show "cold_index (db_eviction ex_replayed) = []" by (simp add: ev)
  show "tombstones ex_replayed = []" by (simp add: ev)
  show "now_ms ex_replayed = 3000000000" by (simp add: ev)
  show "io ex_replayed = ex_io" by (simp add: ev)
  show "db_aof ex_replayed = (aof_init Everysec 0 (Some ex_v1))\<lparr>replaying := False, needs_rewrite := True\<rparr>" by (simp add: ev)
qed

definition ex_old :: Record where
  "ex_old = \<lparr>rec_value = ''v'', expire_at = 0, timestamp_ms = 0, node_id = 1\<rparr>"

lemma ex_replayed_dump: "all_normal ex_replayed" "dump_image ex_replayed = [set_record ''default'' ''k'' ex_old]"
  "aofrec_ok (set_record ''default'' ''k'' ex_old)"
proof -
  obtain room where r: "rooms ex_replayed = [(''default'', room)]" "room_state room = Active" "room_keys room = [(''k'', ex_old)]"
    using ex_replayed_facts(1) by (auto simp: ex_old_def)
  have "normal ex_old" by (simp add: normal_def ex_old_def hlc_normalize_def kLegacyLimit_def)
  then show "all_normal ex_replayed" using r ex_replayed_facts(2,3)
    by (auto simp: all_normal_def logical_def shelved_def cold_get_def split: if_splits option.splits)
  show "dump_image ex_replayed = [set_record ''default'' ''k'' ex_old]"
    using r ex_replayed_facts(2-5) by (simp add: dump_image_def room_items_def source_def cold_items_def tomb_items_def fresh_def nitems_def ex_old_def expired_def)
  show "aofrec_ok (set_record ''default'' ''k'' ex_old)"
    by (simp add: aofrec_ok_def set_record_def ex_old_def kMaxArgs_def kMaxBulk_def i64_def)
qed

lemma ex_old_length: "length (encode_record (set_record ''default'' ''k'' ex_old)) \<le> 500" "encode_record (set_record ''default'' ''k'' ex_old) \<noteq> []"
  by code_simp+

lemma ex_migrated: "\<not> needs_rewrite (db_aof (snd (rewrite_aof ex_replayed)))"
proof -
  obtain room where r: "rooms ex_replayed = [(''default'', room)]" "room_state room = Active" "room_keys room = [(''k'', ex_old)]"
    using ex_replayed_facts(1) by (auto simp: ex_old_def)
  have hd: "length kAofHeader \<le> 100" "kAofHeader \<noteq> []" by (simp_all add: kAofHeader_def bulk_string_def kMagicToken_def kAofVersion_def)
  have st: "start_rewrite True [Ret 100] (db_aof ex_replayed) = (True, (db_aof ex_replayed)\<lparr>base_size := aof_size (db_aof ex_replayed), rewrite_fd := True, aof_tmp := Some kAofHeader\<rparr>)"
    using write_all_one [OF hd] ex_replayed_facts(7) by (simp add: start_rewrite_def Let_def aof_init_def)
  have env: "io_start ex_io i = (True, [Ret 100])" "io_dump ex_io i = [Ret 500]"
    "io_commit ex_io i = \<lparr>cm_fstat = True, cm_sync = True, cm_close = True, cm_rename = True, cm_open = True\<rparr>" for i
    by (simp_all add: ex_io_def)
  have "\<not> expired ex_old 3000000000" by (simp add: expired_def ex_old_def)
  then show ?thesis
    using st r ex_replayed_facts(2-6) write_all_one [OF ex_old_length]
    by (simp add: env rewrite_aof_def Let_def discard_active_snapshots_def discard_def has_snapshot_def dump_state_def room_source_def emit_def
        rewrite_writer_def append_rewrite_def commit_rewrite_def bump_generation_def nitems_def tmp_of_def)
qed

text \<open>
  C3. Migrating a log at start keeps the store. A log in an old format, or one that was corrupt and set aside, makes the constructor
  replay what can be read and rewrite the log from memory before opening it. Whatever system calls of the rewrite fail, the store is
  afterwards what the snapshots and the records read give, the registry invariant holds, and what was set aside stays set aside. If
  the migration could not be completed, the log is still the one that was read, and it remains marked for migration. If it was
  completed, every later restart on the new file and the snapshots that are left shows the same store, up to keys
  that expire meanwhile: the records of RAM, of sleeping rooms and the tombstones are all in the new log, and the stale snapshots of active
  rooms, which would bring deleted keys back once their deletions are out of the log, are gone. It needs that no tombstone stands for
  a key that is in the store, which is so without peers (with peers a replay may leave one, see \<open>rewrite_after_replay_loses\<close>), and versions and
  sizes that the log format reads back.
\<close>

theorem migration_keeps_store:
  assumes d0: "d0 = reboot node peers offs max_r pol mn keys mem now env fc dk"
    and env: "\<forall>i. we_read (io_wake env i)" and rec: "recover re (aof_init pol mn fc) = (rs, a)" and needs: "needs_rewrite a"
    and d1: "d1 = foldl (\<lambda>d r. replay_record r d) (d0\<lparr>db_aof := a\<rparr>) rs"
    and able: "all_normal d1" "peers = 0 \<or> tombs_apart d1" "\<forall>r \<in> set (dump_image d1). aofrec_ok r"
    and d': "d' = construct re oe d0"
  shows "registry_ok d' \<and> (\<forall>n. logical d' n = foldl redo_record (shelved d0 n) (of_room n rs)) \<and> aof_corrupt (db_aof d') = aof_corrupt a \<and>
    (if needs_rewrite (db_aof d') then file_of a \<noteq> [] \<longrightarrow> aof_file (db_aof d') = aof_file a
     else \<forall>re' oe' node' peers' offs' max_r' pol' mn' keys' mem' later env' n.
       now \<le> later \<and> re_open re' \<and> length (file_of (db_aof d')) \<le> re_limit re' \<and> (\<forall>i. we_read (io_wake env' i)) \<longrightarrow>
       agree later (logical (construct re' oe' (reboot node' peers' offs' max_r' pol' mn' keys' mem' later env' (aof_file (db_aof d')) (db_disk d'))) n)
         (logical d' n))"
proof -
  note m = construct_migrates [OF env rec needs d1 [unfolded d0] able(3) d' [unfolded d0], folded d0]
  have same: "same_store d1 d'" and reg: "registry_ok d1" using m by blast+
  note k = same_store_keeps [OF same]
  have ap: "tombs_apart d1" using able(2) m by (auto simp: tombs_apart_def nget_def inner_def)
  have now: "now_ms d' = now" "tombstones d' = tombstones d1" "now_ms d1 = now" using m by (simp_all add: same_store_def)
  have later: "agree later (logical (construct re' oe' (reboot node' peers' offs' max_r' pol' mn' keys' mem' later env' (aof_file (db_aof d')) (db_disk d'))) n) (logical d' n)"
    if nr: "\<not> needs_rewrite (db_aof d')" and e: "now \<le> later" "re_open re'" "length (file_of (db_aof d')) \<le> re_limit re'" "\<forall>i. we_read (io_wake env' i)"
    for re' oe' node' peers' offs' max_r' pol' mn' keys' mem' later env' n
  proof -
    have f: "aof_file (db_aof d') = Some (log_image (dump_image d1))" "\<forall>n. is_active d1 n \<longrightarrow> shelved d' n = Map.empty" using m nr by blast+
    have pl: "\<forall>r \<in> set (dump_image d1). aofrec_ok r \<and> plain r" using able(3) plain_dump by blast
    have "logical (construct re' oe' (reboot node' peers' offs' max_r' pol' mn' keys' mem' later env' (aof_file (db_aof d')) (db_disk d'))) n
        = redo_changes (shelved d' n) (of_room n (dump_image d1))" by (rule restart_on_image [OF f(1) pl e(2-4) refl])
    moreover have "agree now (redo_changes (shelved d' n) (of_room n (dump_image d1))) (logical d' n)"
      using dump_over [OF reg able(1) ap same f(2)] by (simp add: now)
    ultimately show ?thesis using agree_later e(1) by metis
  qed
  have "registry_ok d' \<and> (\<forall>n. logical d' n = foldl redo_record (shelved d0 n) (of_room n rs)) \<and> aof_corrupt (db_aof d') = aof_corrupt a"
    using m k(1,2) reg by simp
  moreover have "needs_rewrite (db_aof d') \<longrightarrow> file_of a \<noteq> [] \<longrightarrow> aof_file (db_aof d') = aof_file a" using m by blast
  ultimately show ?thesis using later by (cases "needs_rewrite (db_aof d')") simp_all
qed

theorem migration_keeps_store_witness:
  "let re = \<lparr>re_open = True, re_limit = 1000, re_trunc = True, re_rename = True\<rparr>;
       d' = construct re ex_open (reboot 7 0 500 10 Everysec 0 100 0 3000000000 ex_io (Some ex_v1) Map.empty);
       re' = re\<lparr>re_limit := length (file_of (db_aof d'))\<rparr>;
       d'' = construct re' ex_open (reboot 7 0 500 10 Everysec 0 100 0 4000000000 ex_io (aof_file (db_aof d')) (db_disk d'))
   in logical d' ''default'' ''k'' = Some ex_old \<and> \<not> needs_rewrite (db_aof d') \<and> agree 4000000000 (logical d'' ''default'') (logical d' ''default'')"
proof -
  let ?re = "\<lparr>re_open = True, re_limit = 1000, re_trunc = True, re_rename = True\<rparr>"
  let ?d0 = "reboot 7 0 500 10 Everysec 0 100 0 3000000000 ex_io (Some ex_v1) Map.empty"
  let ?a = "(aof_init Everysec 0 (Some ex_v1))\<lparr>replaying := False, needs_rewrite := True\<rparr>"
  define d' where "d' = construct ?re ex_open ?d0"
  have env: "\<forall>i. we_read (io_wake ex_io i)" by (simp add: ex_io_def)
  have "length ex_v1 \<le> 1000" by code_simp
  then have rec: "recover ?re (aof_init Everysec 0 (Some ex_v1)) = ([ex_v1_record], ?a)" by (intro ex_v1_recover) simp_all
  have d1: "ex_replayed = foldl (\<lambda>d r. replay_record r d) (?d0\<lparr>db_aof := ?a\<rparr>) [ex_v1_record]" by (simp add: ex_replayed_def)
  have able: "\<forall>r \<in> set (dump_image ex_replayed). aofrec_ok r" using ex_replayed_dump(2,3) by simp
  have need: "needs_rewrite ?a" "(0 :: nat) = 0 \<or> tombs_apart ex_replayed" by simp_all
  note m = migration_keeps_store [OF refl env rec need(1) d1 ex_replayed_dump(1) need(2) able d'_def]
  have nr: "\<not> needs_rewrite (db_aof d')" using rec ex_migrated ex_replayed_facts(7) open_file_keeps unfolding d'_def construct_def by (simp add: d1 Let_def)
  have of: "of_room ''default'' [ex_v1_record] = [ex_v1_record]" by (simp add: of_room_def ex_v1_record_def)
  have redo: "redo_record m ex_v1_record ''k'' = Some ex_old" for m
    by (simp add: redo_record_def ex_v1_record_def plain_def changes_def upper_def toupper_def ex_old_def hlc_normalize_def kLegacyLimit_def)
  have "logical d' ''default'' ''k'' = Some ex_old" using m by (simp add: of redo)
  moreover have "agree 4000000000 (logical (construct (?re\<lparr>re_limit := length (file_of (db_aof d'))\<rparr>) ex_open
      (reboot 7 0 500 10 Everysec 0 100 0 4000000000 ex_io (aof_file (db_aof d')) (db_disk d'))) ''default'') (logical d' ''default'')"
    by (rule conjunct2 [OF conjunct2 [OF conjunct2 [OF m]], unfolded if_not_P [OF nr], rule_format]) (use env in simp)
  ultimately show ?thesis using nr by (simp add: Let_def d'_def [symmetric])
qed

lemma ex_logged_dumpable: "dumpable ex_logged" "\<not> rewrite_fd (db_aof ex_logged)" "\<forall>i. cm_fstat (io_commit (io ex_logged) i)" "\<not> rewrite_child ex_logged"
proof -
  have e: "db_eviction ex_logged = eviction_init True 100 0" "tombstones ex_logged = []" "db_disk ex_logged = Map.empty" "now_ms ex_logged = 3000000000"
    "active_rooms ex_logged = 1" "db_metrics ex_logged = metrics_init\<lparr>resident_bytes := record_cost ''k'' ex_kept, keys_in_ram := 1\<rparr>"
    by (simp_all add: ex_logged_def ex_db_def database_init_def)
  let ?room = "(new_room ''default'')\<lparr>room_state := Active, room_keys := [(''k'', ex_kept)], room_bytes := record_cost ''k'' ex_kept\<rparr>"
  have r: "rooms ex_logged = [(''default'', ?room)]" by (simp add: ex_logged_def)
  have ok: "rec_ok ex_kept" by (simp add: rec_ok_def ex_kept_def i64_def)
  have "tiers_ok ?room (eviction_init True 100 0)" using cold_ok_init ok
    by (simp add: tiers_ok_def room_ok_def keys_cost_def eviction_init_def al_ok_def)
  moreover have "shelved ex_logged n k = None" for n k by (simp add: shelved_def e)
  ultimately have reg: "registry_ok ex_logged" using cold_ok_init
    by (simp add: registry_ok_def r e al_ok_def settled_def active_count_def nested_ok_def) (simp add: new_room_def metrics_init_def)
  have im: "dump_image ex_logged = [set_record ''default'' ''k'' ex_kept]"
    by (simp add: dump_image_def room_items_def r source_def cold_items_def tomb_items_def e fresh_def)
      (simp add: eviction_init_def ex_kept_def expired_def)
  have "all_normal ex_logged" using logical_sources(1) [OF reg]
    by (auto simp: all_normal_def normal_def logical_def r e shelved_def ex_kept_def hlc_normalize_def kLegacyLimit_def split: if_splits option.splits)
  then show "dumpable ex_logged" using reg im
    by (simp add: dumpable_def tombs_apart_def e aofrec_ok_def set_record_def ex_kept_def kMaxArgs_def kMaxBulk_def i64_def)
  show "\<not> rewrite_fd (db_aof ex_logged)" "\<forall>i. cm_fstat (io_commit (io ex_logged) i)" "\<not> rewrite_child ex_logged"
    by (simp_all add: ex_logged_def ex_aof_def aof_init_def ex_db_def database_init_def ex_io_def)
qed

text \<open>
  C4. Rewriting the log in a forked child, with the server running in between, keeps the store. Start the rewrite on
  a durable database; serve while the child works; reap the child, whether it succeeded, failed or was
  killed, and whatever happens to the copy of the log's tail and to the rename. The store is what
  the run made it, and the log that is in use at the end, be it the old one or the child's image with
  the tail behind it, makes it durable. The store must be one that a dump can represent (\<open>dumpable\<close>): in particular no tombstone may stand
  for a key that is in the store; a command that sets a key clears its tombstone, a replay with peers does not (\<open>rewrite_after_replay_loses\<close>).
\<close>

theorem background_rewrite_keeps_store:
  assumes "durable d LOG" and "dumpable d" and "\<not> rewrite_child d" and "\<not> rewrite_fd (db_aof d)"
    and "start_background_rewrite d = (reply, d1)" and "rewrite_child d1" and "serves LOG d1 rs d2"
    and "\<forall>i. cm_fstat (io_commit (io d2) i)" and "\<not> rewrite_child (finish_background_rewrite d2)"
  shows "logical d1 = logical d \<and> logical (finish_background_rewrite d2) = logical d2 \<and> registry_ok (finish_background_rewrite d2) \<and>
    (durable (finish_background_rewrite d2) (LOG @ rs) \<or> durable (finish_background_rewrite d2) (dump_image d @ rs)) \<and>
    \<not> rewrite_fd (db_aof (finish_background_rewrite d2))"
proof -
  note s = start_background_ok [OF assms(1-5)]
  have sh: "shadowed d2 LOG (dump_image d) rs" "registry_ok d2" using serves_shadowed [OF assms(7)] s assms(6) by blast+
  show ?thesis using finish_background_ok [OF sh(1) assms(8) sh(2) refl] assms(9) s by blast
qed

theorem background_rewrite_keeps_store_witness:
  "let (reply, d1) = start_background_rewrite ex_logged; d2 = set_now 3000000005 d1; d3 = finish_background_rewrite d2
   in rewrite_child d1 \<and> \<not> rewrite_child d3 \<and> logical d1 = logical ex_logged \<and> logical d3 = logical d2 \<and> registry_ok d3"
proof -
  obtain reply d1 where run: "start_background_rewrite ex_logged = (reply, d1)" by (meson surj_pair)
  have io: "io ex_logged = ex_io" by (simp add: ex_logged_def ex_db_def database_init_def)
  have hd: "length kAofHeader \<le> 100" "kAofHeader \<noteq> []" by (simp_all add: kAofHeader_def bulk_string_def kMagicToken_def kAofVersion_def)
  have "fst (start_rewrite True [Ret 100] (db_aof ex_logged))"
    using write_all_one [OF hd] ex_logged_dumpable(2) by (simp add: start_rewrite_def Let_def)
  then have d1: "rewrite_child d1" "now_ms d1 = 3000000000" "io d1 = ex_io"
    using run ex_logged_dumpable(4) io
    by (auto simp: start_background_rewrite_def Let_def ex_io_def discard_active_snapshots_def ex_logged_durable(2) split: prod.splits if_splits)
  let ?d2 = "set_now 3000000005 d1"
  have d2: "io ?d2 = ex_io" "rewrite_child ?d2" using d1 by (simp_all add: set_now_def)
  have sv: "serves [set_record ''default'' ''k'' ex_kept] d1 [] ?d2" by (intro serves.clock serves.start) (simp add: d1(2))
  have fin: "\<not> rewrite_child (finish_background_rewrite ?d2)"
    using d2 by (simp add: finish_background_rewrite_def ex_io_def Let_def split: prod.split)
  have "\<forall>i. cm_fstat (io_commit (io ?d2) i)" by (simp add: d2(1) ex_io_def)
  from background_rewrite_keeps_store [OF ex_logged_durable(1) ex_logged_dumpable(1,4,2) run d1(1) sv this fin]
  show ?thesis using fin d1(1) by (simp add: run Let_def)
qed

text \<open>A log with a deletion of the key k and a later SET of it, replayed by a server with one peer.\<close>

definition ex_again :: "AofRecord list" where
  "ex_again = [del_record ''default'' ''k'' (Version 180000000000000 7), set_record ''default'' ''k'' ex_kept]"

definition ex_retold :: "aof \<Rightarrow> database" where
  "ex_retold a = foldl (\<lambda>d r. replay_record r d) ((reboot 7 1 500 10 Everysec 0 100 0 3000000000 ex_io (Some (log_image ex_again)) Map.empty)\<lparr>db_aof := a\<rparr>) ex_again"

lemma ex_retold_facts:
  shows "\<exists>room. rooms (ex_retold a) = [(''default'', room)] \<and> room_state room = Active \<and> room_keys room = [(''k'', ex_kept)]"
    "db_disk (ex_retold a) = Map.empty" "cold_index (db_eviction (ex_retold a)) = []"
    "tombstones (ex_retold a) = [(''default'', [(''k'', Version 180000000000000 7)])]" "now_ms (ex_retold a) = 3000000000" "io (ex_retold a) = ex_io"
proof -
  note ev = ex_retold_def ex_again_def set_record_def del_record_def replay_record_def find_room_def activate_def Let_def wakeup_room_def has_snapshot_def fits_def
    db_charge_def charge_def count_key_def new_room_def keys_cost_def reboot_def database_init_def replay_cell_def upper_def toupper_def replay_put_def on_db_def
    assign_def set_value_def update_rec_def insert_rec_def emplace_def put_room_def hlc_normalize_def kLegacyLimit_def eviction_init_def new_record_def
    replay_del_def set_tomb_def find_tomb_def nget_def nput_def inner_def count_tomb_def ex_kept_def
  show "\<exists>room. rooms (ex_retold a) = [(''default'', room)] \<and> room_state room = Active \<and> room_keys room = [(''k'', ex_kept)]" by (simp add: ev)
  show "db_disk (ex_retold a) = Map.empty" by (simp add: ev)
  show "cold_index (db_eviction (ex_retold a)) = []" by (simp add: ev)
  show "tombstones (ex_retold a) = [(''default'', [(''k'', Version 180000000000000 7)])]" by (simp add: ev)
  show "now_ms (ex_retold a) = 3000000000" by (simp add: ev)
  show "io (ex_retold a) = ex_io" by (simp add: ev)
qed

lemma short_bulk: "length s \<le> 20 \<Longrightarrow> length (bulk_string s) \<le> 27"
  using length_dec_le [of "length s" 2] by (simp add: bulk_string_def)

lemma short_record:
  assumes "length (ar_room r) \<le> 20" and "\<forall>x \<in> set (ar_args r). length x \<le> 20" and "length (ar_args r) \<le> 3" and "i64 (ar_expire_at r)"
  shows "length (encode_record r) \<le> 225" "encode_record r \<noteq> []"
proof -
  have args: "length (concat (map bulk_string xs)) \<le> 27 * length xs" if "\<forall>x \<in> set xs. length x \<le> 20" for xs
    using that by (induction xs) (fastforce dest: short_bulk)+
  have "length (dec (length (ar_args r) + 5)) \<le> 1" using length_dec_le [of "length (ar_args r) + 5" 1] assms(3) by simp
  moreover have "length (bulk_string kMetaToken) \<le> 27" by (rule short_bulk) (simp add: kMetaToken_def)
  moreover note short_bulk [OF assms(1)] args [OF assms(2)] assms(3) short_bulk [OF length_dec_int [OF assms(4)]]
    short_bulk [OF length_dec_u64 [of "ar_timestamp_ms r"]] short_bulk [OF order_trans [OF length_dec_u32 [of "ar_node_id r"]]]
  ultimately show "length (encode_record r) \<le> 225" by (simp add: encode_record_def)
  show "encode_record r \<noteq> []" by (simp add: encode_record_def)
qed

lemma ex_again_short:
  "length (encode_record (set_record ''default'' ''k'' ex_kept)) \<le> 225" "encode_record (set_record ''default'' ''k'' ex_kept) \<noteq> []"
  "length (encode_record (del_record ''default'' ''k'' (Version 180000000000000 7))) \<le> 225"
  by (rule short_record; simp add: set_record_def del_record_def ex_kept_def i64_def)+

lemma ex_child:
  assumes "rooms d = [(''default'', room)]" "room_state room = Active" "room_keys room = [(''k'', ex_kept)]" "cold_index (db_eviction d) = []"
    "tombstones d = [(''default'', [(''k'', Version 180000000000000 7)])]" "now_ms d = 3000000000" "io d = ex_io"
  shows "fst (run_child d)"
proof -
  let ?s = "encode_record (set_record ''default'' ''k'' ex_kept)" and ?t = "encode_record (del_record ''default'' ''k'' (Version 180000000000000 7))"
  have env: "io_dump ex_io i = [Ret 500]" "io_childsync ex_io i" for i by (simp_all add: ex_io_def)
  have ex: "\<not> expired ex_kept 3000000000" by (simp add: expired_def ex_kept_def)
  have len: "length ?s < 65536" "length ?s + length ?t < 65536" "length (?s @ ?t) \<le> 500" "?s @ ?t \<noteq> []" using ex_again_short by simp_all
  show ?thesis using assms ex len(1,2) write_all_one [OF len(3,4)]
    by (simp add: run_child_def Let_def env dump_state_def room_source_def emit_def emit_tomb_def nitems_def child_writer_def)
qed

lemma ex_background:
  assumes fin: "\<exists>room. rooms d = [(''default'', room)] \<and> room_state room = Active \<and> room_keys room = [(''k'', ex_kept)]" "cold_index (db_eviction d) = []"
    "tombstones d = [(''default'', [(''k'', Version 180000000000000 7)])]" "now_ms d = 3000000000" "io d = ex_io"
    and idle: "\<not> rewrite_child d" "\<not> rewrite_fd (db_aof d)" "aof_file (db_aof d) \<noteq> None"
    and run: "start_background_rewrite d = (reply, d1)"
  shows "generation (db_aof (finish_background_rewrite d1)) \<noteq> generation (db_aof d1)"
proof -
  have env: "io_start ex_io i = (True, [Ret 100])" "io_fork ex_io i" "io_child ex_io i = Some True" "te_open (io_tail ex_io i)"
    "io_commit ex_io i = \<lparr>cm_fstat = True, cm_sync = True, cm_close = True, cm_rename = True, cm_open = True\<rparr>" for i
    by (simp_all add: ex_io_def)
  have hd: "length kAofHeader \<le> 100" "kAofHeader \<noteq> []" by (simp_all add: kAofHeader_def bulk_string_def kMagicToken_def kAofVersion_def)
  define a where "a = (db_aof d)\<lparr>base_size := aof_size (db_aof d), rewrite_fd := True, aof_tmp := Some kAofHeader\<rparr>"
  have st: "start_rewrite True [Ret 100] (db_aof d) = (True, a)"
    using write_all_one [OF hd] idle(2) by (simp add: start_rewrite_def Let_def a_def)
  define e where "e = (discard_active_snapshots (d\<lparr>db_aof := a, tick := Suc (tick d)\<rparr>))\<lparr>rewrite_from := aof_size a\<rparr>"
  have e: "rooms e = rooms d" "db_eviction e = db_eviction d" "tombstones e = tombstones d" "now_ms e = now_ms d" "io e = io d" "db_aof e = a" "rewrite_from e = aof_size a"
    by (simp_all add: e_def discard_active_snapshots_def)
  obtain dk out where ch: "run_child e = (True, dk, out)" using ex_child [of e] fin e by (cases "run_child e") auto
  have d1: "d1 = e\<lparr>db_disk := dk, db_aof := a\<lparr>aof_tmp := Some (tmp_of a @ out)\<rparr>, rewrite_child := True, rewrite_result := True, tick := Suc (tick e + spent e)\<rparr>"
    using run st ch idle(1) fin(5) env by (simp add: start_background_rewrite_def Let_def e_def discard_active_snapshots_def)
  show ?thesis using idle(3)
    by (auto simp: finish_background_rewrite_def Let_def d1 e fin(5) env append_tail_def tail_loop.simps a_def commit_rewrite_def bump_generation_def)
qed

text \<open>
  C38. A defect, from start to restart. Take a log, as this version writes it, that ends in the deletion of a key and a later write of the
  same key, and start a server that replicates on it: the key is there. Let the server rewrite its log in the background, and the
  new file be taken into use: the key is still there. Start again on the new file: the key is gone. Replaying the deletion leaves a
  tombstone, and replaying the write stores the record but, unlike the live command, keeps the tombstone; the
  dump writes the record first and the tombstone's deletion after it. The records of the dump are assumed to be within the limits of the log's parser.
\<close>

theorem rewrite_after_replay_loses:
  assumes LOG: "LOG = pre @ [del_record n k v, set_record n k r]" "\<forall>x \<in> set LOG. aofrec_ok x \<and> plain x"
    and peers: "peers \<noteq> 0" and ts: "0 < hlc_normalize (v_ts v)"
    and env: "re_open re" "length (log_image LOG) \<le> re_limit re" "\<forall>i. we_read (io_wake env i)"
    and d: "d = construct re oe (reboot node peers offs max_r pol mn keys mem now env (Some (log_image LOG)) dk)"
    and run: "start_background_rewrite d = (reply, d1)" and d2: "d2 = finish_background_rewrite d1" and new: "generation (db_aof d2) \<noteq> generation (db_aof d1)"
    and able: "\<forall>x \<in> set (dump_image d). aofrec_ok x"
    and env': "re_open re'" "length (file_of (db_aof d2)) \<le> re_limit re'" "\<forall>i. we_read (io_wake env' i)"
    and d3: "d3 = construct re' oe' (reboot node' peers' offs' max_r' pol' mn' keys' mem' later env' (aof_file (db_aof d2)) (db_disk d2))"
  shows "logical d n k = Some (r\<lparr>timestamp_ms := hlc_normalize (timestamp_ms r)\<rparr>) \<and> logical d2 n k = logical d n k \<and> logical d3 n k = None"
proof -
  let ?d0 = "reboot node peers offs max_r pol mn keys mem now env (Some (log_image LOG)) dk"
  have ok: "\<forall>x \<in> set LOG. aofrec_ok x" using LOG(2) by blast
  obtain a c f where
    con: "construct re oe ?d0 = (foldl (\<lambda>d r. replay_record r d) (?d0\<lparr>db_aof := a\<rparr>) LOG)\<lparr>db_aof := snd (open_file oe a), clock := c, frontier := f\<rparr>"
      "\<not> rewrite_fd (snd (open_file oe a))"
    by (rule construct_replays [OF ok env])
  define e where "e = foldl (\<lambda>d r. replay_record r d) (?d0\<lparr>db_aof := a\<rparr>) LOG"
  have de: "d = e\<lparr>db_aof := snd (open_file oe a), clock := c, frontier := f\<rparr>" unfolding d con(1) e_def ..
  have fd: "\<not> rewrite_fd (db_aof d)" using con(2) by (simp add: de)
  have i: "\<forall>x \<in> set LOG. i64 (ar_expire_at x)" "\<forall>x \<in> set pre. i64 (ar_expire_at x)" using ok LOG(1) by (simp_all add: aofrec_ok_def)
  note r = replay_all [OF reboot_ok [OF env(3)] i(1) e_def [symmetric]]
  have reg: "registry_ok d" using r by (simp add: de clock_frame replaying_ok_def)
  have idle: "\<not> rewrite_child d" using replay_all_untouched [of "?d0\<lparr>db_aof := a\<rparr>" LOG] by (simp add: de e_def untouched_def reboot_def database_init_def)
  note b = background_image [OF reg idle fd run d2 new]
  have "logical d n k = redo_changes (logical (?d0\<lparr>db_aof := a\<rparr>) n) (of_room n LOG) k"
    using r redo_plain [of "of_room n LOG"] LOG(2) by (simp add: de clock_frame of_room_def)
  also have "\<dots> = Some (r\<lparr>timestamp_ms := hlc_normalize (timestamp_ms r)\<rparr>)"
    using changes_set_record(1) [of n k r] by (simp add: LOG(1) of_room_append redo_append) (simp add: of_room_def redo_changes_def set_record_def)
  finally have lg: "logical d n k = Some (r\<lparr>timestamp_ms := hlc_normalize (timestamp_ms r)\<rparr>)" .
  have "nget (tombstones d) n k \<noteq> None"
    using replayed_tomb [OF reboot_ok [OF env(3)] _ _ i(2)] peers ts by (simp add: de e_def LOG(1))
  then have t: "\<exists>v. (n, k, v) \<in> set (nitems (tombstones d))" using set_nitems [OF registry_okD(3) [OF reg]] by auto
  have pl: "\<forall>x \<in> set (dump_image d). aofrec_ok x \<and> plain x" using able plain_dump by blast
  have "logical d3 n k = redo_changes (shelved d2 n) (of_room n (dump_image d)) k"
    unfolding d3 using restart_on_image [OF conjunct2 [OF b] pl env' refl] by simp
  also have "\<dots> = None" using t redo_tombs by (simp add: dump_image_def tomb_items_def)
  finally show ?thesis using lg same_store_keeps(1) [OF conjunct1 [OF b]] by simp
qed

theorem rewrite_after_replay_loses_witness:
  "let re = \<lparr>re_open = True, re_limit = length (log_image ex_again), re_trunc = True, re_rename = True\<rparr>;
       d = construct re ex_open (reboot 7 1 500 10 Everysec 0 100 0 3000000000 ex_io (Some (log_image ex_again)) Map.empty);
       d2 = finish_background_rewrite (snd (start_background_rewrite d));
       d3 = construct (re\<lparr>re_limit := length (file_of (db_aof d2))\<rparr>) ex_open
              (reboot 7 1 500 10 Everysec 0 100 0 4000000000 ex_io (aof_file (db_aof d2)) (db_disk d2))
   in logical d ''default'' ''k'' = Some ex_kept \<and> logical d2 ''default'' ''k'' = Some ex_kept \<and> logical d3 ''default'' ''k'' = None"
proof -
  let ?re = "\<lparr>re_open = True, re_limit = length (log_image ex_again), re_trunc = True, re_rename = True\<rparr>"
  let ?d0 = "reboot 7 1 500 10 Everysec 0 100 0 3000000000 ex_io (Some (log_image ex_again)) Map.empty"
  define d where "d = construct ?re ex_open ?d0"
  obtain reply d1 where run: "start_background_rewrite d = (reply, d1)" by fastforce
  let ?d2 = "finish_background_rewrite d1"
  have ok: "aofrec_ok (set_record ''default'' ''k'' ex_kept)" "aofrec_ok (del_record ''default'' ''k'' (Version 180000000000000 7))"
    by (simp_all add: aofrec_ok_def set_record_def del_record_def ex_kept_def kMaxArgs_def kMaxBulk_def i64_def)
  have LOG: "ex_again = [] @ [del_record ''default'' ''k'' (Version 180000000000000 7), set_record ''default'' ''k'' ex_kept]" by (simp add: ex_again_def)
  have log: "\<forall>x \<in> set ex_again. aofrec_ok x \<and> plain x" using ok by (simp add: ex_again_def changes_set_record(2) changes_del_record(3))
  have env: "\<forall>i. we_read (io_wake ex_io i)" "re_open ?re" "length (log_image ex_again) \<le> re_limit ?re" by (simp_all add: ex_io_def)
  have oks: "\<forall>x \<in> set ex_again. aofrec_ok x" using log by blast
  obtain a c f where con: "construct ?re ex_open ?d0 = (foldl (\<lambda>d r. replay_record r d) (?d0\<lparr>db_aof := a\<rparr>) ex_again)
      \<lparr>db_aof := snd (open_file ex_open a), clock := c, frontier := f\<rparr>" "\<not> rewrite_fd (snd (open_file ex_open a))" "aof_file (snd (open_file ex_open a)) = Some (log_image ex_again)"
    by (rule construct_replays [OF oks env(2,3,1)])
  have d: "d = (ex_retold a)\<lparr>db_aof := snd (open_file ex_open a), clock := c, frontier := f\<rparr>" unfolding d_def con(1) ex_retold_def ..
  have idle: "\<not> rewrite_child d" "\<not> rewrite_fd (db_aof d)" "aof_file (db_aof d) \<noteq> None"
    using replay_all_untouched [of "?d0\<lparr>db_aof := a\<rparr>" ex_again] con(2,3)
    by (simp_all add: d ex_retold_def untouched_def reboot_def database_init_def)
  have fin: "\<exists>room. rooms d = [(''default'', room)] \<and> room_state room = Active \<and> room_keys room = [(''k'', ex_kept)]" "cold_index (db_eviction d) = []"
    "tombstones d = [(''default'', [(''k'', Version 180000000000000 7)])]" "now_ms d = 3000000000" "io d = ex_io"
    using ex_retold_facts [of a] by (simp_all add: d)
  note gen = ex_background [OF fin idle run]
  have able: "\<forall>x \<in> set (dump_image d). aofrec_ok x"
    using fin ok by (auto simp: dump_image_def room_items_def source_def cold_items_def tomb_items_def fresh_def nitems_def)
  have ts: "0 < hlc_normalize (v_ts (Version 180000000000000 7))" by (simp add: hlc_normalize_def kLegacyLimit_def)
  have one: "(1 :: nat) \<noteq> 0" by simp
  have kept: "ex_kept\<lparr>timestamp_ms := hlc_normalize (timestamp_ms ex_kept)\<rparr> = ex_kept" by (simp add: ex_kept_def hlc_normalize_def kLegacyLimit_def)
  let ?re' = "?re\<lparr>re_limit := length (file_of (db_aof ?d2))\<rparr>"
  have env': "re_open ?re'" "length (file_of (db_aof ?d2)) \<le> re_limit ?re'" by simp_all
  from rewrite_after_replay_loses [OF LOG log one ts env(2,3,1) d_def run refl gen able env' env(1) refl]
  show ?thesis unfolding Let_def d_def [symmetric] by (simp add: run kept del: One_nat_def)
qed

end
