(* ===== verification/Metrics.thy ===== *)
theory Metrics
  imports Database
begin

text \<open>
  Reporting, \<^verbatim>\<open>src/src/server/metrics.cpp\<close> and \<^verbatim>\<open>metrics.h\<close>: the gauges of the append-only file, the table of
  replication peers, the text of the exporter.

  The gauges of the log are written with relaxed atomics and read by nobody but the reports, so they are
  a record of their own, beside \<open>metrics\<close>. The failure detector computes with \<^verbatim>\<open>double\<close>: its numbers are those of an
  ordered field \<open>'f\<close>, without rounding, and the functions of the C library (\<^verbatim>\<open>erfc\<close>, \<^verbatim>\<open>sqrt\<close>, \<^verbatim>\<open>log10\<close>,
  \<^verbatim>\<open>std::to_string\<close>) are arguments. The socket around the text of the exporter is in \<open>Exporter\<close>.
\<close>

section \<open>Gauges and peers\<close>

record gauges =
  g_aof_bytes :: u64
  g_aof_base_bytes :: u64
  g_aof_synced_bytes :: u64
  g_aof_pending_bytes :: u64
  g_aof_generation :: u64
  g_aof_sync_inflight :: u64
  g_aof_last_sync_epoch_ms :: u64
  g_aof_sync_duration_us :: u64
  g_aof_sync_overruns :: u64
  g_aof_append_lock_wait_us :: u64
  g_aof_append_lock_waits_slow :: u64

definition aof_sync_age_ms :: "gauges \<Rightarrow> int \<Rightarrow> int" where
  "aof_sync_age_ms g now =
     (let last = g_aof_last_sync_epoch_ms g in
      if last = 0 then - 1 else let age = now - sint last in if age < 0 then 0 else age)"

record 'f peer_state =
  mean_ms :: 'f
  stddev_ms :: 'f
  last_beat_ms :: int
  lag_bytes :: u64

text \<open>\<^verbatim>\<open>std::map\<close>: the entries are kept in the order of the names.\<close>

definition byte_less :: "char \<Rightarrow> char \<Rightarrow> bool" where
  "byte_less a b \<longleftrightarrow> (of_char a :: nat) < of_char b"

fun str_less :: "string \<Rightarrow> string \<Rightarrow> bool" where
  "str_less xs [] = False"
| "str_less [] (y # ys) = True"
| "str_less (x # xs) (y # ys) = (byte_less x y \<or> (x = y \<and> str_less xs ys))"

fun publish_peer :: "string \<Rightarrow> 'v \<Rightarrow> (string \<times> 'v) list \<Rightarrow> (string \<times> 'v) list" where
  "publish_peer peer p [] = [(peer, p)]"
| "publish_peer peer p ((name, q) # ps) =
     (if peer = name then (peer, p) # ps
      else if str_less peer name then (peer, p) # (name, q) # ps
      else (name, q) # publish_peer peer p ps)"

text \<open>What is used of the C library.\<close>

record 'f libm =
  fn_erfc :: "'f \<Rightarrow> 'f"
  fn_sqrt :: "'f \<Rightarrow> 'f"
  fn_log10 :: "'f \<Rightarrow> 'f"
  fn_show :: "'f \<Rightarrow> string"

text \<open>The suspicion level; \<open>None\<close> is an infinite one, without a heartbeat yet.\<close>

definition phi :: "'f :: linordered_field libm \<Rightarrow> int \<Rightarrow> 'f peer_state \<Rightarrow> 'f option" where
  "phi lm now p =
     (if last_beat_ms p = 0 then None
      else
        (let sd = max (stddev_ms p) 100;
             later = 1 / 2 * fn_erfc lm ((of_int (now - last_beat_ms p) - mean_ms p) / (sd * fn_sqrt lm 2)) in
         Some (if later < 1 / 10 ^ 300 then 300 else - fn_log10 lm later)))"

definition NL :: string where "NL = [CHR 0x0A]"

definition QUOTE :: string where "QUOTE = [CHR 0x22]"

definition peer_lines :: "'f :: linordered_field libm \<Rightarrow> int \<Rightarrow> bool \<Rightarrow> string \<times> 'f peer_state \<Rightarrow> string" where
  "peer_lines lm now prometheus = (\<lambda>(name, p).
     let val = (case phi lm now p of None \<Rightarrow> if prometheus then ''+Inf'' else ''inf'' | Some f \<Rightarrow> fn_show lm f);
         lag = dec (unat (lag_bytes p)) in
     if prometheus
     then ''db_peer_phi{peer='' @ QUOTE @ name @ QUOTE @ ''} '' @ val @ NL @
          ''db_peer_lag_bytes{peer='' @ QUOTE @ name @ QUOTE @ ''} '' @ lag @ NL
     else ''Peer '' @ name @ '': phi='' @ val @ '' lag='' @ lag @ NL)"

definition peers_report :: "'f :: linordered_field libm \<Rightarrow> int \<Rightarrow> bool \<Rightarrow> (string \<times> 'f peer_state) list \<Rightarrow> string" where
  "peers_report lm now prometheus ps = concat (map (peer_lines lm now prometheus) ps)"

section \<open>The exporter\<close>

definition heading :: "string \<Rightarrow> string \<Rightarrow> string \<Rightarrow> string" where
  "heading name help kind = ''# HELP '' @ name @ '' '' @ help @ NL @ ''# TYPE '' @ name @ '' '' @ kind @ NL"

definition sample :: "string \<times> string \<times> string \<times> nat \<Rightarrow> string" where
  "sample = (\<lambda>(name, help, kind, v). heading name help kind @ name @ '' '' @ dec v @ NL)"

definition samples :: "metrics \<Rightarrow> gauges \<Rightarrow> int \<Rightarrow> (string \<times> string \<times> string \<times> nat) list" where
  "samples m g now =
     [(''db_keys_in_ram'', ''Total keys currently in memory'', ''gauge'', unat (keys_in_ram m)),
      (''db_resident_bytes'', ''Estimated bytes of keys and values resident in RAM'', ''gauge'', unat (resident_bytes m)),
      (''db_tombstones'', ''Versioned delete markers not yet garbage-collected'', ''gauge'', unat (tombstone_count m)),
      (''db_total_gets'', ''Total GET commands'', ''counter'', unat (total_gets m)),
      (''db_total_sets'', ''Total SET commands'', ''counter'', unat (total_sets m)),
      (''db_cache_hits'', ''Total successful memory reads'', ''counter'', unat (cache_hits m)),
      (''db_keys_evicted'', ''Total keys sent to Cold Storage'', ''counter'', unat (keys_evicted m)),
      (''db_cold_file_bytes'', ''Current size of the cold storage file'', ''gauge'', unat (cold_file_bytes m)),
      (''db_cold_obsolete_bytes'', ''Cold storage bytes no longer referenced by the index'', ''gauge'', unat (cold_obsolete_bytes m)),
      (''db_cold_reclaimed_bytes'', ''Total bytes reclaimed by cold storage compaction'', ''counter'', unat (cold_reclaimed_bytes m)),
      (''db_aof_bytes'', ''Current size of the append-only file'', ''gauge'', unat (g_aof_bytes g)),
      (''db_aof_base_bytes'', ''AOF size after the last rewrite (or at startup)'', ''gauge'', unat (g_aof_base_bytes g)),
      (''db_aof_synced_bytes'', ''Durable prefix of the current AOF generation'', ''gauge'', unat (g_aof_synced_bytes g)),
      (''db_aof_pending_bytes'', ''Appended bytes not yet covered by a successful fdatasync'', ''gauge'', unat (g_aof_pending_bytes g)),
      (''db_aof_generation'', ''AOF file generation; completions from an older generation are ignored'', ''gauge'', unat (g_aof_generation g)),
      (''db_aof_sync_inflight'', ''1 while an everysec fdatasync is running outside the append lock'', ''gauge'', unat (g_aof_sync_inflight g)),
      (''db_aof_sync_age_ms'', ''Age of the last successful sync; grows while storage stalls'', ''gauge'',
        nat (if aof_sync_age_ms g now < 0 then 0 else aof_sync_age_ms g now)),
      (''db_aof_sync_duration_us'', ''Duration of the last sync attempt, including test delay'', ''gauge'', unat (g_aof_sync_duration_us g)),
      (''db_aof_sync_overruns'', ''Sync attempts that took longer than the target interval'', ''counter'', unat (g_aof_sync_overruns g)),
      (''db_aof_append_lock_wait_us'', ''Time the last append spent waiting for the AOF mutex'', ''gauge'', unat (g_aof_append_lock_wait_us g)),
      (''db_aof_append_lock_waits_slow'', ''Appends that waited at least 50ms for the AOF mutex'', ''counter'', unat (g_aof_append_lock_waits_slow g))]"

definition exporter_body :: "metrics \<Rightarrow> gauges \<Rightarrow> int \<Rightarrow> string \<Rightarrow> string" where
  "exporter_body m g now peers =
     concat (map sample (samples m g now)) @
     heading ''db_peer_phi'' ''Phi accrual suspicion level per replication peer'' ''gauge'' @
     heading ''db_peer_lag_bytes'' ''AOF bytes not yet acknowledged by the peer'' ''gauge'' @ peers"

definition exporter_response :: "string \<Rightarrow> string" where
  "exporter_response body =
     ''HTTP/1.1 200 OK'' @ CRLF @ ''Content-Type: text/plain'' @ CRLF @
     ''Content-Length: '' @ dec (length body) @ CRLF @ ''Connection: close'' @ CRLF @ CRLF @ body"

section \<open>The peer table\<close>

lemma str_less_irrefl: "\<not> str_less s s"
  by (induction s) (auto simp: byte_less_def)

lemma byte_eqI: "(of_char a :: nat) = of_char b \<Longrightarrow> a = b"
  by simp

lemma str_less_trans: "str_less a b \<Longrightarrow> str_less b c \<Longrightarrow> str_less a c"
proof (induction a b arbitrary: c rule: str_less.induct)
  case (2 y ys)
  then show ?case by (cases c) auto
next
  case (3 x xs y ys)
  then show ?case by (cases c) (auto simp: byte_less_def)
qed simp

lemma str_less_linear: "a = b \<or> str_less a b \<or> str_less b a"
proof (induction a b rule: str_less.induct)
  case (1 xs)
  then show ?case by (cases xs) auto
next
  case (3 x xs y ys)
  then show ?case by (auto simp: byte_less_def dest: byte_eqI)
qed simp

definition peers_ok :: "(string \<times> 'v) list \<Rightarrow> bool" where
  "peers_ok ps \<longleftrightarrow> sorted_wrt str_less (map fst ps)"

lemma publish_peer_names: "set (map fst (publish_peer n p ps)) = insert n (set (map fst ps))"
  by (induction n p ps rule: publish_peer.induct) auto

text \<open>Publishing updates one peer and keeps the table an ordered map.\<close>

lemma publish_peer_ok:
  assumes "peers_ok ps"
  shows "peers_ok (publish_peer n p ps)" "map_of (publish_peer n p ps) m = (if m = n then Some p else map_of ps m)"
proof -
  show "peers_ok (publish_peer n p ps)" using assms
  proof (induction n p ps rule: publish_peer.induct)
    case (2 peer p name q ps)
    have "str_less name peer" if "peer \<noteq> name" "\<not> str_less peer name" using that str_less_linear [of peer name] by auto
    then show ?case using 2 publish_peer_names [of peer p ps] by (auto simp: peers_ok_def intro: str_less_trans)
  qed (simp add: peers_ok_def)
  show "map_of (publish_peer n p ps) m = (if m = n then Some p else map_of ps m)" using assms
  proof (induction n p ps rule: publish_peer.induct)
    case (2 peer p name q ps)
    then show ?case by (auto simp: peers_ok_def)
  qed simp
qed

section \<open>The failure detector\<close>

text \<open>What the C library promises of the three functions, as far as the level relies on it.\<close>

definition libm_ok :: "'f :: linordered_field libm \<Rightarrow> bool" where
  "libm_ok lm \<longleftrightarrow>
     (\<forall>x y. x \<le> y \<longrightarrow> fn_erfc lm y \<le> fn_erfc lm x) \<and> (\<forall>x. fn_erfc lm x \<le> 2) \<and> fn_sqrt lm 2 > 0 \<and>
     (\<forall>x y. 0 < x \<and> x \<le> y \<longrightarrow> fn_log10 lm x \<le> fn_log10 lm y) \<and> fn_log10 lm 1 = 0 \<and> fn_log10 lm (1 / 10 ^ 300) = - 300"

text \<open>The level is between 0 and 300 and does not fall while the peer is silent.\<close>

lemma phi_level:
  assumes lm: "libm_ok lm" and at: "phi lm now p = Some f"
  shows "0 \<le> f" "f \<le> 300" "now \<le> now' \<Longrightarrow> \<exists>f'. phi lm now' p = Some f' \<and> f \<le> f'"
proof -
  let ?sd = "max (stddev_ms p) 100 * fn_sqrt lm 2"
  define later where "later t = 1 / 2 * fn_erfc lm ((of_int (t - last_beat_ms p) - mean_ms p) / ?sd)" for t
  define level where "level x = (if x < 1 / 10 ^ 300 then 300 else - fn_log10 lm x)" for x
  have beat: "last_beat_ms p \<noteq> 0" using at by (auto simp: phi_def split: if_splits)
  then have ph: "phi lm t p = Some (level (later t))" for t by (simp add: phi_def later_def level_def Let_def)
  have mono: "fn_log10 lm x \<le> fn_log10 lm y" if "0 < x" "x \<le> y" for x y using lm that by (simp add: libm_ok_def)
  have ends: "fn_log10 lm 1 = 0" "fn_log10 lm (1 / 10 ^ 300) = - 300" using lm by (simp_all add: libm_ok_def)
  have pos: "0 < (1 :: 'a) / 10 ^ 300" by simp
  have top: "level x \<le> 300" for x
    using mono [OF pos, of x] ends(2) by (auto simp: level_def not_less)
  have level: "level y \<le> level x" if xy: "x \<le> y" for x y
  proof (cases "x < 1 / 10 ^ 300")
    case True
    then show ?thesis using top [of y] by (simp add: level_def)
  next
    case False
    then have x: "0 < x" "1 / 10 ^ 300 \<le> y" using pos xy by (simp_all add: not_less)
    then show ?thesis using False mono [OF x(1) xy] by (simp add: level_def not_less)
  qed
  have erfc: "fn_erfc lm y \<le> fn_erfc lm x" if "x \<le> y" for x y using lm that by (simp add: libm_ok_def)
  have sd: "0 < ?sd" using lm by (simp add: libm_ok_def less_max_iff_disj)
  have late: "later t' \<le> later t" if "t \<le> t'" for t t'
    unfolding later_def using erfc that sd by (simp add: divide_right_mono less_imp_le)
  have "fn_erfc lm x \<le> 2" for x using lm by (simp add: libm_ok_def)
  then have "later now \<le> 1" by (simp add: later_def)
  moreover have "level 1 = 0" using ends(1) by (simp add: level_def)
  ultimately show "0 \<le> f" using level [of "later now" 1] at ph [of now] by simp
  show "f \<le> 300" using top [of "later now"] at ph [of now] by simp
  show "now \<le> now' \<Longrightarrow> \<exists>f'. phi lm now' p = Some f' \<and> f \<le> f'" using level late at ph by auto
qed

end
