(* ===== verification/Dispatch.thy ===== *)
theory Dispatch
  imports Rewrite Metrics
begin

text \<open>
  The dispatcher, \<^verbatim>\<open>src/src/core/database.cpp\<close>: the table of commands, the commands that do not run in
  a room, \<open>execute\<close> and the cleanup of a client that leaves.

  A command returns its reply, the messages handed to the sink of the publish/subscribe component in the
  order in which they are handed over (all of them before the reply), and the new database. What \<open>INFO\<close> reads
  outside the database is an argument: the uptime, the gauges of the log, the report on the peers.
\<close>

section \<open>Commands of a connection\<close>

record info_env =
  ie_uptime :: int
  ie_gauges :: gauges
  ie_peers :: string

fun policy_name :: "SyncPolicy \<Rightarrow> string" where
  "policy_name Always = ''always''"
| "policy_name Everysec = ''everysec''"
| "policy_name Off = ''no''"

definition handle_info :: "info_env \<Rightarrow> database \<Rightarrow> string" where
  "handle_info ie d =
     (let g = ie_gauges ie; m = db_metrics d in
      bulk_string
        (''Uptime: '' @ dec_int (ie_uptime ie) @ ''s'' @ NL @
         ''Camere active: '' @ dec (active_rooms d) @ NL @
         ''Chei totale: '' @ dec (unat (keys_in_ram m)) @ NL @
         ''Octeti rezidenti: '' @ dec (unat (resident_bytes m)) @ NL @
         ''Tombstone-uri: '' @ dec (unat (tombstone_count m)) @ NL @
         ''Rescriere AOF: '' @ (if rewrite_child d then ''in curs'' else ''inactiva'') @ NL @
         ''Comenzi procesate: '' @ dec (total_commands d) @ NL @
         ''AOF: '' @ policy_name (sync_policy (db_aof d)) @ (if healthy (db_aof d) then '' (sanatos)'' else '' (ERORI SCRIERE)'') @ NL @
         ''AOF sync: age='' @ dec_int (aof_sync_age_ms g (now_ms d)) @ ''ms pending='' @
         dec (unat (g_aof_pending_bytes g)) @
         '' duration_us='' @ dec (unat (g_aof_sync_duration_us g)) @
         '' overruns='' @ dec (unat (g_aof_sync_overruns g)) @
         '' inflight='' @ dec (unat (g_aof_sync_inflight g)) @ NL @
         ie_peers ie))"

definition subscribe_next :: "int \<Rightarrow> bool \<Rightarrow> string \<times> pubsub \<Rightarrow> string \<Rightarrow> string \<times> pubsub" where
  "subscribe_next fd r3 = (\<lambda>(replies, p) channel. case subscribe fd channel r3 p of (r, p') \<Rightarrow> (replies @ r, p'))"

definition handle_subscribe :: "int \<Rightarrow> string list \<Rightarrow> database \<Rightarrow> string \<times> database" where
  "handle_subscribe fd args d =
     (if length args < 2 then (err ''Wrong number of arguments for SUBSCRIBE'', d)
      else
        (case foldl (subscribe_next fd (resp3 d)) ([], db_pubsub d) (drop 1 args) of
           (replies, p) \<Rightarrow> (replies, d\<lparr>db_pubsub := p\<rparr>)))"

definition handle_ping :: "int \<Rightarrow> string list \<Rightarrow> database \<Rightarrow> string" where
  "handle_ping fd args d =
     (if length args > 2 then err ''Wrong number of arguments for PING''
      else if \<not> resp3 d \<and> is_subscribed fd (db_pubsub d)
      then ''*2'' @ CRLF @ ''$4'' @ CRLF @ ''pong'' @ CRLF @ bulk_string (if length args = 2 then args ! 1 else [])
      else if length args = 2 then bulk_string (args ! 1) else ''+PONG'' @ CRLF)"

definition handle_compact :: "database \<Rightarrow> string \<times> database" where
  "handle_compact d =
     (case compact (io_compact (io d) (tick d)) (now_ms d) (db_metrics d) (db_eviction d) of
        (res, m, e) \<Rightarrow>
          (case res of None \<Rightarrow> err ''compaction failed, previous cold file kept'' | Some reclaimed \<Rightarrow> integer_reply (int reclaimed),
           d\<lparr>db_metrics := m, db_eviction := e, tick := Suc (tick d)\<rparr>))"

section \<open>The table\<close>

datatype scope = Connection | InRoom

text \<open>The scope of a command and whether it belongs to publish/subscribe.\<close>

definition kCommands :: "(string \<times> scope \<times> bool) list" where
  "kCommands =
     [(''SUBSCRIBE'', Connection, True), (''UNSUBSCRIBE'', Connection, True), (''PING'', Connection, True), (''PUBLISH'', Connection, True),
      (''COMMAND'', Connection, False), (''ECHO'', Connection, False), (''INFO'', Connection, False), (''ROOM'', Connection, False),
      (''ROOMS'', Connection, False), (''ROOM.'', Connection, False), (''REPLFRONTIER'', Connection, False),
      (''REWRITEAOF'', Connection, False), (''COMPACT'', Connection, False),
      (''GET'', InRoom, False), (''SET'', InRoom, False), (''DEL'', InRoom, False), (''CRDTMERGE'', InRoom, False),
      (''CRDTDEL'', InRoom, False), (''MGET'', InRoom, False), (''MSET'', InRoom, False), (''EXISTS'', InRoom, False),
      (''EXPIRE'', InRoom, False), (''PEXPIRE'', InRoom, False), (''PERSIST'', InRoom, False), (''TTL'', InRoom, False),
      (''PTTL'', InRoom, False), (''SAVE'', InRoom, False)]"

definition command_key :: "string \<Rightarrow> string" where
  "command_key command = (if take 5 command = ''ROOM.'' then ''ROOM.'' else command)"

text \<open>The entry of a command; one that is not in the table runs in the client's room, where it is unknown.\<close>

definition entry_of :: "string \<Rightarrow> scope \<times> bool" where
  "entry_of command = (case map_of kCommands (command_key command) of Some e \<Rightarrow> e | None \<Rightarrow> (InRoom, False))"

type_synonym outcome = "string \<times> (int \<times> string) list \<times> database"

definition silent :: "string \<times> database \<Rightarrow> outcome" where
  "silent = (\<lambda>(reply, d). (reply, [], d))"

definition conn_command :: "info_env \<Rightarrow> int \<Rightarrow> string \<Rightarrow> string list \<Rightarrow> database \<Rightarrow> outcome" where
  "conn_command ie fd command args d =
     (let key = command_key command in
      if key = ''SUBSCRIBE'' then silent (handle_subscribe fd args d)
      else if key = ''UNSUBSCRIBE'' then
        (case unsubscribe fd (drop 1 args) (resp3 d) (db_pubsub d) of (reply, p) \<Rightarrow> (reply, [], d\<lparr>db_pubsub := p\<rparr>))
      else if key = ''PING'' then (handle_ping fd args d, [], d)
      else if key = ''PUBLISH'' then
        (if length args \<ge> 3
         then (case publish (args ! 1) (args ! 2) (db_pubsub d) of (reply, sent) \<Rightarrow> (reply, sent, d))
         else (err ''Wrong number of arguments for PUBLISH'', [], d))
      else if key = ''COMMAND'' then (''*0'' @ CRLF, [], d)
      else if key = ''ECHO'' then
        (if length args = 2 then bulk_string (args ! 1) else err ''Wrong number of arguments for ECHO'', [], d)
      else if key = ''INFO'' then (handle_info ie d, [], d)
      else if key = ''ROOM'' then silent (handle_room fd args d)
      else if key = ''ROOMS'' \<or> key = ''ROOM.'' then silent (handle_room_admin command args d)
      else if key = ''REPLFRONTIER'' then silent (handle_replfrontier args d)
      else if key = ''REWRITEAOF'' then silent (start_background_rewrite d)
      else silent (handle_compact d))"

section \<open>Executing a command\<close>

definition tend_rewrite :: "database \<Rightarrow> database" where
  "tend_rewrite d =
     (let d1 = finish_background_rewrite d in
      if \<not> rewrite_child d1 \<and> rewrite_due (db_aof d1) then snd (start_background_rewrite d1) else d1)"

definition execute :: "info_env \<Rightarrow> int \<Rightarrow> string list \<Rightarrow> bool \<Rightarrow> database \<Rightarrow> outcome" where
  "execute ie fd args r3 d =
     (if args = [] then ([], [], d)
      else
        (case get_client_room fd (tend_rewrite (d\<lparr>resp3 := r3\<rparr>)) of
           (current_room, d1) \<Rightarrow>
             (let command = upper (args ! 0) in
              case entry_of command of
                (scope, pubsub_cmd) \<Rightarrow>
                  if \<not> pubsub_cmd \<and> \<not> r3 \<and> is_subscribed fd (db_pubsub d1)
                  then (err ''Clientul este in mod SUBSCRIBE. Nu poti trimite comenzi de Database!'', [], d1)
                  else
                    (let d2 = (if pubsub_cmd then d1 else d1\<lparr>total_commands := Suc (total_commands d1)\<rparr>) in
                     case scope of
                       InRoom \<Rightarrow> silent (execute_in_room current_room command args d2)
                     | Connection \<Rightarrow> conn_command ie fd command args d2))))"

definition cleanup_client :: "int \<Rightarrow> database \<Rightarrow> database" where
  "cleanup_client fd d = d\<lparr>db_pubsub := remove_client fd (db_pubsub d), client_rooms := AList.delete fd (client_rooms d)\<rparr>"

section \<open>What a command may do to the store\<close>

text \<open>
  The effect of a command: the registry invariant and the budget of active rooms are kept, and the store
  becomes what the records \<open>rs\<close> make of it.
\<close>

definition effect :: "database \<Rightarrow> AofRecord list \<Rightarrow> database \<Rightarrow> bool" where
  "effect d rs d' \<longleftrightarrow>
     registry_ok d' \<and> active_rooms d' \<le> max (active_rooms d) MAX_ACTIVE_ROOMS \<and> now_ms d' = now_ms d \<and>
     (\<forall>n. agree (now_ms d) (logical d' n) (redo_changes (logical d n) (of_room n rs)))"

lemma effect_step: "db_step d rs d' \<Longrightarrow> effect d rs d'"
  by (simp add: db_step_def effect_def of_room_def)

lemma effect_same: "same_store d d' \<Longrightarrow> registry_ok d \<Longrightarrow> effect d [] d'"
  using same_store_keeps [of d d'] by (simp add: effect_def same_store_def of_room_def)

lemma effect_trans:
  assumes "effect a rs b" and "effect b us c"
  shows "effect a (rs @ us) c"
proof -
  have "agree (now_ms a) (logical c n) (redo_changes (redo_changes (logical a n) (of_room n rs)) (of_room n us))" for n
    by (rule agree_trans [of _ _ "redo_changes (logical b n) (of_room n us)"])
      (use assms in \<open>auto simp: effect_def intro: agree_redo\<close>)
  then show ?thesis using assms by (auto simp: effect_def of_room_def)
qed

lemma env_same: "same_store d d' \<Longrightarrow> env_ok d' = env_ok d"
  by (simp add: same_store_def env_ok_def reads_ok_def)

lemma finish_same: "same_store d (finish_background_rewrite d)"
  by (rule same_store_refl)
    (auto simp: finish_background_rewrite_def Let_def split: option.splits prod.splits)

lemma finish_clients:
  "client_rooms (finish_background_rewrite d) = client_rooms d" "db_pubsub (finish_background_rewrite d) = db_pubsub d"
  by (auto simp: finish_background_rewrite_def Let_def split: option.splits prod.splits)

lemma start_same:
  assumes "registry_ok d"
  shows "same_store d (snd (start_background_rewrite d))"
proof -
  obtain started a where st: "start_rewrite (fst (io_start (io d) (tick d))) (snd (io_start (io d) (tick d))) (db_aof d) = (started, a)" by (meson surj_pair)
  let ?d0 = "d\<lparr>db_aof := a, tick := Suc (tick d)\<rparr>"
  let ?d1 = "(discard_active_snapshots ?d0)\<lparr>rewrite_from := aof_size a\<rparr>"
  have s0: "same_store d ?d0" by (rule same_store_refl) simp_all
  have s1: "same_store ?d0 (discard_active_snapshots ?d0)" by (rule discard_same(1) [OF same_store_keeps(2) [OF s0 assms]])
  have s2: "same_store (discard_active_snapshots ?d0) ?d1" by (rule same_store_refl) simp_all
  have d1: "same_store d ?d1" by (rule same_store_trans [OF same_store_trans [OF s0 s1] s2])
  obtain result dk out where rc: "run_child ?d1 = (result, dk, out)" by (metis prod_cases3)
  have "shelved (?d1\<lparr>db_disk := dk, db_aof := x, rewrite_child := True, rewrite_result := result, tick := t\<rparr>) n = shelved ?d1 n" for x t n
    using run_child_same [OF rc, of n] by (simp add: shelved_def)
  then have s3: "same_store ?d1 (?d1\<lparr>db_disk := dk, db_aof := x, rewrite_child := True, rewrite_result := result, tick := t\<rparr>)" for x t
    by (simp add: same_store_def)
  have s4: "same_store ?d1 (?d1\<lparr>db_aof := x, tick := t\<rparr>)" for x t by (rule same_store_refl) simp_all
  show ?thesis
    using same_store_refl [of d d] s0 same_store_trans [OF d1 s3] same_store_trans [OF d1 s4]
    by (simp add: start_background_rewrite_def st rc Let_def)
qed

lemma start_clients:
  "client_rooms (snd (start_background_rewrite d)) = client_rooms d" "db_pubsub (snd (start_background_rewrite d)) = db_pubsub d"
  by (auto simp: start_background_rewrite_def discard_active_snapshots_def Let_def split: prod.splits)

lemma tend_same:
  assumes "registry_ok d"
  shows "same_store d (tend_rewrite d)" "client_rooms (tend_rewrite d) = client_rooms d" "db_pubsub (tend_rewrite d) = db_pubsub d"
proof -
  let ?d1 = "finish_background_rewrite d"
  have "registry_ok ?d1" by (rule same_store_keeps(2) [OF finish_same assms])
  then show "same_store d (tend_rewrite d)"
    using same_store_trans [OF finish_same start_same] finish_same by (simp add: tend_rewrite_def Let_def)
  show "client_rooms (tend_rewrite d) = client_rooms d" "db_pubsub (tend_rewrite d) = db_pubsub d"
    by (simp_all add: tend_rewrite_def Let_def start_clients finish_clients)
qed

lemma compact_effect:
  assumes reg: "registry_ok d"
  shows "effect d [] (snd (handle_compact d))"
proof -
  note r = registry_okD [OF reg]
  obtain res m e where run: "compact (io_compact (io d) (tick d)) (now_ms d) (db_metrics d) (db_eviction d) = (res, m, e)" by (metis prod_cases3)
  let ?d = "d\<lparr>db_metrics := m, db_eviction := e, tick := Suc (tick d)\<rparr>"
  have out: "snd (handle_compact d) = ?d" by (simp add: handle_compact_def run)
  show ?thesis
  proof (cases res)
    case None
    then have "same_store d ?d" using compact_none [of _ _ _ _ m e] run by (intro same_store_refl) auto
    then show ?thesis unfolding out by (rule effect_same [OF _ reg])
  next
    case (Some reclaimed)
    note c = compact_some [OF r(2) run [unfolded Some]]
    have sh: "shelved ?d n = shelved d n" and act: "is_active ?d n = is_active d n" for n by (simp_all add: shelved_def is_active_def)
    have none: "cold_get e n k = None" if "cold_get (db_eviction d) n k = None" for n k using that c(2) by simp
    have "tiers_ok room e" if "map_of (rooms d) n = Some room" for n room
    proof -
      have "tiers_ok room (db_eviction d)" using r(5) that .
      then show ?thesis using c(1) none by (auto simp: tiers_ok_def cold_get_None [symmetric])
    qed
    then have "registry_ok ?d"
      using reg c(1,6,7) none unfolding registry_ok_def sh act by auto
    moreover have "agree (now_ms d) (logical ?d n) (logical d n)" for n
      using c(2) by (auto simp: agree_def logical_def sh live_def split: option.splits)
    ultimately show ?thesis unfolding out by (simp add: effect_def of_room_def)
  qed
qed

lemma replfrontier_effect:
  assumes reg: "registry_ok d"
  shows "effect d [] (snd (handle_replfrontier args d))"
    "side_state (snd (handle_replfrontier args d)) = side_state d"
proof -
  let ?d = "snd (handle_replfrontier args d)"
  have keep: "rooms ?d = rooms d \<and> db_eviction ?d = db_eviction d \<and> active_rooms ?d = active_rooms d \<and> now_ms ?d = now_ms d \<and>
      db_disk ?d = db_disk d \<and> side_state ?d = side_state d \<and>
      keys_in_ram (db_metrics ?d) = keys_in_ram (db_metrics d) \<and> resident_bytes (db_metrics ?d) = resident_bytes (db_metrics d) \<and>
      (\<exists>w. tombstones ?d = drop_tombs w (tombstones d) \<or> tombstones ?d = tombstones d)"
    by (auto simp: handle_replfrontier_def next_version_def collect_tombstones_def count_tomb_def Let_def split: option.splits prod.splits)
  then have k: "rooms ?d = rooms d" "db_eviction ?d = db_eviction d" "active_rooms ?d = active_rooms d" "now_ms ?d = now_ms d"
    "keys_in_ram (db_metrics ?d) = keys_in_ram (db_metrics d)" "resident_bytes (db_metrics ?d) = resident_bytes (db_metrics d)" "db_disk ?d = db_disk d"
    by blast+
  have sh: "shelved ?d n = shelved d n" and act: "is_active ?d n = is_active d n" for n unfolding shelved_def is_active_def k by (rule refl)+
  have lg: "logical ?d n = logical d n" for n unfolding logical_def k sh ..
  have "nested_ok (tombstones ?d)" using keep registry_okD(3) [OF reg] drop_tombs_ok by metis
  then have "registry_ok ?d" using reg unfolding registry_ok_def sh act k by blast
  then show "effect d [] ?d" by (simp add: effect_def of_room_def k lg)
  show "side_state ?d = side_state d" using keep by simp
qed

section \<open>Clients the database knows\<close>

text \<open>The descriptors in the room table and in the subscriptions are those of connected clients, \<open>F\<close>.\<close>

definition known_clients :: "int set \<Rightarrow> database \<Rightarrow> bool" where
  "known_clients F d \<longleftrightarrow>
     pubsub_ok (db_pubsub d) \<and> fst ` subs (db_pubsub d) \<subseteq> F \<and> al_ok (client_rooms d) \<and> fst ` set (client_rooms d) \<subseteq> F"

lemma known_clients_cong: "client_rooms d' = client_rooms d \<Longrightarrow> db_pubsub d' = db_pubsub d \<Longrightarrow> known_clients F d' = known_clients F d"
  by (simp add: known_clients_def)

lemma known_step: "db_step d rs d' \<Longrightarrow> known_clients F d \<Longrightarrow> known_clients F d'"
  using known_clients_cong [of d' d F] by (simp add: db_step_def)

lemma known_pubsub: "known_clients F d \<Longrightarrow> pubsub_ok p \<Longrightarrow> fst ` subs p \<subseteq> F \<Longrightarrow> known_clients F (d\<lparr>db_pubsub := p\<rparr>)"
  by (simp add: known_clients_def)

lemma known_set_room: "known_clients F d \<Longrightarrow> fd \<in> F \<Longrightarrow> known_clients F (set_client_room fd name d)"
  by (auto simp: known_clients_def set_client_room_def al_ok_def distinct_update dom_update)

lemma get_client_room_same: "get_client_room fd d = (room, d1) \<Longrightarrow> same_store d d1 \<and> room = fst (get_client_room fd d) \<and> db_pubsub d1 = db_pubsub d"
  by (auto simp: get_client_room_def set_client_room_def intro: same_store_refl split: option.splits)

lemma known_get_room: "known_clients F d \<Longrightarrow> fd \<in> F \<Longrightarrow> get_client_room fd d = (room, d1) \<Longrightarrow> known_clients F d1"
  using known_set_room by (auto simp: get_client_room_def split: option.splits)

lemma known_subscribes:
  assumes "pubsub_ok p" and "fst ` subs p \<subseteq> F" and "fd \<in> F"
  shows "pubsub_ok (snd (foldl (subscribe_next fd r3) (replies, p) chs)) \<and> fst ` subs (snd (foldl (subscribe_next fd r3) (replies, p) chs)) \<subseteq> F"
  using assms
proof (induction chs arbitrary: replies p)
  case (Cons ch chs)
  obtain r p' where s: "subscribe fd ch r3 p = (r, p')" by fastforce
  have "pubsub_ok p'" "subs p' = insert (fd, ch) (subs p)" using subscribe_refines [OF Cons.prems(1), of fd ch r3] by (simp_all add: s)
  then show ?case using Cons.IH [of p' "replies @ r"] Cons.prems by (simp add: subscribe_next_def s)
qed simp

lemma known_publish:
  assumes "known_clients F d"
  shows "fst ` set (snd (publish ch msg (db_pubsub d))) \<subseteq> F"
proof -
  have "set (mget (channel_subscribers (db_pubsub d)) ch) \<subseteq> F"
    using assms pubsub_okD(3) [of "db_pubsub d" ch] by (force simp: known_clients_def)
  then show ?thesis by (auto simp: publish_def Let_def)
qed

lemma cleanup_known:
  assumes "known_clients F d"
  shows "known_clients (F - {fd}) (cleanup_client fd d)" "same_store d (cleanup_client fd d)"
proof -
  note r = remove_client_refines [of "db_pubsub d" fd]
  have "fst ` set (AList.delete fd (client_rooms d)) \<subseteq> F - {fd}"
    using assms by (auto simp: known_clients_def AList.delete_eq)
  then show "known_clients (F - {fd}) (cleanup_client fd d)"
    using assms r by (auto simp: known_clients_def cleanup_client_def al_ok_def distinct_delete)
  show "same_store d (cleanup_client fd d)" by (rule same_store_refl) (simp_all add: cleanup_client_def)
qed

section \<open>Every command\<close>

lemma room_admin_step:
  assumes reg: "registry_ok d" and env: "env_ok d" and st: "all_storable d" and run: "handle_room_admin command args d = (reply, d')"
  shows "db_step d [] d'"
proof (cases "command = ''ROOMS'' \<or> length args \<noteq> 2")
  case True
  then show ?thesis using run db_step_refl [OF reg] by (auto simp: handle_room_admin_def split: if_splits)
next
  case two: False
  show ?thesis
  proof (cases "command = ''ROOM.WAKE''")
    case True
    obtain e d1 where w: "wake_room (args ! 1) d = (e, d1)" by fastforce
    have "d' = d1" using run True two w by (simp add: handle_room_admin_def)
    then show ?thesis using wake_room_step [OF reg env w] by simp
  next
    case False
    show ?thesis
    proof (cases "map_of (rooms d) (args ! 1)")
      case None
      then show ?thesis using run two False db_step_refl [OF reg] by (simp add: handle_room_admin_def find_room_def)
    next
      case (Some room)
      obtain ok c where h: "hibernate (room, d) = (ok, c)" by (meson surj_pair)
      have "d' = d \<or> d' = put_room c" using run two False Some h by (auto simp: handle_room_admin_def find_room_def split: if_splits)
      then show ?thesis using hibernate_db_step(1) [OF reg st Some h] db_step_refl [OF reg] by auto
    qed
  qed
qed

lemma handle_room_effect:
  assumes reg: "registry_ok d" and env: "env_ok d" and kn: "known_clients F d" "fd \<in> F" and run: "handle_room fd args d = (reply, d')"
  shows "effect d [] d' \<and> known_clients F d'"
proof (cases "length args = 2")
  case True
  obtain e d1 where w: "wake_room (args ! 1) d = (e, d1)" by fastforce
  note st = wake_room_step [OF reg env w]
  have k1: "known_clients F d1" using known_step [OF st kn(1)] .
  have "same_store d1 (set_client_room fd name d1)" for name by (rule same_store_refl) (simp_all add: set_client_room_def)
  moreover have "registry_ok d1" using st by (simp add: db_step_def)
  ultimately have "effect d [] (set_client_room fd name d1)" for name
    using effect_trans [OF effect_step [OF st] effect_same] by simp
  moreover have "d' = d1 \<or> d' = set_client_room fd (args ! 1) d1" using run True w by (auto simp: handle_room_def split: option.splits)
  ultimately show ?thesis using effect_step [OF st] k1 known_set_room [OF k1 kn(2)] by auto
next
  case False
  then show ?thesis using run effect_step [OF db_step_refl [OF reg]] kn by (auto simp: handle_room_def)
qed

lemma conn_command_ok:
  assumes reg: "registry_ok d" and env: "env_ok d" and st: "all_storable d" and kn: "known_clients F d" "fd \<in> F"
    and run: "conn_command ie fd command args d = (reply, sent, d')"
  shows "effect d [] d' \<and> known_clients F d' \<and> fst ` set sent \<subseteq> F"
proof -
  let ?key = "command_key command"
  have same: "effect d [] (d\<lparr>db_pubsub := p\<rparr>)" for p by (rule effect_same [OF same_store_refl reg]) simp_all
  have keep: "effect d [] d" by (rule effect_step [OF db_step_refl [OF reg]])
  note p = kn(1) [unfolded known_clients_def]
  consider (sub) "?key = ''SUBSCRIBE''" | (unsub) "?key = ''UNSUBSCRIBE''" | (pub) "?key = ''PUBLISH''" | (room) "?key = ''ROOM''"
    | (admin) "?key = ''ROOMS'' \<or> ?key = ''ROOM.''" | (front) "?key = ''REPLFRONTIER''" | (rewrite) "?key = ''REWRITEAOF''"
    | (reads) "?key \<in> {''PING'', ''COMMAND'', ''ECHO'', ''INFO''}"
    | (compact) "?key \<notin> {''SUBSCRIBE'', ''UNSUBSCRIBE'', ''PUBLISH'', ''ROOM'', ''ROOMS'', ''ROOM.'', ''REPLFRONTIER'', ''REWRITEAOF'', ''PING'', ''COMMAND'', ''ECHO'', ''INFO''}"
    by blast
  then show ?thesis
  proof cases
    case sub
    then have "(d' = d \<or> d' = d\<lparr>db_pubsub := snd (foldl (subscribe_next fd (resp3 d)) ([], db_pubsub d) (drop 1 args))\<rparr>) \<and> sent = []"
      using run by (auto simp: conn_command_def handle_subscribe_def silent_def Let_def split: if_splits prod.splits)
    then show ?thesis using keep same kn(1) known_pubsub [OF kn(1)] known_subscribes [of "db_pubsub d" F fd "resp3 d" "[]" "drop 1 args"] p kn(2) by auto
  next
    case unsub
    then have "d' = d\<lparr>db_pubsub := snd (unsubscribe fd (drop 1 args) (resp3 d) (db_pubsub d))\<rparr> \<and> sent = []"
      using run by (auto simp: conn_command_def Let_def split: if_splits prod.splits)
    moreover have "known_clients F (d\<lparr>db_pubsub := snd (unsubscribe fd (drop 1 args) (resp3 d) (db_pubsub d))\<rparr>)"
      by (rule known_pubsub [OF kn(1)]) (use p unsubscribe_refines [of "db_pubsub d" fd "drop 1 args" "resp3 d"] in auto)
    ultimately show ?thesis using same by simp
  next
    case pub
    then have "d' = d \<and> (sent = [] \<or> sent = snd (publish (args ! 1) (args ! 2) (db_pubsub d)))"
      using run by (auto simp: conn_command_def Let_def split: if_splits prod.splits)
    then show ?thesis using keep kn(1) known_publish [OF kn(1)] by auto
  next
    case room
    then have "d' = snd (handle_room fd args d) \<and> sent = []" using run by (auto simp: conn_command_def silent_def split: prod.splits)
    then show ?thesis using handle_room_effect [OF reg env kn prod.collapse [symmetric]] by simp
  next
    case admin
    then have "d' = snd (handle_room_admin command args d) \<and> sent = []" using run by (auto simp: conn_command_def silent_def Let_def split: prod.splits)
    then show ?thesis using room_admin_step [OF reg env st prod.collapse [symmetric], of command args] effect_step known_step [OF _ kn(1)] by simp
  next
    case front
    then have "d' = snd (handle_replfrontier args d) \<and> sent = []" using run by (auto simp: conn_command_def silent_def split: prod.splits)
    then show ?thesis using replfrontier_effect [OF reg, of args] known_clients_cong [of d' d F] kn(1) by simp
  next
    case rewrite
    then have "d' = snd (start_background_rewrite d) \<and> sent = []" using run by (auto simp: conn_command_def silent_def split: prod.splits)
    then show ?thesis using effect_same [OF start_same [OF reg] reg] known_clients_cong [OF start_clients, of F] kn(1) by simp
  next
    case reads
    then have "d' = d \<and> sent = []" using run by (auto simp: conn_command_def)
    then show ?thesis using keep kn(1) by simp
  next
    case compact
    then have "d' = snd (handle_compact d) \<and> sent = []" using run by (auto simp: conn_command_def silent_def Let_def split: prod.splits)
    moreover have "known_clients F (snd (handle_compact d)) = known_clients F d"
      by (rule known_clients_cong) (simp_all add: handle_compact_def split: prod.splits)
    ultimately show ?thesis using compact_effect [OF reg] kn(1) by simp
  qed
qed

lemma execute_effect:
  assumes reg: "registry_ok d" and env: "env_ok d" and st: "all_storable d" and kn: "known_clients F d" "fd \<in> F"
    and run: "execute ie fd args r3 d = (reply, sent, d')"
  shows "\<exists>rs. effect d rs d' \<and> (\<forall>r \<in> set rs. ar_room r = fst (get_client_room fd d)) \<and> known_clients F d' \<and> fst ` set sent \<subseteq> F \<and>
    (\<not> snd (entry_of (upper (args ! 0))) \<and> \<not> r3 \<and> is_subscribed fd (db_pubsub d) \<longrightarrow> rs = [])"
proof (cases "args = []")
  case True
  then show ?thesis using run kn effect_step [OF db_step_refl [OF reg]] by (intro exI [of _ "[]"]) (simp add: execute_def)
next
  case args: False
  let ?d0 = "d\<lparr>resp3 := r3\<rparr>"
  let ?d1 = "tend_rewrite ?d0"
  have s0: "same_store d ?d0" by (rule same_store_refl) simp_all
  have reg0: "registry_ok ?d0" by (rule same_store_keeps(2) [OF s0 reg])
  note t = tend_same [OF reg0]
  obtain room d2 where g: "get_client_room fd ?d1 = (room, d2)" by fastforce
  note gs = get_client_room_same [OF g]
  have s2: "same_store d d2" using same_store_trans [OF same_store_trans [OF s0 t(1)]] gs by blast
  have room: "room = fst (get_client_room fd d)" using gs t(2) by (simp add: get_client_room_def split: option.splits)
  have k2: "known_clients F d2"
    by (rule known_get_room [OF _ kn(2) g]) (use kn(1) known_clients_cong [OF t(2,3), of F] known_clients_cong [of ?d0 d F] in simp)
  have ps: "db_pubsub d2 = db_pubsub d" using gs t(3) by simp
  obtain sc pc where e: "entry_of (upper (args ! 0)) = (sc, pc)" by fastforce
  let ?d3 = "if pc then d2 else d2\<lparr>total_commands := Suc (total_commands d2)\<rparr>"
  have s3: "same_store d ?d3" using same_store_trans [OF s2 same_store_refl, of ?d3] s2 by simp
  have reg3: "registry_ok ?d3" by (rule same_store_keeps(2) [OF s3 reg])
  have env3: "env_ok ?d3" using env_same [OF s3] env by simp
  have st3: "all_storable ?d3" using st s3 by (simp add: all_storable_def same_store_def)
  have k3: "known_clients F ?d3" using k2 known_clients_cong [of ?d3 d2 F] by simp
  note same2 = effect_same [OF s2 reg] and same3 = effect_same [OF s3 reg]
  have ex: "execute ie fd args r3 d =
      (if \<not> pc \<and> \<not> r3 \<and> is_subscribed fd (db_pubsub d2)
       then (err ''Clientul este in mod SUBSCRIBE. Nu poti trimite comenzi de Database!'', [], d2)
       else case sc of InRoom \<Rightarrow> silent (execute_in_room room (upper (args ! 0)) args ?d3) | Connection \<Rightarrow> conn_command ie fd (upper (args ! 0)) args ?d3)"
    using args g e by (simp add: execute_def Let_def)
  show ?thesis
  proof (cases "\<not> pc \<and> \<not> r3 \<and> is_subscribed fd (db_pubsub d2)")
    case True
    then show ?thesis using run same2 k2 unfolding ex by (intro exI [of _ "[]"]) simp
  next
    case False
    show ?thesis
    proof (cases sc)
      case Connection
      then have "conn_command ie fd (upper (args ! 0)) args ?d3 = (reply, sent, d')" using run False unfolding ex by simp
      note c = conn_command_ok [OF reg3 env3 st3 k3 kn(2) this]
      then show ?thesis using effect_trans [OF same3] by (intro exI [of _ "[]"]) force
    next
      case InRoom
      obtain rep d4 where r: "execute_in_room room (upper (args ! 0)) args ?d3 = (rep, d4)" by fastforce
      then have d': "d' = d4" "sent = []" using run False InRoom unfolding ex by (simp_all add: silent_def)
      obtain rs where rs: "db_step ?d3 rs d4" "\<forall>r \<in> set rs. ar_room r = room" using execute_in_room_step [OF reg3 env3 r] by blast
      have "effect d ([] @ rs) d'" using effect_trans [OF same3 effect_step [OF rs(1)]] d' by simp
      moreover have "known_clients F d'" using known_step [OF rs(1) k3] d' by simp
      ultimately show ?thesis using rs(2) room d' False e ps by (intro exI [of _ rs]) auto
    qed
  qed
qed

text \<open>The invariant of the database while it serves the clients \<open>F\<close>.\<close>

definition server_ok :: "int set \<Rightarrow> database \<Rightarrow> bool" where
  "server_ok F d \<longleftrightarrow> registry_ok d \<and> active_rooms d \<le> MAX_ACTIVE_ROOMS \<and> known_clients F d"

lemma server_effect: "server_ok F d \<Longrightarrow> effect d rs d' \<Longrightarrow> known_clients F d' \<Longrightarrow> server_ok F d'"
  by (auto simp: server_ok_def effect_def)

section \<open>A concrete server\<close>

definition ex_info :: info_env where
  "ex_info = \<lparr>ie_uptime = 1, ie_gauges = \<lparr>g_aof_bytes = 0, g_aof_base_bytes = 0, g_aof_synced_bytes = 0, g_aof_pending_bytes = 0,
     g_aof_generation = 0, g_aof_sync_inflight = 0, g_aof_last_sync_epoch_ms = 0, g_aof_sync_duration_us = 0,
     g_aof_sync_overruns = 0, g_aof_append_lock_wait_us = 0, g_aof_append_lock_waits_slow = 0\<rparr>, ie_peers = []\<rparr>"

lemma ex_server: "server_ok F ex_logged" "env_ok ex_logged" "all_storable ex_logged" "fst (get_client_room fd ex_logged) = ''default''"
  "\<not> is_subscribed fd (db_pubsub ex_logged)"
proof -
  have e: "db_pubsub ex_logged = pubsub_init" "client_rooms ex_logged = []" "active_rooms ex_logged = 1" "io ex_logged = ex_io"
    "db_eviction ex_logged = eviction_init True 100 0"
    by (simp_all add: ex_logged_def ex_db_def database_init_def)
  have "registry_ok ex_logged" using ex_logged_dumpable(1) by (simp add: dumpable_def)
  then show "server_ok F ex_logged"
    by (simp add: server_ok_def known_clients_def e pubsub_ok_init MAX_ACTIVE_ROOMS_def al_ok_def) (simp add: subs_def pubsub_init_def mget_def)
  show "env_ok ex_logged"
    by (simp add: env_ok_def reads_ok_def e ex_logged_durable(2) sane_clock_def ex_io_def) (simp add: eviction_init_def nget_def inner_def)
  show "all_storable ex_logged" by (simp add: all_storable_def ex_logged_def sized_def normal_versions_def ex_kept_def kLegacyLimit_def)
  show "fst (get_client_room fd ex_logged) = ''default''" by (simp add: get_client_room_def e)
  show "\<not> is_subscribed fd (db_pubsub ex_logged)" by (simp add: e is_subscribed_def pubsub_init_def)
qed

section \<open>Properties\<close>

text \<open>
  C31. Whatever a client sends, the database keeps its invariant: the registry is well formed, its counters of
  active rooms, resident keys and resident bytes are exact, no more than three rooms are active, no key is in two
  tiers, the subscription indexes mirror each other and mention only connected clients; messages are handed over
  to connected clients only. This holds through the background rewrite that \<open>execute\<close> may finish or start
  first, and for every command of the table as well as for unknown ones.
\<close>

theorem execute_keeps_invariant:
  assumes "server_ok F d" and "env_ok d" and "all_storable d" and "fd \<in> F" and "execute ie fd args r3 d = (reply, sent, d')"
  shows "server_ok F d' \<and> fst ` set sent \<subseteq> F"
  using execute_effect [OF _ assms(2,3) _ assms(4,5)] server_effect [OF assms(1)] assms(1) by (auto simp: server_ok_def)

theorem execute_keeps_invariant_witness:
  "case execute ex_info 5 [''SET'', ''k'', ''w''] False ex_logged of (reply, sent, d') \<Rightarrow> server_ok {5} d' \<and> fst ` set sent \<subseteq> {5}"
  using execute_keeps_invariant [OF ex_server(1-3) insertI1] by (auto split: prod.split)

text \<open>
  C32. Rooms are isolated: a command changes no room but the one its client has selected. Every key of every
  other room keeps its record, value, expiry and version, as long as it has not expired, whether the command
  is a write, a merge, a deletion, a room command, a compaction or one that triggers a rewrite of the log. A client
  in subscribe mode on RESP2 changes no room at all with commands outside publish/subscribe.
\<close>

theorem room_isolation:
  assumes "server_ok F d" and "env_ok d" and "all_storable d" and "fd \<in> F" and "execute ie fd args r3 d = (reply, sent, d')"
    and other: "n \<noteq> fst (get_client_room fd d) \<or> (is_subscribed fd (db_pubsub d) \<and> \<not> r3 \<and> \<not> snd (entry_of (upper (args ! 0))))"
  shows "agree (now_ms d) (logical d' n) (logical d n)"
proof -
  obtain rs where rs: "effect d rs d'" "\<forall>r \<in> set rs. ar_room r = fst (get_client_room fd d)"
    "\<not> snd (entry_of (upper (args ! 0))) \<and> \<not> r3 \<and> is_subscribed fd (db_pubsub d) \<longrightarrow> rs = []"
    using execute_effect [OF _ assms(2,3) _ assms(4,5)] assms(1) by (auto simp: server_ok_def)
  have "of_room n rs = []" using other rs(2,3) by (auto simp: of_room_def filter_empty_conv)
  then show ?thesis using rs(1) by (metis effect_def redo_nil)
qed

theorem room_isolation_witness:
  "case execute ex_info 5 [''SET'', ''k'', ''w''] False ex_logged of (reply, sent, d') \<Rightarrow>
     agree 3000000000 (logical d' ''x'') (logical ex_logged ''x'')"
proof -
  obtain reply sent d' where run: "execute ex_info 5 [''SET'', ''k'', ''w''] False ex_logged = (reply, sent, d')" by (metis prod_cases3)
  have "''x'' \<noteq> fst (get_client_room 5 ex_logged)" by (simp add: ex_server(4))
  then show ?thesis using room_isolation [OF ex_server(1-3) insertI1 run, of "''x''"] ex_logged_durable(2) by (simp add: run)
qed

end
