(* ===== verification/Sessions.thy ===== *)
theory Sessions
  imports Dispatch
begin

text \<open>
  What the network side relies on: whatever a command does, and whatever the outcomes of the system calls are, the
  database's tables of clients (their rooms, their subscriptions) mention connected clients only. The first
  section shows that the commands that run in a room leave these tables alone; nothing is assumed of the
  environment here.
\<close>

section \<open>Commands in a room leave the tables of clients alone\<close>

definition sess :: "database \<Rightarrow> (int \<times> string) list \<times> pubsub" where
  "sess d = (client_rooms d, db_pubsub d)"

lemma sess_updates [simp]:
  "sess (d\<lparr>db_metrics := m\<rparr>) = sess d" "sess (d\<lparr>db_eviction := e\<rparr>) = sess d" "sess (d\<lparr>tick := n\<rparr>) = sess d" "sess (d\<lparr>clock := v\<rparr>) = sess d"
  "sess (d\<lparr>db_aof := a\<rparr>) = sess d" "sess (d\<lparr>tombstones := t\<rparr>) = sess d" "sess (d\<lparr>rooms := r\<rparr>) = sess d" "sess (d\<lparr>active_rooms := k\<rparr>) = sess d"
  "sess (d\<lparr>db_disk := dk\<rparr>) = sess d" "sess (d\<lparr>total_commands := k\<rparr>) = sess d" "sess (d\<lparr>resp3 := b\<rparr>) = sess d"
  by (simp_all add: sess_def)

lemma sess_access [simp]:
  "sess (snd (db_charge x c)) = sess (snd c)" "sess (count_key x d) = sess d" "sess (snd (update_rec k r c)) = sess (snd c)"
  "sess (bump_hits d) = sess d" "sess (bump_misses d) = sess d" "sess (access_key k d) = sess d" "sess (aof_append n args ex ts node d) = sess d"
  "sess (snd (next_version ov d)) = sess d" "sess (count_tomb x d) = sess d" "sess (set_tomb n k v d) = sess d" "sess (clear_tomb n k d) = sess d"
  "sess (bump_gets i d) = sess d" "sess (bump_sets i d) = sess d" "sess (snd (incoming_version a b d)) = sess d"
  by (auto simp: db_charge_def count_key_def update_rec_def bump_hits_def bump_misses_def access_key_def aof_append_def next_version_def
      count_tomb_def set_tomb_def clear_tomb_def bump_gets_def bump_sets_def incoming_version_def Let_def split: prod.splits option.splits)

lemma sess_on_db [simp]: "(\<And>d. sess (f d) = sess d) \<Longrightarrow> sess (snd (on_db f c)) = sess (snd c)"
  by (simp add: on_db_def split: prod.split)

lemma sess_cells [simp]:
  "sess (snd (emplace k r c)) = sess (snd c)" "sess (snd (insert_rec k c)) = sess (snd c)" "sess (snd (set_value k r v c)) = sess (snd c)"
  "sess (snd (erase k r c)) = sess (snd c)" "sess (snd (assign k r v ex ts node c)) = sess (snd c)"
proof -
  show em: "sess (snd (emplace k r c)) = sess (snd c)" for k r c by (cases c) (simp add: emplace_def)
  show "sess (snd (insert_rec k c)) = sess (snd c)" by (simp add: insert_rec_def em)
  show sv: "sess (snd (set_value k r v c)) = sess (snd c)" by (simp add: set_value_def)
  show "sess (snd (erase k r c)) = sess (snd c)" by (simp add: erase_def case_prod_unfold)
  show "sess (snd (assign k r v ex ts node c)) = sess (snd c)" by (simp add: assign_def sv)
qed

lemma sess_lookup [simp]: "sess (snd (snd (lookup n k c))) = sess (snd c)"
  by (cases c) (simp add: lookup_def Let_def split: option.split prod.split)

lemma sess_draw [simp]: "sess (snd (snd (draw ov c))) = sess (snd c)"
  by (cases c) (simp add: draw_def next_version_def Let_def)

lemma sess_ensure [simp]: "sess (snd (snd (ensure_rec n k r c))) = sess (snd c)"
  by (simp add: ensure_rec_def split: option.split)

lemma sess_loops [simp]:
  "sess (snd (snd (mset_scan n kvs ov c))) = sess (snd c)" "sess (snd (mset_write n v kvs c)) = sess (snd c)"
  "sess (snd (snd (mget_loop n ks out c))) = sess (snd c)" "sess (snd (snd (exists_loop n ks i c))) = sess (snd c)"
  "sess (snd (snd (del_loop n ks i c))) = sess (snd c)"
proof -
  show "sess (snd (snd (mset_scan n kvs ov c))) = sess (snd c)"
    by (induction kvs arbitrary: ov c rule: induct_list012) (simp_all add: case_prod_unfold)
  show "sess (snd (mset_write n v kvs c)) = sess (snd c)"
    by (induction kvs arbitrary: c rule: induct_list012) (simp_all add: case_prod_unfold Let_def)
  show "sess (snd (snd (mget_loop n ks out c))) = sess (snd c)"
    by (induction ks arbitrary: out c) (simp_all add: case_prod_unfold split: option.split)
  show "sess (snd (snd (exists_loop n ks i c))) = sess (snd c)"
    by (induction ks arbitrary: i c) (simp_all add: case_prod_unfold)
  show "sess (snd (snd (del_loop n ks i c))) = sess (snd c)"
    by (induction ks arbitrary: i c) (simp_all add: case_prod_unfold Let_def split: option.split)
qed

lemma sess_handlers [simp]:
  "sess (snd (snd (handle_get n args c))) = sess (snd c)" "sess (snd (snd (handle_set n args c))) = sess (snd c)"
  "sess (snd (snd (handle_del n args c))) = sess (snd c)" "sess (snd (snd (handle_mget n args c))) = sess (snd c)"
  "sess (snd (snd (handle_mset n args c))) = sess (snd c)" "sess (snd (snd (handle_exists n args c))) = sess (snd c)"
  "sess (snd (snd (handle_ttl n args b c))) = sess (snd c)" "sess (snd (snd (handle_save n args c))) = sess (snd c)"
  by (auto simp: handle_get_def handle_set_def handle_del_def handle_mget_def handle_mset_def handle_exists_def handle_ttl_def handle_save_def
      case_prod_unfold Let_def split: option.split sum.split)

lemma sess_expire_found [simp]: "sess (snd (snd (expire_found n k scale opts m ex r c))) = sess (snd c)"
  by (simp add: expire_found_def case_prod_unfold Let_def)

lemma sess_expire [simp]: "sess (snd (snd (handle_expire n args scale c))) = sess (snd c)"
  by (auto simp: handle_expire_def case_prod_unfold split: option.split sum.split)

lemma sess_crdt [simp]:
  "sess (snd (snd (handle_crdtmerge n args c))) = sess (snd c)" "sess (snd (snd (handle_crdtdel n args c))) = sess (snd c)"
  by (auto simp: handle_crdtmerge_def handle_crdtdel_def case_prod_unfold Let_def split: option.split sum.split)

lemma sess_run: "sess (snd (snd (run_in_room n cmd args c))) = sess (snd c)"
proof -
  have "sess (snd (snd (key_command n cmd args c))) = sess (snd c)"
    by (auto simp: key_command_def key_table_def split: option.split if_splits)
  then show ?thesis by (simp add: run_in_room_def evict_cell_def case_prod_unfold)
qed

lemma sess_rooms [simp]:
  "sess (snd (find_room n b d)) = sess d" "sess (put_room c) = sess (snd c)" "sess (snd (snd (activate b c))) = sess (snd c)"
  "sess (snd (snd (hibernate c))) = sess (snd c)" "sess (snd (wake_room n d)) = sess d"
proof -
  show fr: "sess (snd (find_room n b d)) = sess d" for b by (simp add: find_room_def split: option.split)
  show pr: "sess (put_room c) = sess (snd c)" for c by (simp add: put_room_def case_prod_unfold)
  show ac: "sess (snd (snd (activate b c))) = sess (snd c)" for b c by (cases c) (auto simp: activate_def case_prod_unfold Let_def)
  show "sess (snd (snd (hibernate c))) = sess (snd c)" by (cases c) (auto simp: hibernate_def case_prod_unfold Let_def)
  have "sess (snd (snd (activate b (r, snd (find_room n b2 d))))) = sess d" for b r b2 using ac [of b "(r, snd (find_room n b2 d))"] fr by simp
  then show "sess (snd (wake_room n d)) = sess d"
    using ac [of _ "(_, d)"] fr pr by (auto simp: wake_room_def case_prod_unfold split: option.split)
qed

lemma sess_in_room: "sess (snd (execute_in_room n cmd args d)) = sess d"
proof -
  have "sess (snd (snd (activate b (r, snd (find_room n b2 d))))) = sess d" for b r b2 using sess_rooms(3) [of b "(r, snd (find_room n b2 d))"] by simp
  then show ?thesis by (auto simp: execute_in_room_def case_prod_unfold sess_run split: option.split)
qed

section \<open>Every command keeps the tables within the connected clients\<close>

lemma known_sess: "sess d' = sess d \<Longrightarrow> known_clients F d \<Longrightarrow> known_clients F d'"
  using known_clients_cong [of d' d F] by (simp add: sess_def)

lemma sess_rewrite [simp]: "sess (finish_background_rewrite d) = sess d" "sess (snd (start_background_rewrite d)) = sess d" "sess (tend_rewrite d) = sess d"
proof -
  show f: "sess (finish_background_rewrite d) = sess d" by (simp add: sess_def finish_clients)
  show s: "sess (snd (start_background_rewrite d)) = sess d" for d by (simp add: sess_def start_clients)
  show "sess (tend_rewrite d) = sess d" by (simp add: tend_rewrite_def Let_def f s)
qed

lemma sess_frontier [simp]: "sess (snd (handle_replfrontier args d)) = sess d"
  by (auto simp: sess_def handle_replfrontier_def next_version_def collect_tombstones_def count_tomb_def Let_def split: option.splits prod.splits)

lemma sess_admin [simp]: "sess (snd (handle_room_admin cmd args d)) = sess d"
  using sess_rooms(4) [of "(_, d)"] by (auto simp: handle_room_admin_def case_prod_unfold split: option.split)

lemma known_room:
  assumes "known_clients F d" and "fd \<in> F"
  shows "known_clients F (snd (handle_room fd args d))"
proof -
  have k: "known_clients F (snd (wake_room (args ! 1) d))" by (rule known_sess [OF _ assms(1)]) simp
  show ?thesis using assms k known_set_room [OF k assms(2)] by (simp add: handle_room_def case_prod_unfold split: option.split)
qed

lemma known_conn:
  assumes kn: "known_clients F d" "fd \<in> F" and run: "conn_command ie fd command args d = (reply, sent, d')"
  shows "known_clients F d' \<and> fst ` set sent \<subseteq> F"
proof -
  let ?key = "command_key command"
  note p = kn(1) [unfolded known_clients_def]
  let ?sub = "snd (foldl (subscribe_next fd (resp3 d)) ([], db_pubsub d) (drop 1 args))"
  let ?unsub = "snd (unsubscribe fd (drop 1 args) (resp3 d) (db_pubsub d))"
  have sub: "known_clients F (d\<lparr>db_pubsub := ?sub\<rparr>)"
    by (rule known_pubsub [OF kn(1)]) (use known_subscribes [of "db_pubsub d" F fd "resp3 d" "[]" "drop 1 args"] p kn(2) in auto)
  have unsub: "known_clients F (d\<lparr>db_pubsub := ?unsub\<rparr>)"
    by (rule known_pubsub [OF kn(1)]) (use p unsubscribe_refines [of "db_pubsub d" fd "drop 1 args" "resp3 d"] in auto)
  have comp: "known_clients F (snd (handle_compact d))" by (rule known_sess [OF _ kn(1)]) (simp add: handle_compact_def sess_def split: prod.split)
  have quiet: "known_clients F (snd (handle_room_admin command args d))" "known_clients F (snd (handle_replfrontier args d))"
    "known_clients F (snd (start_background_rewrite d))" by (rule known_sess [OF _ kn(1)], simp)+
  consider (sub) "?key = ''SUBSCRIBE''" | (unsub) "?key = ''UNSUBSCRIBE''" | (pub) "?key = ''PUBLISH''" | (room) "?key = ''ROOM''"
    | (admin) "?key = ''ROOMS'' \<or> ?key = ''ROOM.''" | (front) "?key = ''REPLFRONTIER''" | (rewrite) "?key = ''REWRITEAOF''"
    | (reads) "?key \<in> {''PING'', ''COMMAND'', ''ECHO'', ''INFO''}"
    | (compact) "?key \<notin> {''SUBSCRIBE'', ''UNSUBSCRIBE'', ''PUBLISH'', ''ROOM'', ''ROOMS'', ''ROOM.'', ''REPLFRONTIER'', ''REWRITEAOF'', ''PING'', ''COMMAND'', ''ECHO'', ''INFO''}"
    by blast
  then show ?thesis
  proof cases
    case sub
    then have "(d' = d \<or> d' = d\<lparr>db_pubsub := ?sub\<rparr>) \<and> sent = []"
      using run by (auto simp: conn_command_def handle_subscribe_def silent_def Let_def split: if_splits prod.splits)
    then show ?thesis using kn(1) \<open>known_clients F (d\<lparr>db_pubsub := ?sub\<rparr>)\<close> by auto
  next
    case unsub
    then show ?thesis using run \<open>known_clients F (d\<lparr>db_pubsub := ?unsub\<rparr>)\<close> by (auto simp: conn_command_def case_prod_unfold)
  next
    case pub
    then have "d' = d \<and> (sent = [] \<or> sent = snd (publish (args ! 1) (args ! 2) (db_pubsub d)))"
      using run by (auto simp: conn_command_def Let_def split: if_splits prod.splits)
    then show ?thesis using kn(1) known_publish [OF kn(1)] by auto
  next
    case room
    then show ?thesis using run known_room [OF kn] by (auto simp: conn_command_def silent_def case_prod_unfold)
  next
    case admin
    then show ?thesis using run quiet(1) by (auto simp: conn_command_def silent_def Let_def case_prod_unfold)
  next
    case front
    then show ?thesis using run quiet(2) by (auto simp: conn_command_def silent_def case_prod_unfold)
  next
    case rewrite
    then show ?thesis using run quiet(3) by (auto simp: conn_command_def silent_def case_prod_unfold)
  next
    case reads
    then show ?thesis using run kn(1) by (auto simp: conn_command_def)
  next
    case compact
    then show ?thesis using run comp by (auto simp: conn_command_def silent_def Let_def case_prod_unfold)
  qed
qed

lemma known_execute:
  assumes kn: "known_clients F d" "fd \<in> F" and run: "execute ie fd args r3 d = (reply, sent, d')"
  shows "known_clients F d' \<and> fst ` set sent \<subseteq> F"
proof (cases "args = []")
  case True
  then show ?thesis using run kn(1) by (simp add: execute_def)
next
  case False
  obtain room d1 where g: "get_client_room fd (tend_rewrite (d\<lparr>resp3 := r3\<rparr>)) = (room, d1)" by fastforce
  have k1: "known_clients F d1" by (rule known_get_room [OF known_sess [OF _ kn(1)] kn(2) g]) simp
  have k2: "known_clients F (d1\<lparr>total_commands := n\<rparr>)" for n by (rule known_sess [OF _ k1]) simp
  have ir: "known_clients F (snd (execute_in_room room cmd args e))" if "known_clients F e" for cmd e by (rule known_sess [OF sess_in_room that])
  obtain sc pc where e: "entry_of (upper (args ! 0)) = (sc, pc)" by fastforce
  let ?d2 = "if pc then d1 else d1\<lparr>total_commands := Suc (total_commands d1)\<rparr>"
  have kd: "known_clients F ?d2" using k1 k2 by simp
  consider "sent = []" "d' = d1" | "sent = []" "d' = snd (execute_in_room room (upper (args ! 0)) args ?d2)"
    | "conn_command ie fd (upper (args ! 0)) args ?d2 = (reply, sent, d')"
    using run False g e by (cases sc) (auto simp: execute_def Let_def silent_def case_prod_unfold split: if_splits)
  then show ?thesis
  proof cases
    case 3
    then show ?thesis by (rule known_conn [OF kd kn(2)])
  qed (use k1 ir [OF kd] in simp_all)
qed

section \<open>The database as the network sees it\<close>

text \<open>
  The contract: the tables mention clients of \<open>F\<close> only, every command of a client of \<open>F\<close> keeps it so and hands messages to
  clients of \<open>F\<close> only, and a client that has left is forgotten.
\<close>

locale database_service =
  fixes exec :: "int \<Rightarrow> string list \<Rightarrow> bool \<Rightarrow> 'd \<Rightarrow> string \<times> (int \<times> string) list \<times> 'd"
    and leave :: "int \<Rightarrow> 'd \<Rightarrow> 'd"
    and known :: "int set \<Rightarrow> 'd \<Rightarrow> bool"
  assumes exec_known: "known F d \<Longrightarrow> fd \<in> F \<Longrightarrow> exec fd args r3 d = (reply, sent, d') \<Longrightarrow> known F d' \<and> fst ` set sent \<subseteq> F"
    and leave_known: "known F d \<Longrightarrow> known (F - {fd}) (leave fd d)"
    and known_mono: "known F d \<Longrightarrow> F \<subseteq> G \<Longrightarrow> known G d"
begin

text \<open>A client that leaves and whose descriptor is taken over by a new connection starts afresh.\<close>

lemma leave_then_join: "known F d \<Longrightarrow> known (insert fd' (F - {fd})) (leave fd d)"
  using known_mono [OF leave_known] by blast

lemma leave_all:
  "known F d \<Longrightarrow> known (F - set fds) (foldl (\<lambda>d fd. leave fd d) d fds)"
proof (induction fds arbitrary: F d)
  case (Cons fd fds)
  have "known ((F - {fd}) - set fds) (foldl (\<lambda>d fd. leave fd d) (leave fd d) fds)" by (rule Cons.IH [OF leave_known [OF Cons.prems]])
  moreover have "(F - {fd}) - set fds = F - set (fd # fds)" by auto
  ultimately show ?case by simp
qed simp

end

interpretation service: database_service "execute ie" cleanup_client known_clients for ie
proof unfold_locales
  show "known_clients F d' \<and> fst ` set sent \<subseteq> F"
    if "known_clients F d" "fd \<in> F" "execute ie fd args r3 d = (reply, sent, d')" for F d fd args r3 reply sent d'
    using that by (rule known_execute)
  show "known_clients (F - {fd}) (cleanup_client fd d)" if "known_clients F d" for F d fd using that by (rule cleanup_known(1))
  show "known_clients G d" if "known_clients F d" "F \<subseteq> G" for F d G using that by (auto simp: known_clients_def)
qed

end
