(* ===== verification/Config.thy ===== *)
theory Config
  imports Aof
begin

text \<open>
  Configuration, \<^verbatim>\<open>src/src/config.h\<close> and \<^verbatim>\<open>config.cpp\<close>, and the fit of the client limit to the limit on descriptors,
  \<^verbatim>\<open>fit_fd_limit\<close> of \<^verbatim>\<open>src/main.cpp\<close>.

  The environment is an argument: a map from names to values. What the C and C++ libraries do with the strings is
  written out: \<^verbatim>\<open>std::stoi\<close>, \<^verbatim>\<open>atoi\<close>, \<^verbatim>\<open>inet_pton\<close> for IPv4.
\<close>

section \<open>Library functions\<close>

definition sign_split :: "string \<Rightarrow> bool \<times> string" where
  "sign_split s =
     (let s1 = dropWhile (\<lambda>c. c = CHR '' '' \<or> (9 \<le> (of_char c :: nat) \<and> (of_char c :: nat) \<le> 13)) s in
      (s1 \<noteq> [] \<and> hd s1 = CHR ''-'', if s1 \<noteq> [] \<and> (hd s1 = CHR ''-'' \<or> hd s1 = CHR ''+'') then tl s1 else s1))"

definition signed_prefix :: "string \<Rightarrow> int option" where
  "signed_prefix s =
     (case sign_split s of
        (neg, s1) \<Rightarrow>
          let ds = takeWhile is_digit s1 in
          if ds = [] then None else Some (if neg then - int (dec_val 0 ds) else int (dec_val 0 ds)))"

definition stoi :: "string \<Rightarrow> int option" where
  "stoi s =
     (case signed_prefix s of
        None \<Rightarrow> None
      | Some v \<Rightarrow> if - (2 ^ 31) \<le> v \<and> v < 2 ^ 31 then Some v else None)"

definition atoi :: "string \<Rightarrow> int" where
  "atoi s =
     (case signed_prefix s of
        None \<Rightarrow> 0
      | Some v \<Rightarrow> sint (word_of_int (max LLONG_MIN (min LLONG_MAX v)) :: u32))"

function split_on :: "char \<Rightarrow> string \<Rightarrow> string list" where
  "split_on c s =
     (if c \<in> set s then takeWhile (\<lambda>x. x \<noteq> c) s # split_on c (drop 1 (dropWhile (\<lambda>x. x \<noteq> c) s)) else [s])"
  by pat_completeness auto
termination
proof (relation "measure (\<lambda>(c, s). length s)", goal_cases)
  case (2 c s)
  then have "dropWhile (\<lambda>x. x \<noteq> c) s \<noteq> []" by (simp add: dropWhile_eq_Nil_conv)
  then show ?case using length_dropWhile_le [of "\<lambda>x. x \<noteq> c" s] by (cases "dropWhile (\<lambda>x. x \<noteq> c) s") auto
qed simp

declare split_on.simps [simp del]

definition octet :: "string \<Rightarrow> nat option" where
  "octet s =
     (if s \<noteq> [] \<and> list_all is_digit s \<and> (hd s \<noteq> CHR ''0'' \<or> length s = 1) \<and> dec_val 0 s \<le> 255 then Some (dec_val 0 s) else None)"

text \<open>The four octets of a dotted address, the most significant first.\<close>

definition inet_pton4 :: "string \<Rightarrow> nat list option" where
  "inet_pton4 s =
     (let os = map octet (split_on (CHR ''.'') s) in
      if length os = 4 \<and> None \<notin> set os then Some (map the os) else None)"

section \<open>The configuration\<close>

record config =
  cfg_port :: int
  cfg_bind :: string
  cfg_password :: string
  cfg_maxclients :: u64
  cfg_max_client_buffers :: u64
  cfg_tls_cert :: "string option"
  cfg_tls_key :: "string option"
  cfg_metrics :: bool
  cfg_metrics_bind :: string
  cfg_trace_fd :: int
  cfg_node_id :: u32
  cfg_peers :: "(string \<times> string) list"
  cfg_max_rooms :: u64
  cfg_max_clock_offset_ms :: int
  cfg_clock_offset_ms :: int
  cfg_max_keys :: u64
  cfg_maxmemory :: u64
  cfg_aof_sync :: SyncPolicy
  cfg_aof_rewrite_min_bytes :: u64
  cfg_aof_sync_interval_ms :: int
  cfg_aof_sync_delay_ms :: int
  cfg_snapshot_delay_ms :: int

definition default_config :: config where
  "default_config =
     \<lparr>cfg_port = 6379, cfg_bind = ''127.0.0.1'', cfg_password = [], cfg_maxclients = 10000, cfg_max_client_buffers = 2 ^ 30,
      cfg_tls_cert = None, cfg_tls_key = None, cfg_metrics = True, cfg_metrics_bind = ''127.0.0.1'', cfg_trace_fd = - 1,
      cfg_node_id = 1, cfg_peers = [], cfg_max_rooms = 10000, cfg_max_clock_offset_ms = 600000, cfg_clock_offset_ms = 0,
      cfg_max_keys = 1000000, cfg_maxmemory = 0, cfg_aof_sync = Everysec, cfg_aof_rewrite_min_bytes = 64 * 2 ^ 20,
      cfg_aof_sync_interval_ms = 1000, cfg_aof_sync_delay_ms = 0, cfg_snapshot_delay_ms = 0\<rparr>"

type_synonym environ = "string \<Rightarrow> string option"

text \<open>A variable that keeps its default when it is absent or does not parse.\<close>

definition lenient :: "environ \<Rightarrow> string \<Rightarrow> (string \<Rightarrow> 'a option) \<Rightarrow> 'a \<Rightarrow> 'a" where
  "lenient env name rd dflt =
     (case env name of None \<Rightarrow> dflt | Some v \<Rightarrow> (case rd v of None \<Rightarrow> dflt | Some x \<Rightarrow> x))"

text \<open>A variable without which the server does not start when it does not parse.\<close>

definition strict :: "environ \<Rightarrow> string \<Rightarrow> (string \<Rightarrow> 'a option) \<Rightarrow> 'a \<Rightarrow> 'a option" where
  "strict env name rd dflt = (case env name of None \<Rightarrow> Some dflt | Some v \<Rightarrow> rd v)"

definition text_or :: "environ \<Rightarrow> string \<Rightarrow> string \<Rightarrow> string" where
  "text_or env name dflt = (case env name of None \<Rightarrow> dflt | Some v \<Rightarrow> v)"

definition parse_maxclients :: "string \<Rightarrow> u64 option" where
  "parse_maxclients v = (case parse_u64 v of None \<Rightarrow> None | Some n \<Rightarrow> if n = 0 then None else Some n)"

definition parse_node :: "string \<Rightarrow> u32 option" where
  "parse_node v =
     (case parse_u64 v of None \<Rightarrow> None | Some n \<Rightarrow> if 1 \<le> n \<and> n \<le> 4294967295 then Some (of_nat (unat n)) else None)"

function peer_items :: "string \<Rightarrow> string list" where
  "peer_items s =
     (if s = [] then [] else takeWhile (\<lambda>x. x \<noteq> CHR '','') s # peer_items (drop 1 (dropWhile (\<lambda>x. x \<noteq> CHR '','') s)))"
  by pat_completeness auto
termination
proof (relation "measure length", goal_cases)
  case (2 s)
  then show ?case using length_dropWhile_le [of "\<lambda>x. x \<noteq> CHR '',''" s] by (cases s) (auto simp: less_Suc_eq_le)
qed simp

declare peer_items.simps [simp del]

definition parse_peer :: "string \<Rightarrow> (string \<times> string) option" where
  "parse_peer item =
     (let after = rev (takeWhile (\<lambda>x. x \<noteq> CHR '':'') (rev item)); colon = length item - Suc (length after) in
      if CHR '':'' \<notin> set item \<or> colon = 0 \<or> Suc colon = length item then None
      else Some (take colon item, drop (Suc colon) item))"

definition parse_sync :: "string \<Rightarrow> SyncPolicy option" where
  "parse_sync v =
     (if v = ''always'' then Some Always
      else if v = ''no'' \<or> v = ''none'' \<or> v = ''off'' then Some Off
      else if v = ''everysec'' then Some Everysec else None)"

definition clamp :: "int \<Rightarrow> int \<Rightarrow> int \<Rightarrow> int" where
  "clamp v lo hi = (if v < lo then lo else if hi < v then hi else v)"

definition parse_delay :: "string \<Rightarrow> int option" where
  "parse_delay v = (case parse_i64 v of None \<Rightarrow> None | Some n \<Rightarrow> if 0 \<le> n \<and> n \<le> 60000 then Some n else None)"

text \<open>The second half: variables whose invalid values are reported and ignored.\<close>

definition load_tuning :: "environ \<Rightarrow> config \<Rightarrow> config" where
  "load_tuning env cfg =
     cfg\<lparr>cfg_tls_cert := env ''SOMNIUM_TLS_CERT'', cfg_tls_key := env ''SOMNIUM_TLS_KEY'',
         cfg_metrics := (env ''SOMNIUM_NO_METRICS'' = None),
         cfg_metrics_bind := text_or env ''SOMNIUM_METRICS_BIND'' (cfg_metrics_bind cfg),
         cfg_trace_fd := (case env ''SOMNIUM_TRACE_FD'' of None \<Rightarrow> cfg_trace_fd cfg | Some v \<Rightarrow> atoi v),
         cfg_node_id := lenient env ''SOMNIUM_NODE_ID'' parse_node (cfg_node_id cfg),
         cfg_peers := map the (filter (\<lambda>x. x \<noteq> None) (map parse_peer (peer_items (text_or env ''SOMNIUM_PEERS'' [])))),
         cfg_max_rooms := lenient env ''SOMNIUM_MAX_ROOMS'' parse_u64 (cfg_max_rooms cfg),
         cfg_max_clock_offset_ms := lenient env ''SOMNIUM_MAX_CLOCK_OFFSET_MS'' parse_i64 (cfg_max_clock_offset_ms cfg),
         cfg_clock_offset_ms := lenient env ''SOMNIUM_CLOCK_OFFSET_MS'' parse_i64 (cfg_clock_offset_ms cfg),
         cfg_max_keys := lenient env ''SOMNIUM_MAX_KEYS'' parse_u64 (cfg_max_keys cfg),
         cfg_maxmemory := lenient env ''SOMNIUM_MAXMEMORY'' parse_u64 (cfg_maxmemory cfg),
         cfg_aof_sync := lenient env ''SOMNIUM_AOF_SYNC'' parse_sync (cfg_aof_sync cfg),
         cfg_aof_rewrite_min_bytes := lenient env ''SOMNIUM_AOF_REWRITE_MIN_BYTES'' parse_u64 (cfg_aof_rewrite_min_bytes cfg),
         cfg_aof_sync_interval_ms := clamp (lenient env ''SOMNIUM_AOF_SYNC_INTERVAL_MS'' parse_i64 (cfg_aof_sync_interval_ms cfg)) 1 60000,
         cfg_aof_sync_delay_ms := (let delay = lenient env ''SOMNIUM_AOF_SYNC_DELAY_MS'' parse_i64 0 in if 0 \<le> delay \<and> delay \<le> 60000 then delay else 0),
         cfg_snapshot_delay_ms :=
           (case env ''SOMNIUM_SNAPSHOT_DELAY_MS'' of
              None \<Rightarrow> cfg_snapshot_delay_ms cfg
            | Some v \<Rightarrow> if v = [] then cfg_snapshot_delay_ms cfg else (case parse_delay v of None \<Rightarrow> cfg_snapshot_delay_ms cfg | Some n \<Rightarrow> n))\<rparr>"

definition load_config :: "environ \<Rightarrow> config option" where
  "load_config env =
     (let cfg = default_config in
      case strict env ''REDIS_PORT'' stoi (cfg_port cfg) of
        None \<Rightarrow> None
      | Some p \<Rightarrow>
          (case strict env ''SOMNIUM_MAXCLIENTS'' parse_maxclients (cfg_maxclients cfg) of
             None \<Rightarrow> None
           | Some mc \<Rightarrow>
               (case strict env ''SOMNIUM_MAX_CLIENT_BUFFERS'' parse_u64 (cfg_max_client_buffers cfg) of
                  None \<Rightarrow> None
                | Some mb \<Rightarrow>
                    (let addr = text_or env ''SOMNIUM_BIND'' (cfg_bind cfg); pw = text_or env ''SOMNIUM_PASSWORD'' (cfg_password cfg) in
                     case inet_pton4 addr of
                       None \<Rightarrow> None
                     | Some os \<Rightarrow>
                         if os ! 0 \<noteq> 127 \<and> pw = [] then None
                         else Some (load_tuning env
                                (cfg\<lparr>cfg_port := p, cfg_maxclients := mc, cfg_max_client_buffers := mb, cfg_bind := addr, cfg_password := pw\<rparr>))))))"

section \<open>Descriptors\<close>

record rlimits =
  rlim_cur :: u64
  rlim_max :: u64

definition RLIM_INFINITY :: u64 where "RLIM_INFINITY = - 1"

text \<open>
  The outcome of \<^verbatim>\<open>getrlimit\<close> (\<open>None\<close> is a failure) and whether \<^verbatim>\<open>setrlimit\<close> succeeds are arguments; the result is the
  configuration and the soft limit then in force, or a refusal to start.
\<close>

definition fd_reserved :: "config \<Rightarrow> u64" where
  "fd_reserved cfg = 32 + 2 * of_nat (length (cfg_peers cfg))"

definition fit_fd_limit :: "rlimits option \<Rightarrow> bool \<Rightarrow> config \<Rightarrow> (config \<times> u64 option) option" where
  "fit_fd_limit got set_ok cfg =
     (let reserved = fd_reserved cfg; want = min (cfg_maxclients cfg) (2 ^ 30) + reserved in
      case got of
        None \<Rightarrow> Some (cfg, None)
      | Some lim \<Rightarrow>
          (let cur = (if rlim_cur lim < want \<and> set_ok
                      then (if rlim_max lim = RLIM_INFINITY then want else min want (rlim_max lim)) else rlim_cur lim) in
           if cur \<ge> want then Some (cfg, Some cur)
           else if cur \<le> reserved then None
           else Some (cfg\<lparr>cfg_maxclients := cur - reserved\<rparr>, Some cur)))"

section \<open>What a loaded configuration satisfies\<close>

text \<open>The addresses that are not reachable from the network.\<close>

definition loopback :: "string \<Rightarrow> bool" where
  "loopback addr \<longleftrightarrow> (\<exists>os. inet_pton4 addr = Some os \<and> os ! 0 = 127)"

definition config_ok :: "config \<Rightarrow> bool" where
  "config_ok cfg \<longleftrightarrow>
     inet_pton4 (cfg_bind cfg) \<noteq> None \<and> (loopback (cfg_bind cfg) \<or> cfg_password cfg \<noteq> []) \<and>
     - (2 ^ 31) \<le> cfg_port cfg \<and> cfg_port cfg < 2 ^ 31 \<and> cfg_maxclients cfg \<noteq> 0 \<and> cfg_node_id cfg \<noteq> 0 \<and>
     list_all (\<lambda>(host, port). host \<noteq> [] \<and> port \<noteq> [] \<and> CHR '':'' \<notin> set port) (cfg_peers cfg) \<and>
     1 \<le> cfg_aof_sync_interval_ms cfg \<and> cfg_aof_sync_interval_ms cfg \<le> 60000 \<and>
     0 \<le> cfg_aof_sync_delay_ms cfg \<and> cfg_aof_sync_delay_ms cfg \<le> 60000 \<and>
     0 \<le> cfg_snapshot_delay_ms cfg \<and> cfg_snapshot_delay_ms cfg \<le> 60000"

lemma parse_peer_at:
  assumes "CHR '':'' \<notin> set after"
  shows "parse_peer (before @ CHR '':'' # after) = (if before = [] \<or> after = [] then None else Some (before, after))"
proof -
  have "takeWhile (\<lambda>x. x \<noteq> CHR '':'') (rev (before @ CHR '':'' # after)) = rev after"
    using assms by (simp add: takeWhile_append takeWhile_eq_all_conv)
  then show ?thesis by (simp add: parse_peer_def Let_def)
qed

lemma parse_peer_parts:
  assumes "parse_peer item = Some (host, port)"
  shows "item = host @ '':'' @ port \<and> host \<noteq> [] \<and> port \<noteq> [] \<and> CHR '':'' \<notin> set port"
proof -
  have "CHR '':'' \<in> set item" using assms by (auto simp: parse_peer_def Let_def split: if_splits)
  then obtain before after where i: "item = before @ CHR '':'' # after" "CHR '':'' \<notin> set after" by (meson split_list_last)
  then show ?thesis using assms parse_peer_at [OF i(2), of before] by (auto split: if_splits)
qed

lemma peers_parsed:
  "list_all (\<lambda>(host, port). host \<noteq> [] \<and> port \<noteq> [] \<and> CHR '':'' \<notin> set port)
     (map the (filter (\<lambda>x. x \<noteq> None) (map parse_peer items)))"
  by (induction items) (auto dest: parse_peer_parts)

lemma parse_node_pos: "parse_node v = Some n \<Longrightarrow> n \<noteq> 0"
proof -
  assume "parse_node v = Some n"
  then obtain k :: u64 where k: "1 \<le> k" "k \<le> 4294967295" "n = of_nat (unat k)"
    by (auto simp: parse_node_def split: option.splits if_splits)
  from k(1,2) have "1 \<le> unat k" "unat k < 2 ^ 32" by (simp_all add: word_le_nat_alt)
  then have "unat n = unat k" unfolding k(3) by (simp only: unat_of_nat) simp
  with \<open>1 \<le> unat k\<close> show ?thesis by auto
qed

lemma lenient_pres: "P dflt \<Longrightarrow> (\<And>v x. rd v = Some x \<Longrightarrow> P x) \<Longrightarrow> P (lenient env name rd dflt)"
  by (auto simp: lenient_def split: option.splits)

text \<open>
  A configuration with which the server starts is sound: it listens on an IPv4 address, on one reachable from the network
  only with a password, it accepts at least one client, its node number is not zero, every peer has a host and a port, and the
  intervals of the log and of the snapshots are in their ranges, whatever the environment holds.
\<close>

theorem config_sound:
  assumes "load_config env = Some cfg"
  shows "config_ok cfg"
proof -
  from assms obtain p mc mb os where
    p: "strict env ''REDIS_PORT'' stoi 6379 = Some p" and
    mc: "strict env ''SOMNIUM_MAXCLIENTS'' parse_maxclients 10000 = Some mc" and
    os: "inet_pton4 (text_or env ''SOMNIUM_BIND'' ''127.0.0.1'') = Some os" and
    sec: "\<not> (os ! 0 \<noteq> 127 \<and> text_or env ''SOMNIUM_PASSWORD'' [] = [])" and
    cfg: "cfg = load_tuning env (default_config\<lparr>cfg_port := p, cfg_maxclients := mc, cfg_max_client_buffers := mb,
            cfg_bind := text_or env ''SOMNIUM_BIND'' ''127.0.0.1'', cfg_password := text_or env ''SOMNIUM_PASSWORD'' []\<rparr>)"
    by (auto simp: load_config_def Let_def default_config_def split: option.splits if_splits)
  have port: "- (2 ^ 31) \<le> p \<and> p < 2 ^ 31" using p by (auto simp: strict_def stoi_def split: option.splits if_splits)
  have mc0: "mc \<noteq> 0" using mc by (auto simp: strict_def parse_maxclients_def split: option.splits if_splits)
  have node: "lenient env ''SOMNIUM_NODE_ID'' parse_node 1 \<noteq> 0"
    by (rule lenient_pres) (auto dest: parse_node_pos)
  show ?thesis unfolding config_ok_def
  proof (intro conjI)
    show "inet_pton4 (cfg_bind cfg) \<noteq> None" using os by (simp add: cfg load_tuning_def)
    show "loopback (cfg_bind cfg) \<or> cfg_password cfg \<noteq> []" using os sec by (simp add: cfg load_tuning_def loopback_def)
    show "- (2 ^ 31) \<le> cfg_port cfg" "cfg_port cfg < 2 ^ 31" using port by (simp_all add: cfg load_tuning_def)
    show "cfg_maxclients cfg \<noteq> 0" using mc0 by (simp add: cfg load_tuning_def)
    show "cfg_node_id cfg \<noteq> 0" using node by (simp add: cfg load_tuning_def default_config_def)
    show "list_all (\<lambda>(host, port). host \<noteq> [] \<and> port \<noteq> [] \<and> CHR '':'' \<notin> set port) (cfg_peers cfg)"
      unfolding cfg load_tuning_def using peers_parsed by simp
    show "1 \<le> cfg_aof_sync_interval_ms cfg" "cfg_aof_sync_interval_ms cfg \<le> 60000"
      by (simp_all add: cfg load_tuning_def clamp_def)
    show "0 \<le> cfg_aof_sync_delay_ms cfg" "cfg_aof_sync_delay_ms cfg \<le> 60000"
      by (simp_all add: cfg load_tuning_def Let_def)
    show "0 \<le> cfg_snapshot_delay_ms cfg" "cfg_snapshot_delay_ms cfg \<le> 60000"
      by (auto simp: cfg load_tuning_def default_config_def parse_delay_def split: option.split)
  qed
qed

definition ex_environ :: environ where
  "ex_environ = [''SOMNIUM_BIND'' \<mapsto> ''10.0.0.1'', ''SOMNIUM_PASSWORD'' \<mapsto> ''x'', ''SOMNIUM_PEERS'' \<mapsto> ''a:1,b'']"

theorem config_sound_witness:
  "load_config ex_environ \<noteq> None \<and> config_ok (the (load_config ex_environ)) \<and> cfg_peers (the (load_config ex_environ)) = [(''a'', ''1'')] \<and>
   load_config (ex_environ(''SOMNIUM_PASSWORD'' := None)) = None"
proof -
  have s: "split_on (CHR ''.'') ''10.0.0.1'' = [''10'', ''0'', ''0'', ''1'']" by (simp add: split_on.simps)
  have q: "peer_items ''a:1,b'' = [''a:1'', ''b'']" by (simp add: peer_items.simps)
  have i: "inet_pton4 ''10.0.0.1'' = Some [10, 0, 0, 1]" unfolding inet_pton4_def s by (simp add: octet_def is_digit_def digit_val_def)
  obtain cfg where c: "load_config ex_environ = Some cfg" "cfg_peers cfg = [(''a'', ''1'')]"
    by (simp add: load_config_def ex_environ_def strict_def text_or_def i default_config_def load_tuning_def q parse_peer_def Let_def)
  have n: "load_config (ex_environ(''SOMNIUM_PASSWORD'' := None)) = None"
    by (simp add: load_config_def ex_environ_def strict_def text_or_def i default_config_def)
  show ?thesis using config_sound [OF c(1)] c n by simp
qed

lemma fd_reserved_unat:
  assumes "2 * length (cfg_peers cfg) + 32 < 2 ^ 63"
  shows "unat (fd_reserved cfg) = 2 * length (cfg_peers cfg) + 32"
    "unat (min (cfg_maxclients cfg) (2 ^ 30) + fd_reserved cfg) =
       unat (min (cfg_maxclients cfg) (2 ^ 30)) + (2 * length (cfg_peers cfg) + 32)"
proof -
  have e: "fd_reserved cfg = of_nat (2 * length (cfg_peers cfg) + 32)" by (simp add: fd_reserved_def)
  show r: "unat (fd_reserved cfg) = 2 * length (cfg_peers cfg) + 32"
    unfolding e using assms by (simp only: unat_of_nat) simp
  have "unat (min (cfg_maxclients cfg) (2 ^ 30)) \<le> 2 ^ 30"
    using min.cobounded2 [of "cfg_maxclients cfg" "2 ^ 30"] by (simp add: word_le_nat_alt)
  then show "unat (min (cfg_maxclients cfg) (2 ^ 30) + fd_reserved cfg) =
      unat (min (cfg_maxclients cfg) (2 ^ 30)) + (2 * length (cfg_peers cfg) + 32)"
    using assms r by (simp add: unat_word_ariths)
qed

text \<open>
  When the server starts with the limit on descriptors it read, every client it will accept and its own descriptors (32
  and two per peer) fit under the soft limit then in force, the client limit was never raised, and it is not zero.
\<close>

theorem fd_limit_fits:
  assumes "fit_fd_limit (Some lim) set_ok cfg = Some (cfg', Some cur)" "2 * length (cfg_peers cfg) + 32 < 2 ^ 63" "cfg_maxclients cfg \<noteq> 0"
  shows "unat (min (cfg_maxclients cfg') (2 ^ 30)) + 2 * length (cfg_peers cfg') + 32 \<le> unat cur \<and>
    cfg_maxclients cfg' \<le> cfg_maxclients cfg \<and> cfg_maxclients cfg' \<noteq> 0"
proof -
  let ?want = "min (cfg_maxclients cfg) (2 ^ 30) + fd_reserved cfg"
  consider (all) "cfg' = cfg" "?want \<le> cur"
    | (fewer) "cfg' = cfg\<lparr>cfg_maxclients := cur - fd_reserved cfg\<rparr>" "fd_reserved cfg < cur" "cur < ?want"
    using assms(1) unfolding fit_fd_limit_def Let_def
    by (simp only: option.case split: if_split_asm) (auto simp: not_le)
  then show ?thesis
  proof cases
    case all
    then show ?thesis using fd_reserved_unat [OF assms(2)] assms(3) by (simp add: word_le_nat_alt)
  next
    case fewer
    have u: "unat (cur - fd_reserved cfg) = unat cur - unat (fd_reserved cfg)"
      using fewer(2) by (intro unat_sub) simp
    have lt: "unat (cur - fd_reserved cfg) < unat (min (cfg_maxclients cfg) (2 ^ 30))"
      using fewer(2,3) unfolding u word_less_nat_alt fd_reserved_unat [OF assms(2)] by linarith
    then have m: "cur - fd_reserved cfg < cfg_maxclients cfg" "cur - fd_reserved cfg < 2 ^ 30"
      by (simp_all flip: word_less_nat_alt)
    have "cur - fd_reserved cfg \<noteq> 0" using fewer(2) by auto
    moreover have "min (cur - fd_reserved cfg) (2 ^ 30) = cur - fd_reserved cfg" using m(2) by simp
    ultimately show ?thesis using fewer(1,2) less_imp_le [OF m(1)] u fd_reserved_unat(1) [OF assms(2)] by (simp add: word_less_nat_alt)
  qed
qed

theorem fd_limit_fits_witness:
  "\<exists>cfg' cur. fit_fd_limit (Some \<lparr>rlim_cur = 100, rlim_max = 200\<rparr>) True default_config = Some (cfg', Some cur) \<and> cfg_maxclients cfg' = 168 \<and>
     unat (min (cfg_maxclients cfg') (2 ^ 30)) + 2 * length (cfg_peers cfg') + 32 \<le> unat cur"
proof -
  let ?c = "default_config\<lparr>cfg_maxclients := 168\<rparr>"
  have e: "fit_fd_limit (Some \<lparr>rlim_cur = 100, rlim_max = 200\<rparr>) True default_config = Some (?c, Some 200)"
    by (simp add: fit_fd_limit_def fd_reserved_def default_config_def RLIM_INFINITY_def min_def)
  show ?thesis using fd_limit_fits [OF e] e by (simp add: default_config_def)
qed

end
