(* ===== verification/Connection.thy ===== *)
theory Connection
  imports Sessions Config
begin

text \<open>
  A client's connection, from the socket to the database: \<^verbatim>\<open>src/src/net/connection.cpp\<close>, \<^verbatim>\<open>connection.h\<close> and
  \<^verbatim>\<open>auth.cpp\<close>.

  What the kernel answers is an argument. A list holds the outcomes of the coming \<^verbatim>\<open>send\<close> calls, another one those of the
  \<^verbatim>\<open>read\<close> calls of one drain; past its end every call answers \<^verbatim>\<open>EAGAIN\<close>. OpenSSL is the parameter \<open>tls_lib\<close>: what it
  answers is a function of what a session was fed and asked to encrypt, in order. \<open>wire\<close> is not a field of the
  code: it holds the bytes the kernel has taken from this connection.
\<close>

section \<open>Clients\<close>

datatype ssl_event = Fed string | Wrote string

text \<open>
  \<open>ssl_read\<close>: the chunks \<^verbatim>\<open>SSL_read\<close> gives until it gives none, and whether the reason is then \<^verbatim>\<open>SSL_ERROR_WANT_READ\<close>;
  \<open>ssl_write\<close>: whether the last \<^verbatim>\<open>SSL_write\<close> succeeded; \<open>ssl_cipher\<close>: what the last event left in the write BIO.
\<close>

record tls_lib =
  ssl_read :: "ssl_event list \<Rightarrow> string list \<times> bool"
  ssl_write :: "ssl_event list \<Rightarrow> bool"
  ssl_cipher :: "ssl_event list \<Rightarrow> string"

record client =
  cl_fd :: int
  in_buf :: string
  out_buf :: string
  out_off :: nat
  cl_closed :: bool
  read_armed :: bool
  write_armed :: bool
  cl_resp3 :: bool
  authenticated :: bool
  cl_held :: u64
  ssl :: "(tls_lib \<times> ssl_event list) option"
  connected :: int
  wire :: string

text \<open>What \<^verbatim>\<open>init\<close> stores: the configuration and the TLS context.\<close>

record net =
  g_cfg :: config
  g_tls :: "tls_lib option"

definition net_init :: "config \<Rightarrow> tls_lib option \<Rightarrow> net" where
  [simp]: "net_init cfg tls = \<lparr>g_cfg = cfg, g_tls = tls\<rparr>"

text \<open>A session that has seen nothing yet; a failed allocation ends the program.\<close>

definition tls_session :: "tls_lib \<Rightarrow> tls_lib \<times> ssl_event list" where
  [simp]: "tls_session lib = (lib, [])"

definition READ_CHUNK :: nat where "READ_CHUNK = 16384"
definition MAX_COMMANDS_PER_TURN :: nat where "MAX_COMMANDS_PER_TURN = 8192"
definition MAX_INPUT_BUFFER :: nat where "MAX_INPUT_BUFFER = 128 * 1024 * 1024"
definition MAX_UNAUTH_BUFFER :: nat where "MAX_UNAUTH_BUFFER = 16 * 1024"

definition new_client :: "net \<Rightarrow> int \<Rightarrow> int \<Rightarrow> client" where
  "new_client g fd now =
     \<lparr>cl_fd = fd, in_buf = [], out_buf = [], out_off = 0, cl_closed = False, read_armed = False, write_armed = False, cl_resp3 = False,
      authenticated = (cfg_password (g_cfg g) = []), cl_held = 0, ssl = map_option tls_session (g_tls g), connected = now, wire = []\<rparr>"

definition pending_out :: "client \<Rightarrow> nat" where
  "pending_out c = length (out_buf c) - out_off c"

definition input_cap :: "client \<Rightarrow> nat" where
  "input_cap c = (if authenticated c then MAX_INPUT_BUFFER else MAX_UNAUTH_BUFFER)"

definition output_cap :: "client \<Rightarrow> nat" where
  "output_cap c = (if authenticated c then MAX_REPLY else MAX_UNAUTH_BUFFER)"

section \<open>Authentication\<close>

definition credentials_ok :: "string \<Rightarrow> string \<Rightarrow> string \<Rightarrow> bool" where
  "credentials_ok user pass password =
     (let start = (if length pass \<noteq> length password then 1 else 0) :: 8 word;
          diff = foldl (\<lambda>diff i. diff OR (of_char (password ! i) XOR (if i < length pass then of_char (pass ! i) else 0)))
                   start [0..<length password]
      in diff = 0 \<and> user = ''default'')"

definition authenticate :: "string \<Rightarrow> string \<Rightarrow> string \<Rightarrow> client \<Rightarrow> u32 \<Rightarrow> string \<times> client \<times> u32" where
  "authenticate user pass password c failures =
     (if \<not> credentials_ok user pass password then (''-WRONGPASS invalid username-password pair'' @ CRLF, c, failures + 1)
      else (''+OK'' @ CRLF, c\<lparr>authenticated := True\<rparr>, failures))"

definition auth :: "string list \<Rightarrow> string \<Rightarrow> client \<Rightarrow> u32 \<Rightarrow> string \<times> client \<times> u32" where
  "auth args password c failures =
     (if length args \<noteq> 2 \<and> length args \<noteq> 3 then (''-ERR wrong number of arguments for '' @ [CHR 0x27] @ ''auth'' @ [CHR 0x27] @ '' command'' @ CRLF, c, failures)
      else if password = [] then
        (''-ERR AUTH <password> called without any password configured for the default user. Are you sure your configuration is correct?'' @ CRLF,
         c, failures)
      else authenticate (if length args = 3 then args ! 1 else ''default'') (last args) password c failures)"

text \<open>\<^verbatim>\<open>strcasecmp (s.c_str(), t) == 0\<close>: the comparison ends at the first NUL byte of \<open>s\<close>.\<close>

definition strcaseeq :: "string \<Rightarrow> string \<Rightarrow> bool" where
  "strcaseeq s t \<longleftrightarrow> upper (takeWhile (\<lambda>c. c \<noteq> CHR 0x00) s) = upper t"

text \<open>\<^verbatim>\<open>std::from_chars\<close> on an \<^verbatim>\<open>int\<close> that has to take the whole string.\<close>

definition from_chars_int :: "string \<Rightarrow> int option" where
  "from_chars_int s =
     (let neg = (s \<noteq> [] \<and> hd s = CHR ''-''); ds = (if neg then tl s else s);
          v = (if neg then - int (dec_val 0 ds) else int (dec_val 0 ds)) in
      if ds \<noteq> [] \<and> list_all is_digit ds \<and> - (2 ^ 31) \<le> v \<and> v < 2 ^ 31 then Some v else None)"

fun hello_options :: "string \<Rightarrow> string list \<Rightarrow> client \<Rightarrow> u32 \<Rightarrow> string option \<times> client \<times> u32" where
  "hello_options password [] c failures = (None, c, failures)"
| "hello_options password (a # rest) c failures =
     (if strcaseeq a ''AUTH'' \<and> 2 \<le> length rest then
        (if password \<noteq> [] then
           (case authenticate (rest ! 0) (rest ! 1) password c failures of
              (r, c', failures') \<Rightarrow>
                if hd r = CHR ''-'' then (Some r, c', failures') else hello_options password (drop 2 rest) c' failures')
         else hello_options password (drop 2 rest) c failures)
      else if strcaseeq a ''SETNAME'' \<and> 1 \<le> length rest then hello_options password (drop 1 rest) c failures
      else (Some (''-ERR Syntax error in HELLO option '' @ [CHR 0x27] @ a @ [CHR 0x27] @ CRLF), c, failures))"

definition hello_reply :: "client \<Rightarrow> string" where
  "hello_reply c =
     (if cl_resp3 c then ''%7'' else ''*14'') @ CRLF @ bulk_string ''server'' @ bulk_string ''somnium'' @ bulk_string ''version'' @
     bulk_string ''7.0.0'' @ bulk_string ''proto'' @ '':'' @ (if cl_resp3 c then ''3'' else ''2'') @ CRLF @ bulk_string ''id'' @ '':'' @
     dec_int (cl_fd c) @ CRLF @ bulk_string ''mode'' @ bulk_string ''standalone'' @ bulk_string ''role'' @ bulk_string ''master'' @
     bulk_string ''modules'' @ ''*0'' @ CRLF"

definition hello_accept :: "int \<Rightarrow> client \<Rightarrow> u32 \<Rightarrow> string \<times> client \<times> u32" where
  "hello_accept proto c failures =
     (if \<not> authenticated c then
        (''-NOAUTH HELLO must be called with the client already authenticated, otherwise the HELLO <proto> AUTH <user> <pass> option can be used to authenticate the client and select the RESP protocol version at the same time'' @ CRLF,
         c, failures)
      else (let c' = c\<lparr>cl_resp3 := (proto = 3)\<rparr> in (hello_reply c', c', failures)))"

definition hello :: "string list \<Rightarrow> string \<Rightarrow> client \<Rightarrow> u32 \<Rightarrow> string \<times> client \<times> u32" where
  "hello args password c failures =
     (if length args < 2 then hello_accept (if cl_resp3 c then 3 else 2) c failures
      else
        (case from_chars_int (args ! 1) of
           None \<Rightarrow> (''-ERR Protocol version is not an integer or out of range'' @ CRLF, c, failures)
         | Some proto \<Rightarrow>
             if proto \<noteq> 2 \<and> proto \<noteq> 3 then (''-NOPROTO unsupported protocol version'' @ CRLF, c, failures)
             else
               (case hello_options password (drop 2 args) c failures of
                  (Some r, c', failures') \<Rightarrow> (r, c', failures')
                | (None, c', failures') \<Rightarrow> hello_accept proto c' failures')))"

section \<open>Buffers\<close>

definition track :: "client \<Rightarrow> u64 \<Rightarrow> client \<times> u64" where
  "track c total_bytes =
     (let now = (if cl_closed c then 0 else of_nat (length (in_buf c) + length (out_buf c))) in
      (c\<lparr>cl_held := now\<rparr>, total_bytes - cl_held c + now))"

datatype send_result = Sent nat | SendIntr | SendAgain | SendError

datatype FlushResult = Flushed | Pending | Dead

text \<open>A \<^verbatim>\<open>send\<close> takes at most what it is offered; a result of zero bytes ends the connection.\<close>

fun flush_loop :: "send_result list \<Rightarrow> client \<Rightarrow> FlushResult \<times> client \<times> send_result list" where
  "flush_loop rs c =
     (if out_off c \<ge> length (out_buf c) then (Flushed, c, rs)
      else
        (case rs of
           [] \<Rightarrow> (Pending, c, [])
         | Sent n # rs' \<Rightarrow>
             if n = 0 then (Dead, c, rs')
             else (let k = min n (length (out_buf c) - out_off c) in
                   flush_loop rs' (c\<lparr>out_off := out_off c + k, wire := wire c @ take k (drop (out_off c) (out_buf c))\<rparr>))
         | SendIntr # rs' \<Rightarrow> flush_loop rs' c
         | SendAgain # rs' \<Rightarrow> (Pending, c, rs')
         | SendError # rs' \<Rightarrow> (Dead, c, rs')))"

declare flush_loop.simps [simp del]

definition flush_output :: "client \<Rightarrow> u64 \<Rightarrow> send_result list \<Rightarrow> FlushResult \<times> client \<times> u64 \<times> send_result list" where
  "flush_output c total_bytes rs =
     (case flush_loop rs c of
        (Flushed, c', rs') \<Rightarrow>
          (case track (c'\<lparr>out_buf := [], out_off := 0\<rparr>) total_bytes of (c'', total_bytes') \<Rightarrow> (Flushed, c'', total_bytes', rs'))
      | (r, c', rs') \<Rightarrow> (r, c', total_bytes, rs'))"

definition over_buffer_budget :: "net \<Rightarrow> u64 \<Rightarrow> nat \<Rightarrow> bool" where
  "over_buffer_budget g total_bytes extra \<longleftrightarrow> \<not> total_bytes + of_nat extra \<le> cfg_max_client_buffers (g_cfg g)"

text \<open>What OpenSSL has left in the write BIO moves to the output buffer.\<close>

definition take_ciphertext :: "tls_lib \<Rightarrow> ssl_event list \<Rightarrow> client \<Rightarrow> client" where
  [simp]: "take_ciphertext lib h c = c\<lparr>out_buf := out_buf c @ ssl_cipher lib h\<rparr>"

definition tls_in :: "tls_lib \<Rightarrow> ssl_event list \<Rightarrow> string \<Rightarrow> client \<Rightarrow> bool \<times> client" where
  "tls_in lib h raw c =
     (let h' = h @ [Fed raw] in
      case ssl_read lib h' of
        (chunks, want_read) \<Rightarrow>
          (want_read, take_ciphertext lib h' (c\<lparr>ssl := Some (lib, h'), in_buf := in_buf c @ concat chunks\<rparr>)))"

definition tls_out :: "tls_lib \<Rightarrow> ssl_event list \<Rightarrow> string \<Rightarrow> client \<Rightarrow> bool \<times> client" where
  "tls_out lib h data c =
     (let h' = h @ [Wrote data] in
      (ssl_write lib h', take_ciphertext lib h' (c\<lparr>ssl := Some (lib, h')\<rparr>)))"

definition enqueue_output :: "net \<Rightarrow> client \<Rightarrow> string \<Rightarrow> u64 \<Rightarrow> bool \<times> client \<times> u64" where
  "enqueue_output g c data total_bytes =
     (if cl_closed c then (False, c, total_bytes)
      else if pending_out c + length data > output_cap c then (False, c, total_bytes)
      else if over_buffer_budget g total_bytes (length data) then (False, c, total_bytes)
      else
        (case ssl c of
           None \<Rightarrow> (True, track (c\<lparr>out_buf := out_buf c @ data\<rparr>) total_bytes)
         | Some (lib, h) \<Rightarrow>
             (case tls_out lib h data c of
                (ok, c') \<Rightarrow> if ok then (True, track c' total_bytes) else (False, c', total_bytes))))"

datatype read_result = Got string | ReadIntr | ReadAgain | ReadError

text \<open>One \<^verbatim>\<open>read\<close> gives at most \<open>READ_CHUNK\<close> bytes; no bytes is the end of the stream.\<close>

fun drain_read :: "net \<Rightarrow> read_result list \<Rightarrow> client \<Rightarrow> u64 \<Rightarrow> bool \<times> client \<times> u64" where
  "drain_read g rs c total_bytes =
     (if length (in_buf c) \<ge> input_cap c then (True, c, total_bytes)
      else
        (case rs of
           [] \<Rightarrow> (True, c, total_bytes)
         | Got s # rs' \<Rightarrow>
             (let temp = take READ_CHUNK s in
              if temp = [] then (False, c, total_bytes)
              else
                (case (case ssl c of None \<Rightarrow> (True, c\<lparr>in_buf := in_buf c @ temp\<rparr>) | Some (lib, h) \<Rightarrow> tls_in lib h temp c) of
                   (ok, c1) \<Rightarrow>
                     if \<not> ok then (False, c1, total_bytes)
                     else
                       (case track c1 total_bytes of
                          (c2, total2) \<Rightarrow>
                            if over_buffer_budget g total2 0 then (False, c2, total2)
                            else if length temp < READ_CHUNK then (True, c2, total2)
                            else drain_read g rs' c2 total2)))
         | ReadIntr # rs' \<Rightarrow> drain_read g rs' c total_bytes
         | ReadAgain # rs' \<Rightarrow> (True, c, total_bytes)
         | ReadError # rs' \<Rightarrow> (False, c, total_bytes)))"

declare drain_read.simps [simp del]

section \<open>Commands\<close>

text \<open>
  What the connections share: the client objects, by address (an object stays after its connection is closed, as the shared
  pointers of the polls in flight keep it), the size of all buffers, the wrong passwords, the database and the outcomes of the
  coming sends.
\<close>

record net_world =
  objs :: "client list"
  client_buffers :: u64
  auth_failures :: u32
  net_db :: database
  sends :: "send_result list"

definition put :: "nat \<Rightarrow> client \<Rightarrow> 'a net_world_scheme \<Rightarrow> 'a net_world_scheme" where
  "put a c w = w\<lparr>objs := (objs w)[a := c]\<rparr>"

definition track_at :: "nat \<Rightarrow> 'a net_world_scheme \<Rightarrow> 'a net_world_scheme" where
  "track_at a w = (case track (objs w ! a) (client_buffers w) of (c, n) \<Rightarrow> (put a c w)\<lparr>client_buffers := n\<rparr>)"

definition enqueue_at :: "net \<Rightarrow> nat \<Rightarrow> string \<Rightarrow> 'a net_world_scheme \<Rightarrow> bool \<times> 'a net_world_scheme" where
  "enqueue_at g a data w =
     (case enqueue_output g (objs w ! a) data (client_buffers w) of (ok, c, n) \<Rightarrow> (ok, (put a c w)\<lparr>client_buffers := n\<rparr>))"

definition flush_at :: "nat \<Rightarrow> 'a net_world_scheme \<Rightarrow> FlushResult \<times> 'a net_world_scheme" where
  "flush_at a w =
     (case flush_output (objs w ! a) (client_buffers w) (sends w) of
        (r, c, n, rs) \<Rightarrow> (r, (put a c w)\<lparr>client_buffers := n, sends := rs\<rparr>))"

text \<open>
  The reply to one command. The messages a command publishes go to the sink while the command runs, before its
  own reply is queued.
\<close>

definition response :: "net \<Rightarrow> info_env \<Rightarrow> (int \<times> string \<Rightarrow> 'a net_world_scheme \<Rightarrow> 'a net_world_scheme) \<Rightarrow> nat \<Rightarrow> string list \<Rightarrow>
    'a net_world_scheme \<Rightarrow> string \<times> 'a net_world_scheme" where
  "response g ie sink a args w =
     (let c = objs w ! a; name = (if args = [] then [] else args ! 0); password = cfg_password (g_cfg g) in
      if strcaseeq name ''AUTH'' then
        (case auth args password c (auth_failures w) of (r, c', f) \<Rightarrow> (r, (put a c' w)\<lparr>auth_failures := f\<rparr>))
      else if strcaseeq name ''HELLO'' then
        (case hello args password c (auth_failures w) of (r, c', f) \<Rightarrow> (r, (put a c' w)\<lparr>auth_failures := f\<rparr>))
      else if \<not> authenticated c then (''-NOAUTH Authentication required.'' @ CRLF, w)
      else
        (case execute ie (cl_fd c) args (cl_resp3 c) (net_db w) of
           (r, sent, d) \<Rightarrow> (r, foldl (\<lambda>w m. sink m w) (w\<lparr>net_db := d\<rparr>) sent)))"

text \<open>How the loop over the buffered commands ends, with the offset it has reached.\<close>

datatype turn_end = Dropped | Quit nat | Garbled nat | Waiting nat | Spent nat

fun run_buffered :: "net \<Rightarrow> info_env \<Rightarrow> (int \<times> string \<Rightarrow> 'a net_world_scheme \<Rightarrow> 'a net_world_scheme) \<Rightarrow> nat \<Rightarrow> nat \<Rightarrow> nat \<Rightarrow>
    'a net_world_scheme \<Rightarrow> turn_end \<times> 'a net_world_scheme" where
  "run_buffered g ie sink a 0 pos w = (Spent pos, w)"
| "run_buffered g ie sink a (Suc budget) pos w =
     (case parse_request (in_buf (objs w ! a)) pos of
        NeedMore \<Rightarrow> (Waiting pos, w)
      | Malformed \<Rightarrow> (Garbled pos, w)
      | Complete e args \<Rightarrow>
          if length args = 1 \<and> strcaseeq (args ! 0) ''QUIT'' then (Quit e, w)
          else
            (case response g ie sink a args w of
               (r, w1) \<Rightarrow>
                 if r = [] then run_buffered g ie sink a budget e w1
                 else
                   (case enqueue_at g a r w1 of
                      (ok, w2) \<Rightarrow> if ok then run_buffered g ie sink a budget e w2 else (Dropped, w2))))"

datatype Step = Drop | Done | More

definition consume :: "nat \<Rightarrow> nat \<Rightarrow> 'a net_world_scheme \<Rightarrow> 'a net_world_scheme" where
  "consume a pos w = (let c = objs w ! a in track_at a (put a (c\<lparr>in_buf := drop pos (in_buf c)\<rparr>) w))"

definition last_words :: "net \<Rightarrow> nat \<Rightarrow> string \<Rightarrow> 'a net_world_scheme \<Rightarrow> Step \<times> 'a net_world_scheme" where
  "last_words g a msg w = (case enqueue_at g a msg w of (ok, w1) \<Rightarrow> (Drop, if ok then snd (flush_at a w1) else w1))"

definition process_buffered :: "net \<Rightarrow> info_env \<Rightarrow> (int \<times> string \<Rightarrow> 'a net_world_scheme \<Rightarrow> 'a net_world_scheme) \<Rightarrow> nat \<Rightarrow>
    'a net_world_scheme \<Rightarrow> Step \<times> 'a net_world_scheme" where
  "process_buffered g ie sink a w =
     (case run_buffered g ie sink a MAX_COMMANDS_PER_TURN 0 w of
        (Dropped, w1) \<Rightarrow> (Drop, w1)
      | (Quit pos, w1) \<Rightarrow> last_words g a (''+OK'' @ CRLF) (consume a pos w1)
      | (Garbled pos, w1) \<Rightarrow> last_words g a (''-ERR Protocol error'' @ CRLF) (consume a pos w1)
      | (Waiting pos, w1) \<Rightarrow>
          (case flush_at a (consume a pos w1) of (r, w2) \<Rightarrow> (if r = Dead then Drop else Done, w2))
      | (Spent pos, w1) \<Rightarrow>
          (case flush_at a (consume a pos w1) of
             (r, w2) \<Rightarrow> (if r = Dead then Drop else if in_buf (objs w2 ! a) \<noteq> [] then More else Done, w2)))"

section \<open>What the operations leave alone\<close>

text \<open>The part of a client that belongs to the event loop, and the part no buffer operation touches.\<close>

definition link :: "client \<Rightarrow> int \<times> bool \<times> bool \<times> bool \<times> int" where
  "link c = (cl_fd c, cl_closed c, read_armed c, write_armed c, connected c)"

definition ident :: "client \<Rightarrow> (int \<times> bool \<times> bool \<times> bool \<times> int) \<times> bool \<times> bool \<times> string" where
  "ident c = (link c, authenticated c, cl_resp3 c, in_buf c)"

lemma link_fields: "link c' = link c \<Longrightarrow> cl_fd c' = cl_fd c \<and> cl_closed c' = cl_closed c \<and> read_armed c' = read_armed c \<and> write_armed c' = write_armed c \<and> connected c' = connected c"
  by (simp add: link_def)

lemma ident_fields: "ident c' = ident c \<Longrightarrow> link c' = link c \<and> authenticated c' = authenticated c \<and> cl_resp3 c' = cl_resp3 c \<and> in_buf c' = in_buf c"
  by (simp add: ident_def)

lemma ident_updates [simp]:
  "ident (c\<lparr>out_buf := x\<rparr>) = ident c" "ident (c\<lparr>out_off := n\<rparr>) = ident c" "ident (c\<lparr>cl_held := h\<rparr>) = ident c" "ident (c\<lparr>ssl := e\<rparr>) = ident c"
  "ident (c\<lparr>wire := x\<rparr>) = ident c" "link (c\<lparr>in_buf := x\<rparr>) = link c" "link (c\<lparr>cl_held := h\<rparr>) = link c" "link (c\<lparr>authenticated := b\<rparr>) = link c"
  "link (c\<lparr>cl_resp3 := b\<rparr>) = link c" "link (c\<lparr>out_buf := x\<rparr>) = link c" "link (c\<lparr>ssl := e\<rparr>) = link c"
  by (simp_all add: ident_def link_def)

lemma track_fields [simp]:
  "fst (track c n) = c\<lparr>cl_held := (if cl_closed c then 0 else of_nat (length (in_buf c) + length (out_buf c)))\<rparr>"
  "snd (track c n) = n - cl_held c + (if cl_closed c then 0 else of_nat (length (in_buf c) + length (out_buf c)))"
  by (simp_all add: track_def Let_def)

lemma flush_loop_frame:
  assumes "flush_loop rs c = (r, c', rs')"
  shows "ident c' = ident c \<and> out_buf c' = out_buf c \<and> cl_held c' = cl_held c \<and> ssl c' = ssl c \<and> out_off c \<le> out_off c' \<and>
    (out_off c \<le> length (out_buf c) \<longrightarrow> out_off c' \<le> length (out_buf c)) \<and>
    wire c' @ drop (out_off c') (out_buf c) = wire c @ drop (out_off c) (out_buf c) \<and>
    (r = Flushed \<longleftrightarrow> length (out_buf c) \<le> out_off c')"
  using assms
proof (induction rs arbitrary: c)
  case Nil
  then show ?case by (auto simp: flush_loop.simps [of "[]"] split: if_splits)
next
  case (Cons x rs)
  show ?case
  proof (cases "out_off c \<ge> length (out_buf c)")
    case True
    then show ?thesis using Cons.prems by (auto simp: flush_loop.simps [of "x # rs"])
  next
    case False
    show ?thesis
    proof (cases x)
      case (Sent n)
      let ?k = "min n (length (out_buf c) - out_off c)"
      let ?c = "c\<lparr>out_off := out_off c + ?k, wire := wire c @ take ?k (drop (out_off c) (out_buf c))\<rparr>"
      show ?thesis
      proof (cases "n = 0")
        case True
        then show ?thesis using Cons.prems Sent False by (auto simp: flush_loop.simps [of "Sent 0 # rs"])
      next
        case nz: False
        have "flush_loop rs ?c = (r, c', rs')" using Cons.prems Sent False nz by (simp add: flush_loop.simps [of "Sent n # rs"] Let_def)
        moreover have "take ?k (drop (out_off c) (out_buf c)) @ drop (out_off c + ?k) (out_buf c) = drop (out_off c) (out_buf c)"
          by (metis append_take_drop_id add.commute drop_drop)
        ultimately show ?thesis using Cons.IH [of ?c] False by auto
      qed
    next
      case SendIntr
      then have "flush_loop rs c = (r, c', rs')" using Cons.prems False by (simp add: flush_loop.simps [of "SendIntr # rs"])
      then show ?thesis by (rule Cons.IH)
    next
      case SendAgain
      then show ?thesis using Cons.prems False by (auto simp: flush_loop.simps [of "SendAgain # rs"])
    next
      case SendError
      then show ?thesis using Cons.prems False by (auto simp: flush_loop.simps [of "SendError # rs"])
    qed
  qed
qed

text \<open>What is on the wire and what is still queued, in order: a connection's output so far.\<close>

definition stream :: "client \<Rightarrow> string" where
  "stream c = wire c @ drop (out_off c) (out_buf c)"

definition cl_ok :: "client \<Rightarrow> bool" where
  "cl_ok c \<longleftrightarrow> out_off c \<le> length (out_buf c)"

lemma flush_output_frame:
  assumes "flush_output c n rs = (r, c', n', rs')"
  shows "ident c' = ident c \<and> ssl c' = ssl c \<and> stream c' = stream c \<and> (cl_ok c \<longrightarrow> cl_ok c') \<and>
    (if r = Flushed then out_buf c' = [] \<and> out_off c' = 0 \<and> (c', n') = track (c'\<lparr>cl_held := cl_held c\<rparr>) n
     else out_buf c' = out_buf c \<and> cl_held c' = cl_held c \<and> n' = n \<and> out_off c' < length (out_buf c'))"
proof -
  obtain r1 c1 rs1 where l: "flush_loop rs c = (r1, c1, rs1)" by (metis prod_cases3)
  note f = flush_loop_frame [OF l]
  show ?thesis
  proof (cases "r1 = Flushed")
    case True
    define c2 where "c2 = c1\<lparr>out_buf := [], out_off := 0\<rparr>"
    have c': "r = Flushed" "(c', n') = track c2 n" using True assms l by (auto simp: flush_output_def c2_def split: prod.splits)
    obtain h where h: "c' = c2\<lparr>cl_held := h\<rparr>" using arg_cong [OF c'(2), of fst] by auto
    have s: "wire c1 = stream c" using f True unfolding stream_def by (metis append_Nil2 drop_all)
    have c2: "ident c2 = ident c" "ssl c2 = ssl c" "wire c2 = stream c" "out_buf c2 = []" "out_off c2 = 0" "cl_held c2 = cl_held c"
      using f s by (simp_all add: c2_def)
    have "c'\<lparr>cl_held := cl_held c\<rparr> = c2" using c2(6) h by simp
    then have "(c', n') = track (c'\<lparr>cl_held := cl_held c\<rparr>) n" using c'(2) by simp
    with c2 h c'(1) show ?thesis by (simp add: stream_def cl_ok_def)
  next
    case False
    then have "r = r1" "c' = c1" "n' = n" using assms l by (auto simp: flush_output_def split: FlushResult.splits)
    then show ?thesis using f False by (auto simp: stream_def cl_ok_def)
  qed
qed

lemma enqueue_output_frame:
  assumes "enqueue_output g c data n = (ok, c', n')"
  shows "ident c' = ident c \<and> out_off c' = out_off c \<and> wire c' = wire c \<and> (cl_ok c \<longrightarrow> cl_ok c') \<and> (ssl c = None \<longrightarrow> ssl c' = None) \<and>
    (ok \<longrightarrow> \<not> cl_closed c \<and> pending_out c + length data \<le> output_cap c \<and> \<not> over_buffer_budget g n (length data))"
  using assms
  by (auto simp: enqueue_output_def tls_out_def Let_def track_def cl_ok_def split: if_splits option.splits)

lemma enqueue_plain:
  assumes "enqueue_output g c data n = (ok, c', n')" and "ssl c = None"
  shows "if ok then (c', n') = track (c\<lparr>out_buf := out_buf c @ data\<rparr>) n else c' = c \<and> n' = n"
  using assms by (auto simp: enqueue_output_def split: if_splits)

section \<open>The parser on the rest of a buffer\<close>

lemma parse_request_shift: "parse_request (pre @ buf) (length pre + p) = shift (length pre) (parse_request buf p)"
proof -
  note pr = parse_shift [of pre buf p]
  have i: "(pre @ buf) ! (length pre + p) = buf ! p" by (simp add: nth_append)
  show ?thesis
  proof (cases "p \<ge> length buf \<or> buf ! p = CHR ''*''")
    case True
    then show ?thesis using pr i by (auto simp: parse_request_def)
  next
    case False
    define win where "win = take kMaxInline (drop p buf)"
    have g: "\<not> (length pre + p \<ge> length (pre @ buf) \<or> buf ! p = CHR ''*'')" "take kMaxInline (drop (length pre + p) (pre @ buf)) = win"
      using False by (simp_all add: win_def)
    show ?thesis unfolding parse_request_def i Let_def g(2) win_def [symmetric] if_not_P [OF False] if_not_P [OF g(1)]
      by (simp split: option.split)
  qed
qed

lemma parse_rest:
  assumes "pos \<le> length buf"
  shows "parse_request buf pos = shift pos (parse_request (drop pos buf) 0)"
  using assms parse_request_shift [of "take pos buf" "drop pos buf" 0] by simp

lemma shift_NeedMore [simp]: "shift k st = NeedMore \<longleftrightarrow> st = NeedMore"
  by (cases st) simp_all

lemma parse_empty [simp]: "parse_request [] 0 = NeedMore"
  by (simp add: parse_request_def Resp.parse_def header_def)

section \<open>Authentication\<close>

lemma fold_or_zero:
  "foldl (\<lambda>d i. d OR f i) (s :: 8 word) xs = 0 \<longleftrightarrow> s = 0 \<and> (\<forall>i \<in> set xs. f i = 0)"
  by (induction xs arbitrary: s) (auto simp: or_eq_0_iff)

lemma word_xor_zero: "(x :: 8 word) XOR y = 0 \<longleftrightarrow> x = y"
  by (metis xor_self_eq xor.right_neutral xor.assoc)

lemma of_char_word_inject: "(of_char a :: 8 word) = of_char b \<longleftrightarrow> a = b"
proof
  assume "(of_char a :: 8 word) = of_char b"
  then have "unat (of_nat (of_char a) :: 8 word) = unat (of_nat (of_char b) :: 8 word)" by (simp add: of_nat_of_char)
  then have "(of_char a :: nat) = of_char b" by (simp add: unsigned_of_nat take_bit_nat_def)
  then show "a = b" by simp
qed simp

lemma credentials_iff: "credentials_ok user pass password \<longleftrightarrow> user = ''default'' \<and> pass = password"
proof -
  let ?f = "\<lambda>i. (of_char (password ! i) :: 8 word) XOR (if i < length pass then of_char (pass ! i) else 0)"
  have "?f i = 0 \<longleftrightarrow> pass ! i = password ! i" if "i < length pass" for i
    using that of_char_word_inject [of "password ! i" "pass ! i"] by (auto simp: word_xor_zero)
  then have "length pass = length password \<and> (\<forall>i < length password. ?f i = 0) \<longleftrightarrow> pass = password"
    unfolding list_eq_iff_nth_eq by auto
  moreover have "(foldl (\<lambda>diff i. diff OR ?f i) (if length pass \<noteq> length password then 1 else 0) [0..<length password] = 0) \<longleftrightarrow>
      length pass = length password \<and> (\<forall>i < length password. ?f i = 0)"
    unfolding fold_or_zero by auto
  ultimately show ?thesis unfolding credentials_ok_def Let_def by blast
qed

text \<open>
  The comparison of passwords in constant time is an equality test: the credentials are accepted exactly when the user
  is \<open>default\<close> and the password is the configured one, whatever the two lengths are.
\<close>

theorem credentials_exact: "credentials_ok user pass password \<longleftrightarrow> user = ''default'' \<and> pass = password"
  by (rule credentials_iff)

lemma authenticate_result:
  assumes "authenticate user pass password c f = (r, c', f')"
  shows "c' = c\<lparr>authenticated := authenticated c \<or> pass = password \<and> user = ''default''\<rparr> \<and> r \<noteq> []"
  using assms by (auto simp: authenticate_def credentials_iff split: if_splits)

lemma hello_options_result:
  assumes "hello_options password args c f = (r, c', f')"
  shows "\<exists>x. c' = c\<lparr>authenticated := x\<rparr> \<and> (authenticated c \<longrightarrow> x) \<and>
    (x \<longrightarrow> authenticated c \<or> password \<noteq> [] \<and> password \<in> set args) \<and> r \<noteq> Some []"
  using assms
proof (induction password args c f arbitrary: r c' f' rule: hello_options.induct)
  case (1 password c f)
  then show ?case by (auto intro!: exI [of _ "authenticated c"])
next
  case (2 password a rest c f)
  consider (auth) "strcaseeq a ''AUTH''" "2 \<le> length rest" "password \<noteq> []"
    | (skip) "strcaseeq a ''AUTH''" "2 \<le> length rest" "password = []"
    | (name) "\<not> (strcaseeq a ''AUTH'' \<and> 2 \<le> length rest)" "strcaseeq a ''SETNAME''" "1 \<le> length rest"
    | (bad) "\<not> (strcaseeq a ''AUTH'' \<and> 2 \<le> length rest)" "\<not> (strcaseeq a ''SETNAME'' \<and> 1 \<le> length rest)" by blast
  then show ?case
  proof cases
    case auth
    obtain r1 c1 f1 where a1: "authenticate (rest ! 0) (rest ! 1) password c f = (r1, c1, f1)" by (metis prod_cases3)
    have m: "rest ! 1 \<in> set rest" using auth(2) by simp
    define x1 where "x1 = (authenticated c \<or> rest ! 1 = password \<and> rest ! 0 = ''default'')"
    have c1: "c1 = c\<lparr>authenticated := x1\<rparr>" "r1 \<noteq> []" using authenticate_result [OF a1] by (simp_all add: x1_def)
    have x1: "authenticated c \<longrightarrow> x1" "x1 \<longrightarrow> authenticated c \<or> password \<in> set (a # rest)" using m by (auto simp: x1_def)
    show ?thesis
    proof (cases "hd r1 = CHR ''-''")
      case True
      then have "c' = c1" "r = Some r1" using 2(4) auth a1 by simp_all
      then show ?thesis using c1 x1 auth(3) by (intro exI [of _ x1]) auto
    next
      case False
      then have run: "hello_options password (drop 2 rest) c1 f1 = (r, c', f')" using 2(4) auth a1 by simp
      obtain x where x: "c' = c1\<lparr>authenticated := x\<rparr>" "authenticated c1 \<longrightarrow> x" "x \<longrightarrow> authenticated c1 \<or> password \<noteq> [] \<and> password \<in> set (drop 2 rest)" "r \<noteq> Some []"
        using 2(1) [OF _ _ a1 [symmetric] refl False run] auth by auto
      then show ?thesis using c1 x1 auth(3) by (intro exI [of _ x]) (auto dest: in_set_dropD)
    qed
  next
    case skip
    then show ?thesis using 2(2) [of r c' f'] 2(4) by auto
  next
    case name
    then have run: "hello_options password (drop 1 rest) c f = (r, c', f')" using 2(4) by auto
    show ?thesis using 2(3) [OF name(1) _ run] name by (auto dest: in_set_dropD)
  next
    case bad
    then have "c' = c" "r \<noteq> Some []" using 2(4) by (auto split: if_splits)
    then show ?thesis by (intro exI [of _ "authenticated c"]) simp
  qed
qed

text \<open>What \<^verbatim>\<open>AUTH\<close> and \<^verbatim>\<open>HELLO\<close> do to a client: a client becomes authenticated only by presenting the password.\<close>

definition admits :: "string \<Rightarrow> string list \<Rightarrow> client \<Rightarrow> client \<Rightarrow> bool" where
  "admits password args c c' \<longleftrightarrow> (\<exists>x y. c' = c\<lparr>authenticated := x, cl_resp3 := y\<rparr> \<and> (authenticated c \<longrightarrow> x) \<and>
     (x \<longrightarrow> authenticated c \<or> password \<noteq> [] \<and> password \<in> set args))"

lemma admits_refl [simp]: "admits password args c c"
  unfolding admits_def by (rule exI [of _ "authenticated c"], rule exI [of _ "cl_resp3 c"]) simp

lemma admitsI:
  assumes "c' = c\<lparr>authenticated := x\<rparr>" "authenticated c \<longrightarrow> x" "x \<longrightarrow> authenticated c \<or> password \<noteq> [] \<and> password \<in> set args"
  shows "admits password args c c'" "admits password args c (c'\<lparr>cl_resp3 := y\<rparr>)"
  using assms unfolding admits_def by (rule_tac exI [of _ x], rule_tac exI [of _ "cl_resp3 c"], simp)
    (use assms in \<open>rule_tac exI [of _ x], rule_tac exI [of _ y], simp\<close>)

lemma auth_admits:
  assumes "auth args password c f = (r, c', f')"
  shows "admits password args c c' \<and> r \<noteq> []"
proof (cases "(length args = 2 \<or> length args = 3) \<and> password \<noteq> []")
  case True
  then have a: "authenticate (if length args = 3 then args ! 1 else ''default'') (last args) password c f = (r, c', f')"
    using assms by (auto simp: auth_def split: if_splits)
  have "last args \<in> set args" using True by (intro last_in_set) auto
  then show ?thesis using authenticate_result [OF a] True
    by (auto intro!: admitsI(1) [where x = "authenticated c \<or> last args = password \<and> (if length args = 3 then args ! 1 else ''default'') = ''default''"])
next
  case False
  then show ?thesis using assms by (auto simp: auth_def split: if_splits)
qed

lemma hello_accept_admits:
  assumes "hello_accept proto c1 f = (r, c', f')" "c1 = c\<lparr>authenticated := x\<rparr>" "authenticated c \<longrightarrow> x" "x \<longrightarrow> authenticated c \<or> password \<noteq> [] \<and> password \<in> set args"
  shows "admits password args c c' \<and> r \<noteq> []"
  using assms(1) admitsI [OF assms(2-4)] by (auto simp: hello_accept_def hello_reply_def Let_def split: if_splits)

lemma hello_admits:
  assumes run: "hello args password c f = (r, c', f')"
  shows "admits password args c c' \<and> r \<noteq> []"
proof (cases "length args < 2")
  case True
  then show ?thesis using run hello_accept_admits [where c = c and x = "authenticated c"] by (simp add: hello_def)
next
  case False
  show ?thesis
  proof (cases "\<exists>proto. from_chars_int (args ! 1) = Some proto \<and> (proto = 2 \<or> proto = 3)")
    case True
    then obtain proto where pr: "from_chars_int (args ! 1) = Some proto" "proto = 2 \<or> proto = 3" by blast
    obtain e c1 f1 where o: "hello_options password (drop 2 args) c f = (e, c1, f1)" by (metis prod_cases3)
    obtain x where x: "c1 = c\<lparr>authenticated := x\<rparr>" "authenticated c \<longrightarrow> x"
      "x \<longrightarrow> authenticated c \<or> password \<noteq> [] \<and> password \<in> set args" "e \<noteq> Some []"
      using hello_options_result [OF o] by (auto dest: in_set_dropD)
    show ?thesis
    proof (cases e)
      case None
      then have "hello_accept proto c1 f1 = (r, c', f')" using run pr o False by (auto simp: hello_def)
      then show ?thesis using x by (intro hello_accept_admits) auto
    next
      case (Some m)
      then show ?thesis using run pr o False x admitsI(1) [OF x(1-3)] by (auto simp: hello_def)
    qed
  next
    case bad: False
    then show ?thesis using run False by (auto simp: hello_def split: option.splits if_splits)
  qed
qed

section \<open>A turn of one client\<close>

lemma publish_replies:
  assumes "execute ie fd args r3 d = (reply, sent, d')" and "sent \<noteq> []"
  shows "reply \<noteq> []"
proof -
  obtain d2 where "conn_command ie fd (upper (args ! 0)) args d2 = (reply, sent, d')"
    using assms by (auto simp: execute_def Let_def silent_def case_prod_unfold split: if_splits scope.splits)
  then show ?thesis using assms(2)
    by (auto simp: conn_command_def silent_def publish_def Let_def case_prod_unfold split: if_splits)
qed

text \<open>
  What the messages of a command and the command's own bookkeeping keep of every client: its descriptor, its unread input and
  its age; nobody is reopened and nobody loses its authentication.
\<close>

definition kept :: "client \<Rightarrow> client \<Rightarrow> bool" where
  "kept c c' \<longleftrightarrow> cl_fd c' = cl_fd c \<and> in_buf c' = in_buf c \<and> connected c' = connected c \<and> (cl_closed c \<longrightarrow> cl_closed c') \<and> (authenticated c \<longrightarrow> authenticated c')"

definition all_kept :: "'a net_world_scheme \<Rightarrow> 'a net_world_scheme \<Rightarrow> bool" where
  "all_kept w w' \<longleftrightarrow> length (objs w') = length (objs w) \<and> (\<forall>b < length (objs w). kept (objs w ! b) (objs w' ! b))"

lemma all_kept_refl [simp]: "all_kept w w" "all_kept w (w\<lparr>net_db := d\<rparr>)"
  by (simp_all add: all_kept_def kept_def)

lemma all_kept_trans [trans]: "all_kept u v \<Longrightarrow> all_kept v w \<Longrightarrow> all_kept u w"
  by (auto simp: all_kept_def kept_def)

lemma put_simps [simp]:
  "objs (put a c w) = (objs w)[a := c]" "client_buffers (put a c w) = client_buffers w" "auth_failures (put a c w) = auth_failures w"
  "net_db (put a c w) = net_db w" "sends (put a c w) = sends w"
  by (simp_all add: put_def)

lemma all_kept_put: "kept (objs w ! a) c \<Longrightarrow> objs w' = (objs w)[a := c] \<Longrightarrow> all_kept w w'"
proof -
  assume k: "kept (objs w ! a) c" and o: "objs w' = (objs w)[a := c]"
  have "kept (objs w ! b) (objs w' ! b)" if "b < length (objs w)" for b
    using k that unfolding o nth_list_update [OF that] by (cases "a = b") (auto simp: kept_def)
  then show ?thesis by (simp add: all_kept_def o)
qed

lemma kept_ident: "ident c' = ident c \<Longrightarrow> kept c c'"
  by (auto simp: kept_def ident_def link_def)

lemma kept_admits: "admits password args c c' \<Longrightarrow> kept c c'"
  by (auto simp: kept_def admits_def)

lemma enqueue_at_frame:
  assumes "enqueue_at g a data w = (ok, w')"
  obtains c n where "w' = (put a c w)\<lparr>client_buffers := n\<rparr>" "enqueue_output g (objs w ! a) data (client_buffers w) = (ok, c, n)"
    "ident c = ident (objs w ! a)"
proof -
  obtain ok' c n where e: "enqueue_output g (objs w ! a) data (client_buffers w) = (ok', c, n)" by (metis prod_cases3)
  then show ?thesis using assms enqueue_output_frame [OF e] by (intro that [where c = c and n = n]) (auto simp: enqueue_at_def)
qed

lemma flush_at_frame:
  assumes "flush_at a w = (r, w')"
  obtains c n rs where "w' = (put a c w)\<lparr>client_buffers := n, sends := rs\<rparr>"
    "flush_output (objs w ! a) (client_buffers w) (sends w) = (r, c, n, rs)" "ident c = ident (objs w ! a)"
proof -
  obtain r' c n rs where e: "flush_output (objs w ! a) (client_buffers w) (sends w) = (r', c, n, rs)" by (metis prod_cases4)
  then show ?thesis using assms flush_output_frame [OF e] by (intro that [where c = c and n = n and rs = rs]) (auto simp: flush_at_def)
qed

text \<open>
  The two laws the connection needs of whoever delivers published messages: the loop in \<^verbatim>\<open>main.cpp\<close> may close and arm
  clients there, but it keeps what \<open>kept\<close> says.
\<close>

locale delivery =
  fixes sink :: "int \<times> string \<Rightarrow> 'a net_world_scheme \<Rightarrow> 'a net_world_scheme"
  assumes sink_kept: "all_kept w (sink m w)"
begin

lemma sinks_kept: "all_kept w (foldl (\<lambda>w m. sink m w) w ms)"
proof (induction ms arbitrary: w)
  case (Cons m ms)
  show ?case using all_kept_trans [OF sink_kept Cons.IH] by simp
qed simp

text \<open>What one reply does: either the client was admitted, or it was refused, or the database ran the command.\<close>

lemma response_cases:
  assumes "response g ie sink a args w = (r, w')"
  obtains (admit) c f where "w' = (put a c w)\<lparr>auth_failures := f\<rparr>" "admits (cfg_password (g_cfg g)) args (objs w ! a) c" "r \<noteq> []"
    | (refuse) "w' = w" "\<not> authenticated (objs w ! a)" "r \<noteq> []"
    | (exec) sent d where "authenticated (objs w ! a)" "execute ie (cl_fd (objs w ! a)) args (cl_resp3 (objs w ! a)) (net_db w) = (r, sent, d)"
        "w' = foldl (\<lambda>w m. sink m w) (w\<lparr>net_db := d\<rparr>) sent"
proof -
  define c name pw where "c = objs w ! a" and "name = (if args = [] then [] else args ! 0)" and "pw = cfg_password (g_cfg g)"
  obtain r1 c1 f1 where 1: "auth args pw c (auth_failures w) = (r1, c1, f1)" by (metis prod_cases3)
  obtain r2 c2 f2 where 2: "hello args pw c (auth_failures w) = (r2, c2, f2)" by (metis prod_cases3)
  obtain r3 s3 d3 where 3: "execute ie (cl_fd c) args (cl_resp3 c) (net_db w) = (r3, s3, d3)" by (metis prod_cases3)
  note run = assms [unfolded response_def Let_def, folded c_def name_def pw_def, unfolded 1 2 3 prod.case]
  consider "strcaseeq name ''AUTH''" | "\<not> strcaseeq name ''AUTH''" "strcaseeq name ''HELLO''"
    | "\<not> strcaseeq name ''AUTH''" "\<not> strcaseeq name ''HELLO''" "\<not> authenticated c"
    | "\<not> strcaseeq name ''AUTH''" "\<not> strcaseeq name ''HELLO''" "authenticated c" by blast
  then show ?thesis
  proof cases
    case 1
    then show ?thesis using run auth_admits [OF \<open>auth args pw c _ = _\<close>] by (intro admit [where c = c1 and f = f1]) (simp_all add: c_def pw_def)
  next
    case 2
    then show ?thesis using run hello_admits [OF \<open>hello args pw c _ = _\<close>] by (intro admit [where c = c2 and f = f2]) (simp_all add: c_def pw_def)
  next
    case 3
    then show ?thesis using run by (intro refuse) (auto simp: c_def)
  next
    case 4
    then show ?thesis using run \<open>execute ie _ _ _ _ = _\<close> by (intro exec [where sent = s3 and d = d3]) (simp_all add: c_def)
  qed
qed

lemma response_kept:
  assumes "response g ie sink a args w = (r, w')"
  shows "all_kept w w'"
  using assms
proof (cases rule: response_cases)
  case (admit c f)
  then show ?thesis by (intro all_kept_put [OF kept_admits]) simp_all
next
  case (exec sent d)
  then show ?thesis using all_kept_trans [OF all_kept_refl(2) sinks_kept] by blast
qed simp

lemma response_silent_open:
  assumes "response g ie sink a args w = (r, w')" "r = []" "a < length (objs w)" "\<not> cl_closed (objs w ! a)"
  shows "\<not> cl_closed (objs w' ! a)"
  using assms(1)
proof (cases rule: response_cases)
  case (exec sent d)
  then have "sent = []" using publish_replies assms(2) by blast
  then show ?thesis using exec assms(4) by simp
qed (use assms in auto)

end

text \<open>Where a loop over the buffered commands may end.\<close>

fun reached :: "string \<Rightarrow> turn_end \<Rightarrow> bool" where
  "reached buf Dropped = True"
| "reached buf (Waiting p) = (p \<le> length buf \<and> parse_request buf p = NeedMore)"
| "reached buf (Quit p) = (p \<le> length buf)"
| "reached buf (Garbled p) = (p \<le> length buf)"
| "reached buf (Spent p) = (p \<le> length buf)"

text \<open>
  A property of the state while the commands of client \<open>a\<close> run: it is kept by an admission, by a queued reply and by a
  command with its messages, hence by the whole loop.
\<close>

locale turn = delivery sink
  for sink :: "int \<times> string \<Rightarrow> 'a net_world_scheme \<Rightarrow> 'a net_world_scheme" +
  fixes g :: net and ie :: info_env and inv :: "nat \<Rightarrow> 'a net_world_scheme \<Rightarrow> bool"
  assumes keep_admit: "\<lbrakk>inv a w; a < length (objs w); \<not> cl_closed (objs w ! a); parse_request (in_buf (objs w ! a)) pos = Complete e args;
        admits (cfg_password (g_cfg g)) args (objs w ! a) c\<rbrakk> \<Longrightarrow> inv a ((put a c w)\<lparr>auth_failures := f\<rparr>)"
    and keep_enqueue: "\<lbrakk>inv a w; a < length (objs w); enqueue_at g a data w = (ok, w')\<rbrakk> \<Longrightarrow> inv a w'"
    and keep_exec: "\<lbrakk>inv a w; a < length (objs w); \<not> cl_closed (objs w ! a); authenticated (objs w ! a);
        execute ie (cl_fd (objs w ! a)) args (cl_resp3 (objs w ! a)) (net_db w) = (r, sent, d)\<rbrakk> \<Longrightarrow>
        inv a (foldl (\<lambda>w m. sink m w) (w\<lparr>net_db := d\<rparr>) sent)"
begin

lemma response_keeps:
  assumes "response g ie sink a args w = (r, w')" "inv a w" "a < length (objs w)" "\<not> cl_closed (objs w ! a)"
    "parse_request (in_buf (objs w ! a)) pos = Complete e args"
  shows "inv a w'"
  using assms(1)
proof (cases rule: response_cases)
  case (admit c f)
  then show ?thesis using keep_admit assms(2-5) by blast
next
  case (exec sent d)
  then show ?thesis using keep_exec assms(2-4) by blast
qed (use assms in simp)

lemma run_keeps:
  assumes "run_buffered g ie sink a n pos w = (t, w')" "inv a w" "a < length (objs w)" "\<not> cl_closed (objs w ! a)" "pos \<le> length (in_buf (objs w ! a))"
  shows "inv a w' \<and> all_kept w w' \<and> (t \<noteq> Dropped \<longrightarrow> \<not> cl_closed (objs w' ! a)) \<and> reached (in_buf (objs w ! a)) t"
  using assms
proof (induction n arbitrary: pos w)
  case 0
  then show ?case by auto
next
  case (Suc n)
  let ?buf = "in_buf (objs w ! a)"
  show ?case
  proof (cases "parse_request ?buf pos")
    case (Complete e args)
    note e = parse_request_Complete [OF Complete]
    show ?thesis
    proof (cases "length args = 1 \<and> strcaseeq (args ! 0) ''QUIT''")
      case True
      then show ?thesis using Suc.prems Complete e by auto
    next
      case False
      obtain r w1 where r: "response g ie sink a args w = (r, w1)" by fastforce
      obtain ok w2 where q: "enqueue_at g a r w1 = (ok, w2)" by fastforce
      note i1 = response_keeps [OF r Suc.prems(2-4) Complete]
      note k1 = response_kept [OF r]
      have l1: "a < length (objs w1)" "in_buf (objs w1 ! a) = ?buf" using k1 Suc.prems(3) by (auto simp: all_kept_def kept_def)
      obtain c m where q': "w2 = (put a c w1)\<lparr>client_buffers := m\<rparr>" "enqueue_output g (objs w1 ! a) r (client_buffers w1) = (ok, c, m)"
        "ident c = ident (objs w1 ! a)" by (rule enqueue_at_frame [OF q])
      have k2: "all_kept w1 w2" by (rule all_kept_put [OF kept_ident [OF q'(3)]]) (simp add: q'(1))
      have i2: "inv a w2" by (rule keep_enqueue [OF i1 l1(1) q])
      have l2: "a < length (objs w2)" "in_buf (objs w2 ! a) = ?buf" using k2 l1 by (auto simp: all_kept_def kept_def)
      note run = Suc.prems(1) [unfolded run_buffered.simps Complete status.case if_not_P [OF False] r q prod.case]
      consider "r = []" | "r \<noteq> []" "ok" | "r \<noteq> []" "\<not> ok" by blast
      then show ?thesis
      proof cases
        case 1
        then have "run_buffered g ie sink a n e w1 = (t, w')" using run by simp
        from Suc.IH [OF this i1 l1(1) response_silent_open [OF r 1 Suc.prems(3,4)]] show ?thesis
          using e l1 all_kept_trans [OF k1] by auto
      next
        case 2
        then have "run_buffered g ie sink a n e w2 = (t, w')" using run by simp
        moreover have "\<not> cl_closed (objs w2 ! a)"
          using enqueue_output_frame [OF q'(2)] 2(2) q'(1,3) l1(1) by (simp add: ident_def link_def)
        ultimately show ?thesis using Suc.IH [of e w2] i2 l2 e all_kept_trans [OF all_kept_trans [OF k1 k2]] by auto
      next
        case 3
        then have "t = Dropped" "w' = w2" using run by auto
        then show ?thesis using i2 all_kept_trans [OF k1 k2] by simp
      qed
    qed
  qed (use Suc.prems in auto)
qed

end

text \<open>The same for a whole call of \<^verbatim>\<open>process_buffered\<close>, which also drops the consumed input and sends.\<close>

definition others_kept :: "nat \<Rightarrow> 'a net_world_scheme \<Rightarrow> 'a net_world_scheme \<Rightarrow> bool" where
  "others_kept a w w' \<longleftrightarrow> length (objs w') = length (objs w) \<and> (\<forall>b < length (objs w). b \<noteq> a \<longrightarrow> kept (objs w ! b) (objs w' ! b)) \<and>
     (a < length (objs w) \<longrightarrow> cl_fd (objs w' ! a) = cl_fd (objs w ! a) \<and> (authenticated (objs w ! a) \<longrightarrow> authenticated (objs w' ! a)))"

lemma all_kept_others: "all_kept w w' \<Longrightarrow> others_kept a w w'"
  by (auto simp: all_kept_def others_kept_def kept_def)

lemma others_kept_trans [trans]: "others_kept a u v \<Longrightarrow> others_kept a v w \<Longrightarrow> others_kept a u w"
  by (auto simp: others_kept_def kept_def)

lemma others_kept_put:
  "objs w' = (objs w)[a := c] \<Longrightarrow> link c = link (objs w ! a) \<Longrightarrow> (authenticated (objs w ! a) \<longrightarrow> authenticated c) \<Longrightarrow> others_kept a w w'"
  by (auto simp: others_kept_def kept_def link_def)

lemma consume_frame:
  assumes "a < length (objs w)"
  shows "objs (consume a pos w) ! a = (objs w ! a)\<lparr>in_buf := drop pos (in_buf (objs w ! a)),
      cl_held := (if cl_closed (objs w ! a) then 0 else of_nat (length (drop pos (in_buf (objs w ! a))) + length (out_buf (objs w ! a))))\<rparr>"
    "consume a pos w = (put a (objs (consume a pos w) ! a) w)\<lparr>client_buffers := client_buffers (consume a pos w)\<rparr>"
    "others_kept a w (consume a pos w)"
proof -
  show 1: "objs (consume a pos w) ! a = (objs w ! a)\<lparr>in_buf := drop pos (in_buf (objs w ! a)),
      cl_held := (if cl_closed (objs w ! a) then 0 else of_nat (length (drop pos (in_buf (objs w ! a))) + length (out_buf (objs w ! a))))\<rparr>"
    using assms by (simp add: consume_def track_at_def Let_def track_def)
  show 2: "consume a pos w = (put a (objs (consume a pos w) ! a) w)\<lparr>client_buffers := client_buffers (consume a pos w)\<rparr>"
    unfolding 1 by (simp add: consume_def track_at_def Let_def track_def put_def assms)
  show "others_kept a w (consume a pos w)"
    by (rule others_kept_put [of _ _ _ "objs (consume a pos w) ! a"]) (subst 2, simp, simp_all add: 1 link_def)
qed

locale whole_turn = turn sink g ie inv
  for sink :: "int \<times> string \<Rightarrow> 'a net_world_scheme \<Rightarrow> 'a net_world_scheme" and g ie inv +
  assumes keep_consume: "\<lbrakk>inv a w; a < length (objs w); \<not> cl_closed (objs w ! a)\<rbrakk> \<Longrightarrow> inv a (consume a pos w)"
    and keep_flush: "\<lbrakk>inv a w; a < length (objs w); \<not> cl_closed (objs w ! a); flush_at a w = (res, w')\<rbrakk> \<Longrightarrow> inv a w'"
begin

lemma flush_step:
  assumes "flush_at a w = (res, w')" "inv a w" "a < length (objs w)" "\<not> cl_closed (objs w ! a)"
  shows "inv a w' \<and> others_kept a w w' \<and> ident (objs w' ! a) = ident (objs w ! a)"
proof -
  obtain c m rs where q: "w' = (put a c w)\<lparr>client_buffers := m, sends := rs\<rparr>" "ident c = ident (objs w ! a)"
    by (rule flush_at_frame [OF assms(1)])
  have "others_kept a w w'" by (rule others_kept_put [of _ _ _ c]) (use q in \<open>simp_all add: ident_def\<close>)
  then show ?thesis using keep_flush [OF assms(2-4,1)] q assms(3) by simp
qed

lemma last_words_keeps:
  assumes "last_words g a msg w = (st, w')" "inv a w" "a < length (objs w)" "\<not> cl_closed (objs w ! a)"
  shows "inv a w' \<and> others_kept a w w' \<and> st = Drop"
proof -
  obtain ok w1 where q: "enqueue_at g a msg w = (ok, w1)" by fastforce
  obtain c m where q': "w1 = (put a c w)\<lparr>client_buffers := m\<rparr>" "ident c = ident (objs w ! a)" by (rule enqueue_at_frame [OF q])
  have o1: "others_kept a w w1" by (rule others_kept_put [of _ _ _ c]) (use q' in \<open>simp_all add: ident_def\<close>)
  have i1: "inv a w1" by (rule keep_enqueue [OF assms(2,3) q])
  have l1: "a < length (objs w1)" "\<not> cl_closed (objs w1 ! a)" using q' assms(3,4) by (simp_all add: ident_def link_def)
  obtain res w2 where f: "flush_at a w1 = (res, w2)" by fastforce
  note s = flush_step [OF f i1 l1]
  show ?thesis using assms(1) s o1 i1 others_kept_trans [OF o1, of w2] by (auto simp: last_words_def q f split: if_splits)
qed

lemma process_keeps:
  assumes run: "process_buffered g ie sink a w = (st, w')" and "inv a w" "a < length (objs w)" "\<not> cl_closed (objs w ! a)"
  shows "inv a w' \<and> others_kept a w w' \<and> (st \<noteq> Drop \<longrightarrow> \<not> cl_closed (objs w' ! a)) \<and>
    (st = Done \<longrightarrow> parse_request (in_buf (objs w' ! a)) 0 = NeedMore)"
proof -
  obtain t w1 where t: "run_buffered g ie sink a MAX_COMMANDS_PER_TURN 0 w = (t, w1)" by fastforce
  have k: "inv a w1" "all_kept w w1" "t \<noteq> Dropped \<longrightarrow> \<not> cl_closed (objs w1 ! a)" "reached (in_buf (objs w ! a)) t"
    using run_keeps [OF t assms(2-4)] by simp_all
  have l: "a < length (objs w1)" "in_buf (objs w1 ! a) = in_buf (objs w ! a)" using k(2) assms(3) by (auto simp: all_kept_def kept_def)
  note o1 = all_kept_others [OF k(2), of a]
  show ?thesis
  proof (cases "t = Dropped")
    case True
    then show ?thesis using run t k o1 by (simp add: process_buffered_def)
  next
    case False
    then have op: "\<not> cl_closed (objs w1 ! a)" using k(3) by simp
    let ?v = "\<lambda>p. consume a p w1"
    have v: "inv a (?v p)" "others_kept a w (?v p)" "a < length (objs (?v p))" "\<not> cl_closed (objs (?v p) ! a)"
        "in_buf (objs (?v p) ! a) = drop p (in_buf (objs w ! a))" for p
    proof -
      note c = consume_frame [OF l(1), of p]
      show "inv a (?v p)" by (rule keep_consume [OF k(1) l(1) op])
      show "others_kept a w (?v p)" by (rule others_kept_trans [OF o1 c(3)])
      show "a < length (objs (?v p))" using l(1) c(3) by (simp add: others_kept_def)
      show "\<not> cl_closed (objs (?v p) ! a)" using op by (simp add: c(1))
      show "in_buf (objs (?v p) ! a) = drop p (in_buf (objs w ! a))" using l(2) by (simp add: c(1))
    qed
    have lw: "inv a w' \<and> others_kept a w w' \<and> st = Drop" if "last_words g a msg (?v p) = (st, w')" for msg p
      using last_words_keeps [OF that v(1,3,4)] others_kept_trans [OF v(2)] by blast
    have fl: "inv a w' \<and> others_kept a w w' \<and> \<not> cl_closed (objs w' ! a) \<and> in_buf (objs w' ! a) = drop p (in_buf (objs w ! a))"
      if "flush_at a (?v p) = (res, w')" for p res
      using flush_step [OF that v(1,3,4)] others_kept_trans [OF v(2) [of p], of w'] v(4,5) [of p] by (simp add: ident_def link_def)
    note run' = run [unfolded process_buffered_def t prod.case]
    show ?thesis
    proof (cases t)
      case (Quit p)
      then show ?thesis using lw [of "''+OK'' @ CRLF" p] run' by auto
    next
      case (Garbled p)
      then show ?thesis using lw [of "''-ERR Protocol error'' @ CRLF" p] run' by auto
    next
      case (Waiting p)
      obtain res where f: "flush_at a (?v p) = (res, w')" "st = (if res = Dead then Drop else Done)"
        using run' Waiting by (auto split: prod.splits)
      have "parse_request (drop p (in_buf (objs w ! a))) 0 = NeedMore" using k(4) Waiting parse_rest [of p "in_buf (objs w ! a)", symmetric] by simp
      then show ?thesis using fl [OF f(1)] f(2) by simp
    next
      case (Spent p)
      obtain res where f: "flush_at a (?v p) = (res, w')" "st = (if res = Dead then Drop else if in_buf (objs w' ! a) \<noteq> [] then More else Done)"
        using run' Spent by (auto split: prod.splits)
      then show ?thesis using fl [OF f(1)] by auto
    qed (use False in simp)
  qed
qed

end

end
