(* ===== verification/Event_Loop.thy ===== *)
theory Event_Loop
  imports Connection
begin

text \<open>
  The event loop of \<^verbatim>\<open>src/main.cpp\<close>: the table of clients, the polls in the ring, the accept and the eventfd, the delivery of
  published messages, the handling of completions and the sweep.

  A client is an address into the list of objects; a poll ticket is an address and the direction. A completion the kernel
  reports is an argument, with the outcomes of the reads it allows. \<open>open_fds\<close> holds the descriptors of client
  sockets the kernel has open, \<open>in_ring\<close>, \<open>accepts\<close> and \<open>event_reads\<close> the operations in flight, \<open>event_count\<close> the
  counter of the eventfd, and \<open>sqes\<close> whether the coming calls of \<^verbatim>\<open>io_uring_get_sqe\<close> find a free entry (past its
  end they do). Traces and log lines are left out.
\<close>

section \<open>The state\<close>

type_synonym ticket = "nat \<times> bool"

record world = net_world +
  w_clients :: "(int \<times> nat) list"
  arm_backlog :: "ticket list"
  in_ring :: "ticket list"
  accepts :: nat
  event_reads :: nat
  event_count :: nat
  accept_paused :: bool
  accept_failures :: u32
  last_accept_error :: int
  open_fds :: "int list"
  sqes :: "bool list"

section \<open>Clients and polls\<close>

definition schedule_close :: "nat \<Rightarrow> world \<Rightarrow> world" where
  "schedule_close a w =
     (let c = objs w ! a in
      if cl_closed c then w
      else
        (let w1 = track_at a (put a (c\<lparr>cl_closed := True\<rparr>) w) in
         w1\<lparr>net_db := cleanup_client (cl_fd c) (net_db w1), open_fds := removeAll (cl_fd c) (open_fds w1),
            w_clients := AList.delete (cl_fd c) (w_clients w1)\<rparr>))"

definition arm_client :: "nat \<Rightarrow> bool \<Rightarrow> world \<Rightarrow> world" where
  "arm_client a for_write w =
     (let c = objs w ! a in
      if cl_closed c \<or> (for_write \<and> write_armed c) \<or> (\<not> for_write \<and> read_armed c) then w
      else (put a (if for_write then c\<lparr>write_armed := True\<rparr> else c\<lparr>read_armed := True\<rparr>) w)\<lparr>arm_backlog := arm_backlog w @ [(a, for_write)]\<rparr>)"

definition get_sqe :: "world \<Rightarrow> bool \<times> world" where
  "get_sqe w = (case sqes w of [] \<Rightarrow> (True, w) | b # bs \<Rightarrow> (b, w\<lparr>sqes := bs\<rparr>))"

fun submit_loop :: "ticket list \<Rightarrow> ticket list \<Rightarrow> world \<Rightarrow> world" where
  "submit_loop [] kept_tickets w = w\<lparr>arm_backlog := kept_tickets\<rparr>"
| "submit_loop (t # ts) kept_tickets w =
     (if cl_closed (objs w ! fst t) then submit_loop ts kept_tickets w
      else
        (case get_sqe w of
           (ok, w1) \<Rightarrow>
             if ok then submit_loop ts kept_tickets (w1\<lparr>in_ring := in_ring w1 @ [t]\<rparr>)
             else submit_loop ts (kept_tickets @ [t]) w1))"

definition submit_backlog :: "world \<Rightarrow> world" where
  "submit_backlog w = submit_loop (arm_backlog w) [] w"

definition arm_listener :: "world \<Rightarrow> world" where
  "arm_listener w = (case get_sqe w of (ok, w1) \<Rightarrow> if ok then w1\<lparr>accepts := Suc (accepts w1)\<rparr> else w1\<lparr>accept_paused := True\<rparr>)"

definition arm_eventfd :: "world \<Rightarrow> world" where
  "arm_eventfd w = (case get_sqe w of (ok, w1) \<Rightarrow> if ok then w1\<lparr>event_reads := Suc (event_reads w1)\<rparr> else w1)"

text \<open>Messages begin with an asterisk; the push of RESP3 has another first byte.\<close>

definition deliver_pubsub :: "net \<Rightarrow> int \<times> string \<Rightarrow> world \<Rightarrow> world" where
  "deliver_pubsub g = (\<lambda>(fd, msg) w.
     (case map_of (w_clients w) fd of
        None \<Rightarrow> w
      | Some a \<Rightarrow>
          if cl_closed (objs w ! a) then w
          else
            (case enqueue_at g a (if cl_resp3 (objs w ! a) then CHR ''>'' # tl msg else msg) w of
               (ok, w1) \<Rightarrow>
                 if \<not> ok then schedule_close a w1
                 else
                   (case flush_at a w1 of
                      (r, w2) \<Rightarrow> if r = Pending then arm_client a True w2 else if r = Dead then schedule_close a w2 else w2))))"

text \<open>A write to the eventfd at its largest value answers \<^verbatim>\<open>EAGAIN\<close>, which leaves the counter as it is.\<close>

definition queue_work :: "world \<Rightarrow> world" where
  "queue_work w = (if event_count w < 2 ^ 64 - 2 then w\<lparr>event_count := Suc (event_count w)\<rparr> else w)"

definition serve :: "net \<Rightarrow> info_env \<Rightarrow> nat \<Rightarrow> world \<Rightarrow> bool \<times> world" where
  "serve g ie a w =
     (case process_buffered g ie (deliver_pubsub g) a w of
        (st, w1) \<Rightarrow>
          if st = Drop then (False, schedule_close a w1)
          else
            (let w2 = (if pending_out (objs w1 ! a) > 0 then arm_client a True w1 else w1) in
             (st = More, arm_client a False w2)))"

section \<open>Completions and the sweep\<close>

text \<open>Times are in nanoseconds.\<close>

definition AUTH_TIMEOUT :: int where "AUTH_TIMEOUT = 10 * 10 ^ 9"

definition close_unauthenticated :: "int \<Rightarrow> world \<Rightarrow> world" where
  "close_unauthenticated now w =
     foldl (\<lambda>w a. schedule_close a w) w
       (filter (\<lambda>a. \<not> authenticated (objs w ! a) \<and> now - connected (objs w ! a) > AUTH_TIMEOUT) (map snd (w_clients w)))"

definition pump_client :: "net \<Rightarrow> info_env \<Rightarrow> world \<Rightarrow> nat \<Rightarrow> world" where
  "pump_client g ie w a =
     (if cl_closed (objs w ! a) \<or> in_buf (objs w ! a) = [] then w
      else (case serve g ie a w of (again, w1) \<Rightarrow> if again then queue_work w1 else w1))"

definition pump_work :: "net \<Rightarrow> info_env \<Rightarrow> world \<Rightarrow> world" where
  "pump_work g ie w = foldl (pump_client g ie) w (map snd (w_clients w))"

abbreviation EINTR :: int where "EINTR \<equiv> 4"
abbreviation ENOMEM :: int where "ENOMEM \<equiv> 12"
abbreviation ENFILE :: int where "ENFILE \<equiv> 23"
abbreviation EMFILE :: int where "EMFILE \<equiv> 24"
abbreviation ENOBUFS :: int where "ENOBUFS \<equiv> 105"

definition add_client :: "net \<Rightarrow> int \<Rightarrow> int \<Rightarrow> world \<Rightarrow> world" where
  "add_client g fd now w =
     (let a = length (objs w) in
      arm_client a False
        (w\<lparr>objs := objs w @ [new_client g fd now], w_clients := AList.update fd a (w_clients w), open_fds := fd # open_fds w\<rparr>))"

definition cqe_accept :: "net \<Rightarrow> int \<Rightarrow> int \<Rightarrow> world \<Rightarrow> world" where
  "cqe_accept g res now w0 =
     (let w = w0\<lparr>accepts := accepts w0 - 1\<rparr> in
      if res \<ge> 0 \<and> length (w_clients w) \<ge> unat (cfg_maxclients (g_cfg g)) then arm_listener w
      else if res \<ge> 0 then arm_listener (add_client g res now w)
      else if res \<noteq> - EINTR then
        (let w1 = w\<lparr>accept_failures := accept_failures w + 1, last_accept_error := - res\<rparr> in
         if res = - EMFILE \<or> res = - ENFILE \<or> res = - ENOBUFS \<or> res = - ENOMEM then w1\<lparr>accept_paused := True\<rparr>
         else arm_listener w1)
      else arm_listener w)"

definition cqe_eventfd :: "net \<Rightarrow> info_env \<Rightarrow> world \<Rightarrow> world" where
  "cqe_eventfd g ie w = pump_work g ie (arm_eventfd (w\<lparr>event_reads := event_reads w - 1, event_count := 0\<rparr>))"

definition poll_write :: "nat \<Rightarrow> world \<Rightarrow> world" where
  "poll_write a w =
     (case flush_at a (put a ((objs w ! a)\<lparr>write_armed := False\<rparr>) w) of
        (r, w1) \<Rightarrow> if r = Pending then arm_client a True w1 else if r = Dead then schedule_close a w1 else w1)"

definition poll_read :: "net \<Rightarrow> info_env \<Rightarrow> nat \<Rightarrow> read_result list \<Rightarrow> world \<Rightarrow> world" where
  "poll_read g ie a rs w =
     (case drain_read g rs ((objs w ! a)\<lparr>read_armed := False\<rparr>) (client_buffers w) of
        (ok, c, n) \<Rightarrow>
          (let w1 = (put a c w)\<lparr>client_buffers := n\<rparr> in
           if \<not> ok then schedule_close a w1
           else
             (case serve g ie a w1 of
                (again, w2) \<Rightarrow>
                  if again then queue_work w2
                  else if length (in_buf (objs w2 ! a)) \<ge> input_cap (objs w2 ! a) then schedule_close a w2 else w2)))"

definition cqe_poll :: "net \<Rightarrow> info_env \<Rightarrow> ticket \<Rightarrow> read_result list \<Rightarrow> world \<Rightarrow> world" where
  "cqe_poll g ie t rs w =
     (let w1 = w\<lparr>in_ring := remove1 t (in_ring w)\<rparr> in
      if cl_closed (objs w1 ! fst t) then w1
      else if snd t then poll_write (fst t) w1
      else poll_read g ie (fst t) rs w1)"

definition sweep :: "int \<Rightarrow> world \<Rightarrow> world" where
  "sweep now w =
     (let w1 = (close_unauthenticated now w)\<lparr>auth_failures := 0, accept_failures := 0\<rparr> in
      if accept_paused w1 then arm_listener (w1\<lparr>accept_paused := False\<rparr>) else w1)"

section \<open>The loop\<close>

datatype completion = Accepted int int | EventRead | Polled ticket "read_result list"

fun handle :: "net \<Rightarrow> info_env \<Rightarrow> completion \<Rightarrow> world \<Rightarrow> world" where
  "handle g ie (Accepted res now) w = cqe_accept g res now w"
| "handle g ie EventRead w = cqe_eventfd g ie w"
| "handle g ie (Polled t rs) w = cqe_poll g ie t rs w"

text \<open>
  What the kernel reports: the completion of an operation in flight; an accepted descriptor is one that was not open;
  a read of the eventfd ends when its counter is not zero.
\<close>

fun possible :: "completion \<Rightarrow> world \<Rightarrow> bool" where
  "possible (Accepted res now) w = (accepts w > 0 \<and> res \<notin> set (open_fds w))"
| "possible EventRead w = (event_reads w > 0 \<and> event_count w > 0)"
| "possible (Polled t rs) w = (t \<in> set (in_ring w))"

text \<open>
  The state when the loop starts. Between two actions of the loop the database may change under the watchdog's thread and
  time passes, which leaves the tables of clients alone; the kernel decides the outcomes of the calls to come.
\<close>

definition start_world :: "database \<Rightarrow> world" where
  "start_world d =
     arm_eventfd (arm_listener
       \<lparr>objs = [], client_buffers = 0, auth_failures = 0, net_db = d, sends = [], w_clients = [], arm_backlog = [], in_ring = [], accepts = 0,
        event_reads = 0, event_count = 0, accept_paused = False, accept_failures = 0, last_accept_error = 0, open_fds = [], sqes = []\<rparr>)"

inductive loop_step :: "net \<Rightarrow> world \<Rightarrow> world \<Rightarrow> bool" for g :: net where
  submit: "loop_step g w (submit_backlog w)"
| rearm: "loop_step g w (arm_eventfd (arm_listener w))"
| complete: "possible e w \<Longrightarrow> loop_step g w (handle g ie e w)"
| tick: "loop_step g w (sweep now w)"
| world_moves: "sess d = sess (net_db w) \<Longrightarrow> loop_step g w (w\<lparr>net_db := d, sends := rs, sqes := bs\<rparr>)"

section \<open>The invariant\<close>

text \<open>
  A client object is linked to the loop: an open one is in the table under its descriptor, and each of its two flags says
  whether exactly one ticket for it is queued or in the ring.
\<close>

definition linked_at :: "world \<Rightarrow> nat \<Rightarrow> client \<Rightarrow> bool" where
  "linked_at w a c \<longleftrightarrow> cl_ok c \<and>
     (\<not> cl_closed c \<longrightarrow> map_of (w_clients w) (cl_fd c) = Some a \<and>
        count_list (arm_backlog w @ in_ring w) (a, False) = (if read_armed c then 1 else 0) \<and>
        count_list (arm_backlog w @ in_ring w) (a, True) = (if write_armed c then 1 else 0))"

text \<open>
  A client is polled when the loop waits for its input, and to send whatever it has queued; the loop has been told of a client when
  the eventfd is signalled, should a complete command still be in its buffer.
\<close>

definition polled :: "client \<Rightarrow> bool" where
  "polled c \<longleftrightarrow> (\<not> cl_closed c \<longrightarrow> read_armed c \<and> (pending_out c > 0 \<longrightarrow> write_armed c))"

definition told :: "world \<Rightarrow> client \<Rightarrow> bool" where
  "told w c \<longleftrightarrow> (\<not> cl_closed c \<longrightarrow> parse_request (in_buf c) 0 = NeedMore \<or> event_count w > 0)"

text \<open>The table of clients, the open descriptors and the database's tables agree, and the server accepts or will.\<close>

definition table_ok :: "net \<Rightarrow> world \<Rightarrow> bool" where
  "table_ok g w \<longleftrightarrow>
     distinct (map fst (w_clients w)) \<and>
     (\<forall>(fd, a) \<in> set (w_clients w). a < length (objs w) \<and> cl_fd (objs w ! a) = fd \<and> \<not> cl_closed (objs w ! a)) \<and>
     set (open_fds w) = fst ` set (w_clients w) \<and> known_clients (fst ` set (w_clients w)) (net_db w) \<and>
     length (w_clients w) \<le> unat (cfg_maxclients (g_cfg g)) \<and>
     fst ` set (arm_backlog w @ in_ring w) \<subseteq> {..<length (objs w)} \<and> (accepts w > 0 \<or> accept_paused w)"

text \<open>The invariant, with \<open>X\<close> the clients whose handling is under way and \<open>Y\<close> those whose buffered commands are being run.\<close>

definition loop_inv :: "net \<Rightarrow> nat set \<Rightarrow> nat set \<Rightarrow> world \<Rightarrow> bool" where
  "loop_inv g X Y w \<longleftrightarrow> table_ok g w \<and> (\<forall>a < length (objs w). linked_at w a (objs w ! a)) \<and>
     (\<forall>a < length (objs w). a \<notin> X \<longrightarrow> polled (objs w ! a)) \<and> (\<forall>a < length (objs w). a \<notin> Y \<longrightarrow> told w (objs w ! a))"

lemma put_world [simp]:
  "w_clients (put a c w) = w_clients w" "arm_backlog (put a c w) = arm_backlog w" "in_ring (put a c w) = in_ring w" "accepts (put a c w) = accepts w"
  "event_reads (put a c w) = event_reads w" "event_count (put a c w) = event_count w" "accept_paused (put a c w) = accept_paused w"
  "open_fds (put a c w) = open_fds w"
  by (simp_all add: put_def)

lemma loop_inv_mono: "loop_inv g X Y w \<Longrightarrow> X \<subseteq> X' \<Longrightarrow> Y \<subseteq> Y' \<Longrightarrow> loop_inv g X' Y' w"
  by (auto simp: loop_inv_def)

lemma loop_inv_retire:
  "loop_inv g (insert a X) Y w \<Longrightarrow> polled (objs w ! a) \<Longrightarrow> loop_inv g X Y w"
  "loop_inv g X (insert a Y) w \<Longrightarrow> told w (objs w ! a) \<Longrightarrow> loop_inv g X Y w"
  by (auto simp: loop_inv_def)

text \<open>The fields the invariant reads, apart from the objects.\<close>

definition frame_of :: "world \<Rightarrow> (int \<times> nat) list \<times> ticket list \<times> ticket list \<times> bool \<times> nat \<times> int list \<times> (int \<times> string) list \<times> pubsub" where
  "frame_of w = (w_clients w, arm_backlog w, in_ring w, accepts w > 0 \<or> accept_paused w, event_count w, open_fds w, sess (net_db w))"

lemma loop_inv_put:
  assumes inv: "loop_inv g X Y w" and "a \<in> X" and o: "objs w' = (objs w)[a := c]" and "frame_of w' = frame_of w"
    and "a \<in> Y \<or> in_buf c = in_buf (objs w ! a)" and l: "link c = link (objs w ! a)" and ok: "cl_ok (objs w ! a) \<Longrightarrow> cl_ok c"
  shows "loop_inv g X Y w'"
proof -
  have f: "w_clients w' = w_clients w" "arm_backlog w' = arm_backlog w" "in_ring w' = in_ring w" "event_count w' = event_count w"
    "open_fds w' = open_fds w" "sess (net_db w') = sess (net_db w)" "(accepts w' > 0 \<or> accept_paused w') = (accepts w > 0 \<or> accept_paused w)"
    using assms(4) by (simp_all add: frame_of_def)
  have n: "length (objs w') = length (objs w)" by (simp add: o)
  have nth: "link (objs w' ! b) = link (objs w ! b)" "b \<noteq> a \<Longrightarrow> objs w' ! b = objs w ! b" if "b < length (objs w)" for b
    using l that by (cases "a = b", simp_all add: o)
  have "linked_at w' b (objs w' ! b)" if "b < length (objs w)" for b
  proof -
    have i: "linked_at w b (objs w ! b)" using inv that by (simp add: loop_inv_def)
    have "cl_ok (objs w' ! b)" using i ok that by (cases "b = a") (auto simp: o linked_at_def)
    then show ?thesis using i link_fields [OF nth(1) [OF that]] by (simp add: linked_at_def f)
  qed
  moreover have "polled (objs w' ! b)" if "b < length (objs w)" "b \<notin> X" for b
  proof -
    have "b \<noteq> a" using that(2) assms(2) by blast
    then have "objs w' ! b = objs w ! b" by (rule nth(2) [OF that(1)])
    moreover have "polled (objs w ! b)" using inv that by (simp add: loop_inv_def)
    ultimately show ?thesis by simp
  qed
  moreover have "told w' (objs w' ! b)" if "b < length (objs w)" "b \<notin> Y" for b
  proof -
    have "in_buf (objs w' ! b) = in_buf (objs w ! b)" using that assms(5) by (cases "b = a") (auto simp: o)
    moreover have "told w (objs w ! b)" using inv that by (simp add: loop_inv_def)
    ultimately show ?thesis using link_fields [OF nth(1) [OF that(1)]] by (simp add: told_def f(4))
  qed
  moreover have "table_ok g w'"
  proof -
    have "cl_fd (objs w' ! b) = cl_fd (objs w ! b) \<and> cl_closed (objs w' ! b) = cl_closed (objs w ! b)" if "b < length (objs w)" for b
      using nth(1) [OF that] by (simp add: link_def)
    moreover have "table_ok g w" using inv by (simp add: loop_inv_def)
    ultimately show ?thesis unfolding table_ok_def f n using known_sess [OF f(6)] by fastforce
  qed
  ultimately show ?thesis by (simp add: loop_inv_def n)
qed

lemma loop_inv_same: "loop_inv g X Y w \<Longrightarrow> objs w' = objs w \<Longrightarrow> frame_of w' = frame_of w \<Longrightarrow> loop_inv g X Y w'"
proof -
  assume a: "loop_inv g X Y w" "objs w' = objs w" "frame_of w' = frame_of w"
  then show ?thesis using known_sess [of "net_db w'" "net_db w"]
    by (auto simp: loop_inv_def table_ok_def linked_at_def told_def frame_of_def)
qed

section \<open>Closing and arming\<close>

lemma close_result:
  assumes "\<not> cl_closed (objs w ! a)" "a < length (objs w)"
  shows "schedule_close a w = (put a ((objs w ! a)\<lparr>cl_closed := True, cl_held := 0\<rparr>) w)\<lparr>client_buffers := client_buffers w - cl_held (objs w ! a),
      net_db := cleanup_client (cl_fd (objs w ! a)) (net_db w), open_fds := removeAll (cl_fd (objs w ! a)) (open_fds w),
      w_clients := AList.delete (cl_fd (objs w ! a)) (w_clients w)\<rparr>"
  using assms by (simp add: schedule_close_def track_at_def track_def Let_def put_def)

lemma close_keeps:
  assumes inv: "loop_inv g X Y w" and a: "a < length (objs w)"
  shows "loop_inv g (X - {a}) (Y - {a}) (schedule_close a w)"
proof (cases "cl_closed (objs w ! a)")
  case True
  then have "loop_inv g (X - {a}) (Y - {a}) w" using inv by (auto simp: loop_inv_def polled_def told_def)
  then show ?thesis using True by (simp add: schedule_close_def)
next
  case False
  let ?c = "objs w ! a" let ?fd = "cl_fd ?c"
  note w' = close_result [OF False a]
  define w' where "w' = schedule_close a w"
  have f: "objs w' = (objs w)[a := ?c\<lparr>cl_closed := True, cl_held := 0\<rparr>]" "w_clients w' = AList.delete ?fd (w_clients w)"
    "open_fds w' = removeAll ?fd (open_fds w)" "net_db w' = cleanup_client ?fd (net_db w)" "arm_backlog w' = arm_backlog w" "in_ring w' = in_ring w"
    "event_count w' = event_count w" "accepts w' = accepts w" "accept_paused w' = accept_paused w"
    by (simp_all add: w'_def w')
  have t: "table_ok g w" and lk: "b < length (objs w) \<Longrightarrow> linked_at w b (objs w ! b)" for b using inv by (simp_all add: loop_inv_def)
  have other: "cl_fd (objs w ! b) \<noteq> ?fd" if "b < length (objs w)" "b \<noteq> a" "\<not> cl_closed (objs w ! b)" for b
    using lk [OF a] lk [OF that(1)] that(2,3) False by (auto simp: linked_at_def)
  have ent: "b < length (objs w) \<and> cl_fd (objs w ! b) = fd \<and> \<not> cl_closed (objs w ! b)" if "(fd, b) \<in> set (w_clients w)" for fd b
    using t that by (auto simp: table_ok_def)
  have tb: "table_ok g w'"
  proof -
    have keys: "fst ` set (AList.delete ?fd (w_clients w)) = fst ` set (w_clients w) - {?fd}" by (auto simp: AList.delete_eq)
    have "known_clients (fst ` set (w_clients w) - {?fd}) (cleanup_client ?fd (net_db w))"
      using t cleanup_known(1) by (simp add: table_ok_def)
    moreover have "b < length (objs w) \<and> cl_fd (objs w' ! b) = fd \<and> \<not> cl_closed (objs w' ! b)" if "(fd, b) \<in> set (AList.delete ?fd (w_clients w))" for fd b
    proof -
      have m: "(fd, b) \<in> set (w_clients w)" "fd \<noteq> ?fd" using that by (auto simp: AList.delete_eq)
      then have "b \<noteq> a" using ent by blast
      then show ?thesis using ent [OF m(1)] by (simp add: f(1))
    qed
    moreover have "length (AList.delete ?fd (w_clients w)) \<le> length (w_clients w)" by (simp add: AList.delete_eq)
    ultimately show ?thesis using t unfolding table_ok_def f keys by (auto simp: distinct_delete)
  qed
  have "linked_at w' b (objs w' ! b)" if "b < length (objs w)" for b
  proof (cases "b = a")
    case True
    then show ?thesis using lk [OF a] a by (simp add: linked_at_def f(1) cl_ok_def)
  next
    case ne: False
    then show ?thesis using lk [OF that] other [OF that] by (auto simp: linked_at_def f delete_conv)
  qed
  moreover have "polled (objs w' ! b)" if "b < length (objs w)" "b \<notin> X - {a}" for b
    using inv that a by (cases "b = a") (auto simp: loop_inv_def polled_def f)
  moreover have "told w' (objs w' ! b)" if "b < length (objs w)" "b \<notin> Y - {a}" for b
    using inv that a by (cases "b = a") (auto simp: loop_inv_def told_def f)
  ultimately show ?thesis using tb by (simp add: loop_inv_def f(1) flip: w'_def)
qed

lemma close_others:
  assumes "a < length (objs w)"
  shows "all_kept w (schedule_close a w)" "cl_closed (objs (schedule_close a w) ! a)" "event_count (schedule_close a w) = event_count w"
    "length (objs (schedule_close a w)) = length (objs w)"
proof -
  let ?c = "(objs w ! a)\<lparr>cl_closed := True, cl_held := 0\<rparr>"
  have *: "all_kept w (schedule_close a w) \<and> cl_closed (objs (schedule_close a w) ! a) \<and> event_count (schedule_close a w) = event_count w"
  proof (cases "cl_closed (objs w ! a)")
    case True
    then show ?thesis by (simp add: schedule_close_def)
  next
    case False
    note w' = close_result [OF False assms]
    have "all_kept w (schedule_close a w)" by (rule all_kept_put [of _ a ?c]) (simp_all add: w' kept_def)
    then show ?thesis using assms by (simp add: w')
  qed
  then show "all_kept w (schedule_close a w)" "cl_closed (objs (schedule_close a w) ! a)" "event_count (schedule_close a w) = event_count w"
    "length (objs (schedule_close a w)) = length (objs w)" by (simp_all add: all_kept_def)
qed

lemma arm_keeps:
  assumes inv: "loop_inv g X Y w" and a: "a < length (objs w)"
  shows "loop_inv g X Y (arm_client a b w)"
proof (cases "arm_client a b w = w")
  case False
  define c where "c = (if b then (objs w ! a)\<lparr>write_armed := True\<rparr> else (objs w ! a)\<lparr>read_armed := True\<rparr>)"
  have op: "\<not> cl_closed (objs w ! a)" "b \<longrightarrow> \<not> write_armed (objs w ! a)" "\<not> b \<longrightarrow> \<not> read_armed (objs w ! a)"
    using False by (auto simp: arm_client_def Let_def split: if_splits)
  define w' where "w' = arm_client a b w"
  have w': "w' = (put a c w)\<lparr>arm_backlog := arm_backlog w @ [(a, b)]\<rparr>" using op by (cases b) (simp_all add: w'_def arm_client_def Let_def c_def)
  have f: "objs w' = (objs w)[a := c]" "w_clients w' = w_clients w" "open_fds w' = open_fds w" "net_db w' = net_db w"
    "arm_backlog w' = arm_backlog w @ [(a, b)]" "in_ring w' = in_ring w" "event_count w' = event_count w" "accepts w' = accepts w" "accept_paused w' = accept_paused w"
    by (simp_all add: w')
  have lk: "x < length (objs w) \<Longrightarrow> linked_at w x (objs w ! x)" for x using inv by (simp add: loop_inv_def)
  have "linked_at w' x (objs w' ! x)" if "x < length (objs w)" for x
    using lk [OF that] op that by (cases "x = a"; cases b) (auto simp: linked_at_def f c_def cl_ok_def)
  moreover have "polled (objs w' ! x)" if "x < length (objs w)" "x \<notin> X" for x
    using inv that by (cases "x = a"; cases b) (auto simp: loop_inv_def polled_def f c_def pending_out_def)
  moreover have "told w' (objs w' ! x)" if "x < length (objs w)" "x \<notin> Y" for x
    using inv that by (cases "x = a"; cases b) (auto simp: loop_inv_def told_def f c_def)
  moreover have "table_ok g w'"
  proof -
    have "cl_fd (objs w' ! x) = cl_fd (objs w ! x) \<and> cl_closed (objs w' ! x) = cl_closed (objs w ! x)" if "x < length (objs w)" for x
      using that by (cases "x = a") (auto simp: f(1) c_def)
    moreover have "table_ok g w" using inv by (simp add: loop_inv_def)
    ultimately show ?thesis using a unfolding table_ok_def f by (auto simp: f(1))
  qed
  ultimately show ?thesis by (simp add: loop_inv_def f(1) flip: w'_def)
qed (use inv in simp)

lemma arm_result:
  "all_kept w (arm_client a b w)" "event_count (arm_client a b w) = event_count w"
  "a < length (objs w) \<Longrightarrow> \<not> cl_closed (objs w ! a) \<Longrightarrow>
     objs (arm_client a b w) ! a = (objs w ! a)\<lparr>write_armed := write_armed (objs w ! a) \<or> b, read_armed := read_armed (objs w ! a) \<or> \<not> b\<rparr>"
proof -
  show "all_kept w (arm_client a b w)"
  proof (cases "cl_closed (objs w ! a) \<or> (b \<and> write_armed (objs w ! a)) \<or> (\<not> b \<and> read_armed (objs w ! a))")
    case True
    then show ?thesis by (auto simp: arm_client_def Let_def)
  next
    case False
    then show ?thesis
      by (intro all_kept_put [where a = a and c = "if b then (objs w ! a)\<lparr>write_armed := True\<rparr> else (objs w ! a)\<lparr>read_armed := True\<rparr>"])
        (auto simp: arm_client_def Let_def kept_def)
  qed
  show "event_count (arm_client a b w) = event_count w" by (simp add: arm_client_def Let_def)
  show "objs (arm_client a b w) ! a = (objs w ! a)\<lparr>write_armed := write_armed (objs w ! a) \<or> b, read_armed := read_armed (objs w ! a) \<or> \<not> b\<rparr>"
    if "a < length (objs w)" "\<not> cl_closed (objs w ! a)"
    using that by (cases b) (auto simp: arm_client_def Let_def)
qed

lemma close_kept: "all_kept w (schedule_close a w)"
proof (cases "a < length (objs w)")
  case True
  then show ?thesis by (rule close_others)
next
  case False
  then have "objs (schedule_close a w) = objs w" by (simp add: schedule_close_def track_at_def Let_def track_def list_update_beyond)
  then show ?thesis by (simp add: all_kept_def kept_def)
qed

lemma enqueue_keeps:
  assumes inv: "loop_inv g X Y w" and a: "a \<in> X" and q: "enqueue_at h a data w = (ok, w')"
  shows "loop_inv g X Y w'"
proof -
  obtain c n where e: "w' = (put a c w)\<lparr>client_buffers := n\<rparr>" "enqueue_output h (objs w ! a) data (client_buffers w) = (ok, c, n)"
    "ident c = ident (objs w ! a)" by (rule enqueue_at_frame [OF q])
  show ?thesis using enqueue_output_frame [OF e(2)]
    by (intro loop_inv_put [OF inv a, of _ c]) (simp_all add: e(1) frame_of_def ident_def)
qed

lemma flush_keeps:
  assumes inv: "loop_inv g X Y w" and a: "a \<in> X" and q: "flush_at a w = (r, w')"
  shows "loop_inv g X Y w'"
proof -
  obtain c n rs where e: "w' = (put a c w)\<lparr>client_buffers := n, sends := rs\<rparr>"
    "flush_output (objs w ! a) (client_buffers w) (sends w) = (r, c, n, rs)" "ident c = ident (objs w ! a)" by (rule flush_at_frame [OF q])
  show ?thesis using flush_output_frame [OF e(2)]
    by (intro loop_inv_put [OF inv a, of _ c]) (simp_all add: e(1) frame_of_def ident_def)
qed

lemma flush_at_kept:
  assumes "flush_at a w = (r, w')"
  shows "all_kept w w'" "a < length (objs w) \<Longrightarrow> ident (objs w' ! a) = ident (objs w ! a)" "event_count w' = event_count w"
    "r = Flushed \<Longrightarrow> a < length (objs w) \<Longrightarrow> pending_out (objs w' ! a) = 0"
proof -
  obtain c n rs where e: "w' = (put a c w)\<lparr>client_buffers := n, sends := rs\<rparr>"
    "flush_output (objs w ! a) (client_buffers w) (sends w) = (r, c, n, rs)" "ident c = ident (objs w ! a)" by (rule flush_at_frame [OF assms])
  show "all_kept w w'" by (rule all_kept_put [OF kept_ident [OF e(3)]]) (simp add: e(1))
  show "a < length (objs w) \<Longrightarrow> ident (objs w' ! a) = ident (objs w ! a)" "event_count w' = event_count w" using e by simp_all
  show "r = Flushed \<Longrightarrow> a < length (objs w) \<Longrightarrow> pending_out (objs w' ! a) = 0"
    using flush_output_frame [OF e(2)] by (simp add: e(1) pending_out_def)
qed

lemma enqueue_at_kept:
  assumes "enqueue_at h a data w = (ok, w')"
  shows "all_kept w w'" "a < length (objs w) \<Longrightarrow> ident (objs w' ! a) = ident (objs w ! a)" "event_count w' = event_count w"
proof -
  obtain c n where e: "w' = (put a c w)\<lparr>client_buffers := n\<rparr>" "ident c = ident (objs w ! a)" by (rule enqueue_at_frame [OF assms])
  show "all_kept w w'" by (rule all_kept_put [OF kept_ident [OF e(2)]]) (simp add: e(1))
  show "a < length (objs w) \<Longrightarrow> ident (objs w' ! a) = ident (objs w ! a)" "event_count w' = event_count w" using e by simp_all
qed

section \<open>Delivery\<close>

text \<open>What follows a send: the client is polled again, or closed.\<close>

definition settle :: "nat \<Rightarrow> FlushResult \<Rightarrow> world \<Rightarrow> world" where
  "settle a r w = (if r = Pending then arm_client a True w else if r = Dead then schedule_close a w else w)"

lemma settle_kept: "all_kept w (settle a r w)"
  by (simp add: settle_def arm_result(1) close_kept)

lemma settle_keeps:
  assumes inv: "loop_inv g (insert a X) Y w" and a: "a < length (objs w)"
    and op: "\<not> cl_closed (objs w ! a)" "read_armed (objs w ! a)" and fl: "r = Flushed \<Longrightarrow> pending_out (objs w ! a) = 0"
  shows "loop_inv g X Y (settle a r w)"
proof (cases r)
  case Flushed
  then show ?thesis using loop_inv_retire(1) [OF inv] op fl by (simp add: settle_def polled_def)
next
  case Pending
  have "polled (objs (arm_client a True w) ! a)" using op by (simp add: polled_def arm_result(3) [OF a op(1)])
  then show ?thesis using loop_inv_retire(1) [OF arm_keeps [OF inv a]] Pending by (simp add: settle_def)
next
  case Dead
  then show ?thesis using loop_inv_mono [OF close_keeps [OF inv a], of X Y] by (auto simp: settle_def)
qed

text \<open>One delivery, at the address of its client.\<close>

lemma deliver_cases:
  obtains (none) "deliver_pubsub g m w = w"
    | (full) a data w1 where "map_of (w_clients w) (fst m) = Some a" "\<not> cl_closed (objs w ! a)" "enqueue_at g a data w = (False, w1)"
        "deliver_pubsub g m w = schedule_close a w1"
    | (sent) a data w1 r w2 where "map_of (w_clients w) (fst m) = Some a" "\<not> cl_closed (objs w ! a)" "enqueue_at g a data w = (True, w1)"
        "flush_at a w1 = (r, w2)" "deliver_pubsub g m w = settle a r w2"
proof (cases "map_of (w_clients w) (fst m)")
  case None
  then show ?thesis by (intro none) (simp add: deliver_pubsub_def case_prod_unfold)
next
  case (Some a)
  let ?data = "if cl_resp3 (objs w ! a) then CHR ''>'' # tl (snd m) else snd m"
  show ?thesis
  proof (cases "cl_closed (objs w ! a)")
    case True
    then show ?thesis using Some by (intro none) (simp add: deliver_pubsub_def case_prod_unfold)
  next
    case False
    obtain ok w1 where q: "enqueue_at g a ?data w = (ok, w1)" by fastforce
    obtain r w2 where f: "flush_at a w1 = (r, w2)" by fastforce
    show ?thesis
    proof (cases ok)
      case True
      have "deliver_pubsub g m w = settle a r w2"
        unfolding deliver_pubsub_def using Some False q f True
        by (cases m; cases "cl_resp3 (objs w ! a)") (simp_all add: settle_def)
      then show ?thesis using q True by (intro sent [OF Some False _ f]) simp_all
    next
      case no: False
      have "deliver_pubsub g m w = schedule_close a w1"
        unfolding deliver_pubsub_def using Some False q no by (cases m; cases "cl_resp3 (objs w ! a)") simp_all
      then show ?thesis using q no by (intro full [OF Some False]) simp_all
    qed
  qed
qed

lemma deliver_kept: "all_kept w (deliver_pubsub g m w)"
proof (cases rule: deliver_cases [of g m w])
  case (full a data w1)
  then show ?thesis using all_kept_trans [OF enqueue_at_kept(1) close_kept] by metis
next
  case (sent a data w1 r w2)
  then show ?thesis using all_kept_trans [OF all_kept_trans [OF enqueue_at_kept(1) flush_at_kept(1)] settle_kept] by metis
qed simp

lemma deliver_keeps:
  assumes inv: "loop_inv g X Y w"
  shows "loop_inv g X Y (deliver_pubsub g m w)"
proof -
  have ent: "a < length (objs w)" if "map_of (w_clients w) fd = Some a" for fd a
    using inv map_of_SomeD [OF that] by (auto simp: loop_inv_def table_ok_def)
  have wide: "loop_inv g (insert a X) Y w" for a by (rule loop_inv_mono [OF inv]) blast+
  show ?thesis
  proof (cases rule: deliver_cases [of g m w])
    case (full a data w1)
    have "a < length (objs w1)" using enqueue_at_kept(1) [OF full(3)] ent [OF full(1)] by (simp add: all_kept_def)
    then have "loop_inv g (insert a X - {a}) (Y - {a}) (schedule_close a w1)" by (intro close_keeps enqueue_keeps [OF wide _ full(3)]) simp
    then show ?thesis unfolding full(4) by (rule loop_inv_mono) blast+
  next
    case (sent a data w1 r w2)
    note a = ent [OF sent(1)]
    have a1: "a < length (objs w1)" and a2: "a < length (objs w2)"
      using enqueue_at_kept(1) [OF sent(3)] flush_at_kept(1) [OF sent(4)] a by (simp_all add: all_kept_def)
    have i2: "loop_inv g (insert a X) Y w2" by (intro flush_keeps [OF enqueue_keeps [OF wide _ sent(3)] _ sent(4)]) simp_all
    have id: "ident (objs w2 ! a) = ident (objs w ! a)"
      using flush_at_kept(2) [OF sent(4)] enqueue_at_kept(2) [OF sent(3)] a a1 by simp
    show ?thesis
    proof (cases "a \<in> X")
      case True
      then have "loop_inv g X Y w2" using i2 by (simp add: insert_absorb)
      then show ?thesis using loop_inv_mono [OF close_keeps [OF _ a2], of _ _ _ X Y] arm_keeps [OF _ a2] by (auto simp: sent(5) settle_def)
    next
      case False
      then have "polled (objs w ! a)" using inv a by (simp add: loop_inv_def)
      then show ?thesis unfolding sent(5) using settle_keeps [OF i2 a2, of r] id sent(2) flush_at_kept(4) [OF sent(4) _ a1]
        by (auto simp: polled_def ident_def link_def)
    qed
  qed (use inv in simp)
qed

interpretation loop_sink: delivery "deliver_pubsub g" for g
  by unfold_locales (rule deliver_kept)

section \<open>Serving a client\<close>

lemma deliveries_keep: "loop_inv g X Y w \<Longrightarrow> loop_inv g X Y (foldl (\<lambda>w m. deliver_pubsub g m w) w ms)"
  by (induction ms arbitrary: w) (simp_all add: deliver_keeps)

lemma execute_keeps:
  assumes inv: "loop_inv g X Y w" and a: "a < length (objs w)" "\<not> cl_closed (objs w ! a)"
    and run: "execute ie (cl_fd (objs w ! a)) args r3 (net_db w) = (r, sent, d)"
  shows "loop_inv g X Y (w\<lparr>net_db := d\<rparr>)"
proof -
  have "map_of (w_clients w) (cl_fd (objs w ! a)) = Some a" using inv a by (simp add: loop_inv_def linked_at_def)
  then have "cl_fd (objs w ! a) \<in> fst ` set (w_clients w)" by (metis map_of_SomeD fst_conv image_eqI)
  then have "known_clients (fst ` set (w_clients w)) d"
    using service.exec_known [OF _ _ run] inv by (auto simp: loop_inv_def table_ok_def)
  then show ?thesis using inv by (auto simp: loop_inv_def table_ok_def linked_at_def told_def)
qed

interpretation loop_turn: whole_turn "deliver_pubsub g" g ie "\<lambda>a w. a \<in> X \<inter> Y \<and> loop_inv g X Y w" for g ie X Y
proof unfold_locales
  fix a :: nat and w w' :: world
  assume i: "a \<in> X \<inter> Y \<and> loop_inv g X Y w" and a: "a < length (objs w)"
  note inv = conjunct2 [OF i]
  show "a \<in> X \<inter> Y \<and> loop_inv g X Y ((put a c w)\<lparr>auth_failures := f\<rparr>)" if "admits (cfg_password (g_cfg g)) args (objs w ! a) c" for args c f
    using i that by (auto intro!: loop_inv_put [OF inv, of a _ c] simp: frame_of_def admits_def link_def cl_ok_def)
  show "a \<in> X \<inter> Y \<and> loop_inv g X Y w'" if "enqueue_at g a data w = (ok, w')" for data ok
    using i enqueue_keeps [OF inv _ that] by simp
  show "a \<in> X \<inter> Y \<and> loop_inv g X Y w'" if "flush_at a w = (r, w')" for r
    using i flush_keeps [OF inv _ that] by simp
  show "a \<in> X \<inter> Y \<and> loop_inv g X Y (foldl (\<lambda>w m. deliver_pubsub g m w) (w\<lparr>net_db := d\<rparr>) sent)"
    if "\<not> cl_closed (objs w ! a)" "execute ie (cl_fd (objs w ! a)) args (cl_resp3 (objs w ! a)) (net_db w) = (r, sent, d)" for args r sent d
    using i deliveries_keep [OF execute_keeps [OF inv a that]] by simp
  show "a \<in> X \<inter> Y \<and> loop_inv g X Y (consume a pos w)" for pos
  proof -
    note c = consume_frame [OF a, of pos]
    have o: "objs (consume a pos w) = (objs w)[a := objs (consume a pos w) ! a]" by (subst c(2)) simp
    have "frame_of (consume a pos w) = frame_of w" by (subst c(2)) (simp add: frame_of_def)
    then show ?thesis using i by (intro conjI loop_inv_put [OF inv _ o]) (simp_all add: c(1) link_def cl_ok_def)
  qed
qed

lemma queue_keeps:
  assumes "loop_inv g X Y w"
  shows "loop_inv g X Y (queue_work w)" "event_count (queue_work w) > 0" "objs (queue_work w) = objs w"
proof -
  show e: "event_count (queue_work w) > 0" by (auto simp: queue_work_def)
  show "objs (queue_work w) = objs w" by (simp add: queue_work_def)
  show "loop_inv g X Y (queue_work w)" using assms e by (auto simp: loop_inv_def table_ok_def linked_at_def told_def queue_work_def)
qed

lemma serve_keeps:
  assumes inv: "loop_inv g X Y w" and a: "a \<in> X" "a \<in> Y" "a < length (objs w)" "\<not> cl_closed (objs w ! a)"
    and run: "serve g ie a w = (again, w')"
  shows "loop_inv g (X - {a}) (Y - {a}) (if again then queue_work w' else w')"
    "length (objs w') = length (objs w)" "b < length (objs w) \<Longrightarrow> b \<noteq> a \<Longrightarrow> kept (objs w ! b) (objs w' ! b)"
proof -
  obtain st w1 where p: "process_buffered g ie (deliver_pubsub g) a w = (st, w1)" by fastforce
  have k: "loop_inv g X Y w1" "others_kept a w w1" "st \<noteq> Drop \<Longrightarrow> \<not> cl_closed (objs w1 ! a)"
      "st = Done \<Longrightarrow> parse_request (in_buf (objs w1 ! a)) 0 = NeedMore"
    using loop_turn.process_keeps [OF p, of X Y] inv a by simp_all
  have a1: "a < length (objs w1)" using k(2) a(3) by (simp add: others_kept_def)
  define w2 where "w2 = (if pending_out (objs w1 ! a) > 0 then arm_client a True w1 else w1)"
  have a2: "a < length (objs w2)" "all_kept w1 w2" using a1 arm_result(1) [of w1 a True] by (auto simp: w2_def all_kept_def kept_def)
  have w': "again = (st = More)" "w' = (if st = Drop then schedule_close a w1 else arm_client a False w2)"
    using run by (auto simp: serve_def p w2_def Let_def split: if_splits)
  have k2: "all_kept w1 w'" using w'(2) close_kept [of w1 a] all_kept_trans [OF a2(2) arm_result(1) [of w2 a False]] by auto
  then have "others_kept a w w'" using others_kept_trans [OF k(2)] all_kept_others by blast
  then show "length (objs w') = length (objs w)" "b < length (objs w) \<Longrightarrow> b \<noteq> a \<Longrightarrow> kept (objs w ! b) (objs w' ! b)"
    by (simp_all add: others_kept_def)
  show "loop_inv g (X - {a}) (Y - {a}) (if again then queue_work w' else w')"
  proof (cases "st = Drop")
    case True
    then show ?thesis using w' close_keeps [OF k(1) a1] by simp
  next
    case False
    note op = k(3) [OF False]
    have i2: "loop_inv g X Y w2" using k(1) arm_keeps [OF k(1) a1] by (simp add: w2_def)
    have c2: "\<not> cl_closed (objs w2 ! a)" "pending_out (objs w2 ! a) > 0 \<longrightarrow> write_armed (objs w2 ! a)" "in_buf (objs w2 ! a) = in_buf (objs w1 ! a)"
      using op by (simp_all add: w2_def arm_result(3) [OF a1 op] pending_out_def)
    have i': "loop_inv g X Y w'" using arm_keeps [OF i2 a2(1)] False w'(2) by simp
    have c': "polled (objs w' ! a)" "in_buf (objs w' ! a) = in_buf (objs w1 ! a)"
      using c2 False by (simp_all add: w'(2) arm_result(3) [OF a2(1) c2(1)] polled_def pending_out_def)
    define v where "v = (if again then queue_work w' else w')"
    have iv: "loop_inv g X Y v" "objs v = objs w'" using i' queue_keeps [OF i'] by (simp_all add: v_def)
    have "told v (objs v ! a)" using queue_keeps(2) [OF i'] k(4) c'(2) False w'(1) iv(2)
      by (cases st) (auto simp: told_def v_def)
    then have "loop_inv g (X - {a}) (Y - {a}) v"
      using iv c'(1) a(1,2) by (metis insert_Diff loop_inv_retire)
    then show ?thesis by (simp add: v_def)
  qed
qed

section \<open>Every action of the loop\<close>

lemma pump_client_keeps:
  assumes inv: "loop_inv g X (insert a Y) w" and a: "a < length (objs w)" "a \<notin> X"
  shows "loop_inv g X (Y - {a}) (pump_client g ie w a)" "length (objs (pump_client g ie w a)) = length (objs w)"
proof -
  have "loop_inv g X (Y - {a}) (pump_client g ie w a) \<and> length (objs (pump_client g ie w a)) = length (objs w)"
  proof (cases "cl_closed (objs w ! a) \<or> in_buf (objs w ! a) = []")
    case True
    then have "told w (objs w ! a)" by (auto simp: told_def)
    then show ?thesis using True inv by (auto simp: pump_client_def loop_inv_def)
  next
    case False
    obtain again w1 where s: "serve g ie a w = (again, w1)" by fastforce
    have "loop_inv g (insert a X) (insert a Y) w" by (rule loop_inv_mono [OF inv]) blast+
    from serve_keeps(1,2) [OF this _ _ a(1) _ s] have
      "loop_inv g (insert a X - {a}) (insert a Y - {a}) (if again then queue_work w1 else w1)" "length (objs w1) = length (objs w)"
      using False by simp_all
    moreover have "insert a X - {a} = X" "insert a Y - {a} = Y - {a}" using a(2) by auto
    ultimately show ?thesis using False s by (simp add: pump_client_def queue_work_def)
  qed
  then show "loop_inv g X (Y - {a}) (pump_client g ie w a)" "length (objs (pump_client g ie w a)) = length (objs w)" by simp_all
qed

lemma pump_keeps:
  assumes "loop_inv g {} (set as) w" "set as \<subseteq> {..<length (objs w)}"
  shows "loop_inv g {} {} (foldl (pump_client g ie) w as)"
  using assms
proof (induction "as" arbitrary: w)
  case (Cons a as)
  have i: "loop_inv g {} (insert a (set as)) w" using Cons.prems(1) by simp
  have "a < length (objs w)" using Cons.prems(2) by simp
  note p = pump_client_keeps [OF i this, of ie]
  have "loop_inv g {} (set as) (pump_client g ie w a)" by (rule loop_inv_mono [OF p(1)]) auto
  then show ?case using Cons.IH [of "pump_client g ie w a"] p(2) Cons.prems(2) by auto
qed simp

lemma get_sqe_frame:
  assumes "get_sqe w = (ok, w')"
  shows "objs w' = objs w" "frame_of w' = frame_of w" "accepts w' = accepts w" "accept_paused w' = accept_paused w" "in_ring w' = in_ring w"
    "arm_backlog w' = arm_backlog w" "w_clients w' = w_clients w" "open_fds w' = open_fds w" "event_count w' = event_count w" "net_db w' = net_db w"
  using assms by (auto simp: get_sqe_def frame_of_def split: list.splits)

lemma arm_listener_keeps:
  assumes "loop_inv g X Y (w\<lparr>accepts := Suc 0\<rparr>)"
  shows "loop_inv g X Y (arm_listener w)"
proof -
  obtain ok w1 where q: "get_sqe w = (ok, w1)" by fastforce
  show ?thesis by (rule loop_inv_same [OF assms]) (use get_sqe_frame [OF q] in \<open>auto simp: arm_listener_def q frame_of_def\<close>)
qed

lemma accepts_any: "loop_inv g X Y w \<Longrightarrow> loop_inv g X Y (w\<lparr>accepts := Suc 0\<rparr>)"
  by (auto simp: loop_inv_def table_ok_def linked_at_def told_def)

lemma update_fresh: "k \<notin> fst ` set xs \<Longrightarrow> AList.update k v xs = xs @ [(k, v)]"
  by (induction xs) auto

lemma arm_eventfd_keeps:
  assumes "loop_inv g X Y w"
  shows "loop_inv g X Y (arm_eventfd w)" "objs (arm_eventfd w) = objs w" "w_clients (arm_eventfd w) = w_clients w"
proof -
  obtain ok w1 where q: "get_sqe w = (ok, w1)" by fastforce
  note f = get_sqe_frame [OF q]
  show "objs (arm_eventfd w) = objs w" "w_clients (arm_eventfd w) = w_clients w" using f by (auto simp: arm_eventfd_def q)
  show "loop_inv g X Y (arm_eventfd w)" by (rule loop_inv_same [OF assms]) (use f in \<open>auto simp: arm_eventfd_def q frame_of_def\<close>)
qed

lemma eventfd_keeps:
  assumes "loop_inv g {} {} w"
  shows "loop_inv g {} {} (cqe_eventfd g ie w)"
proof -
  define w1 where "w1 = w\<lparr>event_reads := event_reads w - 1, event_count := 0\<rparr>"
  have all: "a \<in> snd ` set (w_clients w)" if "a < length (objs w)" "\<not> cl_closed (objs w ! a)" for a
  proof -
    have "map_of (w_clients w) (cl_fd (objs w ! a)) = Some a" using assms that by (simp add: loop_inv_def linked_at_def)
    then show ?thesis by (metis map_of_SomeD snd_conv image_eqI)
  qed
  have "loop_inv g {} (set (map snd (w_clients w))) w1"
    using assms all by (auto simp: w1_def loop_inv_def table_ok_def linked_at_def told_def)
  note e = arm_eventfd_keeps [OF this]
  have "set (map snd (w_clients w)) \<subseteq> {..<length (objs w)}" using assms by (auto simp: loop_inv_def table_ok_def)
  then show ?thesis using pump_keeps [OF e(1), of ie] e(2,3) unfolding cqe_eventfd_def pump_work_def w1_def [symmetric]
    by (simp add: w1_def)
qed

lemma add_client_keeps:
  assumes inv: "loop_inv g {} {} w" and fd: "fd \<notin> set (open_fds w)" and room: "length (w_clients w) < unat (cfg_maxclients (g_cfg g))"
  shows "loop_inv g {} {} (add_client g fd now w)"
proof -
  let ?a = "length (objs w)"
  define w1 where "w1 = w\<lparr>objs := objs w @ [new_client g fd now], w_clients := AList.update fd ?a (w_clients w), open_fds := fd # open_fds w\<rparr>"
  have t: "table_ok g w" using inv by (simp add: loop_inv_def)
  have nk: "fd \<notin> fst ` set (w_clients w)" using fd t by (simp add: table_ok_def)
  have upd: "AList.update fd ?a (w_clients w) = w_clients w @ [(fd, ?a)]"
    using nk by (rule update_fresh)
  have f: "objs w1 = objs w @ [new_client g fd now]" "w_clients w1 = w_clients w @ [(fd, ?a)]" "open_fds w1 = fd # open_fds w"
    "arm_backlog w1 = arm_backlog w" "in_ring w1 = in_ring w" "net_db w1 = net_db w" "accepts w1 = accepts w" "accept_paused w1 = accept_paused w"
    "event_count w1 = event_count w" by (simp_all add: w1_def upd)
  have "known_clients (insert fd (fst ` set (w_clients w))) (net_db w)"
    using t service.known_mono [of "fst ` set (w_clients w)" "net_db w"] by (auto simp: table_ok_def)
  moreover have "x < Suc ?a \<and> cl_fd ((objs w @ [new_client g fd now]) ! x) = k \<and> \<not> cl_closed ((objs w @ [new_client g fd now]) ! x)"
    if "(k, x) \<in> set (w_clients w @ [(fd, ?a)])" for k x
    using that t by (auto simp: table_ok_def nth_append new_client_def)
  moreover have "fst ` set (arm_backlog w @ in_ring w) \<subseteq> {..<Suc ?a}" using t by (auto simp: table_ok_def)
  ultimately have tb: "table_ok g w1" using t nk room unfolding table_ok_def f by (auto simp: f(1) new_client_def)
  have no: "count_list (arm_backlog w @ in_ring w) (?a, b) = 0" for b
    using t by (auto simp: table_ok_def count_list_0_iff)
  have "linked_at w1 x (objs w1 ! x)" if "x < length (objs w1)" for x
  proof (cases "x = ?a")
    case True
    have "map_of (w_clients w) fd = None" using nk by (simp add: map_of_eq_None_iff)
    then have "map_of (w_clients w @ [(fd, ?a)]) fd = Some ?a" by (simp add: map_add_def)
    then show ?thesis using no True by (simp add: linked_at_def f new_client_def cl_ok_def)
  next
    case False
    then have x: "x < ?a" "objs w1 ! x = objs w ! x" using that by (simp_all add: f(1) nth_append)
    then have l: "linked_at w x (objs w ! x)" using inv by (simp add: loop_inv_def)
    have "map_of (w_clients w @ [(fd, ?a)]) k = Some x" if "map_of (w_clients w) k = Some x" for k
      using that nk by (auto simp: map_add_def dest: map_of_SomeD)
    then show ?thesis using l by (simp add: linked_at_def x f(2,4,5))
  qed
  moreover have "told w1 (objs w1 ! x)" if "x < length (objs w1)" for x
    using inv that by (auto simp: loop_inv_def told_def f nth_append new_client_def)
  moreover have "polled (objs w1 ! x)" if "x < length (objs w1)" "x \<noteq> ?a" for x
    using inv that by (auto simp: loop_inv_def f nth_append)
  ultimately have i1: "loop_inv g {?a} {} w1" using tb by (auto simp: loop_inv_def)
  have a1: "?a < length (objs w1)" "\<not> cl_closed (objs w1 ! ?a)" by (simp_all add: f(1) new_client_def)
  have "polled (objs (arm_client ?a False w1) ! ?a)"
    by (simp add: arm_result(3) [OF a1] polled_def pending_out_def) (simp add: f(1) new_client_def)
  then have "loop_inv g {} {} (arm_client ?a False w1)" by (rule loop_inv_retire(1) [OF arm_keeps [OF i1 a1(1)]])
  then show ?thesis by (simp add: add_client_def w1_def Let_def)
qed

lemma accept_keeps:
  assumes inv: "loop_inv g {} {} w" and fd: "res \<notin> set (open_fds w)"
  shows "loop_inv g {} {} (cqe_accept g res now w)"
proof -
  define w1 where "w1 = w\<lparr>accepts := accepts w - 1\<rparr>"
  have one: "loop_inv g {} {} (w1\<lparr>accepts := Suc 0\<rparr>)" using accepts_any [OF inv] by (simp add: w1_def)
  have same: "loop_inv g {} {} (w1\<lparr>accept_failures := n, last_accept_error := e, accepts := Suc 0\<rparr>)" for n e
    by (rule loop_inv_same [OF one]) (simp_all add: frame_of_def)
  have add: "loop_inv g {} {} ((add_client g res now w1)\<lparr>accepts := Suc 0\<rparr>)" if "length (w_clients w1) < unat (cfg_maxclients (g_cfg g))"
  proof -
    have "loop_inv g {} {} (add_client g res now (w1\<lparr>accepts := Suc 0\<rparr>))"
      by (rule add_client_keeps [OF one]) (use fd that in \<open>simp_all add: w1_def\<close>)
    moreover have "add_client g res now (w1\<lparr>accepts := Suc 0\<rparr>) = (add_client g res now w1)\<lparr>accepts := Suc 0\<rparr>"
      by (simp add: add_client_def Let_def arm_client_def put_def)
    ultimately show ?thesis by simp
  qed
  have "loop_inv g {} {} (w1\<lparr>accept_failures := n, last_accept_error := e, accept_paused := True\<rparr>)" for n e
    by (rule loop_inv_same [OF one]) (simp_all add: frame_of_def)
  then show ?thesis using arm_listener_keeps [OF one] arm_listener_keeps [OF add] arm_listener_keeps [OF same]
    unfolding cqe_accept_def w1_def [symmetric] by (auto simp: Let_def not_le)
qed

lemma count_remove1: "count_list (remove1 t xs) u = (if t = u \<and> t \<in> set xs then count_list xs u - 1 else count_list xs u)"
proof (induction xs)
  case (Cons x xs)
  then show ?case by (auto simp: count_list_0_iff Suc_diff_le dest: count_notin)
qed simp

text \<open>A ticket leaves the ring: the client's flag is cleared, and the client is being handled.\<close>

lemma take_ticket:
  assumes inv: "loop_inv g {} {} w" and t: "(a, b) \<in> set (in_ring w)"
    and o: "objs w' = (if cl_closed (objs w ! a) then objs w else (objs w)[a := if b then (objs w ! a)\<lparr>write_armed := False\<rparr> else (objs w ! a)\<lparr>read_armed := False\<rparr>])"
    and r: "in_ring w' = remove1 (a, b) (in_ring w)" "arm_backlog w' = arm_backlog w" "w_clients w' = w_clients w" "net_db w' = net_db w"
      "open_fds w' = open_fds w" "accepts w' = accepts w" "accept_paused w' = accept_paused w" "event_count w' = event_count w"
  shows "loop_inv g {a} {} w'" "a < length (objs w)" "cl_closed (objs w ! a) \<Longrightarrow> loop_inv g {} {} w'"
proof -
  have tb: "table_ok g w" and lk: "x < length (objs w) \<Longrightarrow> linked_at w x (objs w ! x)" for x using inv by (simp_all add: loop_inv_def)
  show a: "a < length (objs w)" using tb t by (force simp: table_ok_def)
  define c where "c = objs w' ! a"
  have c: "cl_fd c = cl_fd (objs w ! a)" "cl_closed c = cl_closed (objs w ! a)" "in_buf c = in_buf (objs w ! a)" "cl_ok c = cl_ok (objs w ! a)"
    "\<not> cl_closed c \<Longrightarrow> read_armed c = (read_armed (objs w ! a) \<and> b)" "\<not> cl_closed c \<Longrightarrow> write_armed c = (write_armed (objs w ! a) \<and> \<not> b)"
    using a by (auto simp: c_def o cl_ok_def)
  have nth: "x \<noteq> a \<Longrightarrow> objs w' ! x = objs w ! x" for x by (simp add: o)
  have n: "length (objs w') = length (objs w)" by (simp add: o)
  have has: "0 < count_list (in_ring w) (a, b)" using t by (simp add: count_list_0_iff flip: neq0_conv)
  have "linked_at w' x (objs w' ! x)" if "x < length (objs w)" for x
  proof (cases "x = a")
    case True
    show ?thesis using lk [OF a] has c t unfolding True c_def [symmetric] linked_at_def r count_list_append count_remove1
      by (cases b) (auto split: if_splits)
  next
    case False
    then show ?thesis using lk [OF that] by (simp add: nth linked_at_def r count_remove1)
  qed
  moreover have "told w' (objs w' ! x)" if "x < length (objs w)" for x
    using inv that c by (cases "x = a") (auto simp: loop_inv_def told_def r nth simp flip: c_def)
  moreover have "polled (objs w' ! x)" if "x < length (objs w)" "x \<noteq> a" for x
    using inv that by (simp add: loop_inv_def nth)
  moreover have "table_ok g w'"
  proof -
    have "cl_fd (objs w' ! x) = cl_fd (objs w ! x) \<and> cl_closed (objs w' ! x) = cl_closed (objs w ! x)" for x
      using c nth by (cases "x = a") (auto simp: c_def)
    moreover have "set (remove1 (a, b) (in_ring w)) \<subseteq> set (in_ring w)" by (rule set_remove1_subset)
    ultimately show ?thesis using tb unfolding table_ok_def r n by fastforce
  qed
  ultimately show i: "loop_inv g {a} {} w'" by (simp add: loop_inv_def n)
  show "loop_inv g {} {} w'" if "cl_closed (objs w ! a)"
    using loop_inv_retire(1) [OF i] c(2) that by (simp add: polled_def flip: c_def)
qed

lemma drain_read_frame:
  assumes "drain_read g rs c n = (ok, c', n')"
  shows "link c' = link c \<and> authenticated c' = authenticated c \<and> cl_resp3 c' = cl_resp3 c \<and> out_off c' = out_off c \<and> (cl_ok c \<longrightarrow> cl_ok c') \<and>
    wire c' = wire c \<and> (\<exists>x. out_buf c' = out_buf c @ x)"
  using assms
proof (induction rs arbitrary: c n)
  case Nil
  then show ?case by (auto simp: drain_read.simps [of g "[]"] split: if_splits)
next
  case (Cons x rs)
  show ?case
  proof (cases "length (in_buf c) \<ge> input_cap c")
    case True
    then show ?thesis using Cons.prems by (simp add: drain_read.simps [of g "x # rs"])
  next
    case False
    show ?thesis
    proof (cases x)
      case (Got s)
      obtain ok1 c1 where t: "(case ssl c of None \<Rightarrow> (True, c\<lparr>in_buf := in_buf c @ take READ_CHUNK s\<rparr>) | Some (lib, h) \<Rightarrow> tls_in lib h (take READ_CHUNK s) c) = (ok1, c1)"
        by fastforce
      have c1: "link c1 = link c" "authenticated c1 = authenticated c" "cl_resp3 c1 = cl_resp3 c" "out_off c1 = out_off c" "cl_ok c \<longrightarrow> cl_ok c1"
          "wire c1 = wire c" "\<exists>x. out_buf c1 = out_buf c @ x"
        using t by (auto simp: tls_in_def Let_def cl_ok_def link_def split: option.splits prod.splits)
      obtain c2 n2 where k: "track c1 n = (c2, n2)" by fastforce
      have c2: "link c2 = link c" "authenticated c2 = authenticated c" "cl_resp3 c2 = cl_resp3 c" "out_off c2 = out_off c" "cl_ok c \<longrightarrow> cl_ok c2"
          "wire c2 = wire c" "\<exists>x. out_buf c2 = out_buf c @ x"
        using c1 arg_cong [OF k, of fst] by (auto simp: cl_ok_def)
      have run: "(if take READ_CHUNK s = [] then (False, c, n) else if \<not> ok1 then (False, c1, n) else if over_buffer_budget g n2 0 then (False, c2, n2)
          else if length (take READ_CHUNK s) < READ_CHUNK then (True, c2, n2) else drain_read g rs c2 n2) = (ok, c', n')"
        using Cons.prems unfolding Got drain_read.simps [of g "Got s # rs"] if_not_P [OF False] list.case read_result.case Let_def t prod.case k .
      consider "c' = c" | "c' = c1" | "c' = c2" | "drain_read g rs c2 n2 = (ok, c', n')" using run by (auto split: if_splits)
      then show ?thesis using c1 c2 Cons.IH [of c2 n2] by cases (simp, simp, simp, fastforce)
    next
      case ReadIntr
      then show ?thesis using Cons.IH [of c n] Cons.prems False by (simp add: drain_read.simps [of g "ReadIntr # rs"])
    next
      case ReadAgain
      then show ?thesis using Cons.prems False by (simp add: drain_read.simps [of g "ReadAgain # rs"])
    next
      case ReadError
      then show ?thesis using Cons.prems False by (simp add: drain_read.simps [of g "ReadError # rs"])
    qed
  qed
qed

lemma poll_keeps:
  assumes inv: "loop_inv g {} {} w" and t: "t \<in> set (in_ring w)"
  shows "loop_inv g {} {} (cqe_poll g ie t rs w)"
proof -
  obtain a b where ab: "t = (a, b)" by fastforce
  let ?c = "objs w ! a"
  define w1 where "w1 = w\<lparr>in_ring := remove1 t (in_ring w)\<rparr>"
  show ?thesis
  proof (cases "cl_closed ?c")
    case True
    have "loop_inv g {} {} w1" by (rule take_ticket(3) [OF inv t [unfolded ab]]) (simp_all add: True w1_def ab)
    then show ?thesis using True by (simp add: cqe_poll_def ab w1_def)
  next
    case op: False
    show ?thesis
    proof (cases b)
      case True
      define w2 where "w2 = put a (?c\<lparr>write_armed := False\<rparr>) w1"
      note tk = take_ticket [OF inv t [unfolded ab], of w2]
      have i2: "loop_inv g {a} {} w2" and a: "a < length (objs w)" using tk(1,2) op True by (simp_all add: w2_def w1_def ab)
      obtain r w3 where f: "flush_at a w2 = (r, w3)" by fastforce
      have p: "polled ?c" using inv a by (simp add: loop_inv_def)
      have a2: "a < length (objs w2)" using a by (simp add: w2_def w1_def)
      have id: "ident (objs w3 ! a) = ident (objs w2 ! a)" "a < length (objs w3)"
        using flush_at_kept(1,2) [OF f] a2 by (simp_all add: all_kept_def)
      have o2: "objs w2 ! a = ?c\<lparr>write_armed := False\<rparr>" using a by (simp add: w2_def w1_def)
      have "loop_inv g {} {} (settle a r w3)"
        by (rule settle_keeps [OF flush_keeps [OF i2 _ f] id(2)])
          (use id op p o2 flush_at_kept(4) [OF f _ a2] in \<open>simp_all add: ident_def link_def polled_def\<close>)
      then show ?thesis using op True f
        by (simp add: cqe_poll_def ab poll_write_def settle_def w2_def w1_def)
    next
      case False
      define w2 where "w2 = put a (?c\<lparr>read_armed := False\<rparr>) w1"
      note tk = take_ticket [OF inv t [unfolded ab], of w2]
      have i2: "loop_inv g {a} {} w2" and a: "a < length (objs w)" using tk(1,2) op False by (simp_all add: w2_def w1_def ab)
      obtain ok c n where d: "drain_read g rs (?c\<lparr>read_armed := False\<rparr>) (client_buffers w1) = (ok, c, n)" by (metis prod_cases3)
      note df = drain_read_frame [OF d]
      define w3 where "w3 = (put a c w1)\<lparr>client_buffers := n\<rparr>"
      have o2: "objs w2 ! a = ?c\<lparr>read_armed := False\<rparr>" "a < length (objs w3)" "objs w3 ! a = c" using a by (simp_all add: w2_def w1_def w3_def)
      have i2': "loop_inv g {a} {a} w2" by (rule loop_inv_mono [OF i2]) simp_all
      have i3: "loop_inv g {a} {a} w3"
        by (rule loop_inv_put [OF i2', of a _ c]) (use df o2 in \<open>simp_all add: w3_def w2_def frame_of_def link_def cl_ok_def\<close>)
      have op3: "\<not> cl_closed (objs w3 ! a)" using df op o2 by (simp add: link_def)
      obtain again w4 where s: "serve g ie a w3 = (again, w4)" by fastforce
      note sv = serve_keeps [OF i3 _ _ o2(2) op3 s]
      have run: "cqe_poll g ie t rs w = (if \<not> ok then schedule_close a w3 else if again then queue_work w4
          else if length (in_buf (objs w4 ! a)) \<ge> input_cap (objs w4 ! a) then schedule_close a w4 else w4)"
      proof -
        have "cqe_poll g ie t rs w = poll_read g ie a rs w1" "objs w1 ! a = ?c" using op False by (simp_all add: cqe_poll_def ab w1_def)
        then show ?thesis unfolding poll_read_def by (simp only: d prod.case Let_def s flip: w3_def)
      qed
      have "loop_inv g {} {} (schedule_close a w3)" using close_keeps [OF i3 o2(2)] by simp
      moreover have "loop_inv g {} {} (if again then queue_work w4 else w4)" using sv(1) by simp
      moreover have "loop_inv g {} {} (schedule_close a w4)" if "\<not> again"
        using close_keeps [of g "{}" "{}" w4 a] sv(1,2) that o2(2) by simp
      ultimately show ?thesis unfolding run by auto
    qed
  qed
qed

lemma closes_keep:
  "loop_inv g {} {} w \<Longrightarrow> set as \<subseteq> {..<length (objs w)} \<Longrightarrow>
     loop_inv g {} {} (foldl (\<lambda>w a. schedule_close a w) w as) \<and> all_kept w (foldl (\<lambda>w a. schedule_close a w) w as)"
proof (induction "as" arbitrary: w)
  case (Cons a as)
  have "loop_inv g {} {} (schedule_close a w)" using close_keeps [OF Cons.prems(1), of a] Cons.prems(2) by simp
  moreover have "set as \<subseteq> {..<length (objs (schedule_close a w))}" using close_others(4) [of a w] Cons.prems(2) by simp
  ultimately show ?case using Cons.IH [of "schedule_close a w"] all_kept_trans [OF close_kept] by auto
qed simp

lemma sweep_keeps:
  assumes inv: "loop_inv g {} {} w"
  shows "loop_inv g {} {} (sweep now w)"
proof -
  define w1 where "w1 = (close_unauthenticated now w)\<lparr>auth_failures := 0, accept_failures := 0\<rparr>"
  have "set (map snd (w_clients w)) \<subseteq> {..<length (objs w)}" using inv by (auto simp: loop_inv_def table_ok_def)
  then have "loop_inv g {} {} (close_unauthenticated now w)"
    unfolding close_unauthenticated_def by (intro conjunct1 [OF closes_keep [OF inv]]) auto
  then have i1: "loop_inv g {} {} w1" by (rule loop_inv_same) (simp_all add: w1_def frame_of_def)
  have "loop_inv g {} {} (w1\<lparr>accept_paused := False, accepts := Suc 0\<rparr>)"
    by (rule loop_inv_same [OF accepts_any [OF i1]]) (simp_all add: frame_of_def)
  then show ?thesis using i1 arm_listener_keeps unfolding sweep_def w1_def [symmetric] by (simp add: Let_def)
qed

text \<open>Submitting moves tickets, loses none of an open client and makes none.\<close>

lemma submit_loop_moves:
  "objs (submit_loop ts k w) = objs w \<and> w_clients (submit_loop ts k w) = w_clients w \<and> open_fds (submit_loop ts k w) = open_fds w \<and>
   net_db (submit_loop ts k w) = net_db w \<and> accepts (submit_loop ts k w) = accepts w \<and> accept_paused (submit_loop ts k w) = accept_paused w \<and>
   event_count (submit_loop ts k w) = event_count w \<and>
   (\<forall>t. \<not> cl_closed (objs w ! fst t) \<longrightarrow>
      count_list (arm_backlog (submit_loop ts k w) @ in_ring (submit_loop ts k w)) t = count_list (ts @ k @ in_ring w) t) \<and>
   set (arm_backlog (submit_loop ts k w) @ in_ring (submit_loop ts k w)) \<subseteq> set (ts @ k @ in_ring w)"
proof (induction ts arbitrary: k w)
  case (Cons t ts)
  obtain ok w1 where q: "get_sqe w = (ok, w1)" by fastforce
  note f = get_sqe_frame [OF q]
  consider "cl_closed (objs w ! fst t)" | "\<not> cl_closed (objs w ! fst t)" ok | "\<not> cl_closed (objs w ! fst t)" "\<not> ok" by blast
  then show ?case
  proof cases
    case 1
    then show ?thesis using Cons.IH [of k w] by auto
  next
    case 2
    then show ?thesis using Cons.IH [of k "w1\<lparr>in_ring := in_ring w1 @ [t]\<rparr>"] f q by auto
  next
    case 3
    then show ?thesis using Cons.IH [of "k @ [t]" w1] f q by auto
  qed
qed simp

lemma submit_keeps:
  assumes inv: "loop_inv g {} {} w"
  shows "loop_inv g {} {} (submit_backlog w)"
proof -
  define w' where "w' = submit_backlog w"
  note m = submit_loop_moves [of "arm_backlog w" "[]" w, folded submit_backlog_def w'_def]
  have "linked_at w' a (objs w' ! a)" if "a < length (objs w')" for a
    using inv that m by (auto simp: loop_inv_def linked_at_def)
  moreover have "table_ok g w'"
  proof -
    have "fst ` set (arm_backlog w' @ in_ring w') \<subseteq> {..<length (objs w)}" using m inv by (fastforce simp: loop_inv_def table_ok_def)
    then show ?thesis using inv m by (simp add: loop_inv_def table_ok_def)
  qed
  ultimately show ?thesis using inv m unfolding w'_def [symmetric] by (auto simp: loop_inv_def told_def)
qed

lemma loop_step_keeps:
  assumes "loop_step g w w'" and inv: "loop_inv g {} {} w"
  shows "loop_inv g {} {} w'"
  using assms(1)
proof cases
  case submit
  then show ?thesis using submit_keeps [OF inv] by simp
next
  case rearm
  then show ?thesis using arm_eventfd_keeps(1) [OF arm_listener_keeps [OF accepts_any [OF inv]]] by simp
next
  case (complete e ie)
  then show ?thesis using accept_keeps [OF inv] eventfd_keeps [OF inv] poll_keeps [OF inv] by (cases e) auto
next
  case (tick now)
  then show ?thesis using sweep_keeps [OF inv] by simp
next
  case (world_moves d rs bs)
  then show ?thesis by (intro loop_inv_same [OF inv]) (simp_all add: frame_of_def)
qed

lemma start_inv: "known_clients {} d \<Longrightarrow> loop_inv g {} {} (start_world d)"
  by (simp add: start_world_def arm_listener_def arm_eventfd_def get_sqe_def loop_inv_def table_ok_def)

text \<open>The states a running server goes through.\<close>

definition serving :: "net \<Rightarrow> database \<Rightarrow> world \<Rightarrow> bool" where
  "serving g d w \<longleftrightarrow> (loop_step g)\<^sup>*\<^sup>* (start_world d) w"

lemma serving_inv:
  assumes "known_clients {} d" "serving g d w"
  shows "loop_inv g {} {} w"
  using assms(2) unfolding serving_def
  by (induction rule: rtranclp_induct) (auto intro: start_inv [OF assms(1)] loop_step_keeps)

section \<open>A concrete run\<close>

definition ex_net :: net where
  "ex_net = net_init default_config None"

definition ex_joined :: world where
  "ex_joined = handle ex_net ex_info (Accepted 7 0) (start_world ex_logged)"

lemma ex_known: "known_clients {} ex_logged"
  using ex_server(1) [of "{}"] by (simp add: server_ok_def)

lemma ex_joined_world: "w_clients ex_joined = [(7, 0)]" "objs ex_joined = [(new_client ex_net 7 0)\<lparr>read_armed := True\<rparr>]"
  by (simp_all add: ex_joined_def cqe_accept_def start_world_def arm_listener_def arm_eventfd_def get_sqe_def ex_net_def default_config_def
      add_client_def arm_client_def Let_def new_client_def put_def)

lemma ex_serving: "serving ex_net ex_logged ex_joined"
proof -
  have "possible (Accepted 7 0) (start_world ex_logged)"
    by (simp add: start_world_def arm_listener_def arm_eventfd_def get_sqe_def)
  then show ?thesis unfolding serving_def ex_joined_def by (intro r_into_rtranclp loop_step.complete)
qed

section \<open>Properties\<close>

text \<open>
  C11. No client is forgotten. Whatever completions, failures of the ring, messages and sweeps the loop has gone through, every
  open client is in the table under its descriptor, exactly one poll for its input is queued or in the ring, exactly one
  for its output whenever it has output left, and the eventfd is signalled whenever the buffer of a client still holds a
  complete or a malformed command that the budget of a turn has left there.
\<close>

theorem clients_attended:
  assumes "known_clients {} d" "serving g d w" "a < length (objs w)" "\<not> cl_closed (objs w ! a)"
  shows "map_of (w_clients w) (cl_fd (objs w ! a)) = Some a \<and> count_list (arm_backlog w @ in_ring w) (a, False) = 1 \<and>
    (pending_out (objs w ! a) > 0 \<longrightarrow> count_list (arm_backlog w @ in_ring w) (a, True) = 1) \<and>
    (parse_request (in_buf (objs w ! a)) 0 \<noteq> NeedMore \<longrightarrow> event_count w > 0)"
  using serving_inv [OF assms(1,2)] assms(3,4) by (auto simp: loop_inv_def linked_at_def polled_def told_def)

theorem clients_attended_witness:
  "map_of (w_clients ex_joined) 7 = Some 0 \<and> count_list (arm_backlog ex_joined @ in_ring ex_joined) (0, False) = 1"
  using clients_attended [OF ex_known ex_serving, of 0] by (simp add: ex_joined_world new_client_def)

text \<open>
  C12. The tables agree. In every state of a running server the table of clients holds exactly the open client sockets, so no
  descriptor leaks, at most as many as the client limit; the database's tables of rooms and subscriptions mention open
  sockets only, so a new connection never inherits the room or the subscriptions of an earlier one with its descriptor; and the
  server accepts connections, or will after the next sweep.
\<close>

theorem tables_agree:
  assumes "known_clients {} d" "serving g d w"
  shows "set (open_fds w) = fst ` set (w_clients w) \<and> distinct (map fst (w_clients w)) \<and> known_clients (set (open_fds w)) (net_db w) \<and>
    length (w_clients w) \<le> unat (cfg_maxclients (g_cfg g)) \<and> (accepts w > 0 \<or> accept_paused w)"
  using serving_inv [OF assms] by (auto simp: loop_inv_def table_ok_def)

theorem tables_agree_witness:
  "set (open_fds ex_joined) = {7} \<and> known_clients {7} (net_db ex_joined)"
proof -
  have "fst ` set (w_clients ex_joined) = {7}" by (simp add: ex_joined_world)
  then show ?thesis using tables_agree [OF ex_known ex_serving] by metis
qed

end
