(* ===== verification/Streams.thy ===== *)
theory Streams
  imports Event_Loop "HOL-Library.Sublist"
begin

text \<open>
  What a client receives, and who may reach the database. The first part follows the bytes of every connection through the
  loop: output is only ever added at the end, and what the kernel has taken is never sent again. The second part follows the
  commands of a client that has not authenticated.
\<close>

section \<open>Output only grows\<close>

definition prolongs :: "client \<Rightarrow> client \<Rightarrow> bool" where
  "prolongs c c' \<longleftrightarrow> (cl_ok c \<longrightarrow> cl_ok c' \<and> prefix (stream c) (stream c') \<and> prefix (wire c) (wire c'))"

definition grows :: "'a net_world_scheme \<Rightarrow> 'a net_world_scheme \<Rightarrow> bool" where
  "grows w w' \<longleftrightarrow> length (objs w) \<le> length (objs w') \<and> (\<forall>b < length (objs w). prolongs (objs w ! b) (objs w' ! b))"

lemma prolongs_trans: "prolongs a b \<Longrightarrow> prolongs b c \<Longrightarrow> prolongs a c"
  by (auto simp: prolongs_def intro: prefix_order.trans)

lemma prolongs_same: "out_buf c' = out_buf c \<Longrightarrow> out_off c' = out_off c \<Longrightarrow> wire c' = wire c \<Longrightarrow> prolongs c c'"
  by (simp add: prolongs_def cl_ok_def stream_def)

lemma prolongs_append: "out_buf c' = out_buf c @ x \<Longrightarrow> out_off c' = out_off c \<Longrightarrow> wire c' = wire c \<Longrightarrow> prolongs c c'"
  by (simp add: prolongs_def cl_ok_def stream_def)

lemma grows_trans [trans]: "grows u v \<Longrightarrow> grows v w \<Longrightarrow> grows u w"
  unfolding grows_def by (meson prolongs_trans le_trans less_le_trans)

lemma grows_same: "objs w' = objs w \<Longrightarrow> grows w w'"
  by (simp add: grows_def prolongs_def)

lemma grows_put: "prolongs (objs w ! a) c \<Longrightarrow> objs w' = (objs w)[a := c] \<Longrightarrow> grows w w'"
proof -
  assume k: "prolongs (objs w ! a) c" and o: "objs w' = (objs w)[a := c]"
  have "prolongs (objs w ! b) (objs w' ! b)" if "b < length (objs w)" for b
    using k that unfolding o nth_list_update [OF that] by (cases "a = b") (auto simp: prolongs_def)
  then show ?thesis by (simp add: grows_def o)
qed

lemma grows_enqueue:
  assumes "enqueue_at g a data w = (ok, w')"
  shows "grows w w'"
proof -
  obtain c n where e: "w' = (put a c w)\<lparr>client_buffers := n\<rparr>" "enqueue_output g (objs w ! a) data (client_buffers w) = (ok, c, n)"
    by (rule enqueue_at_frame [OF assms])
  have "\<exists>x. out_buf c = out_buf (objs w ! a) @ x" using e(2)
    by (auto simp: enqueue_output_def tls_out_def Let_def track_def split: if_splits option.splits)
  then have "prolongs (objs w ! a) c" using enqueue_output_frame [OF e(2)] by (auto intro: prolongs_append)
  then show ?thesis by (rule grows_put) (simp add: e(1))
qed

lemma prolongs_flush:
  assumes "flush_output c n rs = (r, c', n', rs')"
  shows "prolongs c c'"
proof -
  obtain r1 c1 rs1 where l: "flush_loop rs c = (r1, c1, rs1)" by (metis prod_cases3)
  note f = flush_loop_frame [OF l] and o = flush_output_frame [OF assms]
  have "prefix (wire c) (wire c1)"
  proof (rule prefix_length_prefix)
    show "prefix (wire c) (wire c1 @ drop (out_off c1) (out_buf c))" using f by simp
    show "prefix (wire c1) (wire c1 @ drop (out_off c1) (out_buf c))" by simp
    have "length (wire c1) + (length (out_buf c) - out_off c1) = length (wire c) + (length (out_buf c) - out_off c)"
      using f by (metis length_append length_drop)
    moreover have "out_off c \<le> out_off c1" using f by simp
    ultimately show "length (wire c) \<le> length (wire c1)" by linarith
  qed
  moreover have "wire c' = wire c1"
    using assms l by (auto simp: flush_output_def track_def Let_def split: FlushResult.splits)
  ultimately show ?thesis using o by (simp add: prolongs_def)
qed

lemma grows_flush:
  assumes "flush_at a w = (r, w')"
  shows "grows w w'"
proof -
  obtain c n rs where e: "w' = (put a c w)\<lparr>client_buffers := n, sends := rs\<rparr>"
    "flush_output (objs w ! a) (client_buffers w) (sends w) = (r, c, n, rs)" by (rule flush_at_frame [OF assms])
  show ?thesis by (rule grows_put [OF prolongs_flush [OF e(2)]]) (simp add: e(1))
qed

lemma grows_close: "grows w (schedule_close a w)"
proof (cases "cl_closed (objs w ! a) \<or> \<not> a < length (objs w)")
  case True
  then have "objs (schedule_close a w) = objs w"
    by (auto simp: schedule_close_def track_at_def Let_def track_def list_update_beyond)
  then show ?thesis by (rule grows_same)
next
  case False
  then show ?thesis
    by (intro grows_put [OF prolongs_same [of "(objs w ! a)\<lparr>cl_closed := True, cl_held := 0\<rparr>" "objs w ! a"]]) (simp_all add: close_result)
qed

lemma grows_arm: "grows w (arm_client a b w)"
proof (cases "cl_closed (objs w ! a) \<or> (b \<and> write_armed (objs w ! a)) \<or> (\<not> b \<and> read_armed (objs w ! a))")
  case True
  then show ?thesis by (intro grows_same) (auto simp: arm_client_def Let_def)
next
  case False
  then show ?thesis
    by (intro grows_put [where a = a and c = "if b then (objs w ! a)\<lparr>write_armed := True\<rparr> else (objs w ! a)\<lparr>read_armed := True\<rparr>"])
      (auto simp: arm_client_def Let_def intro: prolongs_same)
qed

lemma grows_settle: "grows w (settle a r w)"
  by (simp add: settle_def grows_arm grows_close grows_same)

lemma grows_deliver: "grows w (deliver_pubsub g m w)"
proof (cases rule: deliver_cases [of g m w])
  case (full a data w1)
  then show ?thesis using grows_trans [OF grows_enqueue grows_close] by metis
next
  case (sent a data w1 r w2)
  then show ?thesis using grows_trans [OF grows_trans [OF grows_enqueue grows_flush] grows_settle] by metis
qed (simp add: grows_same)

lemma grows_deliveries: "grows w (foldl (\<lambda>w m. deliver_pubsub g m w) w ms)"
proof (induction ms arbitrary: w)
  case (Cons m ms)
  show ?case using grows_trans [OF grows_deliver Cons.IH] by simp
qed (simp add: grows_same)

interpretation output_turn: whole_turn "deliver_pubsub g" g ie "\<lambda>a w. grows w0 w" for g ie w0
proof unfold_locales
  fix a :: nat and w w' :: world
  assume i: "grows w0 w" and a: "a < length (objs w)"
  show "grows w0 ((put a c w)\<lparr>auth_failures := f\<rparr>)" if "admits (cfg_password (g_cfg g)) args (objs w ! a) c" for args c f
    by (rule grows_trans [OF i grows_put [of w a c]]) (use that in \<open>auto simp: admits_def intro: prolongs_same\<close>)
  show "grows w0 w'" if "enqueue_at g a data w = (ok, w')" for data ok
    by (rule grows_trans [OF i grows_enqueue [OF that]])
  show "grows w0 w'" if "flush_at a w = (r, w')" for r
    by (rule grows_trans [OF i grows_flush [OF that]])
  show "grows w0 (foldl (\<lambda>w m. deliver_pubsub g m w) (w\<lparr>net_db := d\<rparr>) sent)" for d sent
    by (rule grows_trans [OF grows_trans [OF i grows_same] grows_deliveries]) simp
  show "grows w0 (consume a pos w)" for pos
  proof -
    note c = consume_frame [OF a, of pos]
    have o: "objs (consume a pos w) = (objs w)[a := objs (consume a pos w) ! a]" by (subst c(2)) simp
    show ?thesis by (rule grows_trans [OF i grows_put [OF prolongs_same o]]) (simp_all add: c(1))
  qed
qed

lemma grows_serve:
  assumes "a < length (objs w)" "\<not> cl_closed (objs w ! a)" and run: "serve g ie a w = (again, w')"
  shows "grows w w'"
proof -
  obtain st w1 where p: "process_buffered g ie (deliver_pubsub g) a w = (st, w1)" by fastforce
  have k: "grows w w1" using output_turn.process_keeps [OF p grows_same assms(1,2)] by simp
  define w2 where "w2 = (if pending_out (objs w1 ! a) > 0 then arm_client a True w1 else w1)"
  have "grows w1 w2" by (simp add: w2_def grows_arm grows_same)
  moreover have "w' = (if st = Drop then schedule_close a w1 else arm_client a False w2)"
    using run by (auto simp: serve_def p w2_def Let_def split: if_splits)
  ultimately show ?thesis using grows_trans [OF k] grows_close [of w1 a] grows_arm [of w2 a False] grows_trans by (metis (full_types))
qed

lemma grows_pump:
  assumes "set as \<subseteq> {..<length (objs w)}"
  shows "grows w (foldl (pump_client g ie) w as)"
  using assms
proof (induction "as" arbitrary: w)
  case (Cons a as)
  have "grows w (pump_client g ie w a)"
  proof (cases "cl_closed (objs w ! a) \<or> in_buf (objs w ! a) = []")
    case False
    obtain again w1 where s: "serve g ie a w = (again, w1)" by fastforce
    have "grows w1 (queue_work w1)" by (rule grows_same) (simp add: queue_work_def)
    then show ?thesis using False s grows_serve [OF _ _ s] Cons.prems grows_trans by (auto simp: pump_client_def)
  qed (simp add: pump_client_def grows_same)
  moreover from this have "set as \<subseteq> {..<length (objs (pump_client g ie w a))}" using Cons.prems by (auto simp: grows_def)
  ultimately show ?case using Cons.IH [of "pump_client g ie w a"] grows_trans by auto
qed (simp add: grows_same)

lemma get_sqe_objs: "get_sqe w = (ok, w') \<Longrightarrow> objs w' = objs w"
  by (rule get_sqe_frame(1))

lemma arm_objs [simp]: "objs (arm_listener w) = objs w" "objs (arm_eventfd w) = objs w" "w_clients (arm_eventfd w) = w_clients w"
  by (auto simp: arm_listener_def arm_eventfd_def get_sqe_def split: list.split)

lemma grows_add: "grows w (add_client g fd now w)"
proof -
  have "grows w (w\<lparr>objs := objs w @ [new_client g fd now], w_clients := AList.update fd (length (objs w)) (w_clients w), open_fds := fd # open_fds w\<rparr>)"
    by (auto simp: grows_def nth_append prolongs_def)
  then show ?thesis using grows_trans [OF _ grows_arm] by (simp add: add_client_def Let_def)
qed

lemma grows_accept: "grows w (cqe_accept g res now w)"
proof -
  have "grows w (w\<lparr>accepts := accepts w - 1\<rparr>)" by (rule grows_same) simp
  then have "grows w (add_client g res now (w\<lparr>accepts := accepts w - 1\<rparr>))" by (rule grows_trans [OF _ grows_add])
  moreover from this have "grows w (arm_listener (add_client g res now (w\<lparr>accepts := accepts w - 1\<rparr>)))"
    by (rule grows_trans [OF _ grows_same]) simp
  ultimately show ?thesis by (auto simp: cqe_accept_def Let_def intro: grows_same)
qed

lemma grows_poll:
  assumes "fst t < length (objs w)"
  shows "grows w (cqe_poll g ie t rs w)"
proof -
  obtain a b where ab: "t = (a, b)" by fastforce
  define w1 where "w1 = w\<lparr>in_ring := remove1 t (in_ring w)\<rparr>"
  have g1: "grows w w1" by (rule grows_same) (simp add: w1_def)
  have o1: "objs w1 = objs w" by (simp add: w1_def)
  show ?thesis
  proof (cases "cl_closed (objs w ! a)")
    case True
    then show ?thesis using g1 by (simp add: cqe_poll_def ab w1_def)
  next
    case op: False
    show ?thesis
    proof (cases b)
      case True
      define w2 where "w2 = put a ((objs w1 ! a)\<lparr>write_armed := False\<rparr>) w1"
      have "grows w1 w2" by (rule grows_put [where a = a and c = "(objs w1 ! a)\<lparr>write_armed := False\<rparr>"]) (simp_all add: w2_def prolongs_same)
      moreover obtain r w3 where f: "flush_at a w2 = (r, w3)" by fastforce
      ultimately have "grows w (settle a r w3)" using grows_trans [OF g1] grows_flush [OF f] grows_settle [of w3 a r] grows_trans by blast
      then show ?thesis using op True f by (simp add: cqe_poll_def ab poll_write_def settle_def w2_def w1_def)
    next
      case False
      obtain ok c n where d: "drain_read g rs ((objs w1 ! a)\<lparr>read_armed := False\<rparr>) (client_buffers w1) = (ok, c, n)" by (metis prod_cases3)
      note df = drain_read_frame [OF d]
      define w3 where "w3 = (put a c w1)\<lparr>client_buffers := n\<rparr>"
      have a3: "a < length (objs w3)" "\<not> cl_closed (objs w3 ! a)" using assms op df by (simp_all add: w3_def w1_def ab link_def)
      have "prolongs (objs w1 ! a) c" using df prolongs_append [of c "objs w1 ! a"] by auto
      then have g3: "grows w w3" using grows_trans [OF g1 grows_put, of a c w3] by (simp add: w3_def)
      obtain again w4 where s: "serve g ie a w3 = (again, w4)" by fastforce
      have g4: "grows w w4" by (rule grows_trans [OF g3 grows_serve [OF a3 s]])
      have q: "grows w4 (queue_work w4)" by (rule grows_same) (simp add: queue_work_def)
      have "cqe_poll g ie t rs w = poll_read g ie a rs w1" using op False by (simp add: cqe_poll_def ab w1_def)
      then have "cqe_poll g ie t rs w = (if \<not> ok then schedule_close a w3 else if again then queue_work w4
          else if length (in_buf (objs w4 ! a)) \<ge> input_cap (objs w4 ! a) then schedule_close a w4 else w4)"
        unfolding poll_read_def by (simp only: d prod.case Let_def s flip: w3_def)
      then show ?thesis using g4 grows_trans [OF g3 grows_close] grows_trans [OF g4 grows_close] grows_trans [OF g4 q] by auto
    qed
  qed
qed

lemma grows_closes: "grows w (foldl (\<lambda>w a. schedule_close a w) w as)"
proof (induction "as" arbitrary: w)
  case (Cons a as)
  show ?case using grows_trans [OF grows_close Cons.IH] by simp
qed (simp add: grows_same)

lemma grows_step:
  assumes "loop_step g w w'" and inv: "loop_inv g {} {} w"
  shows "grows w w'"
  using assms(1)
proof cases
  case submit
  then show ?thesis using submit_loop_moves [of "arm_backlog w" "[]" w] by (simp add: submit_backlog_def grows_same)
next
  case rearm
  then show ?thesis by (simp add: grows_same)
next
  case (complete e ie)
  show ?thesis
  proof (cases e)
    case EventRead
    have s: "set (map snd (w_clients w)) \<subseteq> {..<length (objs w)}" using inv by (auto simp: loop_inv_def table_ok_def)
    let ?w = "arm_eventfd (w\<lparr>event_reads := event_reads w - 1, event_count := 0\<rparr>)"
    have "grows w ?w" by (rule grows_same) simp
    then show ?thesis using complete EventRead grows_trans [OF _ grows_pump, of w ?w "map snd (w_clients w)" g ie] s
      by (simp add: cqe_eventfd_def pump_work_def)
  next
    case (Polled t rs)
    then have "fst t < length (objs w)" using complete inv by (auto simp: loop_inv_def table_ok_def)
    then show ?thesis using complete Polled grows_poll by simp
  qed (use complete grows_accept in auto)
next
  case (tick now)
  have "grows w (close_unauthenticated now w)" by (simp add: close_unauthenticated_def grows_closes)
  then have "grows w (sweep now w)" by (rule grows_trans [OF _ grows_same]) (simp add: sweep_def Let_def)
  then show ?thesis using tick by simp
qed (simp_all add: grows_same)

text \<open>
  C15. Output reaches a client in order. From any state of a running server to any later one, what a client was sent and what was
  queued for it, in this order, is only ever extended at its end, and what the kernel has taken is a prefix of it: no byte is
  lost, sent twice or overtaken, whatever partial sends, interrupts, messages of other clients and turns come between. It
  holds with TLS too, for the encrypted bytes.
\<close>

theorem output_in_order:
  assumes "known_clients {} d" "serving g d w" "(loop_step g)\<^sup>*\<^sup>* w w'" "a < length (objs w)"
  shows "prefix (stream (objs w ! a)) (stream (objs w' ! a)) \<and> prefix (wire (objs w ! a)) (wire (objs w' ! a)) \<and>
    prefix (wire (objs w' ! a)) (stream (objs w' ! a))"
proof -
  have "serving g d w' \<and> grows w w'" using assms(3)
  proof (induction rule: rtranclp_induct)
    case base
    then show ?case using assms(2) by (simp add: grows_same)
  next
    case (step u v)
    have "serving g d v" using step unfolding serving_def by (meson rtranclp.rtrancl_into_rtrancl)
    then show ?case using step grows_trans [of w u v] grows_step [OF step(2) serving_inv [OF assms(1)]] by blast
  qed
  moreover have "cl_ok (objs w ! a)" using serving_inv [OF assms(1,2)] assms(4) by (simp add: loop_inv_def linked_at_def)
  ultimately show ?thesis using assms(4) by (simp add: grows_def prolongs_def) (simp add: stream_def)
qed

theorem output_in_order_witness:
  "prefix (stream (objs ex_joined ! 0)) (stream (objs (submit_backlog ex_joined) ! 0))"
  using output_in_order [OF ex_known ex_serving r_into_rtranclp [of "loop_step ex_net" ex_joined "submit_backlog ex_joined", OF loop_step.submit], of 0] by (simp add: ex_joined_world)

section \<open>The gate before the database\<close>

text \<open>A buffer that presents a password: it is an argument of one of the commands in it.\<close>

definition presents :: "string \<Rightarrow> string \<Rightarrow> bool" where
  "presents password buf \<longleftrightarrow> password \<noteq> [] \<and> (\<exists>pos e args. parse_request buf pos = Complete e args \<and> password \<in> set args)"

text \<open>While the commands of \<open>buf\<close> run: an authentication was earned, and without one the database has not moved.\<close>

definition gated :: "net \<Rightarrow> string \<Rightarrow> database \<Rightarrow> nat \<Rightarrow> world \<Rightarrow> bool" where
  "gated g buf d a w \<longleftrightarrow> in_buf (objs w ! a) = buf \<and>
     (if authenticated (objs w ! a) then presents (cfg_password (g_cfg g)) buf else net_db w = d)"

interpretation gate: turn "deliver_pubsub g" g ie "gated g buf d" for g ie buf d
proof unfold_locales
  fix a :: nat and w w' :: world
  assume i: "gated g buf d a w" and a: "a < length (objs w)"
  show "gated g buf d a ((put a c w)\<lparr>auth_failures := f\<rparr>)"
    if "parse_request (in_buf (objs w ! a)) pos = Complete e args" "admits (cfg_password (g_cfg g)) args (objs w ! a) c" for pos e args c f
  proof -
    have buf: "in_buf (objs w ! a) = buf" using i by (simp add: gated_def)
    have "presents (cfg_password (g_cfg g)) buf" if "authenticated c"
      using i \<open>parse_request _ _ = _\<close> \<open>admits _ _ _ _\<close> that by (auto simp: admits_def gated_def presents_def)
    moreover have "in_buf c = buf" "authenticated (objs w ! a) \<longrightarrow> authenticated c" using buf that(2) by (auto simp: admits_def)
    ultimately show ?thesis using i a by (auto simp: gated_def)
  qed
  show "gated g buf d a w'" if q: "enqueue_at g a data w = (ok, w')" for data ok
  proof -
    obtain c n where "w' = (put a c w)\<lparr>client_buffers := n\<rparr>" "ident c = ident (objs w ! a)" by (rule enqueue_at_frame [OF q])
    then show ?thesis using i a by (simp add: gated_def ident_def)
  qed
  show "gated g buf d a (foldl (\<lambda>w m. deliver_pubsub g m w) (w\<lparr>net_db := d'\<rparr>) sent)" if "authenticated (objs w ! a)" for d' sent
    using loop_sink.sinks_kept [of "w\<lparr>net_db := d'\<rparr>" g sent] i a that by (auto simp: gated_def all_kept_def kept_def)
qed

lemma consume_db: "a < length (objs w) \<Longrightarrow> net_db (consume a pos w) = net_db w \<and> authenticated (objs (consume a pos w) ! a) = authenticated (objs w ! a)
    \<and> length (objs (consume a pos w)) = length (objs w)"
  using consume_frame(1,3) [of a w pos] by (simp add: others_kept_def) (simp add: consume_def track_at_def Let_def split: prod.split)

lemma flush_db:
  assumes "flush_at a w = (r, w')" "a < length (objs w)"
  shows "net_db w' = net_db w \<and> authenticated (objs w' ! a) = authenticated (objs w ! a)"
proof -
  obtain c n rs where "w' = (put a c w)\<lparr>client_buffers := n, sends := rs\<rparr>" "ident c = ident (objs w ! a)" by (rule flush_at_frame [OF assms(1)])
  then show ?thesis using assms(2) by (simp add: ident_def)
qed

lemma last_words_db:
  assumes "last_words g a msg w = (st, w')" "a < length (objs w)"
  shows "net_db w' = net_db w \<and> authenticated (objs w' ! a) = authenticated (objs w ! a)"
proof -
  obtain ok w1 where q: "enqueue_at g a msg w = (ok, w1)" by fastforce
  obtain c n where e: "w1 = (put a c w)\<lparr>client_buffers := n\<rparr>" "ident c = ident (objs w ! a)" by (rule enqueue_at_frame [OF q])
  obtain r w2 where f: "flush_at a w1 = (r, w2)" by fastforce
  have "net_db w1 = net_db w \<and> authenticated (objs w1 ! a) = authenticated (objs w ! a) \<and> a < length (objs w1)" using e assms(2) by (simp add: ident_def)
  then show ?thesis using assms(1) q f flush_db [OF f] by (auto simp: last_words_def split: if_splits)
qed

lemma process_db:
  assumes "run_buffered g ie sink a MAX_COMMANDS_PER_TURN 0 w = (t, w1)" "process_buffered g ie sink a w = (st, w')" "a < length (objs w1)"
  shows "net_db w' = net_db w1 \<and> authenticated (objs w' ! a) = authenticated (objs w1 ! a)"
proof -
  note c = consume_db [OF assms(3)]
  have fl: "net_db v = net_db w1 \<and> authenticated (objs v ! a) = authenticated (objs w1 ! a)" if "flush_at a (consume a p w1) = (r, v)" for p r v
    using flush_db [OF that] c [of p] assms(3) by simp
  have lw: "net_db v = net_db w1 \<and> authenticated (objs v ! a) = authenticated (objs w1 ! a)" if "last_words g a msg (consume a p w1) = (s, v)" for p msg s v
    using last_words_db [OF that] c [of p] assms(3) by simp
  show ?thesis using assms(2) unfolding process_buffered_def assms(1) prod.case
    by (cases t) (auto split: prod.splits dest: fl lw)
qed

text \<open>
  C13. Nobody reaches the database without the password. When a client that has not authenticated has a turn, either it still has
  not authenticated at the end, and then the database is untouched: no command of it was executed; or it has, and then the
  configured password, which is not empty, was an argument of a command in its buffer. Everything it sent before
  that, and everything it sent in the same batch, was run or refused accordingly.
\<close>

theorem no_entry_without_password:
  assumes "a < length (objs w)" "\<not> cl_closed (objs w ! a)" "\<not> authenticated (objs w ! a)"
    and run: "process_buffered g ie (deliver_pubsub g) a w = (st, w')"
  shows "if authenticated (objs w' ! a) then presents (cfg_password (g_cfg g)) (in_buf (objs w ! a)) else net_db w' = net_db w"
proof -
  obtain t w1 where t: "run_buffered g ie (deliver_pubsub g) a MAX_COMMANDS_PER_TURN 0 w = (t, w1)" by fastforce
  have g0: "gated g (in_buf (objs w ! a)) (net_db w) a w" using assms(3) by (simp add: gated_def)
  have "gated g (in_buf (objs w ! a)) (net_db w) a w1" "all_kept w w1" using gate.run_keeps [OF t g0 assms(1,2)] by simp_all
  then show ?thesis using process_db [OF t run] assms(1) by (simp add: gated_def all_kept_def)
qed

section \<open>Deferred input runs out\<close>

lemma run_spent:
  assumes "run_buffered g ie (deliver_pubsub g) a n pos w = (Spent p, w')"
  shows "pos + n \<le> p \<and> all_kept w w'"
  using assms
proof (induction n arbitrary: pos w)
  case (Suc n)
  obtain e args where c: "parse_request (in_buf (objs w ! a)) pos = Complete e args" using Suc.prems by (auto split: status.splits)
  have nq: "\<not> (length args = 1 \<and> strcaseeq (args ! 0) ''QUIT'')" using Suc.prems c by (auto split: if_splits)
  obtain r w1 where r: "response g ie (deliver_pubsub g) a args w = (r, w1)" by fastforce
  obtain ok w2 where q: "enqueue_at g a r w1 = (ok, w2)" by fastforce
  note k1 = loop_sink.response_kept [OF r] and k2 = enqueue_at_kept(1) [OF q] and lt = parse_request_Complete [OF c]
  note run = Suc.prems [unfolded run_buffered.simps c status.case if_not_P [OF nq] r q prod.case]
  consider "run_buffered g ie (deliver_pubsub g) a n e w1 = (Spent p, w')" | "run_buffered g ie (deliver_pubsub g) a n e w2 = (Spent p, w')"
    using run by (auto split: if_splits)
  then show ?case
  proof cases
    case 1
    then show ?thesis using Suc.IH [OF 1] lt all_kept_trans [OF k1] by auto
  next
    case 2
    then show ?thesis using Suc.IH [OF 2] lt all_kept_trans [OF all_kept_trans [OF k1 k2]] by auto
  qed
qed auto

text \<open>
  C35. Deferred commands run out. A turn that leaves complete input for later has run its whole budget of 8192 commands and
  shortened the buffer by at least as many bytes, whatever the commands did; so the eventfd is signalled again for a client at most
  once per 8192 bytes it has sent, and the loop cannot spin on a client that sends nothing.
\<close>

theorem deferred_input_shrinks:
  assumes "process_buffered g ie (deliver_pubsub g) a w = (More, w')" "a < length (objs w)"
  shows "length (in_buf (objs w' ! a)) + MAX_COMMANDS_PER_TURN \<le> length (in_buf (objs w ! a))"
proof -
  obtain t w1 where t: "run_buffered g ie (deliver_pubsub g) a MAX_COMMANDS_PER_TURN 0 w = (t, w1)" by fastforce
  obtain p r where s: "t = Spent p" "flush_at a (consume a p w1) = (r, w')" "in_buf (objs w' ! a) \<noteq> []"
    using assms(1) unfolding process_buffered_def t prod.case
    by (cases t) (auto simp: last_words_def split: prod.splits if_splits)
  have k: "MAX_COMMANDS_PER_TURN \<le> p" "all_kept w w1" using run_spent [OF t [unfolded s(1)]] by simp_all
  have a1: "a < length (objs w1)" "in_buf (objs w1 ! a) = in_buf (objs w ! a)" using k(2) assms(2) by (simp_all add: all_kept_def kept_def)
  have c: "a < length (objs (consume a p w1))" "in_buf (objs (consume a p w1) ! a) = drop p (in_buf (objs w ! a))"
    using consume_frame(1,3) [OF a1(1), of p] a1 by (simp_all add: others_kept_def)
  have "in_buf (objs w' ! a) = drop p (in_buf (objs w ! a))" using flush_at_kept(2) [OF s(2) c(1)] c(2) by (simp add: ident_def)
  then show ?thesis using s(3) k(1) by simp
qed

text \<open>A client that sends blank lines: each is a command without words.\<close>

definition ex_flood :: world where
  "ex_flood = (start_world ex_logged)\<lparr>objs := [(new_client ex_net 7 0)\<lparr>in_buf := replicate (Suc MAX_COMMANDS_PER_TURN) LF\<rparr>]\<rparr>"

lemma blank_line: "pos < m \<Longrightarrow> parse_request (replicate m LF) pos = Complete (Suc pos) []"
proof -
  assume p: "pos < m"
  then obtain k where k: "drop pos (replicate m LF) = LF # replicate k LF" by (metis Cons_nth_drop_Suc drop_replicate length_replicate nth_replicate)
  have "split_inline [] = Some []" by (simp add: split_inline_def split_inline_loop.simps)
  then show ?thesis using p k by (simp add: parse_request_def kMaxInline_def)
qed

lemma run_blank:
  assumes "in_buf (objs w ! a) = replicate m LF" "authenticated (objs w ! a)" "pos + n \<le> m"
  shows "run_buffered g ie sink a n pos w = (Spent (pos + n), w)"
  using assms(3)
proof (induction n arbitrary: pos)
  case (Suc n)
  have "response g ie sink a [] w = ([], w)" using assms(2) by (simp add: response_def strcaseeq_def upper_def execute_def)
  then show ?case using Suc blank_line [of pos m] by (simp add: assms(1))
qed simp

theorem deferred_input_shrinks_witness:
  "fst (process_buffered ex_net ex_info (deliver_pubsub ex_net) 0 ex_flood) = More \<and>
   length (in_buf (objs (snd (process_buffered ex_net ex_info (deliver_pubsub ex_net) 0 ex_flood)) ! 0)) + MAX_COMMANDS_PER_TURN \<le> Suc MAX_COMMANDS_PER_TURN"
proof -
  let ?b = "replicate (Suc MAX_COMMANDS_PER_TURN) LF"
  have o: "in_buf (objs ex_flood ! 0) = ?b" "authenticated (objs ex_flood ! 0)" "out_buf (objs ex_flood ! 0) = []" "0 < length (objs ex_flood)"
    unfolding ex_flood_def by (simp_all add: new_client_def ex_net_def default_config_def)
  have r: "run_buffered ex_net ex_info (deliver_pubsub ex_net) 0 MAX_COMMANDS_PER_TURN 0 ex_flood = (Spent MAX_COMMANDS_PER_TURN, ex_flood)"
    using run_blank [OF o(1,2), of 0 MAX_COMMANDS_PER_TURN] by simp
  define v where "v = consume 0 MAX_COMMANDS_PER_TURN ex_flood"
  have v: "in_buf (objs v ! 0) = drop MAX_COMMANDS_PER_TURN ?b" "out_buf (objs v ! 0) = []" "0 < length (objs v)"
    using consume_frame(1,3) [OF o(4), of MAX_COMMANDS_PER_TURN] o by (simp_all add: v_def others_kept_def)
  obtain res w' where f: "flush_at 0 v = (res, w')" by fastforce
  have "res = Flushed" using f v(2) by (auto simp: flush_at_def flush_output_def flush_loop.simps [of _ "objs v ! 0"] split: prod.splits)
  moreover have "in_buf (objs w' ! 0) = drop MAX_COMMANDS_PER_TURN ?b" using flush_at_kept(2) [OF f v(3)] v(1) by (simp add: ident_def)
  ultimately have p: "process_buffered ex_net ex_info (deliver_pubsub ex_net) 0 ex_flood = (More, w')"
    using f by (simp add: process_buffered_def r flip: v_def)
  show ?thesis using deferred_input_shrinks [OF p o(4)] unfolding p o(1) by simp
qed

definition ex_locked :: net where
  "ex_locked = net_init (default_config\<lparr>cfg_password := ''secret''\<rparr>) None"

definition ex_stranger :: world where
  "ex_stranger = (start_world ex_logged)\<lparr>objs := [(new_client ex_locked 7 0)\<lparr>in_buf := resp_encode [''SET'', ''k'', ''v'']\<rparr>]\<rparr>"

theorem no_entry_without_password_witness:
  "case process_buffered ex_locked ex_info (deliver_pubsub ex_locked) 0 ex_stranger of
     (st, w') \<Rightarrow> if authenticated (objs w' ! 0) then presents ''secret'' (resp_encode [''SET'', ''k'', ''v'']) else net_db w' = net_db ex_stranger"
proof -
  have o: "objs ex_stranger ! 0 = (new_client ex_locked 7 0)\<lparr>in_buf := resp_encode [''SET'', ''k'', ''v'']\<rparr>" "0 < length (objs ex_stranger)"
    by (simp_all add: ex_stranger_def)
  have n: "\<not> cl_closed (objs ex_stranger ! 0)" "\<not> authenticated (objs ex_stranger ! 0)" "in_buf (objs ex_stranger ! 0) = resp_encode [''SET'', ''k'', ''v'']"
    unfolding o(1) by (simp_all add: new_client_def ex_locked_def)
  obtain st w' where p: "process_buffered ex_locked ex_info (deliver_pubsub ex_locked) 0 ex_stranger = (st, w')" by fastforce
  have pw: "cfg_password (g_cfg ex_locked) = ''secret''" by (simp add: ex_locked_def)
  show ?thesis using no_entry_without_password [OF o(2) n(1,2) p, unfolded pw n(3)] unfolding p prod.case .
qed

end
