(* ===== verification/Budget.thy ===== *)
theory Budget
  imports Event_Loop
begin

text \<open>
  The accounting of the clients' buffers (SEC-22) on connections without TLS: the total the server keeps is, at every moment of the
  loop, the number of bytes in the buffers of the open clients, and it stays within the configured limit. With TLS
  the limit is checked against the plain text while the buffer takes the encrypted bytes, so no bound is claimed there.
\<close>

section \<open>Loads\<close>

definition load :: "client \<Rightarrow> nat" where
  "load c = (if cl_closed c then 0 else length (in_buf c) + length (out_buf c))"

definition loads :: "'a net_world_scheme \<Rightarrow> nat" where
  "loads w = sum_list (map load (objs w))"

definition counted :: "client \<Rightarrow> bool" where
  "counted c \<longleftrightarrow> ssl c = None \<and> cl_held c = of_nat (load c)"

definition exact :: "'a net_world_scheme \<Rightarrow> bool" where
  "exact w \<longleftrightarrow> list_all counted (objs w) \<and> client_buffers w = of_nat (loads w)"

definition limit :: "net \<Rightarrow> nat" where
  "limit g = unat (cfg_max_client_buffers (g_cfg g))"

definition budgeted :: "net \<Rightarrow> 'a net_world_scheme \<Rightarrow> bool" where
  "budgeted g w \<longleftrightarrow> g_tls g = None \<and> limit g < 2 ^ 63 \<and> exact w \<and> loads w \<le> limit g"

lemma counted_at: "exact w \<Longrightarrow> a < length (objs w) \<Longrightarrow> counted (objs w ! a)"
  by (simp add: exact_def list_all_length)

lemma load_le: "a < length (objs w) \<Longrightarrow> load (objs w ! a) \<le> loads w"
  using elem_le_sum_list [of a "map load (objs w)"] by (simp add: loads_def)

lemma exact_put:
  assumes "exact w" "a < length (objs w)" "objs w' = (objs w)[a := c]" "counted c"
    "client_buffers w' = client_buffers w - cl_held (objs w ! a) + cl_held c"
  shows "exact w'" "loads w' + load (objs w ! a) = loads w + load c"
proof -
  show l: "loads w' + load (objs w ! a) = loads w + load c"
    using assms(2) load_le [OF assms(2)] by (simp add: loads_def assms(3) map_update sum_list_update)
  have "of_nat (loads w') + cl_held (objs w ! a) = of_nat (loads w) + (cl_held c :: u64)"
    using arg_cong [OF l, of "of_nat :: nat \<Rightarrow> u64"] counted_at [OF assms(1,2)] assms(4) by (simp add: counted_def)
  then have "(of_nat (loads w') :: u64) = of_nat (loads w) - cl_held (objs w ! a) + cl_held c" by (simp add: algebra_simps)
  then show "exact w'" using assms(1,3-5) by (auto simp: exact_def list_all_iff dest!: set_update_subset_insert [THEN subsetD])
qed

lemma budgeted_put:
  assumes "budgeted g w" "a < length (objs w)" "objs w' = (objs w)[a := c]" "counted c" "load c \<le> load (objs w ! a)"
    "client_buffers w' = client_buffers w - cl_held (objs w ! a) + cl_held c"
  shows "budgeted g w'"
  using exact_put [OF _ assms(2-4,6)] assms(1,5) by (simp add: budgeted_def)

lemma budgeted_same: "budgeted g w \<Longrightarrow> objs w' = objs w \<Longrightarrow> client_buffers w' = client_buffers w \<Longrightarrow> budgeted g w'"
  by (simp add: budgeted_def exact_def loads_def)

lemma track_counted: "ssl c = None \<Longrightarrow> counted (fst (track c n))" "load (fst (track c n)) = load c"
  "snd (track c n) = n - cl_held c + cl_held (fst (track c n))"
  by (auto simp: counted_def load_def)

section \<open>The operations\<close>

lemma over_budget:
  assumes "limit g < 2 ^ 63" "n = of_nat k" "k + extra < 2 ^ 64"
  shows "over_buffer_budget g n extra \<longleftrightarrow> limit g < k + extra"
proof -
  have "unat (n + of_nat extra) = k + extra" using assms(2,3) unat_of_nat_u64 [of "k + extra"] by simp
  then show ?thesis by (simp add: over_buffer_budget_def word_le_nat_alt limit_def not_le)
qed

lemma budget_enqueue:
  assumes b: "budgeted g w" and a: "a < length (objs w)" and q: "enqueue_at g a data w = (ok, w')"
  shows "budgeted g w'"
proof -
  obtain c n where e: "w' = (put a c w)\<lparr>client_buffers := n\<rparr>" "enqueue_output g (objs w ! a) data (client_buffers w) = (ok, c, n)"
    by (rule enqueue_at_frame [OF q])
  have ex: "exact w" and lim: "limit g < 2 ^ 63" "loads w \<le> limit g" using b by (simp_all add: budgeted_def)
  have ss: "ssl (objs w ! a) = None" using counted_at [OF ex a] by (simp add: counted_def)
  show ?thesis
  proof (cases ok)
    case False
    then have "c = objs w ! a" "n = client_buffers w" using enqueue_plain [OF e(2) ss] by simp_all
    then show ?thesis using e(1) by (intro budgeted_same [OF b]) simp_all
  next
    case True
    let ?c = "(objs w ! a)\<lparr>out_buf := out_buf (objs w ! a) @ data\<rparr>"
    note f = enqueue_output_frame [OF e(2)]
    have tr: "c = fst (track ?c (client_buffers w))" "n = snd (track ?c (client_buffers w))"
      using enqueue_plain [OF e(2) ss] True by (metis fst_conv, metis snd_conv)
    have small: "length data \<le> MAX_REPLY" using f True by (auto simp: output_cap_def MAX_REPLY_def MAX_UNAUTH_BUFFER_def split: if_splits)
    have "loads w + length data \<le> limit g"
      using over_budget [OF lim(1), of "client_buffers w" "loads w" "length data"] f True lim(2) small lim(1) ex
      by (auto simp: exact_def MAX_REPLY_def not_less)
    moreover have "load ?c = load (objs w ! a) + length data" using f True by (simp add: load_def)
    moreover have "exact w' \<and> loads w' + load (objs w ! a) = loads w + load c"
      using exact_put [OF ex a, of w' c] track_counted [of ?c "client_buffers w"] ss unfolding tr(1) [symmetric] tr(2) [symmetric] by (simp add: e(1))
    moreover have "load c = load ?c" unfolding tr(1) by (rule track_counted(2))
    ultimately show ?thesis using b by (simp add: budgeted_def)
  qed
qed

lemma budget_flush:
  assumes b: "budgeted g w" and a: "a < length (objs w)" and q: "flush_at a w = (r, w')"
  shows "budgeted g w'"
proof -
  obtain c n rs where e: "w' = (put a c w)\<lparr>client_buffers := n, sends := rs\<rparr>"
    "flush_output (objs w ! a) (client_buffers w) (sends w) = (r, c, n, rs)" by (rule flush_at_frame [OF q])
  note f = flush_output_frame [OF e(2)]
  have ct: "counted (objs w ! a)" using b counted_at [OF _ a] by (simp add: budgeted_def)
  have id: "cl_closed c = cl_closed (objs w ! a)" "in_buf c = in_buf (objs w ! a)" "ssl c = None" using f ct by (simp_all add: ident_def link_def counted_def)
  show ?thesis
  proof (cases "r = Flushed")
    case True
    let ?c = "c\<lparr>cl_held := cl_held (objs w ! a)\<rparr>"
    have tr: "c = fst (track ?c (client_buffers w))" "n = snd (track ?c (client_buffers w))" using f True by (metis fst_conv, metis snd_conv)
    have "counted c" using track_counted(1) [of ?c] id(3) tr(1) by simp
    moreover have "load c \<le> load (objs w ! a)" using id f True by (simp add: load_def)
    moreover have "n = client_buffers w - cl_held (objs w ! a) + cl_held c" unfolding tr(2) track_counted(3) tr(1) [symmetric] by simp
    ultimately show ?thesis by (intro budgeted_put [OF b a, of w' c]) (simp_all add: e(1))
  next
    case False
    then have "load c = load (objs w ! a)" "cl_held c = cl_held (objs w ! a)" "n = client_buffers w" using f id by (simp_all add: load_def)
    then show ?thesis using ct id by (intro budgeted_put [OF b a, of w' c]) (simp_all add: e(1) counted_def)
  qed
qed

lemma budget_close:
  assumes b: "budgeted g w" and a: "a < length (objs w)"
  shows "budgeted g (schedule_close a w)"
proof (cases "cl_closed (objs w ! a)")
  case True
  then show ?thesis using b by (simp add: schedule_close_def)
next
  case False
  have "counted (objs w ! a)" using b counted_at [OF _ a] by (simp add: budgeted_def)
  then show ?thesis
    by (intro budgeted_put [OF b a, of _ "(objs w ! a)\<lparr>cl_closed := True, cl_held := 0\<rparr>"]) (simp_all add: close_result [OF False a] counted_def load_def)
qed

lemma budget_arm:
  assumes b: "budgeted g w" and a: "a < length (objs w)"
  shows "budgeted g (arm_client a wr w)"
proof -
  define c where "c = (if wr then (objs w ! a)\<lparr>write_armed := True\<rparr> else (objs w ! a)\<lparr>read_armed := True\<rparr>)"
  have "counted (objs w ! a)" using b counted_at [OF _ a] by (simp add: budgeted_def)
  then have "counted c" "load c = load (objs w ! a)" "cl_held c = cl_held (objs w ! a)" by (auto simp: c_def counted_def load_def)
  then have "budgeted g ((put a c w)\<lparr>arm_backlog := arm_backlog w @ [(a, wr)]\<rparr>)" by (intro budgeted_put [OF b a, of _ c]) simp_all
  then show ?thesis using b by (simp add: arm_client_def Let_def c_def)
qed

lemma budget_settle: "budgeted g w \<Longrightarrow> a < length (objs w) \<Longrightarrow> budgeted g (settle a r w)"
  by (simp add: settle_def budget_arm budget_close)

text \<open>The table of clients only holds addresses of objects.\<close>

definition addressed :: "world \<Rightarrow> bool" where
  "addressed w \<longleftrightarrow> snd ` set (w_clients w) \<subseteq> {..<length (objs w)}"

lemma close_clients: "set (w_clients (schedule_close a w)) \<subseteq> set (w_clients w)"
  by (auto simp: schedule_close_def Let_def track_at_def AList.delete_eq split: prod.splits)

lemma budget_deliver:
  assumes b: "budgeted g w" and t: "addressed w"
  shows "budgeted g (deliver_pubsub g m w) \<and> addressed (deliver_pubsub g m w)"
proof -
  have ent: "a < length (objs w)" if "map_of (w_clients w) fd = Some a" for fd a
    using t map_of_SomeD [OF that] by (auto simp: addressed_def)
  have len: "length (objs (deliver_pubsub g m w)) = length (objs w)" using deliver_kept [of w g m] by (simp add: all_kept_def)
  have sub: "set (w_clients (settle a r v)) \<subseteq> set (w_clients v)" for a r v
    using close_clients [of a v] by (simp add: settle_def arm_client_def Let_def)
  have enq: "w_clients v = w_clients w" if "enqueue_at g a data w = (ok, v)" for a data ok v
    using that by (auto simp: enqueue_at_def split: prod.splits)
  have fl: "w_clients v = w_clients u" if "flush_at a u = (r, v)" for a r u v using that by (auto simp: flush_at_def split: prod.splits)
  have "set (w_clients (deliver_pubsub g m w)) \<subseteq> set (w_clients w) \<and> budgeted g (deliver_pubsub g m w)"
  proof (cases rule: deliver_cases [of g m w])
    case (full a data w1)
    note a = ent [OF full(1)]
    have "a < length (objs w1)" using enqueue_at_kept(1) [OF full(3)] a by (simp add: all_kept_def)
    then show ?thesis using budget_close [OF budget_enqueue [OF b a full(3)]] close_clients [of a w1] enq [OF full(3)] by (simp add: full(4))
  next
    case (sent a data w1 r w2)
    note a = ent [OF sent(1)]
    have l: "a < length (objs w1)" "a < length (objs w2)"
      using enqueue_at_kept(1) [OF sent(3)] flush_at_kept(1) [OF sent(4)] a by (simp_all add: all_kept_def)
    show ?thesis using budget_settle [OF budget_flush [OF budget_enqueue [OF b a sent(3)] l(1) sent(4)] l(2)] sub [of a r w2]
      enq [OF sent(3)] fl [OF sent(4)] by (simp add: sent(5))
  qed (use b in simp)
  then show ?thesis using t len by (auto simp: addressed_def)
qed

lemma budget_deliveries:
  "budgeted g w \<Longrightarrow> addressed w \<Longrightarrow> budgeted g (foldl (\<lambda>w m. deliver_pubsub g m w) w ms) \<and> addressed (foldl (\<lambda>w m. deliver_pubsub g m w) w ms)"
proof (induction ms arbitrary: w)
  case (Cons m ms)
  then show ?case using budget_deliver [OF Cons.prems, of m] by simp
qed simp

lemma addressed_same: "addressed w \<Longrightarrow> w_clients w' = w_clients w \<Longrightarrow> length (objs w') = length (objs w) \<Longrightarrow> addressed w'"
  by (simp add: addressed_def)

interpretation budget_turn: whole_turn "deliver_pubsub g" g ie "\<lambda>a w. budgeted g w \<and> addressed w" for g ie
proof unfold_locales
  fix a :: nat and w w' :: world
  assume i: "budgeted g w \<and> addressed w" and a: "a < length (objs w)"
  have ct: "counted (objs w ! a)" using i counted_at [OF _ a] by (simp add: budgeted_def)
  show "budgeted g ((put a c w)\<lparr>auth_failures := f\<rparr>) \<and> addressed ((put a c w)\<lparr>auth_failures := f\<rparr>)"
    if "admits (cfg_password (g_cfg g)) args (objs w ! a) c" for args c f
    using i that ct by (auto intro!: budgeted_put [of g w a _ c] addressed_same [of w] simp: a admits_def counted_def load_def)
  show "budgeted g w' \<and> addressed w'" if q: "enqueue_at g a data w = (ok, w')" for data ok
  proof -
    obtain c n where "w' = (put a c w)\<lparr>client_buffers := n\<rparr>" by (rule enqueue_at_frame [OF q])
    then show ?thesis using i budget_enqueue [OF _ a q] by (auto intro: addressed_same)
  qed
  show "budgeted g w' \<and> addressed w'" if q: "flush_at a w = (r, w')" for r
  proof -
    obtain c n rs where "w' = (put a c w)\<lparr>client_buffers := n, sends := rs\<rparr>" by (rule flush_at_frame [OF q])
    then show ?thesis using i budget_flush [OF _ a q] by (auto intro: addressed_same)
  qed
  show "budgeted g (foldl (\<lambda>w m. deliver_pubsub g m w) (w\<lparr>net_db := d\<rparr>) sent) \<and> addressed (foldl (\<lambda>w m. deliver_pubsub g m w) (w\<lparr>net_db := d\<rparr>) sent)" for d sent
    using i by (intro budget_deliveries) (auto intro: budgeted_same addressed_same)
  show "budgeted g (consume a pos w) \<and> addressed (consume a pos w)" for pos
  proof -
    let ?c = "(objs w ! a)\<lparr>in_buf := drop pos (in_buf (objs w ! a))\<rparr>"
    obtain c n where tr: "track ?c (client_buffers w) = (c, n)" by fastforce
    note t = track_counted [of ?c "client_buffers w", unfolded tr fst_conv snd_conv]
    have e: "consume a pos w = (put a c w)\<lparr>client_buffers := n\<rparr>"
      using a tr by (simp add: consume_def track_at_def Let_def put_def)
    have "counted c" using t(1) ct by (simp add: counted_def)
    moreover have "load c \<le> load (objs w ! a)" using t(2) by (simp add: load_def)
    moreover have "client_buffers (consume a pos w) = client_buffers w - cl_held (objs w ! a) + cl_held c" using t(3) by (simp add: e)
    moreover have "objs (consume a pos w) = (objs w)[a := c]" by (simp add: e)
    ultimately have "budgeted g (consume a pos w)" using conjunct1 [OF i] budgeted_put [OF _ a] by blast
    moreover have "addressed (consume a pos w)" unfolding e using i by (auto intro: addressed_same)
    ultimately show ?thesis by blast
  qed
qed

lemma budget_serve:
  assumes b: "budgeted g w" "addressed w" and a: "a < length (objs w)" "\<not> cl_closed (objs w ! a)" and run: "serve g ie a w = (again, w')"
  shows "budgeted g w' \<and> length (objs w') = length (objs w) \<and> addressed w'"
proof -
  obtain st w1 where p: "process_buffered g ie (deliver_pubsub g) a w = (st, w1)" by fastforce
  have k: "budgeted g w1" "addressed w1" "length (objs w1) = length (objs w)"
    using budget_turn.process_keeps [OF p _ a] b by (simp_all add: others_kept_def)
  define w2 where "w2 = (if pending_out (objs w1 ! a) > 0 then arm_client a True w1 else w1)"
  have arm: "w_clients (arm_client a x v) = w_clients v \<and> length (objs (arm_client a x v)) = length (objs v)" for x v
    by (simp add: arm_client_def Let_def)
  have b2: "budgeted g w2" "addressed w2" "length (objs w2) = length (objs w)"
    using k a(1) arm budget_arm by (auto simp: w2_def intro: addressed_same)
  have cl: "addressed (schedule_close a w1)" "length (objs (schedule_close a w1)) = length (objs w)"
    using k close_others(4) [of a w1] a(1) close_clients [of a w1] by (auto simp: addressed_def)
  have w': "w' = (if st = Drop then schedule_close a w1 else arm_client a False w2)"
    using run by (auto simp: serve_def p w2_def Let_def split: if_splits)
  show ?thesis
  proof (cases "st = Drop")
    case True
    then show ?thesis using budget_close [OF k(1), of a] cl k(3) a(1) by (simp add: w')
  next
    case False
    have "addressed (arm_client a False w2)" using arm [of False w2] by (intro addressed_same [OF b2(2)]) simp_all
    then show ?thesis using False budget_arm [OF b2(1), of a False] arm [of False w2] b2(3) a(1) by (simp add: w')
  qed
qed

text \<open>Reading stops at the first chunk that goes over the limit; the client is then closed.\<close>

lemma drain_budget:
  assumes "drain_read g rs c n = (ok, c', n')" "counted c" "\<not> cl_closed c" "n = of_nat (k + load c)" "k + load c \<le> limit g" "limit g < 2 ^ 63"
  shows "counted c' \<and> n' = n - cl_held c + cl_held c' \<and> (ok \<longrightarrow> k + load c' \<le> limit g)"
  using assms
proof (induction rs arbitrary: c n)
  case Nil
  then show ?case by (auto simp: drain_read.simps [of g "[]"] split: if_splits)
next
  case (Cons x rs)
  show ?case
  proof (cases "length (in_buf c) \<ge> input_cap c")
    case True
    then have "c' = c" "n' = n" using Cons.prems(1) by (simp_all add: drain_read.simps [of g "x # rs"])
    then show ?thesis using Cons.prems by simp
  next
    case False
    show ?thesis
    proof (cases x)
      case (Got s)
      let ?t = "take READ_CHUNK s" let ?c1 = "c\<lparr>in_buf := in_buf c @ ?t\<rparr>"
      have ss: "ssl c = None" using Cons.prems(2) by (simp add: counted_def)
      obtain c2 n2 where k: "track ?c1 n = (c2, n2)" by fastforce
      have tr: "c2 = fst (track ?c1 n)" "n2 = snd (track ?c1 n)" by (simp_all only: k fst_conv snd_conv)
      have "counted c2" unfolding tr(1) by (rule track_counted(1)) (simp add: ss)
      moreover have "load c2 = load c + length ?t" unfolding tr(1) track_counted(2) using Cons.prems(3) by (simp add: load_def)
      moreover have "\<not> cl_closed c2" using Cons.prems(3) by (simp add: tr(1))
      ultimately have c2: "counted c2" "load c2 = load c + length ?t" "\<not> cl_closed c2" by simp_all
      have n2: "n2 = n - cl_held c + cl_held c2" unfolding tr(2) track_counted(3) tr(1) by simp
      have "cl_held c2 = of_nat (load c) + of_nat (length ?t)" "cl_held c = of_nat (load c)" using c2(1,2) Cons.prems(2) by (simp_all add: counted_def)
      then have n2': "n2 = of_nat (k + load c2)" using n2 Cons.prems(4) c2(2) by simp
      have over: "over_buffer_budget g n2 0 \<longleftrightarrow> limit g < k + load c2"
        using over_budget [OF Cons.prems(6) n2', of 0] Cons.prems(5,6) c2(2) by (simp add: READ_CHUNK_def min_def)
      have run: "(if ?t = [] then (False, c, n) else if over_buffer_budget g n2 0 then (False, c2, n2)
          else if length ?t < READ_CHUNK then (True, c2, n2) else drain_read g rs c2 n2) = (ok, c', n')"
        using Cons.prems(1) unfolding Got drain_read.simps [of g "Got s # rs"] if_not_P [OF False] list.case read_result.case Let_def ss option.case prod.case k not_True_eq_False if_False .
      consider "?t = []" "c' = c" "n' = n" "\<not> ok" | "over_buffer_budget g n2 0" "c' = c2" "n' = n2" "\<not> ok"
        | "\<not> over_buffer_budget g n2 0" "c' = c2" "n' = n2"
        | "\<not> over_buffer_budget g n2 0" "drain_read g rs c2 n2 = (ok, c', n')" using run by (auto split: if_splits)
      then show ?thesis
      proof cases
        case 4
        have "k + load c2 \<le> limit g" using 4(1) over by simp
        from Cons.IH [OF 4(2) c2(1,3) n2' this Cons.prems(6)] show ?thesis using n2 by simp
      qed (use Cons.prems(2) c2 n2 over in auto)
    next
      case ReadIntr
      then show ?thesis using Cons.IH [of c n] Cons.prems False by (simp add: drain_read.simps [of g "ReadIntr # rs"])
    next
      case ReadAgain
      then show ?thesis using Cons.prems False by (auto simp: drain_read.simps [of g "ReadAgain # rs"])
    next
      case ReadError
      then show ?thesis using Cons.prems False by (auto simp: drain_read.simps [of g "ReadError # rs"])
    qed
  qed
qed

section \<open>The loop\<close>

lemma inv_addressed: "loop_inv g X Y w \<Longrightarrow> addressed w"
  by (auto simp: loop_inv_def table_ok_def addressed_def)

lemma budget_pump:
  "budgeted g w \<Longrightarrow> addressed w \<Longrightarrow> set as \<subseteq> {..<length (objs w)} \<Longrightarrow> budgeted g (foldl (pump_client g ie) w as)"
proof (induction "as" arbitrary: w)
  case (Cons a as)
  have "budgeted g (pump_client g ie w a) \<and> addressed (pump_client g ie w a) \<and> length (objs (pump_client g ie w a)) = length (objs w)"
  proof (cases "cl_closed (objs w ! a) \<or> in_buf (objs w ! a) = []")
    case True
    then show ?thesis using Cons.prems by (auto simp: pump_client_def)
  next
    case False
    obtain again w1 where s: "serve g ie a w = (again, w1)" by fastforce
    have b1: "budgeted g w1" "length (objs w1) = length (objs w)" "addressed w1" using budget_serve [OF Cons.prems(1,2) _ _ s] False Cons.prems(3) by simp_all
    moreover have "budgeted g (queue_work w1)" by (rule budgeted_same [OF b1(1)]) (simp_all add: queue_work_def)
    moreover have "addressed (queue_work w1)" by (rule addressed_same [OF b1(3)]) (simp_all add: queue_work_def)
    ultimately show ?thesis using False s by (simp add: pump_client_def) (simp add: queue_work_def)
  qed
  then show ?case using Cons.IH [of "pump_client g ie w a"] Cons.prems(3) by simp
qed simp

lemma budget_add: "budgeted g w \<Longrightarrow> budgeted g (add_client g fd now w)"
proof -
  assume b: "budgeted g w"
  define w1 where "w1 = w\<lparr>objs := objs w @ [new_client g fd now], w_clients := AList.update fd (length (objs w)) (w_clients w), open_fds := fd # open_fds w\<rparr>"
  have "counted (new_client g fd now)" "load (new_client g fd now) = 0" using b by (simp_all add: new_client_def counted_def load_def budgeted_def)
  then have "budgeted g w1" using b by (simp add: budgeted_def exact_def loads_def w1_def)
  then have "budgeted g (arm_client (length (objs w)) False w1)" by (rule budget_arm) (simp add: w1_def)
  then show ?thesis by (simp add: add_client_def w1_def Let_def)
qed

lemma budget_sqe: "budgeted g w \<Longrightarrow> budgeted g (arm_listener w)" "budgeted g w \<Longrightarrow> budgeted g (arm_eventfd w)"
  by (auto simp: arm_listener_def arm_eventfd_def get_sqe_def intro: budgeted_same split: list.split)

lemma budget_accept: "budgeted g w \<Longrightarrow> budgeted g (cqe_accept g res now w)"
proof -
  assume b: "budgeted g w"
  have s: "budgeted g (w\<lparr>accepts := n\<rparr>)" "budgeted g (w\<lparr>accepts := n, accept_failures := k, last_accept_error := e\<rparr>)"
    "budgeted g (w\<lparr>accepts := n, accept_failures := k, last_accept_error := e, accept_paused := True\<rparr>)" for n k e
    by (rule budgeted_same [OF b]; simp)+
  show ?thesis using s(3) budget_sqe(1) [OF s(1)] budget_sqe(1) [OF s(2)] budget_sqe(1) [OF budget_add [OF s(1)]]
    by (simp add: cqe_accept_def Let_def)
qed

lemma budget_poll:
  assumes b: "budgeted g w" "addressed w" and t: "fst t < length (objs w)"
  shows "budgeted g (cqe_poll g ie t rs w)"
proof -
  obtain a wr where ab: "t = (a, wr)" by fastforce
  define w1 where "w1 = w\<lparr>in_ring := remove1 t (in_ring w)\<rparr>"
  have b1: "budgeted g w1" by (rule budgeted_same [OF b(1)]) (simp_all add: w1_def)
  have ad1: "addressed w1" by (rule addressed_same [OF b(2)]) (simp_all add: w1_def)
  have a: "a < length (objs w1)" using t by (simp add: ab w1_def)
  have ct: "counted (objs w1 ! a)" using b1 counted_at [OF _ a] by (simp add: budgeted_def)
  show ?thesis
  proof (cases "cl_closed (objs w ! a)")
    case True
    then show ?thesis using b1 by (simp add: cqe_poll_def ab w1_def)
  next
    case op: False
    show ?thesis
    proof (cases wr)
      case True
      define w2 where "w2 = put a ((objs w1 ! a)\<lparr>write_armed := False\<rparr>) w1"
      have "budgeted g w2"
        by (rule budgeted_put [OF b1 a, of w2 "(objs w1 ! a)\<lparr>write_armed := False\<rparr>"]) (use ct in \<open>simp_all add: w2_def counted_def load_def\<close>)
      then have b2: "budgeted g w2" "a < length (objs w2)" using a by (simp_all add: w2_def)
      obtain r w3 where f: "flush_at a w2 = (r, w3)" by fastforce
      have "a < length (objs w3)" using flush_at_kept(1) [OF f] b2(2) by (simp add: all_kept_def)
      then have "budgeted g (settle a r w3)" by (rule budget_settle [OF budget_flush [OF b2 f]])
      then show ?thesis using op True f by (simp add: cqe_poll_def ab poll_write_def settle_def w2_def w1_def)
    next
      case False
      let ?c = "(objs w1 ! a)\<lparr>read_armed := False\<rparr>"
      obtain ok c n where d: "drain_read g rs ?c (client_buffers w1) = (ok, c, n)" by (metis prod_cases3)
      define w3 where "w3 = (put a c w1)\<lparr>client_buffers := n\<rparr>"
      have ex: "exact w1" "limit g < 2 ^ 63" "loads w1 \<le> limit g" using b1 by (simp_all add: budgeted_def)
      have lc: "load ?c = load (objs w1 ! a)" "cl_held ?c = cl_held (objs w1 ! a)" "counted ?c" "\<not> cl_closed ?c"
        using ct op by (simp_all add: load_def counted_def w1_def)
      have sum: "loads w1 - load ?c + load ?c = loads w1" using load_le [OF a] lc(1) by simp
      note db = drain_budget [OF d lc(3,4), of "loads w1 - load ?c", unfolded sum]
      have dr: "counted c" "n = client_buffers w1 - cl_held (objs w1 ! a) + cl_held c" "ok \<Longrightarrow> loads w1 - load (objs w1 ! a) + load c \<le> limit g"
        using db ex lc(1,2) by (simp_all add: exact_def)
      have o3: "objs w3 = (objs w1)[a := c]" "a < length (objs w3)" "client_buffers w3 = n" "\<not> cl_closed (objs w3 ! a)"
        using a drain_read_frame [OF d] lc(4) by (simp_all add: w3_def link_def)
      have p3: "exact w3" "loads w3 + load (objs w1 ! a) = loads w1 + load c" using exact_put [OF ex(1) a o3(1) dr(1)] o3(3) dr(2) by simp_all
      have b3: "budgeted g w3" if ok using p3 dr(3) [OF that] load_le [OF a] b1 by (simp add: budgeted_def)
      have ad3: "addressed w3" by (rule addressed_same [OF ad1]) (simp_all add: w3_def)
      have cl: "budgeted g (schedule_close a w3)"
      proof -
        let ?e = "c\<lparr>cl_closed := True, cl_held := 0\<rparr>"
        have "objs w3 ! a = c" using o3(1) a by simp
        then have s: "objs (schedule_close a w3) = (objs w3)[a := ?e]" "client_buffers (schedule_close a w3) = client_buffers w3 - cl_held (objs w3 ! a) + cl_held ?e"
          using close_result [OF o3(4,2)] by simp_all
        have ce: "counted ?e" "load ?e = 0" using dr(1) by (simp_all add: counted_def load_def)
        note x = exact_put [OF p3(1) o3(2) s(1) ce(1) s(2)]
        have "loads (schedule_close a w3) \<le> loads w1" using x(2) p3(2) ce(2) \<open>objs w3 ! a = c\<close> load_le [OF a] by simp
        then show ?thesis using x(1) b1 by (simp add: budgeted_def)
      qed
      obtain again w4 where s: "serve g ie a w3 = (again, w4)" by fastforce
      have b4: "budgeted g w4" "length (objs w4) = length (objs w3)" if ok using budget_serve [OF b3 [OF that] ad3 o3(2,4) s] by simp_all
      have q: "budgeted g (queue_work w4)" if ok by (rule budgeted_same [OF b4(1) [OF that]]) (simp_all add: queue_work_def)
      have "cqe_poll g ie t rs w = poll_read g ie a rs w1" using op False by (simp add: cqe_poll_def ab w1_def)
      then have "cqe_poll g ie t rs w = (if \<not> ok then schedule_close a w3 else if again then queue_work w4
          else if length (in_buf (objs w4 ! a)) \<ge> input_cap (objs w4 ! a) then schedule_close a w4 else w4)"
        unfolding poll_read_def by (simp only: d prod.case Let_def s flip: w3_def)
      then show ?thesis using cl b4 q budget_close [of g w4 a] o3(2) by simp
    qed
  qed
qed

lemma budget_closes: "budgeted g w \<Longrightarrow> set as \<subseteq> {..<length (objs w)} \<Longrightarrow> budgeted g (foldl (\<lambda>w a. schedule_close a w) w as)"
proof (induction "as" arbitrary: w)
  case (Cons a as)
  then show ?case using Cons.IH [of "schedule_close a w"] budget_close [of g w a] close_others(4) [of a w] by simp
qed simp

lemma budget_step:
  assumes "loop_step g w w'" and inv: "loop_inv g {} {} w" and b: "budgeted g w"
  shows "budgeted g w'"
  using assms(1)
proof cases
  case submit
  have "client_buffers (submit_loop ts k v) = client_buffers v" for ts k v
    by (induction ts k v rule: submit_loop.induct) (auto simp: get_sqe_def split: list.splits)
  then have "budgeted g (submit_backlog w)"
    using submit_loop_moves [of "arm_backlog w" "[]" w] by (intro budgeted_same [OF b]) (simp_all add: submit_backlog_def)
  then show ?thesis using submit by simp
next
  case rearm
  then show ?thesis using budget_sqe b by simp
next
  case (complete e ie)
  have ad: "set (map snd (w_clients w)) \<subseteq> {..<length (objs w)}" using inv_addressed [OF inv] by (simp add: addressed_def)
  show ?thesis
  proof (cases e)
    case (Accepted res now)
    then show ?thesis using complete budget_accept [OF b] by simp
  next
    case EventRead
    let ?w = "w\<lparr>event_reads := event_reads w - 1, event_count := 0\<rparr>"
    have "budgeted g ?w" by (rule budgeted_same [OF b]) simp_all
    then have "budgeted g (arm_eventfd ?w)" by (rule budget_sqe(2))
    moreover have "objs (arm_eventfd ?w) = objs w" "w_clients (arm_eventfd ?w) = w_clients w"
      by (auto simp: arm_eventfd_def get_sqe_def split: list.split)
    ultimately show ?thesis using complete EventRead budget_pump [of g "arm_eventfd ?w" "map snd (w_clients w)" ie] ad
      by (simp add: cqe_eventfd_def pump_work_def addressed_def)
  next
    case (Polled t rs)
    then have "fst t < length (objs w)" using complete inv by (auto simp: loop_inv_def table_ok_def)
    then show ?thesis using complete Polled budget_poll [OF b inv_addressed [OF inv]] by simp
  qed
next
  case (tick now)
  have "set (map snd (w_clients w)) \<subseteq> {..<length (objs w)}" using inv_addressed [OF inv] by (simp add: addressed_def)
  then have "budgeted g (close_unauthenticated now w)" unfolding close_unauthenticated_def by (intro budget_closes [OF b]) auto
  then have s: "budgeted g ((close_unauthenticated now w)\<lparr>auth_failures := 0, accept_failures := 0\<rparr>)"
    "budgeted g ((close_unauthenticated now w)\<lparr>auth_failures := 0, accept_failures := 0, accept_paused := False\<rparr>)"
    by (rule budgeted_same; simp)+
  then show ?thesis using tick budget_sqe(1) [OF s(2)] by (simp add: sweep_def Let_def)
next
  case (world_moves d rs bs)
  then show ?thesis by (intro budgeted_same [OF b]) simp_all
qed

text \<open>
  C16. The buffers of all clients stay within the limit. On a server without TLS whose limit is below \<^verbatim>\<open>2^63\<close>, in every
  state of the loop the counter the server keeps is exactly the number of bytes in the buffers of the open clients, and
  that number is at most \<open>SOMNIUM_MAX_CLIENT_BUFFERS\<close>: the wrapping additions and subtractions on the 64-bit counter never
  lose a byte, closed clients hold nothing, and a client that goes over is gone at the end of its turn.
\<close>

theorem buffers_within_limit:
  assumes "known_clients {} d" "serving g d w" "g_tls g = None" "cfg_max_client_buffers (g_cfg g) < 2 ^ 63"
  shows "unat (client_buffers w) = loads w \<and> loads w \<le> unat (cfg_max_client_buffers (g_cfg g))"
proof -
  have lim: "limit g < 2 ^ 63" using assms(4) by (simp add: limit_def word_less_nat_alt)
  have "serving g d w \<and> budgeted g w" using assms(2) unfolding serving_def
  proof (induction rule: rtranclp_induct)
    case base
    have "budgeted g (start_world d)"
      using assms(3) lim by (simp add: start_world_def arm_listener_def arm_eventfd_def get_sqe_def budgeted_def exact_def loads_def)
    then show ?case by simp
  next
    case (step u v)
    then show ?case using budget_step [OF step(2) serving_inv [OF assms(1)]] by (auto simp: serving_def)
  qed
  then have "client_buffers w = of_nat (loads w)" "loads w \<le> limit g" by (simp_all add: budgeted_def exact_def)
  then show ?thesis using lim unat_of_nat_u64 [of "loads w"] by (simp add: limit_def)
qed

theorem buffers_within_limit_witness:
  "unat (client_buffers ex_joined) = loads ex_joined \<and> loads ex_joined \<le> 2 ^ 30"
  using buffers_within_limit [OF ex_known ex_serving] by (simp add: ex_net_def default_config_def)

end
