(* ===== verification/Watchdog.thy ===== *)
theory Watchdog
  imports Event_Loop
begin

text \<open>
  The watchdog, \<^verbatim>\<open>src/src/server/watchdog.cpp\<close>: its thread wakes up every half second and, every tenth time, drops the expired keys
  and puts idle rooms to sleep. One round is a function of whether the server is still running, of the thread's
  counter and of the database; a round is also a step the event loop allows between two of its actions.
\<close>

definition watchdog_round :: "bool \<Rightarrow> nat \<Rightarrow> database \<Rightarrow> nat \<times> database" where
  "watchdog_round running ticks d =
     (if running then
        (Suc ticks, if Suc ticks mod 10 = 0 then hibernate_inactive_rooms (clean_expired_keys d) else d)
      else (ticks, d))"

lemma expire_loop_fewer:
  "set (room_keys (fst (expire_loop kvs c))) \<subseteq> set (room_keys (fst c)) \<and> length (room_keys (fst (expire_loop kvs c))) \<le> length (room_keys (fst c)) \<and>
   rooms (snd (expire_loop kvs c)) = rooms (snd c) \<and> room_name (fst (expire_loop kvs c)) = room_name (fst c)"
proof (induction kvs arbitrary: c)
  case (Cons x kvs)
  obtain key r where x: "x = (key, r)" by fastforce
  obtain room d where c: "c = (room, d)" by fastforce
  let ?c = "if expired r (now_ms d) then erase key r c else c"
  have "set (room_keys (fst ?c)) \<subseteq> set (room_keys room) \<and> length (room_keys (fst ?c)) \<le> length (room_keys room) \<and> rooms (snd ?c) = rooms d \<and> room_name (fst ?c) = room_name room"
    by (auto simp: c erase_def db_charge_def charge_def count_key_def AList.delete_eq Let_def intro: le_trans [OF length_filter_le] split: prod.splits)
  then show ?case using Cons.IH [of ?c] by (auto simp: x c)
qed simp

lemma clean_room_storable:
  assumes "all_storable d"
  shows "all_storable (clean_room d name)"
proof (cases "map_of (rooms d) name")
  case None
  then show ?thesis using assms by (simp add: clean_room_def)
next
  case (Some room)
  obtain room' d' where e: "expire_loop (room_keys room) (room, d) = (room', d')" by fastforce
  have f: "set (room_keys room') \<subseteq> set (room_keys room)" "length (room_keys room') \<le> length (room_keys room)" "rooms d' = rooms d" "room_name room' = room_name room"
    using expire_loop_fewer [of "room_keys room" "(room, d)"] by (simp_all add: e)
  have "sized room" "normal_versions room" using assms Some by (auto simp: all_storable_def)
  then have "sized room'" "normal_versions room'" using f(1,2) by (auto simp: sized_def normal_versions_def)
  then show ?thesis using assms Some e f(3) by (auto simp: clean_room_def put_room_def all_storable_def update_conv')
qed

lemma clean_storable: "all_storable d \<Longrightarrow> all_storable (clean_expired_keys d)"
proof -
  have "all_storable d \<Longrightarrow> all_storable (foldl clean_room d ns)" for ns
    by (induction ns arbitrary: d) (simp_all add: clean_room_storable)
  then show "all_storable d \<Longrightarrow> all_storable (clean_expired_keys d)" by (simp add: clean_expired_keys_def)
qed

text \<open>
  Maintenance loses nothing. A round of the watchdog keeps the invariant of the server, changes no record of any room that has not
  expired, whether its room stays awake or is written to its snapshot, and leaves the tables of clients alone, so that it
  is one of the steps the event loop allows for. Rounds other than every tenth, and a round after the server has
  stopped, leave the database untouched.
\<close>

theorem watchdog_keeps:
  assumes "server_ok F d" "all_storable d" and run: "watchdog_round running ticks d = (ticks', d')"
  shows "server_ok F d' \<and> (\<forall>n. agree (now_ms d) (logical d' n) (logical d n)) \<and>
    (net_db w = d \<longrightarrow> loop_step g w (w\<lparr>net_db := d'\<rparr>)) \<and> (\<not> running \<or> Suc ticks mod 10 \<noteq> 0 \<longrightarrow> d' = d)"
proof -
  have reg: "registry_ok d" using assms(1) by (simp add: server_ok_def)
  note c = clean_step [OF reg]
  have st: "all_storable (clean_expired_keys d)" by (rule clean_storable [OF assms(2)])
  have "registry_ok (clean_expired_keys d)" using c by (simp add: db_step_def)
  from db_step_trans [OF c hibernate_inactive_step [OF this st]] db_step_refl [OF reg] have s: "db_step d [] d'"
    using run by (auto simp: watchdog_round_def split: if_splits)
  have "sess d' = sess d" using s by (simp add: db_step_def sess_def)
  then have "loop_step g w (w\<lparr>net_db := d'\<rparr>)" if "net_db w = d"
    using loop_step.world_moves [where d = d' and w = w and rs = "sends w" and bs = "sqes w"] that by simp
  moreover have "server_ok F d'"
    using server_effect [OF assms(1) effect_step [OF s]] known_step [OF s] assms(1) by (simp add: server_ok_def)
  moreover have "agree (now_ms d) (logical d' n) (logical d n)" for n using s by (auto simp: db_step_def)
  moreover have "d' = d" if "\<not> running \<or> Suc ticks mod 10 \<noteq> 0" using run that by (auto simp: watchdog_round_def split: if_splits)
  ultimately show ?thesis by blast
qed

theorem watchdog_keeps_witness:
  "case watchdog_round True 9 ex_logged of (ticks', d') \<Rightarrow> server_ok {7} d' \<and> agree (now_ms ex_logged) (logical d' ''default'') (logical ex_logged ''default'')"
proof -
  obtain t' d' where r: "watchdog_round True 9 ex_logged = (t', d')" by fastforce
  show ?thesis using watchdog_keeps [OF ex_server(1,3) r] unfolding r by simp
qed

end
