(* ===== verification/Startup.thy ===== *)
theory Startup
  imports Config
begin

text \<open>
  The start of the server, \<^verbatim>\<open>main\<close> of \<^verbatim>\<open>src/main.cpp\<close> up to its loop, and \<^verbatim>\<open>load_tls\<close>: the checks in their order and
  the actions between them. The answers of the system and of OpenSSL are arguments. The result is the list of
  actions taken, and either an exit code or the configuration the loop runs with.
\<close>

section \<open>Loading the certificate\<close>

text \<open>What OpenSSL answers: whether a context and its minimal version can be set, whether a file is a certificate chain or a key, and
  whether the two loaded belong together.\<close>

record ssl_files =
  ctx_ok :: bool
  version_ok :: bool
  chain_ok :: "string \<Rightarrow> bool"
  key_ok :: "string \<Rightarrow> bool"
  pair_ok :: "string \<Rightarrow> string \<Rightarrow> bool"

text \<open>Whether the server may start, and whether the context is then set.\<close>

definition load_tls :: "ssl_files \<Rightarrow> config \<Rightarrow> bool \<times> bool" where
  "load_tls s cfg =
     (case (cfg_tls_cert cfg, cfg_tls_key cfg) of
        (None, None) \<Rightarrow> (True, False)
      | (Some cert, Some key) \<Rightarrow>
          (ctx_ok s \<and> version_ok s \<and> chain_ok s cert \<and> key_ok s key \<and> pair_ok s cert key, ctx_ok s)
      | _ \<Rightarrow> (False, ctx_ok s))"

section \<open>The start\<close>

datatype action = Umask | StartExporter string | IgnoreSignals | BindTo string u16 | CloseListener | OpenData config | Listen | SetSink
  | ArmListener | ArmEventfd | StartWatchdog | StartReplicator config bool

datatype start_result = Exit nat | Running config bool

record start_env =
  se_environ :: environ
  se_rlimit :: "rlimits option"
  se_setrlimit :: bool
  se_ssl :: ssl_files
  se_eventfd :: bool
  se_bind :: bool
  se_ring :: bool

text \<open>From the sockets on, with the configuration checked.\<close>

definition start_serving :: "start_env \<Rightarrow> config \<Rightarrow> bool \<Rightarrow> action list \<times> start_result" where
  "start_serving e cfg tls =
     (let addr = BindTo (cfg_bind cfg) (word_of_int (cfg_port cfg)) in
      if \<not> se_eventfd e then ([], Exit 1)
      else if \<not> se_bind e then ([addr, CloseListener], Exit 1)
      else if \<not> se_ring e then ([addr], Exit 1)
      else
        ([addr, OpenData cfg, Listen, SetSink, ArmListener, ArmEventfd, StartWatchdog, StartReplicator cfg tls], Running cfg tls))"

definition start_server :: "start_env \<Rightarrow> action list \<times> start_result" where
  "start_server e =
     (case load_config (se_environ e) of
        None \<Rightarrow> ([Umask], Exit 1)
      | Some loaded \<Rightarrow>
          (case fit_fd_limit (se_rlimit e) (se_setrlimit e) loaded of
             None \<Rightarrow> ([Umask], Exit 1)
           | Some (cfg, _) \<Rightarrow>
               (case load_tls (se_ssl e) cfg of
                  (ok, tls) \<Rightarrow>
                    if \<not> ok then ([Umask], Exit 1)
                    else
                      (case start_serving e cfg tls of
                         (acts, res) \<Rightarrow>
                           (Umask # (if cfg_metrics cfg then [StartExporter (cfg_metrics_bind cfg)] else []) @ [IgnoreSignals] @ acts, res)))))"

section \<open>What a start guarantees\<close>

text \<open>The actions that touch the data directory or let clients in.\<close>

fun serves_data :: "action \<Rightarrow> bool" where
  "serves_data (OpenData cfg) = True"
| "serves_data Listen = True"
| "serves_data SetSink = True"
| "serves_data ArmListener = True"
| "serves_data ArmEventfd = True"
| "serves_data StartWatchdog = True"
| "serves_data (StartReplicator cfg tls) = True"
| "serves_data a = False"

lemma fit_fd_limit_config:
  assumes "fit_fd_limit got ok cfg = Some (cfg', cur)" "config_ok cfg"
  shows "config_ok cfg' \<and> cfg_tls_cert cfg' = cfg_tls_cert cfg \<and> cfg_tls_key cfg' = cfg_tls_key cfg"
proof -
  have "\<exists>n. cfg' = cfg\<lparr>cfg_maxclients := n\<rparr> \<and> n \<noteq> 0"
  proof (cases got)
    case None
    then show ?thesis using assms by (intro exI [of _ "cfg_maxclients cfg"]) (simp add: fit_fd_limit_def config_ok_def)
  next
    case (Some lim)
    then show ?thesis using assms unfolding fit_fd_limit_def Let_def config_ok_def
      by (simp only: option.case split: if_split_asm) (auto intro: exI [of _ "cfg_maxclients cfg"])
  qed
  then show ?thesis using assms(2) by (auto simp: config_ok_def)
qed

lemma load_tls_on:
  assumes "load_tls s cfg = (True, tls)"
  shows "tls \<longleftrightarrow> cfg_tls_cert cfg \<noteq> None \<or> cfg_tls_key cfg \<noteq> None"
  using assms by (auto simp: load_tls_def split: option.splits)

lemma start_server_cases:
  obtains (refused) pre where "start_server e = (pre, Exit 1)" "list_all (\<lambda>a. \<not> serves_data a) pre"
  | (runs) loaded cfg cur tls pre where "load_config (se_environ e) = Some loaded" "fit_fd_limit (se_rlimit e) (se_setrlimit e) loaded = Some (cfg, cur)"
      "load_tls (se_ssl e) cfg = (True, tls)" "list_all (\<lambda>a. \<not> serves_data a) pre"
      "start_server e = (Umask # pre @ [OpenData cfg, Listen, SetSink, ArmListener, ArmEventfd, StartWatchdog, StartReplicator cfg tls], Running cfg tls)"
proof (cases "load_config (se_environ e)")
  case None
  then show ?thesis by (intro refused [of "[Umask]"]) (simp_all add: start_server_def)
next
  case (Some loaded)
  show ?thesis
  proof (cases "fit_fd_limit (se_rlimit e) (se_setrlimit e) loaded")
    case None
    then show ?thesis using Some by (intro refused [of "[Umask]"]) (simp_all add: start_server_def)
  next
    case fit: (Some p)
    obtain cfg cur where p: "p = (cfg, cur)" by fastforce
    obtain ok tls where t: "load_tls (se_ssl e) cfg = (ok, tls)" by fastforce
    define pre where "pre = (if cfg_metrics cfg then [StartExporter (cfg_metrics_bind cfg)] else []) @ [IgnoreSignals]"
    have q: "list_all (\<lambda>a. \<not> serves_data a) pre" by (simp add: pre_def)
    let ?b = "BindTo (cfg_bind cfg) (word_of_int (cfg_port cfg))"
    have run: "start_server e = (if \<not> ok then ([Umask], Exit 1) else (Umask # pre @ fst (start_serving e cfg tls), snd (start_serving e cfg tls)))"
      using Some fit p t by (simp add: start_server_def pre_def case_prod_unfold)
    consider "\<not> ok" | "ok" "\<not> se_eventfd e" | "ok" "se_eventfd e" "\<not> se_bind e" | "ok" "se_eventfd e" "se_bind e" "\<not> se_ring e"
      | "ok" "se_eventfd e" "se_bind e" "se_ring e" by blast
    then show ?thesis
    proof cases
      case 1
      then show ?thesis using run by (intro refused [of "[Umask]"]) simp_all
    next
      case 2
      then show ?thesis using run q by (intro refused [of "Umask # pre"]) (simp_all add: start_serving_def)
    next
      case 3
      then show ?thesis using run q by (intro refused [of "Umask # pre @ [?b, CloseListener]"]) (simp_all add: start_serving_def)
    next
      case 4
      then show ?thesis using run q by (intro refused [of "Umask # pre @ [?b]"]) (simp_all add: start_serving_def)
    next
      case 5
      then show ?thesis using run q Some fit p t by (intro runs [of loaded cfg cur tls "pre @ [?b]"]) (simp_all add: start_serving_def)
    qed
  qed
qed

text \<open>
  C36. A start is safe or it does not touch the data. When a check fails, the process exits with code 1 and has not opened the
  data directory, accepted a client or started the watchdog or the replication. When all pass, the data is opened, and
  replayed, before the port listens; the configuration is sound, in particular the server is not reachable
  from the network without a password; and TLS is on exactly when a certificate or a key is configured: a server
  that was meant to encrypt never runs in the clear.
\<close>

theorem start_safe_or_refused:
  assumes "start_server e = (acts, res)"
  shows "(case res of
      Exit n \<Rightarrow> n = 1 \<and> list_all (\<lambda>a. \<not> serves_data a) acts
    | Running cfg tls \<Rightarrow> config_ok cfg \<and> (tls \<longleftrightarrow> cfg_tls_cert cfg \<noteq> None \<or> cfg_tls_key cfg \<noteq> None) \<and>
        (\<exists>pre. list_all (\<lambda>a. \<not> serves_data a) pre \<and>
           acts = Umask # pre @ [OpenData cfg, Listen, SetSink, ArmListener, ArmEventfd, StartWatchdog, StartReplicator cfg tls]))"
proof (cases rule: start_server_cases [of e])
  case (refused pre)
  then show ?thesis using assms by simp
next
  case (runs loaded cfg cur tls pre)
  have "config_ok cfg" using fit_fd_limit_config [OF runs(2) config_sound [OF runs(1)]] by simp
  then show ?thesis using assms runs(4,5) load_tls_on [OF runs(3)] by auto
qed

definition ex_start :: start_env where
  "ex_start = \<lparr>se_environ = [''SOMNIUM_TLS_CERT'' \<mapsto> ''c''], se_rlimit = None, se_setrlimit = False,
     se_ssl = \<lparr>ctx_ok = True, version_ok = True, chain_ok = (\<lambda>_. True), key_ok = (\<lambda>_. True), pair_ok = (\<lambda>_ _. True)\<rparr>,
     se_eventfd = True, se_bind = True, se_ring = True\<rparr>"

theorem start_safe_or_refused_witness:
  "start_server ex_start = ([Umask], Exit 1) \<and> list_all (\<lambda>a. \<not> serves_data a) [Umask]"
proof -
  have s: "split_on (CHR ''.'') ''127.0.0.1'' = [''127'', ''0'', ''0'', ''1'']" by (simp add: split_on.simps)
  have i: "inet_pton4 ''127.0.0.1'' = Some [127, 0, 0, 1]" unfolding inet_pton4_def s by (simp add: octet_def is_digit_def digit_val_def)
  obtain cfg where c: "load_config (se_environ ex_start) = Some cfg" "cfg_tls_cert cfg = Some ''c''" "cfg_tls_key cfg = None"
    by (simp add: load_config_def ex_start_def strict_def text_or_def i default_config_def load_tuning_def Let_def)
  have r: "start_server ex_start = ([Umask], Exit 1)"
    using c by (simp add: start_server_def) (simp add: ex_start_def fit_fd_limit_def load_tls_def Let_def)
  show ?thesis using start_safe_or_refused [OF r] r by simp
qed

end
