(* ===== verification/Peer_Link.thy ===== *)
theory Peer_Link
  imports Prelude
begin

text \<open>
  The connection to a replication peer, \<^verbatim>\<open>connect_to\<close> of \<^verbatim>\<open>src/src/storage/replicator.cpp\<close>: the addresses of a host are tried
  in turn with a non-blocking connect, bounded by \<^verbatim>\<open>poll\<close>.

  The descriptors of the process are a table; a new one is the lowest that is free, as POSIX prescribes. The addresses
  and what the system calls answer for each are an argument. A flag or a timeout is part of the socket; a
  failed \<^verbatim>\<open>fcntl\<close> or \<^verbatim>\<open>setsockopt\<close>, which the code does not look at, leaves it as it was.
\<close>

section \<open>Descriptors\<close>

record sock =
  sk_nonblock :: bool
  sk_rcvtimeo_ms :: "nat option"
  sk_sndtimeo_ms :: "nat option"

type_synonym fd_table = "(nat \<times> sock) list"

definition open_fds :: "fd_table \<Rightarrow> nat list" where
  "open_fds fds = map fst fds"

definition fresh_fd :: "fd_table \<Rightarrow> nat" where
  "fresh_fd fds = hd (filter (\<lambda>n. n \<notin> set (open_fds fds)) [0..<Suc (length fds)])"

section \<open>Connecting\<close>

definition kIoTimeoutMs :: nat where "kIoTimeoutMs = 2000"

datatype connect_result = Connect_ok | Connect_in_progress | Connect_failed

record candidate =
  ca_socket :: bool
  ca_connect :: connect_result
  ca_poll :: int
  ca_getsockopt :: bool
  ca_so_error :: int

definition answered :: "candidate \<Rightarrow> bool" where
  "answered a \<longleftrightarrow>
     ca_connect a = Connect_ok \<or> (ca_connect a = Connect_in_progress \<and> ca_poll a = 1 \<and> ca_getsockopt a \<and> ca_so_error a = 0)"

fun connect_loop :: "candidate list \<Rightarrow> fd_table \<Rightarrow> nat option \<times> fd_table" where
  "connect_loop [] fds = (None, fds)"
| "connect_loop (a # as) fds =
     (if \<not> ca_socket a then connect_loop as fds
      else
        (let fd = fresh_fd fds; fds1 = (fd, \<lparr>sk_nonblock = True, sk_rcvtimeo_ms = None, sk_sndtimeo_ms = None\<rparr>) # fds in
         if answered a then (Some fd, fds1) else connect_loop as (AList.delete fd fds1)))"

record connect_env =
  ce_resolved :: "candidate list option"
  ce_fcntl :: bool
  ce_rcvtimeo :: bool
  ce_sndtimeo :: bool

definition settle :: "connect_env \<Rightarrow> sock \<Rightarrow> sock" where
  "settle env s =
     \<lparr>sk_nonblock = (if ce_fcntl env then False else sk_nonblock s),
      sk_rcvtimeo_ms = (if ce_rcvtimeo env then Some kIoTimeoutMs else sk_rcvtimeo_ms s),
      sk_sndtimeo_ms = (if ce_sndtimeo env then Some kIoTimeoutMs else sk_sndtimeo_ms s)\<rparr>"

definition connect_to :: "connect_env \<Rightarrow> fd_table \<Rightarrow> nat option \<times> fd_table" where
  "connect_to env fds =
     (case ce_resolved env of
        None \<Rightarrow> (None, fds)
      | Some cands \<Rightarrow>
          (case connect_loop cands fds of
             (None, fds1) \<Rightarrow> (None, fds1)
           | (Some fd, fds1) \<Rightarrow> (Some fd, AList.map_entry fd (settle env) fds1)))"

section \<open>No descriptor is lost\<close>

lemma fresh_fd_new: "fresh_fd fds \<notin> set (open_fds fds)"
proof -
  have "\<not> set [0..<Suc (length fds)] \<subseteq> set (open_fds fds)"
  proof
    assume "set [0..<Suc (length fds)] \<subseteq> set (open_fds fds)"
    then have "card (set [0..<Suc (length fds)]) \<le> card (set (open_fds fds))" by (rule card_mono [rotated]) simp
    also have "\<dots> \<le> length fds" using card_length [of "open_fds fds"] by (simp add: open_fds_def)
    finally show False by simp
  qed
  then have "filter (\<lambda>n. n \<notin> set (open_fds fds)) [0..<Suc (length fds)] \<noteq> []" by (auto simp: filter_empty_conv)
  then have "fresh_fd fds \<in> set (filter (\<lambda>n. n \<notin> set (open_fds fds)) [0..<Suc (length fds)])" unfolding fresh_fd_def by (rule hd_in_set)
  then show ?thesis by (simp del: upt_Suc)
qed

lemma delete_fresh: "fd \<notin> set (open_fds fds) \<Longrightarrow> AList.delete fd ((fd, s) # fds) = fds"
  by (induction fds) (auto simp: open_fds_def)

lemma connect_loop_spec:
  "connect_loop cands fds =
     (case find (\<lambda>a. ca_socket a \<and> answered a) cands of
        None \<Rightarrow> (None, fds)
      | Some a \<Rightarrow> (Some (fresh_fd fds), (fresh_fd fds, \<lparr>sk_nonblock = True, sk_rcvtimeo_ms = None, sk_sndtimeo_ms = None\<rparr>) # fds))"
  by (induction cands) (simp_all add: Let_def delete_fresh [OF fresh_fd_new] del: delete_simps)

text \<open>The first address that answers is taken; a descriptor opened for another one is closed again.\<close>

lemma connect_to_spec:
  "connect_to env fds =
     (if \<exists>cands a. ce_resolved env = Some cands \<and> a \<in> set cands \<and> ca_socket a \<and> answered a
      then (Some (fresh_fd fds), (fresh_fd fds, settle env \<lparr>sk_nonblock = True, sk_rcvtimeo_ms = None, sk_sndtimeo_ms = None\<rparr>) # fds)
      else (None, fds))"
proof -
  have keep: "AList.map_entry fd f fds = fds" if "fd \<notin> set (open_fds fds)" for fd f
    using that by (induction fds) (auto simp: open_fds_def)
  show ?thesis
    using keep [OF fresh_fd_new]
    by (auto simp: connect_to_def connect_loop_spec find_None_iff find_Some_iff split: option.splits dest: nth_mem)
qed

end
