(* ===== verification/Replicator.thy ===== *)
theory Replicator
  imports Commands Metrics Config Peer_Link
begin

text \<open>
  Replication, \<^verbatim>\<open>src/src/storage/replicator.cpp\<close> and \<^verbatim>\<open>replicator.h\<close>: each peer has a thread that reads the log from a
  saved offset, sends this node's own writes as one pipelined batch, and moves the offset over the records the peer has
  acknowledged.

  The descriptor and the TLS session of a peer are the facts that they are open. The environment of one caravan
  is an argument: the log file as it is opened (its bytes up to the size \<^verbatim>\<open>fstat\<close> reports), the outcomes of connecting,
  of the TLS handshake, reading and sending, and the chunks the peer sends back. OpenSSL is not part of the program: of a handshake the model
  has whether its calls succeed and the certificate the peer proves to hold; a certificate is its encoding.
\<close>

section \<open>Peers\<close>

definition kMaxBatchBytes :: nat where "kMaxBatchBytes = 4 * 2 ^ 20"
definition kTickMs :: int where "kTickMs = 500"
definition kMaxBackoffMs :: int where "kMaxBackoffMs = 30000"
definition kBeatWindow :: nat where "kBeatWindow = 100"

definition encode :: "string list \<Rightarrow> string" where
  "encode args =
     ''*'' @ dec (length args) @ CRLF @ concat (map (\<lambda>a. ''$'' @ dec (length a) @ CRLF @ a @ CRLF) args)"

record peer =
  peer_host :: string
  peer_port :: string
  state_file :: string
  peer_fd :: bool
  peer_ssl :: bool
  peer_inode :: u64
  peer_offset :: nat
  peer_room :: string
  intervals :: "int list"
  beat_at :: int
  peer_lag :: nat

text \<open>
  \<^verbatim>\<open>ifstream >> n\<close> for an unsigned 64-bit number: blanks are skipped, then an optional sign and digits are
  taken as \<^verbatim>\<open>strtoull\<close> does. A failure stores \<open>0\<close> (no digits) or the largest number (too large) and stops the stream.
\<close>

definition stream_u64 :: "string \<Rightarrow> u64 \<times> string option" where
  "stream_u64 s =
     (let s1 = dropWhile is_space s;
          neg = s1 \<noteq> [] \<and> hd s1 = CHR ''-'';
          s2 = (if s1 \<noteq> [] \<and> (hd s1 = CHR ''-'' \<or> hd s1 = CHR ''+'') then tl s1 else s1);
          ds = takeWhile is_digit s2 in
      if ds = [] then (0, None)
      else if dec_val 0 ds \<ge> 2 ^ 64 then (UINT64_MAX, None)
      else (if neg then - of_nat (dec_val 0 ds) else of_nat (dec_val 0 ds), Some (dropWhile is_digit s2)))"

definition load_state :: "string option \<Rightarrow> u64 \<times> nat" where
  "load_state contents =
     (case contents of
        None \<Rightarrow> (0, 0)
      | Some s \<Rightarrow>
          (case stream_u64 s of
             (ino, None) \<Rightarrow> (ino, 0)
           | (ino, Some rest) \<Rightarrow> (ino, unat (fst (stream_u64 rest)))))"

definition new_peer :: "(string \<Rightarrow> string option) \<Rightarrow> string \<times> string \<Rightarrow> peer" where
  "new_peer dk = (\<lambda>(host, port).
     let file = ''replication_'' @ host @ ''_'' @ port @ ''.offset''; (ino, ofs) = load_state (dk file) in
     \<lparr>peer_host = host, peer_port = port, state_file = file, peer_fd = False, peer_ssl = False, peer_inode = ino,
      peer_offset = ofs, peer_room = [], intervals = [], beat_at = 0, peer_lag = 0\<rparr>)"

definition disconnect :: "peer \<Rightarrow> peer" where
  "disconnect p = p\<lparr>peer_ssl := False, peer_fd := False\<rparr>"

definition beat :: "int \<Rightarrow> peer \<Rightarrow> peer" where
  "beat now p =
     (let p1 = (if beat_at p \<noteq> 0
                then let xs = intervals p @ [now - beat_at p] in p\<lparr>intervals := if length xs > kBeatWindow then tl xs else xs\<rparr>
                else p)
      in p1\<lparr>beat_at := now\<rparr>)"

text \<open>Mean and standard deviation of the window, as \<^verbatim>\<open>publish\<close> accumulates them; without an interval, the tick and zero.\<close>

definition beat_mean :: "int list \<Rightarrow> 'f :: linordered_field" where
  "beat_mean ds = (if ds = [] then of_int kTickMs else foldl (\<lambda>acc d. acc + of_int d) 0 ds / of_nat (length ds))"

definition beat_stddev :: "'f :: linordered_field libm \<Rightarrow> int list \<Rightarrow> 'f" where
  "beat_stddev lm ds =
     (if ds = [] then 0
      else fn_sqrt lm (foldl (\<lambda>var d. var + (of_int d - beat_mean ds) * (of_int d - beat_mean ds)) 0 ds / of_nat (length ds)))"

definition publish_state :: "'f :: linordered_field libm \<Rightarrow> peer \<Rightarrow> (string \<times> 'f peer_state) list \<Rightarrow> (string \<times> 'f peer_state) list" where
  "publish_state lm p table =
     publish_peer (peer_host p @ '':'' @ peer_port p)
       \<lparr>mean_ms = beat_mean (intervals p), stddev_ms = beat_stddev lm (intervals p), last_beat_ms = beat_at p,
        lag_bytes = of_nat (peer_lag p)\<rparr> table"

text \<open>Writing the temporary file and renaming it; the argument says whether each succeeds.\<close>

definition state_text :: "peer \<Rightarrow> string" where
  "state_text p = dec (unat (peer_inode p)) @ '' '' @ dec (peer_offset p) @ [CHR 0x0A]"

definition save :: "bool \<times> bool \<Rightarrow> peer \<Rightarrow> (string \<Rightarrow> string option) \<Rightarrow> (string \<Rightarrow> string option)" where
  "save = (\<lambda>(wrote, renamed) p dk. if wrote \<and> renamed then dk(state_file p \<mapsto> state_text p) else dk)"

section \<open>Delivering a batch\<close>

record link_env =
  le_ssl_write :: bool
  le_write :: "sysret list"
  le_recv :: "string list"

text \<open>
  The replies are counted line by line; a line that does not start with \<^verbatim>\<open>+\<close> ends the acknowledged prefix. A chunk
  that is empty, or missing, is the end of the connection or an error.
\<close>

function deliver_loop :: "nat \<Rightarrow> string list \<Rightarrow> string \<Rightarrow> nat \<Rightarrow> nat \<Rightarrow> bool \<Rightarrow> nat \<Rightarrow> bool \<times> nat" where
  "deliver_loop expected chunks inp pos seen failed acked =
     (if \<not> seen < expected then (True, acked)
      else
        (case find_crlf (drop pos inp) of
           None \<Rightarrow>
             if chunks = [] \<or> hd chunks = [] then (False, acked)
             else deliver_loop expected (tl chunks) (inp @ hd chunks) pos seen failed acked
         | Some i \<Rightarrow>
             let failed' = (failed \<or> inp ! pos \<noteq> CHR ''+'') in
             deliver_loop expected chunks inp (pos + i + 2) (Suc seen) failed' (if failed' then acked else Suc acked)))"
  by pat_completeness auto
termination
  by (relation "measure (\<lambda>(expected, chunks, _, _, seen, _, _). (expected - seen) + length chunks)") (auto simp: neq_Nil_conv)

declare deliver_loop.simps [simp del]

definition deliver :: "link_env \<Rightarrow> peer \<Rightarrow> string \<Rightarrow> nat \<Rightarrow> bool \<times> nat" where
  "deliver env p out expected =
     (let sent = (if peer_ssl p then le_ssl_write env else fst (write_all (le_write env) out)) in
      if \<not> sent then (False, 0) else deliver_loop expected (le_recv env) [] 0 0 False 0)"

text \<open>What \<open>deliver\<close> hands over, to the TLS session or in clear to the socket.\<close>

datatype wire = Sealed string | Clear string

definition hand :: "peer \<Rightarrow> string \<Rightarrow> wire" where
  "hand p out = (if peer_ssl p then Sealed out else Clear out)"

definition peer_authenticate :: "string \<Rightarrow> link_env \<Rightarrow> peer \<Rightarrow> bool" where
  "peer_authenticate password env p =
     (if password = [] then True
      else case deliver env p (encode [''AUTH'', password]) 1 of (alive, acked) \<Rightarrow> alive \<and> acked = 1)"

text \<open>With TLS the peer has to prove that it holds the certificate of the cluster, which is this node's own.\<close>

record handshake =
  hs_new :: bool
  hs_set_fd :: bool
  hs_connect :: bool
  hs_theirs :: "string option"

definition secure :: "string option \<Rightarrow> handshake \<Rightarrow> peer \<Rightarrow> bool \<times> peer" where
  "secure tls hs p =
     (case tls of
        None \<Rightarrow> (True, p)
      | Some own \<Rightarrow> (hs_new hs \<and> hs_set_fd hs \<and> hs_connect hs \<and> hs_theirs hs = Some own, p\<lparr>peer_ssl := hs_new hs\<rparr>))"

section \<open>Building a batch\<close>

function pair_starts :: "nat \<Rightarrow> nat \<Rightarrow> nat list" where
  "pair_starts i e = (if Suc i < e then i # pair_starts (i + 2) e else [])"
  by pat_completeness auto
termination
  by (relation "measure (\<lambda>(i, e). e - i)") auto

declare pair_starts.simps [simp del]

text \<open>The commands a record of the log is sent as; only this node's own records are sent.\<close>

definition translate :: "u32 \<Rightarrow> string list \<Rightarrow> string list list" where
  "translate self t =
     (let n = length t in
      if n \<ge> 7 \<and> t ! (n - 4) = ''SOMNIUM-META'' \<and>
         (case parse_u64 (t ! (n - 1)) of Some node \<Rightarrow> unat node = unat self | None \<Rightarrow> False)
      then
        (let cmd = upper (t ! 1) in
         if cmd = ''DEL'' \<or> cmd = ''CRDTDEL'' then [[''CRDTDEL'', t ! 2, t ! (n - 2), t ! (n - 1)]]
         else
           (let pairs_end = (if cmd = ''MSET'' then n - 4 else if cmd = ''SET'' \<or> cmd = ''CRDTMERGE'' then 4 else 0) in
            map (\<lambda>i. [''CRDTMERGE'', t ! i, t ! Suc i, t ! (n - 2), t ! (n - 1), t ! (n - 3)]) (pair_starts 2 pairs_end)))
      else [])"

record batch =
  b_out :: string
  b_room :: string
  b_expected :: nat
  b_marks :: "(nat \<times> nat) list"
  b_misaligned :: bool

definition send :: "string \<Rightarrow> batch \<Rightarrow> string list \<Rightarrow> batch" where
  "send room b command =
     (let b1 = (if room \<noteq> b_room b
                then b\<lparr>b_out := b_out b @ encode [''ROOM'', room], b_expected := Suc (b_expected b), b_room := room\<rparr> else b)
      in b1\<lparr>b_out := b_out b1 @ encode command, b_expected := Suc (b_expected b1)\<rparr>)"

function build_loop :: "u32 \<Rightarrow> nat \<Rightarrow> string \<Rightarrow> nat \<Rightarrow> batch \<Rightarrow> batch" where
  "build_loop self offset buf pos b =
     (case parse buf pos of
        Complete e t \<Rightarrow>
          let b1 = foldl (send (t ! 0)) b (translate self t) in
          build_loop self offset buf e (b1\<lparr>b_marks := b_marks b1 @ [(b_expected b1, offset + e)]\<rparr>)
      | NeedMore \<Rightarrow> b\<lparr>b_misaligned := False\<rparr>
      | Malformed \<Rightarrow> b\<lparr>b_misaligned := (pos = 0)\<rparr>)"
  by pat_completeness auto
termination
  by (relation "measure (\<lambda>(_, _, buf, pos, _). length buf - pos)") (auto dest: parse_Complete)

declare build_loop.simps [simp del]

definition empty_batch :: "string \<Rightarrow> batch" where
  "empty_batch room = \<lparr>b_out = [], b_room = room, b_expected = 0, b_marks = [], b_misaligned = False\<rparr>"

definition build :: "u32 \<Rightarrow> peer \<Rightarrow> string \<Rightarrow> batch" where
  "build self p buf = build_loop self (peer_offset p) buf 0 (empty_batch (peer_room p))"

section \<open>A caravan\<close>

record ship_env =
  se_frontier :: u64
  se_open :: bool
  se_fstat :: bool
  se_inode :: u64
  se_file :: string
  se_fds :: fd_table
  se_connect :: connect_env
  se_tls :: "string option"
  se_handshake :: handshake
  se_auth :: link_env
  se_read :: "sysret list"
  se_reread :: "sysret list"
  se_link :: link_env
  se_reset :: "bool \<times> bool"
  se_save :: "bool \<times> bool"

text \<open>Another file, or a shorter one, is sent from its start.\<close>

definition realign :: "ship_env \<Rightarrow> peer \<Rightarrow> peer" where
  "realign env p =
     (let p1 = (if se_inode env \<noteq> peer_inode p \<or> peer_offset p > length (se_file env)
                then p\<lparr>peer_inode := se_inode env, peer_offset := 0\<rparr> else p)
      in p1\<lparr>peer_lag := length (se_file env) - peer_offset p1\<rparr>)"

text \<open>The first component of the result is what is handed to the connection: the password, if there is one.\<close>

definition connect_step :: "string \<Rightarrow> ship_env \<Rightarrow> peer \<Rightarrow> wire list \<times> peer" where
  "connect_step password env p =
     (if peer_fd p then ([], p)
      else
        (let p1 = p\<lparr>peer_fd := fst (connect_to (se_connect env) (se_fds env)) \<noteq> None, peer_room := []\<rparr> in
         if \<not> peer_fd p1 then ([], p1)
         else
           (case secure (se_tls env) (se_handshake env) p1 of
              (False, p2) \<Rightarrow> ([], disconnect p2)
            | (True, p2) \<Rightarrow>
                (if password = [] then [] else [hand p2 (encode [''AUTH'', password])],
                 if peer_authenticate password (se_auth env) p2 then p2 else disconnect p2))))"

definition connect_peer :: "string \<Rightarrow> ship_env \<Rightarrow> peer \<Rightarrow> peer" where
  "connect_peer password env p = snd (connect_step password env p)"

definition read_batch :: "u32 \<Rightarrow> ship_env \<Rightarrow> peer \<Rightarrow> bool \<times> batch" where
  "read_batch self env p =
     (let left = length (se_file env) - peer_offset p; len = min left kMaxBatchBytes in
      case pread_all (se_read env) (se_file env) len (peer_offset p) of
        None \<Rightarrow> (False, empty_batch (peer_room p))
      | Some buf \<Rightarrow>
          (let b = build self p buf in
           if b_marks b = [] \<and> \<not> b_misaligned b \<and> length buf < left then
             (case pread_all (se_reread env) (se_file env) left (peer_offset p) of
                None \<Rightarrow> (False, b\<lparr>b_expected := 0\<rparr>)
              | Some whole \<Rightarrow> (True, build self p whole))
           else (True, b)))"

text \<open>The offset moves over the marks whose replies have all been counted.\<close>

definition advance :: "nat \<Rightarrow> (nat \<times> nat) list \<Rightarrow> nat \<Rightarrow> nat" where
  "advance acked marks offset =
     (case takeWhile (\<lambda>(replies, _). replies \<le> acked) marks of [] \<Rightarrow> offset | ms \<Rightarrow> snd (last ms))"

definition closing :: "u32 \<Rightarrow> ship_env \<Rightarrow> bool \<Rightarrow> nat \<Rightarrow> batch \<Rightarrow> string \<times> nat" where
  "closing self env read_ok offset b =
     (let reached_end = (read_ok \<and> (if b_marks b = [] then offset else snd (last (b_marks b))) = length (se_file env)) in
      if reached_end
      then (b_out b @ encode [''REPLFRONTIER'', dec (unat self), dec (unat (se_frontier env))], Suc (b_expected b))
      else if b_expected b = 0 then (encode [''PING''], 1) else (b_out b, b_expected b))"

definition ship :: "u32 \<Rightarrow> string \<Rightarrow> ship_env \<Rightarrow> peer \<Rightarrow> (string \<Rightarrow> string option) \<Rightarrow> bool \<times> string \<times> peer \<times> (string \<Rightarrow> string option)" where
  "ship self password env p dk =
     (if \<not> se_open env \<or> \<not> se_fstat env then (False, [], p, dk)
      else
        (let p1 = connect_peer password env (realign env p) in
         if \<not> peer_fd p1 then (False, [], p1, dk)
         else
           (case read_batch self env p1 of
              (read_ok, b) \<Rightarrow>
                (let reset = (read_ok \<and> b_misaligned b \<and> peer_offset p1 > 0);
                     p2 = (if reset then p1\<lparr>peer_offset := 0\<rparr> else p1);
                     dk2 = (if reset then save (se_reset env) p2 dk else dk) in
                 case closing self env read_ok (peer_offset p2) b of
                   (out, replies) \<Rightarrow>
                     (case deliver (se_link env) p2 out replies of
                        (alive, got) \<Rightarrow>
                          (let acked = (if alive then got else 0);
                               p3 = (if alive then p2 else disconnect p2);
                               p4 = (if b_expected b > 0 then p3\<lparr>peer_room := if acked = b_expected b then b_room b else []\<rparr> else p3);
                               p5 = p4\<lparr>peer_offset := advance acked (b_marks b) (peer_offset p4)\<rparr>;
                               dk5 = (if peer_offset p5 \<noteq> peer_offset p4 then save (se_save env) p5 dk2 else dk2) in
                           (alive, out, p5\<lparr>peer_lag := length (se_file env) - peer_offset p5\<rparr>, dk5)))))))"

text \<open>The second component of the result is the batch handed to the socket.\<close>

section \<open>The peer's thread\<close>

definition next_delay :: "bool \<Rightarrow> int \<Rightarrow> int" where
  "next_delay alive delay = (if alive then kTickMs else min (delay * 2) kMaxBackoffMs)"

text \<open>One round of the loop: sleep for \<open>delay\<close>, ship, count the heartbeat.\<close>

definition worker_round :: "u32 \<Rightarrow> string \<Rightarrow> int \<times> peer \<times> (string \<Rightarrow> string option) \<Rightarrow> ship_env \<times> int \<Rightarrow> int \<times> peer \<times> (string \<Rightarrow> string option)" where
  "worker_round self password = (\<lambda>(delay, p, dk) (env, now).
     case ship self password env p dk of
       (alive, _, p1, dk1) \<Rightarrow> (next_delay alive delay, if alive then beat now p1 else p1, dk1))"

definition worker :: "u32 \<Rightarrow> string \<Rightarrow> (ship_env \<times> int) list \<Rightarrow> peer \<Rightarrow> (string \<Rightarrow> string option) \<Rightarrow> int \<times> peer \<times> (string \<Rightarrow> string option)" where
  "worker self password rounds p dk = foldl (worker_round self password) (kTickMs, p, dk) rounds"

section \<open>The replicator\<close>

record replicator =
  rep_node_id :: u32
  rep_password :: string
  rep_tls :: "string option"
  rep_peers :: "peer list"
  rep_running :: bool
  rep_workers :: nat

definition replicator_init :: "config \<Rightarrow> string option \<Rightarrow> (string \<Rightarrow> string option) \<Rightarrow> replicator" where
  "replicator_init cfg tls dk =
     \<lparr>rep_node_id = cfg_node_id cfg, rep_password = cfg_password cfg, rep_tls = tls, rep_peers = map (new_peer dk) (cfg_peers cfg),
      rep_running = False, rep_workers = 0\<rparr>"

definition replicator_start :: "'f :: linordered_field libm \<Rightarrow> replicator \<Rightarrow> (string \<times> 'f peer_state) list \<Rightarrow> replicator \<times> (string \<times> 'f peer_state) list" where
  "replicator_start lm rp table =
     (if rep_peers rp = [] then (rp, table)
      else (rp\<lparr>rep_running := True, rep_workers := rep_workers rp + length (rep_peers rp)\<rparr>, foldl (\<lambda>tb p. publish_state lm p tb) table (rep_peers rp)))"

definition replicator_stop :: "replicator \<Rightarrow> replicator" where
  "replicator_stop rp = rp\<lparr>rep_running := False, rep_workers := 0, rep_peers := map disconnect (rep_peers rp)\<rparr>"

section \<open>Translating the log\<close>

lemma encode_resp: "encode = resp_encode"
proof -
  have "(\<lambda>a. ''$'' @ dec (length a) @ CRLF @ a @ CRLF) = bulk_string" by (rule ext) (simp add: bulk_string_def)
  then show ?thesis unfolding encode_def resp_encode_def by (simp add: fun_eq_iff)
qed

text \<open>
  The records this node writes: \<open>SET\<close> of one key (with its options), \<open>MSET\<close> of pairs, \<open>DEL\<close> of one key, with a version of the
  hybrid clock.
\<close>

definition own_record :: "u32 \<Rightarrow> AofRecord \<Rightarrow> bool" where
  "own_record self r \<longleftrightarrow>
     ar_node_id r = self \<and> hlc_normalize (ar_timestamp_ms r) = ar_timestamp_ms r \<and>
     (case ar_args r of
        c # kvs \<Rightarrow> (upper c = ''SET'' \<and> 2 \<le> length kvs) \<or> (upper c = ''MSET'' \<and> kvs \<noteq> [] \<and> even (length kvs)) \<or> (upper c = ''DEL'' \<and> length kvs = 1)
      | [] \<Rightarrow> False)"

text \<open>A change of the store as the peer receives it.\<close>

definition change_command :: "AofRecord \<Rightarrow> string \<times> Record option \<Rightarrow> string list" where
  "change_command r = (\<lambda>(key, x).
     case x of
       Some rc \<Rightarrow> [''CRDTMERGE'', key, rec_value rc, dec (unat (timestamp_ms rc)), dec (unat (node_id rc)), dec_int (expire_at rc)]
     | None \<Rightarrow> [''CRDTDEL'', key, dec (unat (ar_timestamp_ms r)), dec (unat (ar_node_id r))])"

lemma tokens_nth:
  fixes r
  defines "n \<equiv> length (record_tokens r)"
  shows "n = length (ar_args r) + 5" "record_tokens r ! (n - 4) = kMetaToken" "record_tokens r ! (n - 3) = dec_int (ar_expire_at r)"
    "record_tokens r ! (n - 2) = dec (unat (ar_timestamp_ms r))" "record_tokens r ! (n - Suc 0) = dec (unat (ar_node_id r))"
    "record_tokens r ! 0 = ar_room r" "i < length (ar_args r) \<Longrightarrow> record_tokens r ! Suc i = ar_args r ! i"
  by (simp_all add: n_def record_tokens_def nth_append nth_Cons')

lemma node_token: "parse_u64 (dec (unat (node :: u32))) = Some (of_nat (unat node))" "unat (of_nat (unat node) :: u64) = unat node"
proof -
  have l: "unat node < 2 ^ 64" using unat_u32_less [of node] by simp
  show "parse_u64 (dec (unat node)) = Some (of_nat (unat node))" using parse_u64_dec [OF l] .
  show "unat (of_nat (unat node) :: u64) = unat node" using unat_of_nat_u64 [OF l] .
qed

lemma pair_map_changes:
  "map (\<lambda>i. f (xs ! i) (xs ! Suc i)) (pair_starts i (length xs)) = map (\<lambda>(k, x). f k (rec_value (the x))) (pair_changes mk (drop i xs))"
  if "\<And>v. rec_value (mk v) = v"
proof (induction i "length xs" rule: pair_starts.induct)
  case (1 i)
  show ?case
  proof (cases "Suc i < length xs")
    case True
    then have "drop i xs = xs ! i # xs ! Suc i # drop (i + 2) xs" by (simp add: Cons_nth_drop_Suc)
    then show ?thesis using 1 [OF True] True that by (simp add: pair_starts.simps [of i])
  next
    case False
    then have "length (drop i xs) \<le> 1" by simp
    then have "drop i xs = [] \<or> (\<exists>k. drop i xs = [k])" by (cases "drop i xs") auto
    then show ?thesis using False by (auto simp: pair_starts.simps [of i])
  qed
qed

lemma translate_foreign: "ar_node_id r \<noteq> self \<Longrightarrow> translate self (record_tokens r) = []"
  using tokens_nth(1-5) [where r = r] node_token [of "ar_node_id r"] by (simp add: translate_def Let_def word_unat_eq_iff)

lemma translate_own:
  assumes "own_record self r"
  shows "translate self (record_tokens r) = map (change_command r) (changes r)"
proof -
  let ?t = "record_tokens r" and ?n = "length (record_tokens r)"
  obtain c kvs where a: "ar_args r = c # kvs" using assms by (cases "ar_args r") (simp_all add: own_record_def)
  have own: "ar_node_id r = self" "hlc_normalize (ar_timestamp_ms r) = ar_timestamp_ms r" using assms by (simp_all add: own_record_def)
  have cmd: "(upper c = ''SET'' \<and> 2 \<le> length kvs) \<or> (upper c = ''MSET'' \<and> kvs \<noteq> [] \<and> even (length kvs)) \<or> (upper c = ''DEL'' \<and> length kvs = 1)"
    using assms by (simp add: own_record_def a)
  have len: "7 \<le> ?n" using cmd tokens_nth(1) [of r] by (cases kvs) (auto simp: a)
  have t1: "?t ! Suc 0 = c" using tokens_nth(7) [where r = r and i = 0] by (simp add: a)
  note tok = tokens_nth(2-5) [of r] node_token
  let ?mk = "\<lambda>val. \<lparr>rec_value = val, expire_at = ar_expire_at r, timestamp_ms = ar_timestamp_ms r, node_id = self\<rparr>"
  let ?f = "\<lambda>k v. [''CRDTMERGE'', k, v, dec (unat (ar_timestamp_ms r)), dec (unat self), dec_int (ar_expire_at r)]"
  have pc: "map (change_command r) (pair_changes ?mk ys) = map (\<lambda>(k, x). ?f k (rec_value (the x))) (pair_changes ?mk ys)" for ys
    by (induction ?mk ys rule: pair_changes.induct) (simp_all add: change_command_def)
  consider (set) "upper c = ''SET''" "2 \<le> length kvs" | (mset) "upper c = ''MSET''" | (del) "upper c = ''DEL''" "length kvs = 1" using cmd by blast
  then show ?thesis
  proof cases
    case set
    then obtain k v rest where kv: "kvs = k # v # rest" by (auto simp: Suc_le_length_iff numeral_2_eq_2)
    have "pair_starts 2 4 = [2]" by (simp add: pair_starts.simps)
    moreover have "?t ! 2 = k" "?t ! 3 = v" using tokens_nth(7) [where r = r and i = 1] tokens_nth(7) [where r = r and i = 2] by (simp_all add: a kv numeral_2_eq_2 numeral_3_eq_3)
    ultimately show ?thesis using set own len t1 tok
      by (simp add: translate_def Let_def kMetaToken_def changes_def a kv change_command_def numeral_2_eq_2 numeral_3_eq_3)
  next
    case mset
    let ?xs = "ar_room r # c # kvs"
    have xs: "?t = ?xs @ [kMetaToken, dec_int (ar_expire_at r), dec (unat (ar_timestamp_ms r)), dec (unat (ar_node_id r))]"
      by (simp add: record_tokens_def a)
    have "Suc i < length ?xs \<Longrightarrow> ?t ! i = ?xs ! i \<and> ?t ! Suc i = ?xs ! Suc i" for i unfolding xs by (simp add: nth_append del: append_Cons)
    moreover have "i \<in> set (pair_starts j e) \<Longrightarrow> Suc i < e" for i j e
    proof (induction j e rule: pair_starts.induct)
      case (1 j e)
      then show ?case by (cases "Suc j < e") (auto simp: pair_starts.simps [of j e])
    qed
    ultimately have "map (\<lambda>i. ?f (?t ! i) (?t ! Suc i)) (pair_starts 2 (length ?xs)) = map (\<lambda>i. ?f (?xs ! i) (?xs ! Suc i)) (pair_starts 2 (length ?xs))"
      by (intro map_cong refl) metis
    also have "\<dots> = map (\<lambda>(k, x). ?f k (rec_value (the x))) (pair_changes ?mk (drop 2 ?xs))" by (rule pair_map_changes) simp
    also have "\<dots> = map (change_command r) (changes r)" using mset own pc by (simp add: changes_def a)
    finally show ?thesis using mset own len t1 tok tokens_nth(1) [of r] by (simp add: translate_def Let_def kMetaToken_def a)
  next
    case del
    then obtain k where kv: "kvs = [k]" by (auto simp: length_Suc_conv)
    have "?t ! 2 = k" using tokens_nth(7) [where r = r and i = 1] by (simp add: a kv numeral_2_eq_2)
    then show ?thesis using del own len t1 tok
      by (simp add: translate_def Let_def kMetaToken_def changes_def a kv change_command_def)
  qed
qed

section \<open>What a batch holds\<close>

text \<open>
  The commands of each record, with \<open>ROOM\<close> in front when the record's room is not the one selected, and the
  room that is selected at the end.
\<close>

fun plan :: "u32 \<Rightarrow> string \<Rightarrow> string list list \<Rightarrow> string list list list \<times> string" where
  "plan self room [] = ([], room)"
| "plan self room (t # ts) =
     (if translate self t = [] then (case plan self room ts of (cs, r) \<Rightarrow> ([] # cs, r))
      else
        (case plan self (t ! 0) ts of
           (cs, r) \<Rightarrow> (((if t ! 0 \<noteq> room then [[''ROOM'', t ! 0]] else []) @ translate self t) # cs, r)))"

fun marks_of :: "nat \<Rightarrow> nat \<Rightarrow> string list list list \<Rightarrow> string list list \<Rightarrow> (nat \<times> nat) list" where
  "marks_of e ofs (c # cs) (t # ts) = (e + length c, ofs + length (resp_encode t)) # marks_of (e + length c) (ofs + length (resp_encode t)) cs ts"
| "marks_of e ofs _ _ = []"

text \<open>How many records the first \<open>a\<close> positive replies confirm.\<close>

fun confirmed :: "nat \<Rightarrow> 'a list list \<Rightarrow> nat" where
  "confirmed a [] = 0"
| "confirmed a (c # cs) = (if length c \<le> a then Suc (confirmed (a - length c) cs) else 0)"

definition log_bytes :: "string list list \<Rightarrow> string" where
  "log_bytes ts = concat (map resp_encode ts)"

definition toks_ok :: "string list list \<Rightarrow> bool" where
  "toks_ok ts \<longleftrightarrow> (\<forall>t \<in> set ts. length t \<le> kMaxArgs \<and> (\<forall>a \<in> set t. length a \<le> kMaxBulk))"

lemma log_bytes_simps [simp]: "log_bytes [] = []" "log_bytes (t # ts) = resp_encode t @ log_bytes ts" "log_bytes (ts @ us) = log_bytes ts @ log_bytes us"
  by (simp_all add: log_bytes_def)

lemma plan_length: "length (fst (plan self room ts)) = length ts"
proof (induction self room ts rule: plan.induct)
  case (2 self room t ts)
  then show ?case by (cases "translate self t = []") (auto split: prod.splits)
qed simp

lemma send_first:
  "send room b c = b\<lparr>b_out := b_out b @ concat (map encode ((if room \<noteq> b_room b then [[''ROOM'', room]] else []) @ [c])),
     b_expected := b_expected b + length ((if room \<noteq> b_room b then [[''ROOM'', room]] else []) @ [c]), b_room := room\<rparr>"
  by (cases b) (simp add: send_def)

lemma sends_same:
  "b_room b = room \<Longrightarrow> foldl (send room) b cs = b\<lparr>b_out := b_out b @ concat (map encode cs), b_expected := b_expected b + length cs\<rparr>"
  by (induction cs arbitrary: b) (simp_all add: send_first)

lemma sends:
  "cs \<noteq> [] \<Longrightarrow> foldl (send room) b cs =
     b\<lparr>b_out := b_out b @ concat (map encode ((if room \<noteq> b_room b then [[''ROOM'', room]] else []) @ cs)),
       b_expected := b_expected b + length ((if room \<noteq> b_room b then [[''ROOM'', room]] else []) @ cs), b_room := room\<rparr>"
  by (cases cs) (simp_all add: send_first [of room b] sends_same)

lemma build_loop_image:
  assumes "toks_ok ts" and "parse (pre @ log_bytes ts @ tail) (length (pre @ log_bytes ts)) = NeedMore" and "plan self (b_room b) ts = (cs, r)"
  shows "build_loop self ofs (pre @ log_bytes ts @ tail) (length pre) b =
    b\<lparr>b_out := b_out b @ concat (map encode (concat cs)), b_room := r, b_expected := b_expected b + length (concat cs),
      b_marks := b_marks b @ marks_of (b_expected b) (ofs + length pre) cs ts, b_misaligned := False\<rparr>"
  using assms
proof (induction ts arbitrary: pre b cs)
  case Nil
  then show ?case by (simp add: build_loop.simps [of self ofs "pre @ tail"])
next
  case (Cons t ts)
  let ?buf = "pre @ log_bytes (t # ts) @ tail"
  have p: "parse ?buf (length pre) = Complete (length pre + length (resp_encode t)) t"
    using parse_encoded [of t pre "log_bytes ts @ tail"] Cons.prems(1) by (simp add: toks_ok_def)
  let ?b = "foldl (send (t ! 0)) b (translate self t)"
  let ?b' = "?b\<lparr>b_marks := b_marks ?b @ [(b_expected ?b, ofs + (length pre + length (resp_encode t)))]\<rparr>"
  have step: "build_loop self ofs ?buf (length pre) b = build_loop self ofs ?buf (length (pre @ resp_encode t)) ?b'"
    by (simp only: build_loop.simps [of self ofs ?buf "length pre" b] p status.case Let_def length_append)
  obtain cs1 r1 where pl: "plan self (b_room ?b) ts = (cs1, r1)" by fastforce
  have nm: "parse ((pre @ resp_encode t) @ log_bytes ts @ tail) (length ((pre @ resp_encode t) @ log_bytes ts)) = NeedMore" using Cons.prems(2) by simp
  note IH = Cons.IH [of "pre @ resp_encode t" ?b' cs1]
  show ?case
  proof (cases "translate self t = []")
    case True
    then have "cs = [] # cs1 \<and> r1 = r" using Cons.prems(3) pl by simp
    then show ?thesis using step IH Cons.prems(1) nm pl True by (simp add: toks_ok_def add.assoc)
  next
    case False
    have br: "b_room ?b = t ! 0" by (simp add: sends [OF False])
    have "cs = ((if t ! 0 \<noteq> b_room b then [[''ROOM'', t ! 0]] else []) @ translate self t) # cs1 \<and> r1 = r"
      using Cons.prems(3) pl False br by simp
    then show ?thesis using step IH Cons.prems(1) nm pl by (simp add: toks_ok_def sends [OF False] add.assoc)
  qed
qed

lemma advance_Cons: "advance a ((e, ofs1) # ms) ofs = (if e \<le> a then advance a ms ofs1 else ofs)"
  by (simp add: advance_def split: list.split)

lemma advance_marks:
  "length cs = length ts \<Longrightarrow> e \<le> a \<Longrightarrow>
    advance a (marks_of e ofs cs ts) ofs = ofs + length (log_bytes (take (confirmed (a - e) cs) ts))"
proof (induction cs ts arbitrary: e ofs rule: list_induct2)
  case Nil
  then show ?case by (simp add: advance_def)
next
  case (Cons c cs t ts)
  then show ?case by (auto simp: advance_Cons)
qed

lemma last_marks:
  "length cs = length ts \<Longrightarrow> ts \<noteq> [] \<Longrightarrow> snd (last (marks_of e ofs cs ts)) = ofs + length (log_bytes ts) \<and> marks_of e ofs cs ts \<noteq> []"
proof (induction cs ts arbitrary: e ofs rule: list_induct2)
  case (Cons c cs t ts)
  then show ?case by (cases "ts = []") auto
qed simp

lemma confirmed_all: "length (concat cs) \<le> a \<Longrightarrow> confirmed a cs = length cs"
  by (induction cs arbitrary: a) auto

lemma confirmed_bound: "confirmed a cs \<le> length cs \<and> length (concat (take (confirmed a cs) cs)) \<le> a"
proof (induction cs arbitrary: a)
  case (Cons c cs)
  show ?case using Cons.IH [of "a - length c"] by auto
qed simp

text \<open>A prefix of the bytes of a log is a number of whole records and a piece of the next one.\<close>

lemma bytes_cut:
  "m \<le> length (log_bytes ts) \<Longrightarrow>
    \<exists>j n t. j \<le> length ts \<and> take m (log_bytes ts) = log_bytes (take j ts) @ take n (resp_encode t) \<and> n < length (resp_encode t) \<and>
      (t \<in> set ts \<or> t = []) \<and> (m = length (log_bytes ts) \<longrightarrow> j = length ts \<and> n = 0)"
proof (induction ts arbitrary: m)
  case Nil
  have "0 < length (resp_encode [])" by (simp add: resp_encode_def)
  then show ?case by (intro exI [of _ 0] exI [of _ "[]"]) simp
next
  case (Cons t ts)
  show ?case
  proof (cases "m < length (resp_encode t)")
    case True
    then show ?thesis by (intro exI [of _ 0] exI [of _ m] exI [of _ t]) simp
  next
    case False
    then have "m - length (resp_encode t) \<le> length (log_bytes ts)" using Cons.prems by simp
    from Cons.IH [OF this] obtain j n u where IH: "j \<le> length ts" "n < length (resp_encode u)" "u \<in> set ts \<or> u = []"
      "take (m - length (resp_encode t)) (log_bytes ts) = log_bytes (take j ts) @ take n (resp_encode u)"
      "m - length (resp_encode t) = length (log_bytes ts) \<longrightarrow> j = length ts \<and> n = 0" by blast
    have "take m (log_bytes (t # ts)) = log_bytes (take (Suc j) (t # ts)) @ take n (resp_encode u)" using False IH(4) by simp
    moreover have "m = length (log_bytes (t # ts)) \<longrightarrow> Suc j = length (t # ts) \<and> n = 0" using False IH(5) by simp
    ultimately show ?thesis using IH(1-3) by (intro exI [of _ "Suc j"] exI [of _ n] exI [of _ u]) (simp del: log_bytes_simps)
  qed
qed

text \<open>Building a batch from a prefix of the rest of the log.\<close>

lemma build_prefix:
  assumes ok: "toks_ok ts" and m: "m \<le> length (log_bytes ts)"
  shows "\<exists>j cs r. j \<le> length ts \<and> plan self (peer_room p) (take j ts) = (cs, r) \<and>
    build self p (take m (log_bytes ts)) =
      \<lparr>b_out = concat (map encode (concat cs)), b_room = r, b_expected = length (concat cs),
       b_marks = marks_of 0 (peer_offset p) cs (take j ts), b_misaligned = False\<rparr> \<and>
    (m = length (log_bytes ts) \<longrightarrow> j = length ts)"
proof -
  obtain j n t where c: "j \<le> length ts" "take m (log_bytes ts) = log_bytes (take j ts) @ take n (resp_encode t)" "n < length (resp_encode t)"
    "t \<in> set ts \<or> t = []" "m = length (log_bytes ts) \<longrightarrow> j = length ts \<and> n = 0" using bytes_cut [OF m] by blast
  have t: "length t \<le> kMaxArgs" "\<forall>a \<in> set t. length a \<le> kMaxBulk" using c(4) ok by (auto simp: toks_ok_def)
  have nm: "parse ([] @ log_bytes (take j ts) @ take n (resp_encode t)) (length ([] @ log_bytes (take j ts))) = NeedMore"
    using parse_encoded_prefix [OF t c(3), of "log_bytes (take j ts)"] by simp
  have "toks_ok (take j ts)" using ok by (auto simp: toks_ok_def dest: in_set_takeD)
  moreover obtain cs r where pl: "plan self (peer_room p) (take j ts) = (cs, r)" by fastforce
  ultimately have "build_loop self (peer_offset p) ([] @ log_bytes (take j ts) @ take n (resp_encode t)) (length ([] :: string)) (empty_batch (peer_room p)) =
      \<lparr>b_out = concat (map encode (concat cs)), b_room = r, b_expected = length (concat cs),
       b_marks = marks_of 0 (peer_offset p) cs (take j ts), b_misaligned = False\<rparr>"
    using build_loop_image [OF _ nm, of self "empty_batch (peer_room p)" cs r "peer_offset p"] by (simp add: empty_batch_def)
  then show ?thesis using c pl by (intro exI [of _ j] exI [of _ cs] exI [of _ r]) (simp add: build_def)
qed

section \<open>Acknowledgements\<close>

definition positive :: "string \<Rightarrow> bool" where
  "positive l \<longleftrightarrow> l \<noteq> [] \<and> hd l = CHR ''+''"

lemma find_crlf_split: "find_crlf w = Some i \<Longrightarrow> w = take i w @ CRLF @ drop (i + 2) w"
proof (induction w arbitrary: i rule: find_crlf.induct)
  case (1 a b cs)
  show ?case
  proof (cases "a = CR \<and> b = LF")
    case False
    then obtain j where "find_crlf (b # cs) = Some j" "i = Suc j" using "1.prems" by auto
    then show ?thesis using "1.IH" [OF False] by simp
  qed (use "1.prems" in simp)
qed simp_all

text \<open>The complete lines of what a peer has sent.\<close>

function lines_of :: "string \<Rightarrow> string list" where
  "lines_of s = (case find_crlf s of None \<Rightarrow> [] | Some i \<Rightarrow> take i s # lines_of (drop (i + 2) s))"
  by pat_completeness auto
termination
  by (relation "measure length") (auto dest: find_crlf_bound)

declare lines_of.simps [simp del]

text \<open>A delivery that ends well has read one line for each command, and counts the leading positive ones.\<close>

lemma deliver_loop_lines:
  "deliver_loop expected chunks inp pos seen failed acked = (True, a) \<Longrightarrow> seen \<le> expected \<Longrightarrow> pos \<le> length inp \<Longrightarrow>
    \<exists>ls. ls = take (expected - seen) (lines_of (drop pos inp @ concat chunks)) \<and> length ls = expected - seen \<and>
      a = (if failed then acked else acked + length (takeWhile positive ls))"
proof (induction expected chunks inp pos seen failed acked rule: deliver_loop.induct)
  case (1 expected chunks inp pos seen failed acked)
  note unfolded = "1.prems"(1) [unfolded deliver_loop.simps [of expected chunks inp pos seen failed acked]]
  show ?case
  proof (cases "seen < expected")
    case False
    then show ?thesis using unfolded "1.prems"(2) by (intro exI [of _ "[]"]) simp
  next
    case more: True
    show ?thesis
    proof (cases "find_crlf (drop pos inp)")
      case None
      then have c: "\<not> (chunks = [] \<or> hd chunks = [])" "deliver_loop expected (tl chunks) (inp @ hd chunks) pos seen failed acked = (True, a)"
        using unfolded more by (auto split: if_splits)
      have "drop pos (inp @ hd chunks) @ concat (tl chunks) = drop pos inp @ concat chunks" using c(1) "1.prems"(3) by (cases chunks) simp_all
      then show ?thesis using "1.IH"(1) [OF _ None c(1,2)] more "1.prems"(2,3) by simp
    next
      case (Some i)
      let ?w = "drop pos inp" and ?l = "take i (drop pos inp)"
      let ?f = "failed \<or> inp ! pos \<noteq> CHR ''+''"
      have w: "?w = ?l @ CRLF @ drop (i + 2) ?w" by (rule find_crlf_split [OF Some])
      have b: "i + 2 \<le> length ?w" by (rule find_crlf_bound [OF Some])
      have fst: "inp ! pos = ?w ! 0" using b by simp
      have plus: "inp ! pos = CHR ''+'' \<longleftrightarrow> positive ?l"
      proof (cases i)
        case 0
        then have "?w ! 0 = CR" using w by (metis append_Nil nth_Cons_0 append_Cons take0)
        then show ?thesis using fst 0 by (simp add: positive_def)
      next
        case (Suc j)
        then show ?thesis using fst b by (cases ?w) (auto simp: positive_def)
      qed
      have run: "deliver_loop expected chunks inp (pos + i + 2) (Suc seen) ?f (if ?f then acked else Suc acked) = (True, a)"
        using unfolded more Some by (simp add: Let_def)
      have le: "Suc seen \<le> expected" "pos + i + 2 \<le> length inp" using more b by simp_all
      obtain ls where ls: "ls = take (expected - Suc seen) (lines_of (drop (pos + i + 2) inp @ concat chunks))" "length ls = expected - Suc seen"
        "a = (if ?f then (if ?f then acked else Suc acked) else (if ?f then acked else Suc acked) + length (takeWhile positive ls))"
        using "1.IH"(2) [OF _ Some refl run le] more by blast
      have "lines_of (?w @ concat chunks) = ?l # lines_of (drop (pos + i + 2) inp @ concat chunks)"
        using find_crlf_append [OF Some, of "concat chunks"] b
        by (simp add: lines_of.simps [of "?w @ concat chunks"] add.assoc add.commute [of _ pos])
      moreover have "expected - seen = Suc (expected - Suc seen)" using more by simp
      ultimately have "?l # ls = take (expected - seen) (lines_of (?w @ concat chunks))" using ls(1) by simp
      moreover have "length (?l # ls) = expected - seen" using ls(2) more by simp
      moreover have "a = (if failed then acked else acked + length (takeWhile positive (?l # ls)))" using ls(3) plus by simp
      ultimately show ?thesis by blast
    qed
  qed
qed

lemma deliver_lines:
  assumes "deliver env p out n = (True, a)"
  shows "n \<le> length (lines_of (concat (le_recv env)))" "a = length (takeWhile positive (take n (lines_of (concat (le_recv env)))))"
  using assms deliver_loop_lines [of n "le_recv env" "[]" 0 0 False 0 a] by (auto simp: deliver_def Let_def split: if_splits)

text \<open>A peer that answers every command is heard.\<close>

lemma deliver_loop_alive:
  "expected \<le> seen + length (lines_of (drop pos inp @ concat chunks)) \<Longrightarrow> [] \<notin> set chunks \<Longrightarrow> pos \<le> length inp \<Longrightarrow>
    fst (deliver_loop expected chunks inp pos seen failed acked)"
proof (induction expected chunks inp pos seen failed acked rule: deliver_loop.induct)
  case (1 expected chunks inp pos seen failed acked)
  note unfolded = deliver_loop.simps [of expected chunks inp pos seen failed acked]
  show ?case
  proof (cases "seen < expected")
    case False
    then show ?thesis by (simp add: unfolded)
  next
    case more: True
    show ?thesis
    proof (cases "find_crlf (drop pos inp)")
      case None
      then have c: "\<not> (chunks = [] \<or> hd chunks = [])" using "1.prems"(1,2) more by (cases chunks) (auto simp: lines_of.simps)
      have "drop pos (inp @ hd chunks) @ concat (tl chunks) = drop pos inp @ concat chunks" using c "1.prems"(3) by (cases chunks) simp_all
      moreover have "[] \<notin> set (tl chunks)" using "1.prems"(2) by (cases chunks) auto
      ultimately show ?thesis using "1.IH"(1) [OF _ None c] more "1.prems" None c by (simp add: unfolded)
    next
      case (Some i)
      have b: "i + 2 \<le> length (drop pos inp)" by (rule find_crlf_bound [OF Some])
      have "lines_of (drop pos inp @ concat chunks) = take i (drop pos inp) # lines_of (drop (pos + i + 2) inp @ concat chunks)"
        using find_crlf_append [OF Some, of "concat chunks"] b
        by (simp add: lines_of.simps [of "drop pos inp @ concat chunks"] add.assoc add.commute [of _ pos])
      then show ?thesis using "1.IH"(2) [OF _ Some refl] more "1.prems" Some b by (simp add: unfolded Let_def)
    qed
  qed
qed

lemma deliver_alive:
  assumes "if peer_ssl p then le_ssl_write env else fst (write_all (le_write env) out)" and "[] \<notin> set (le_recv env)" and "n \<le> length (lines_of (concat (le_recv env)))"
  shows "fst (deliver env p out n)"
  using deliver_loop_alive [of n 0 0 "[]" "le_recv env" False 0] assms by (simp add: deliver_def)

section \<open>One caravan\<close>

abbreviation place :: "string list list \<Rightarrow> nat \<Rightarrow> nat" where
  "place ts k \<equiv> length (log_bytes (take k ts))"

lemma log_bytes_split: "log_bytes ts = log_bytes (take k ts) @ log_bytes (drop k ts)"
  by (metis append_take_drop_id log_bytes_simps(3))

lemma place_add: "place ts k + length (log_bytes (take j (drop k ts))) = place ts (k + j)"
  by (simp add: take_add)

text \<open>The batch that stands for the records \<open>us\<close>.\<close>

definition batch_of :: "u32 \<Rightarrow> peer \<Rightarrow> string list list \<Rightarrow> batch" where
  "batch_of self p us =
     (case plan self (peer_room p) us of
        (cs, r) \<Rightarrow> \<lparr>b_out = concat (map encode (concat cs)), b_room = r, b_expected = length (concat cs),
                    b_marks = marks_of 0 (peer_offset p) cs us, b_misaligned = False\<rparr>)"

lemma batch_of_Nil: "batch_of self p [] = empty_batch (peer_room p)"
  by (simp add: batch_of_def empty_batch_def)

lemma batch_of_marks: "b_marks (batch_of self p us) = [] \<longleftrightarrow> us = []"
  using plan_length [of self "peer_room p" us] by (cases us) (auto simp: batch_of_def split: prod.splits list.splits)

lemma build_cut:
  assumes "toks_ok ts" and "m \<le> length (log_bytes ts)"
  shows "\<exists>j \<le> length ts. build self p (take m (log_bytes ts)) = batch_of self p (take j ts) \<and> (m = length (log_bytes ts) \<longrightarrow> j = length ts)"
  using build_prefix [OF assms, of self p] by (auto simp: batch_of_def)

lemma read_batch_prefix:
  assumes ok: "toks_ok ts" and bytes: "se_file env = log_bytes ts" and k: "k \<le> length ts" "peer_offset p = place ts k"
    and run: "read_batch self env p = (got, b)"
  shows "\<exists>j \<le> length ts - k. b = batch_of self p (take j (drop k ts)) \<and> (got \<and> k < length ts \<longrightarrow> 0 < j)"
proof -
  let ?us = "drop k ts"
  have sp: "se_file env = log_bytes (take k ts) @ log_bytes ?us" using log_bytes_split bytes by simp
  let ?left = "length (log_bytes ?us)"
  have left: "length (se_file env) - peer_offset p = ?left" using sp k(2) by simp
  have piece: "take n (drop (peer_offset p) (se_file env)) = take n (log_bytes ?us)" for n unfolding sp k(2) by simp
  have us: "toks_ok ?us" using ok by (auto simp: toks_ok_def dest: in_set_dropD)
  note unfolded = run [unfolded read_batch_def left Let_def]
  let ?m = "min ?left kMaxBatchBytes"
  show ?thesis
  proof (cases "pread_all (se_read env) (se_file env) ?m (peer_offset p)")
    case None
    then show ?thesis using unfolded batch_of_Nil by (intro exI [of _ 0]) simp
  next
    case (Some buf)
    have buf: "buf = take ?m (log_bytes ?us)" "length buf = ?m" using pread_all_Some [OF Some] piece by auto
    obtain j where j: "j \<le> length ?us" "build self p buf = batch_of self p (take j ?us)" "?m = ?left \<longrightarrow> j = length ?us"
      using build_cut [OF us, of ?m self p] unfolding buf(1) by auto
    show ?thesis
    proof (cases "b_marks (build self p buf) = [] \<and> \<not> b_misaligned (build self p buf) \<and> length buf < ?left")
      case True
      then have z: "take j ?us = []" using j(2) batch_of_marks by simp
      obtain j2 where j2: "build self p (log_bytes ?us) = batch_of self p (take j2 ?us)" "j2 = length ?us"
        using build_cut [OF us order_refl, of self p] by auto
      show ?thesis
      proof (cases "pread_all (se_reread env) (se_file env) ?left (peer_offset p)")
        case None
        then have "got = False" "b = (build self p buf)\<lparr>b_expected := 0\<rparr>" using unfolded Some True by auto
        then show ?thesis using j(2) z batch_of_Nil by (intro exI [of _ 0]) (simp add: empty_batch_def)
      next
        case (Some whole)
        then have "whole = log_bytes ?us" using pread_all_Some [OF Some] piece [of ?left] by simp
        then have "got = True" "b = batch_of self p (take j2 ?us)" using unfolded Some \<open>pread_all (se_read env) _ _ _ = Some buf\<close> True j2 by auto
        then show ?thesis using j2(2) by (intro exI [of _ j2]) simp
      qed
    next
      case False
      then have b: "got = True" "b = batch_of self p (take j ?us)" using unfolded Some j(2) by (auto split: if_splits)
      have "0 < j" if "k < length ts"
      proof (rule ccontr)
        assume "\<not> 0 < j"
        then have e: "build self p buf = empty_batch (peer_room p)" using j(2) batch_of_Nil by simp
        then have "\<not> ?m < ?left" using False buf(2) by (simp add: empty_batch_def)
        then have "j = length ?us" using j(3) by simp
        then show False using that \<open>\<not> 0 < j\<close> by simp
      qed
      then show ?thesis using b j(1) by (intro exI [of _ j]) simp
    qed
  qed
qed

lemma connect_keeps: "peer_offset (connect_peer pw env p) = peer_offset p" "peer_inode (connect_peer pw env p) = peer_inode p"
  "state_file (connect_peer pw env p) = state_file p"
  by (auto simp: connect_peer_def connect_step_def secure_def disconnect_def Let_def split: prod.splits option.splits bool.splits)

lemma place_full:
  assumes "place ts k = length (log_bytes ts)" and "k \<le> length ts"
  shows "k = length ts"
proof -
  have "log_bytes (drop k ts) = []" using assms(1) log_bytes_split [of ts k] by (metis append_self_conv length_append length_0_conv add_cancel_right_right)
  then have "drop k ts = []" by (cases "drop k ts") (simp_all add: resp_encode_def)
  then show ?thesis using assms(2) by simp
qed

lemma place_le: "place ts k \<le> length (log_bytes ts)"
  by (metis log_bytes_split length_append le_add1)

lemma closing_extra:
  assumes bytes: "se_file env = log_bytes ts" and k: "k \<le> length ts" "peer_offset p = place ts k" and j: "j \<le> length ts - k"
    and pl: "fst (plan self (peer_room p) (take j (drop k ts))) = cs"
    and run: "closing self env got (place ts k) (batch_of self p (take j (drop k ts))) = (out, replies)"
  shows "\<exists>extra. out = concat (map encode (concat cs @ extra)) \<and> replies = length (concat cs @ extra) \<and>
    (extra = [] \<or> extra = [[''PING'']] \<or> (extra = [[''REPLFRONTIER'', dec (unat self), dec (unat (se_frontier env))]] \<and> k + j = length ts))"
proof -
  let ?us = "take j (drop k ts)" and ?b = "batch_of self p (take j (drop k ts))"
  obtain r where pr: "plan self (peer_room p) ?us = (cs, r)" using pl by (metis prod.collapse)
  have b: "b_out ?b = concat (map encode (concat cs))" "b_expected ?b = length (concat cs)" "b_marks ?b = marks_of 0 (place ts k) cs ?us"
    by (simp_all add: batch_of_def pr k(2))
  have len: "length cs = length ?us" using plan_length [of self "peer_room p" ?us] pr by simp
  let ?at = "if b_marks ?b = [] then place ts k else snd (last (b_marks ?b))"
  have at: "?at = place ts (k + j)"
  proof (cases "?us = []")
    case True
    then have "j = 0 \<or> k = length ts" using k(1) by auto
    then show ?thesis using True batch_of_marks [of self p ?us] j by auto
  next
    case False
    then show ?thesis using last_marks [OF len, of 0 "place ts k"] place_add [where ts = ts and k = k and j = j] b(3) by simp
  qed
  show ?thesis
  proof (cases "got \<and> ?at = length (se_file env)")
    case True
    then have "k + j = length ts" using at bytes place_full [where ts = ts and k = "k + j"] k(1) j by simp
    moreover have "out = b_out ?b @ encode [''REPLFRONTIER'', dec (unat self), dec (unat (se_frontier env))]" "replies = Suc (b_expected ?b)"
      using run True unfolding closing_def Let_def by auto
    ultimately show ?thesis using b
      by (intro exI [of _ "[[''REPLFRONTIER'', dec (unat self), dec (unat (se_frontier env))]]"]) simp
  next
    case False
    then have c: "(out, replies) = (if b_expected ?b = 0 then (encode [''PING''], 1) else (b_out ?b, b_expected ?b))"
      using run unfolding closing_def Let_def by auto
    show ?thesis
    proof (cases "b_expected ?b = 0")
      case True
      then have e: "concat cs = []" using b(2) by (metis length_0_conv)
      show ?thesis unfolding e using c True by (intro exI [of _ "[[''PING'']]"]) simp
    next
      case False
      then have "out = b_out ?b" "replies = b_expected ?b" using c by simp_all
      then show ?thesis using b(1,2) by (intro exI [of _ "[]"]) simp
    qed
  qed
qed

text \<open>The commands and replies of one caravan, and where the offset ends up.\<close>

lemma ship_session:
  assumes ok: "toks_ok ts" and bytes: "se_file env = log_bytes ts" and k: "k \<le> length ts" "peer_offset p = place ts k"
    and ino: "se_inode env = peer_inode p" and run: "ship self pw env p dk = (alive, sent, p', dk')"
  defines "p1 \<equiv> connect_peer pw env (realign env p)"
  shows "\<exists>j ls cs extra. j \<le> length ts - k \<and> fst (plan self (peer_room p1) (take j (drop k ts))) = cs \<and>
    peer_inode p' = peer_inode p \<and> state_file p' = state_file p \<and>
    peer_offset p' = place ts (k + confirmed (length (takeWhile positive ls)) cs) \<and>
    (if alive then sent = concat (map encode (concat cs @ extra)) \<and> length ls = length (concat cs @ extra) \<and>
         ls = take (length ls) (lines_of (concat (le_recv (se_link env)))) \<and> peer_lag p' = length (log_bytes ts) - peer_offset p' \<and>
         (extra = [] \<or> extra = [[''PING'']] \<or> (extra = [[''REPLFRONTIER'', dec (unat self), dec (unat (se_frontier env))]] \<and> k + j = length ts)) \<and>
         (fst (read_batch self env p1) \<and> k < length ts \<longrightarrow> 0 < j)
     else ls = [])"
proof -
  have r: "realign env p = p\<lparr>peer_lag := length (log_bytes ts) - place ts k\<rparr>" using ino bytes k(2) place_le [of k ts] by (simp add: realign_def)
  have p1: "peer_offset p1 = place ts k" "peer_inode p1 = peer_inode p" "state_file p1 = state_file p"
    unfolding p1_def connect_keeps r using k(2) by simp_all
  show ?thesis
  proof (cases "se_open env \<and> se_fstat env \<and> peer_fd p1")
    case False
    then have "alive = False \<and> (p' = p \<or> p' = p1)" using run by (auto simp: ship_def p1_def Let_def split: if_splits)
    then show ?thesis using p1 k(2) by (intro exI [of _ 0] exI [of _ "[]"]) auto
  next
    case True
    obtain got b where rb: "read_batch self env p1 = (got, b)" by fastforce
    obtain j where j: "j \<le> length ts - k" "b = batch_of self p1 (take j (drop k ts))" "got \<and> k < length ts \<longrightarrow> 0 < j"
      using read_batch_prefix [OF ok bytes k(1) p1(1) rb] by blast
    let ?us = "take j (drop k ts)"
    obtain cs rm where pl: "plan self (peer_room p1) ?us = (cs, rm)" by fastforce
    have len: "length cs = length ?us" using plan_length [of self "peer_room p1" ?us] pl by simp
    have b: "b_misaligned b = False" "b_expected b = length (concat cs)" "b_marks b = marks_of 0 (place ts k) cs ?us"
      using j(2) pl by (simp_all add: batch_of_def p1(1))
    obtain out replies where cl: "closing self env got (place ts k) b = (out, replies)" by fastforce
    obtain extra where ex: "out = concat (map encode (concat cs @ extra))" "replies = length (concat cs @ extra)"
      "extra = [] \<or> extra = [[''PING'']] \<or> (extra = [[''REPLFRONTIER'', dec (unat self), dec (unat (se_frontier env))]] \<and> k + j = length ts)"
      using closing_extra [OF bytes k(1) p1(1) j(1) _ cl [unfolded j(2)], of cs] pl by auto
    obtain al n where dl: "deliver (se_link env) p1 out replies = (al, n)" by fastforce
    let ?a = "if al then n else 0"
    have res: "alive = al" "sent = out" "peer_offset p' = advance ?a (b_marks b) (place ts k)" "peer_inode p' = peer_inode p" "state_file p' = state_file p"
      "peer_lag p' = length (log_bytes ts) - peer_offset p'"
      using run True rb b(1) cl dl p1 bytes by (auto simp: ship_def p1_def [symmetric] Let_def disconnect_def split: if_splits)
    have ofs: "peer_offset p' = place ts (k + confirmed ?a cs)"
    proof -
      have c: "confirmed ?a cs \<le> j" using confirmed_bound [of ?a cs] len by simp
      have "peer_offset p' = place ts k + length (log_bytes (take (confirmed ?a cs) ?us))"
        using advance_marks [OF len, of 0 ?a "place ts k"] res(3) b(3) by simp
      also have "take (confirmed ?a cs) ?us = take (confirmed ?a cs) (drop k ts)" using c by simp
      finally show ?thesis by (simp only: place_add)
    qed
    show ?thesis
    proof (cases al)
      case True
      have "deliver (se_link env) p1 out replies = (True, n)" using dl True by simp
      note dv = deliver_lines [OF this]
      define ls where "ls = take replies (lines_of (concat (le_recv (se_link env))))"
      have ls: "length ls = replies" "ls = take (length ls) (lines_of (concat (le_recv (se_link env))))" "n = length (takeWhile positive ls)"
        using dv by (simp_all add: ls_def)
      show ?thesis using True res ofs ls ex j(1,3) pl rb
        by (intro exI [of _ j] exI [of _ ls] exI [of _ cs] exI [of _ extra]) simp
    next
      case False
      show ?thesis using False res ofs j(1) pl
        by (intro exI [of _ j] exI [of _ "[]"] exI [of _ cs] exI [of _ extra]) simp
    qed
  qed
qed

section \<open>Many caravans\<close>

text \<open>
  A run in which every caravan is heard: the log is the file with the tokens \<open>ts\<close>, it can be read, and the peer
  answers, with nothing but positive lines.
\<close>

fun all_heard :: "u32 \<Rightarrow> string \<Rightarrow> string list list \<Rightarrow> peer \<Rightarrow> (string \<Rightarrow> string option) \<Rightarrow> ship_env list \<Rightarrow> bool" where
  "all_heard self pw ts p dk [] = True"
| "all_heard self pw ts p dk (env # envs) =
     (case ship self pw env p dk of
        (alive, _, p', dk') \<Rightarrow>
          alive \<and> se_file env = log_bytes ts \<and> se_inode env = peer_inode p \<and>
          fst (read_batch self env (connect_peer pw env (realign env p))) \<and>
          list_all positive (lines_of (concat (le_recv (se_link env)))) \<and> all_heard self pw ts p' dk' envs)"

fun caravans :: "u32 \<Rightarrow> string \<Rightarrow> peer \<Rightarrow> (string \<Rightarrow> string option) \<Rightarrow> ship_env list \<Rightarrow> peer" where
  "caravans self pw p dk [] = p"
| "caravans self pw p dk (env # envs) = (case ship self pw env p dk of (_, _, p', dk') \<Rightarrow> caravans self pw p' dk' envs)"

lemma ship_heard:
  assumes ok: "toks_ok ts" and k: "k \<le> length ts" "peer_offset p = place ts k" and heard: "all_heard self pw ts p dk (env # envs)"
    and run: "ship self pw env p dk = (alive, sent, p', dk')"
  shows "\<exists>k' \<le> length ts. peer_offset p' = place ts k' \<and> k \<le> k' \<and> (k < length ts \<longrightarrow> k < k') \<and> peer_lag p' = length (log_bytes ts) - peer_offset p'"
proof -
  have h: "alive" "se_file env = log_bytes ts" "se_inode env = peer_inode p" "fst (read_batch self env (connect_peer pw env (realign env p)))"
    "list_all positive (lines_of (concat (le_recv (se_link env))))" using heard run by auto
  obtain j ls cs extra where s: "j \<le> length ts - k" "fst (plan self (peer_room (connect_peer pw env (realign env p))) (take j (drop k ts))) = cs"
    "peer_offset p' = place ts (k + confirmed (length (takeWhile positive ls)) cs)" "length ls = length (concat cs @ extra)"
    "ls = take (length ls) (lines_of (concat (le_recv (se_link env))))"
    "fst (read_batch self env (connect_peer pw env (realign env p))) \<and> k < length ts \<longrightarrow> 0 < j" "peer_lag p' = length (log_bytes ts) - peer_offset p'"
    using ship_session [OF ok h(2) k h(3) run, unfolded if_P [OF h(1)]] by blast
  have "set ls \<subseteq> set (lines_of (concat (le_recv (se_link env))))" by (subst s(5)) (rule set_take_subset)
  then have "takeWhile positive ls = ls" using h(5) by (auto simp: list_all_iff)
  then have "length (concat cs) \<le> length (takeWhile positive ls)" unfolding \<open>takeWhile positive ls = ls\<close> using s(4) by simp
  then have "confirmed (length (takeWhile positive ls)) cs = length cs" by (rule confirmed_all)
  moreover have "length cs = j" using plan_length s(1,2) by (metis length_drop length_take min.absorb2)
  ultimately have "peer_offset p' = place ts (k + j)" using s(3) by simp
  then show ?thesis using s(1,6,7) h(4) k(1) by (intro exI [of _ "k + j"]) simp
qed

lemma caravans_progress:
  "toks_ok ts \<Longrightarrow> k \<le> length ts \<Longrightarrow> peer_offset p = place ts k \<Longrightarrow> all_heard self pw ts p dk envs \<Longrightarrow>
    \<exists>k' \<le> length ts. peer_offset (caravans self pw p dk envs) = place ts k' \<and> min (length ts) (k + length envs) \<le> k'"
proof (induction envs arbitrary: k p dk)
  case (Cons env envs)
  obtain alive sent p' dk' where run: "ship self pw env p dk = (alive, sent, p', dk')" by (metis prod_cases4)
  obtain k1 where k1: "k1 \<le> length ts" "peer_offset p' = place ts k1" "k \<le> k1" "k < length ts \<longrightarrow> k < k1"
    using ship_heard [OF Cons.prems run] by blast
  have "all_heard self pw ts p' dk' envs" using Cons.prems(4) run by auto
  from Cons.IH [OF Cons.prems(1) k1(1,2) this] obtain k2 where k2: "k2 \<le> length ts" "peer_offset (caravans self pw p' dk' envs) = place ts k2"
    "min (length ts) (k1 + length envs) \<le> k2" by blast
  have "min (length ts) (k + length (env # envs)) \<le> k2" using k1(1,3,4) k2(3) by (cases "k < length ts") auto
  then show ?case using k2(1,2) run by (intro exI [of _ k2]) simp
qed (auto intro!: exI)

section \<open>Restarting\<close>

lemma takeWhile_dec: "\<not> is_digit c \<Longrightarrow> takeWhile is_digit (dec n @ c # cs) = dec n \<and> dropWhile is_digit (dec n @ c # cs) = c # cs"
  using dec_digits [of n] by (simp add: list_all_iff takeWhile_append2 dropWhile_append2)

lemma stream_dec:
  assumes "n < 2 ^ 64" and "\<not> is_digit c"
  shows "stream_u64 (dec n @ c # cs) = (of_nat n, Some (c # cs))"
proof -
  have d: "list_all is_digit (dec n)" "dec_val 0 (dec n) = n" "dec n \<noteq> []" using dec_digits [of n] by (auto simp: dec.simps [of n])
  then obtain x xs where x: "dec n = x # xs" "is_digit x" by (cases "dec n") auto
  have "\<not> is_space x" "x \<noteq> CHR ''-''" "x \<noteq> CHR ''+''" using x(2) by (auto simp: is_space_def is_digit_def)
  then have "dropWhile is_space (dec n @ c # cs) = dec n @ c # cs" by (simp add: x(1))
  then show ?thesis using takeWhile_dec [OF assms(2), of n cs] d assms(1) \<open>x \<noteq> CHR ''-''\<close> \<open>x \<noteq> CHR ''+''\<close>
    unfolding stream_u64_def Let_def by (simp add: x(1))
qed

lemma stream_blank: "stream_u64 (CHR '' '' # s) = stream_u64 s"
  by (simp add: stream_u64_def is_space_def)

section \<open>A concrete peer\<close>

definition ex_own :: AofRecord where
  "ex_own = \<lparr>ar_room = ''default'', ar_args = [''SET'', ''k'', ''v''], ar_expire_at = 0, ar_timestamp_ms = 196608000000000, ar_node_id = 7\<rparr>"

definition ex_toks :: "string list list" where
  "ex_toks = [[kMagicToken, ''3''], record_tokens ex_own]"

definition ex_peer :: peer where
  "ex_peer = (new_peer Map.empty (''h'', ''1''))\<lparr>peer_fd := True, peer_ssl := True, peer_inode := 9, peer_offset := place ex_toks 1, peer_room := ''default''\<rparr>"

definition ex_ship :: ship_env where
  "ex_ship =
     (let link = \<lparr>le_ssl_write = True, le_write = [], le_recv = [''+OK (Ignored St'', ''ale Write)'' @ CRLF @ ''+OK'' @ CRLF]\<rparr> in
      \<lparr>se_frontier = 0, se_open = True, se_fstat = True, se_inode = 9, se_file = log_bytes ex_toks, se_fds = [],
       se_connect = \<lparr>ce_resolved = Some [], ce_fcntl = True, ce_rcvtimeo = True, ce_sndtimeo = True\<rparr>, se_tls = Some ''cert'',
       se_handshake = \<lparr>hs_new = True, hs_set_fd = True, hs_connect = True, hs_theirs = Some ''cert''\<rparr>, se_auth = link, se_read = [Ret (length (encode_record ex_own))], se_reread = [], se_link = link, se_reset = (True, True), se_save = (True, True)\<rparr>)"

lemma ex_ship_fields [simp]: "se_open ex_ship" "se_fstat ex_ship" "se_inode ex_ship = 9" "se_file ex_ship = log_bytes ex_toks"
  "se_read ex_ship = [Ret (length (encode_record ex_own))]" "le_ssl_write (se_link ex_ship)" "[] \<notin> set (le_recv (se_link ex_ship))"
  "lines_of (concat (le_recv (se_link ex_ship))) = [''+OK (Ignored Stale Write)'', ''+OK'']"
  by (simp_all add: ex_ship_def Let_def lines_of.simps)

lemma digit_chars: "char_of (48 :: nat) = CHR ''0''" "char_of (49 :: nat) = CHR ''1''" "char_of (50 :: nat) = CHR ''2''" "char_of (51 :: nat) = CHR ''3''"
  by code_simp+

lemma ex_toks_ok: "toks_ok ex_toks" "log_bytes ex_toks = log_image [ex_own]" "length (log_bytes ex_toks) \<le> kMaxBatchBytes"
proof -
  show "toks_ok ex_toks"
    by (simp add: toks_ok_def ex_toks_def record_tokens_def ex_own_def kMagicToken_def kMetaToken_def kMaxArgs_def kMaxBulk_def dec_int_def dec.simps)
  show "log_bytes ex_toks = log_image [ex_own]"
    by (simp add: log_bytes_def ex_toks_def log_image_def kAofHeader_def encode_record_resp resp_encode_def bulk_string_def kMagicToken_def dec.simps digit_chars)
  show "length (log_bytes ex_toks) \<le> kMaxBatchBytes"
    by (simp add: log_bytes_def ex_toks_def record_tokens_def ex_own_def kMagicToken_def kMetaToken_def resp_encode_def bulk_string_def dec_int_def dec.simps kMaxBatchBytes_def)
qed

lemma ex_commands: "translate 7 [kMagicToken, ''3''] = []" "translate 7 (record_tokens ex_own) = [[''CRDTMERGE'', ''k'', ''v'', dec 196608000000000, dec 7, dec_int 0]]"
proof -
  show "translate 7 [kMagicToken, ''3''] = []" by (simp add: translate_def)
  have n: "hlc_normalize 196608000000000 = 196608000000000" by (simp add: hlc_normalize_def kLegacyLimit_def)
  then have "own_record 7 ex_own" by (simp add: own_record_def ex_own_def upper_def toupper_def)
  from translate_own [OF this] show "translate 7 (record_tokens ex_own) = [[''CRDTMERGE'', ''k'', ''v'', dec 196608000000000, dec 7, dec_int 0]]"
    using n by (simp add: changes_def ex_own_def upper_def toupper_def change_command_def)
qed

lemma ex_peer_at: "peer_offset ex_peer = place ex_toks 1" "peer_inode ex_peer = 9" "peer_fd ex_peer" "peer_ssl ex_peer" "state_file ex_peer = ''replication_h_1.offset''" "peer_room ex_peer = ''default''"
  by (simp_all add: ex_peer_def new_peer_def load_state_def)

lemma ex_heard: "all_heard 7 [] ex_toks ex_peer Map.empty [ex_ship]"
proof -
  let ?p = "connect_peer [] ex_ship (realign ex_ship ex_peer)" and ?n = "length (encode_record ex_own)"
  have r: "realign ex_ship ex_peer = ex_peer\<lparr>peer_lag := length (log_bytes ex_toks) - place ex_toks 1\<rparr>"
    using ex_peer_at(1,2) place_le [of 1 ex_toks] by (simp add: realign_def)
  have p: "peer_offset ?p = place ex_toks 1" "peer_fd ?p" "peer_ssl ?p" "peer_room ?p = ''default''" unfolding r by (simp_all add: connect_peer_def connect_step_def ex_peer_at)
  have whole: "length (log_bytes ex_toks) = place ex_toks 1 + ?n" "?n \<noteq> 0" "drop 1 ex_toks = [record_tokens ex_own]"
    by (simp_all add: ex_toks_def encode_record_resp) (simp add: resp_encode_def)
  obtain got b where rb: "read_batch 7 ex_ship ?p = (got, b)" by fastforce
  obtain j where "j \<le> length ex_toks - 1" "b = batch_of 7 ?p (take j (drop 1 ex_toks))"
    using read_batch_prefix [OF ex_toks_ok(1) ex_ship_fields(4) _ p(1) rb] by (auto simp: ex_toks_def)
  then have j: "j \<le> 1" "b = batch_of 7 ?p (take j (drop 1 ex_toks))" by (simp_all add: ex_toks_def)
  have "pread_all (se_read ex_ship) (se_file ex_ship) ?n (place ex_toks 1) \<noteq> None"
    using pread_all_one [of "place ex_toks 1" ?n "log_bytes ex_toks" "[]"] whole by simp
  then obtain y where y: "pread_all (se_read ex_ship) (se_file ex_ship) ?n (place ex_toks 1) = Some y" by auto
  have "?n \<le> kMaxBatchBytes" using ex_toks_ok(3) whole(1) by simp
  then have got: "got" using rb p(1) whole(1) y conjunct1 [OF pread_all_Some [OF y]] by (simp add: read_batch_def Let_def)
  obtain out replies where cl: "closing 7 ex_ship got (place ex_toks 1) b = (out, replies)" by fastforce
  obtain cs r where pl: "plan 7 (peer_room ?p) (take j (drop 1 ex_toks)) = (cs, r)" by fastforce
  have "j = 0 \<or> j = Suc 0" using j(1) by auto
  moreover have "record_tokens ex_own ! 0 = ''default''" by (simp add: record_tokens_def ex_own_def)
  ultimately have "length (concat cs) \<le> 1" using pl [unfolded whole(3) p(4)] ex_commands by auto
  moreover have "\<exists>extra. replies = length (concat cs @ extra) \<and> length extra \<le> 1"
    using closing_extra [OF ex_ship_fields(4) _ p(1) _ refl cl [unfolded j(2)]] j(1) pl by (force simp: ex_toks_def)
  ultimately have "replies \<le> 2" by auto
  then have "fst (deliver (se_link ex_ship) ?p out replies)" using deliver_alive [of ?p "se_link ex_ship" out replies] p(3) by simp
  moreover have "b_misaligned b = False" using j(2) pl by (simp add: batch_of_def)
  moreover obtain al n where "deliver (se_link ex_ship) ?p out replies = (al, n)" by fastforce
  ultimately have "fst (ship 7 [] ex_ship ex_peer Map.empty)" using p rb cl by (simp add: ship_def Let_def)
  then show ?thesis using rb got ex_peer_at(2) by (auto simp: positive_def split: prod.split)
qed

section \<open>Properties\<close>

text \<open>
  Replication sends exactly what the log says happened here: for a record this node wrote (\<open>SET\<close>, \<open>MSET\<close>, \<open>DEL\<close>,
  as they are read back from the log) the commands sent are one merge or deletion per change the record makes to the
  store, with its value, expiry and version; for a record that came from another node nothing is sent, so
  writes do not echo.
\<close>

theorem replicated_changes:
  "(own_record self r \<longrightarrow> translate self (record_tokens r) = map (change_command r) (changes r)) \<and>
   (ar_node_id r \<noteq> self \<longrightarrow> translate self (record_tokens r) = [])"
  using translate_own translate_foreign by blast

theorem replicated_changes_witness:
  "translate 7 (record_tokens ex_own) = map (change_command ex_own) (changes ex_own) \<and> translate 8 (record_tokens ex_own) = []"
proof -
  have "own_record 7 ex_own" by (simp add: own_record_def ex_own_def upper_def toupper_def hlc_normalize_def kLegacyLimit_def)
  moreover have "ar_node_id ex_own \<noteq> 8" by (simp add: ex_own_def)
  ultimately show ?thesis using replicated_changes [of 7 ex_own] replicated_changes [of 8 ex_own] by blast
qed

text \<open>
  C33. The offset only passes what the peer has confirmed. Started at a record boundary of the log, a caravan ends at a
  record boundary, and the records it passed are those whose commands are all answered by leading positive replies: the
  sent batch is the commands of a run of whole records followed by at most one closing command (the frontier only when the
  run reaches the end of the log), and the count stops at the first reply that is not positive. After a failure,
  wherever it is, only records that need no command are passed.
\<close>

theorem ship_passes_confirmed:
  assumes "toks_ok ts" and "se_file env = log_bytes ts" and "k \<le> length ts" and "peer_offset p = length (log_bytes (take k ts))"
    and "se_inode env = peer_inode p" and "ship self pw env p dk = (alive, sent, p', dk')"
  shows "\<exists>j ls extra. let cs = fst (plan self (peer_room (connect_peer pw env (realign env p))) (take j (drop k ts)));
      passed = confirmed (length (takeWhile positive ls)) cs in
    k + j \<le> length ts \<and> peer_offset p' = length (log_bytes (take (k + passed) ts)) \<and>
    length (concat (take passed cs)) \<le> length (takeWhile positive ls) \<and>
    (if alive
     then sent = concat (map encode (concat cs @ extra)) \<and> ls = take (length (concat cs @ extra)) (lines_of (concat (le_recv (se_link env)))) \<and>
       length ls = length (concat cs @ extra) \<and>
       (extra = [] \<or> extra = [[''PING'']] \<or> (extra = [[''REPLFRONTIER'', dec (unat self), dec (unat (se_frontier env))]] \<and> k + j = length ts))
     else ls = [])"
proof -
  let ?p1 = "connect_peer pw env (realign env p)"
  obtain j ls cs extra where s: "j \<le> length ts - k" "fst (plan self (peer_room ?p1) (take j (drop k ts))) = cs"
    "peer_offset p' = place ts (k + confirmed (length (takeWhile positive ls)) cs)"
    "if alive then sent = concat (map encode (concat cs @ extra)) \<and> length ls = length (concat cs @ extra) \<and>
         ls = take (length ls) (lines_of (concat (le_recv (se_link env)))) \<and> peer_lag p' = length (log_bytes ts) - peer_offset p' \<and>
         (extra = [] \<or> extra = [[''PING'']] \<or> (extra = [[''REPLFRONTIER'', dec (unat self), dec (unat (se_frontier env))]] \<and> k + j = length ts)) \<and>
         (fst (read_batch self env ?p1) \<and> k < length ts \<longrightarrow> 0 < j)
     else ls = []"
    using ship_session [OF assms] by blast
  have kj: "k + j \<le> length ts" using s(1) assms(3) by simp
  have cb: "length (concat (take (confirmed (length (takeWhile positive ls)) cs) cs)) \<le> length (takeWhile positive ls)"
    using confirmed_bound by blast
  show ?thesis
  proof (cases alive)
    case True
    note t = s(4) [unfolded if_P [OF True]]
    then have "ls = take (length (concat cs @ extra)) (lines_of (concat (le_recv (se_link env))))" by metis
    then show ?thesis using True kj s(3) cb t unfolding Let_def by (intro exI [of _ j] exI [of _ ls] exI [of _ extra]) (simp only: s(2) if_True simp_thms)
  next
    case False
    then show ?thesis using kj s(3,4) cb unfolding Let_def
      by (intro exI [of _ j] exI [of _ ls] exI [of _ extra]) (simp only: s(2) if_False simp_thms)
  qed
qed

theorem ship_passes_confirmed_witness:
  "\<exists>k. peer_offset (fst (snd (snd (ship 7 [] ex_ship ex_peer Map.empty)))) = length (log_bytes (take k ex_toks))"
proof -
  obtain alive sent p' dk' where run: "ship 7 [] ex_ship ex_peer Map.empty = (alive, sent, p', dk')" by (metis prod_cases4)
  have "1 \<le> length ex_toks" "se_inode ex_ship = peer_inode ex_peer" by (simp_all add: ex_toks_def ex_peer_at)
  then show ?thesis using ship_passes_confirmed [OF ex_toks_ok(1) ex_ship_fields(4) _ ex_peer_at(1) _ run] unfolding run Let_def by auto
qed

text \<open>
  C34. Replication catches up: over a log of any length, as many caravans as there are records left bring
  the offset to the end of the log, when each can read the log and the peer answers each without an error. So every
  caravan makes progress, whatever the sizes of the records are (a record larger than a batch is read whole).
\<close>

theorem replication_catches_up:
  assumes "toks_ok ts" and "k \<le> length ts" and "peer_offset p = length (log_bytes (take k ts))"
    and "all_heard self pw ts p dk envs" and "length ts - k \<le> length envs"
  shows "peer_offset (caravans self pw p dk envs) = length (log_bytes ts)"
  using caravans_progress [OF assms(1-4)] assms(5) by fastforce

theorem replication_catches_up_witness:
  "peer_offset (caravans 7 [] ex_peer Map.empty [ex_ship]) = length (log_image [ex_own])"
proof -
  have "1 \<le> length ex_toks" "length ex_toks - 1 \<le> length [ex_ship]" by (simp_all add: ex_toks_def)
  then show ?thesis using replication_catches_up [OF ex_toks_ok(1) _ ex_peer_at(1) ex_heard] unfolding ex_toks_ok(2) by blast
qed

text \<open>
  The pause between caravans is the tick after a success and doubles with every failure in a row up to thirty
  seconds: after any history it is the tick times two to the number of failures since the last success, capped.
\<close>

theorem backoff_bounded:
  "foldl (\<lambda>delay alive. next_delay alive delay) kTickMs outcomes = min (kTickMs * 2 ^ length (takeWhile Not (rev outcomes))) kMaxBackoffMs"
proof (induction outcomes rule: rev_induct)
  case Nil
  then show ?case by (simp add: kTickMs_def kMaxBackoffMs_def)
next
  case (snoc x xs)
  then show ?case by (cases x) (simp_all add: next_delay_def kTickMs_def kMaxBackoffMs_def min_def)
qed

text \<open>
  A restart resumes where replication stood: the state file that \<open>save\<close> leaves behind is read back as
  the inode and the offset that were saved, and a failing save leaves the previous file.
\<close>

theorem restart_resumes:
  assumes "peer_offset p < 2 ^ 64"
  shows "load_state (save outcome p dk (state_file p)) =
    (if outcome = (True, True) then (peer_inode p, peer_offset p) else load_state (dk (state_file p)))"
proof -
  have ino: "unat (peer_inode p) < 2 ^ 64" by (rule unat_u64_less)
  have nd: "\<not> is_digit (CHR '' '')" "\<not> is_digit (CHR 0x0A)" by (simp_all add: is_digit_def)
  have "stream_u64 (state_text p) = (peer_inode p, Some (CHR '' '' # dec (peer_offset p) @ [CHR 0x0A]))"
    using stream_dec [OF ino nd(1)] by (simp add: state_text_def)
  moreover have "stream_u64 (CHR '' '' # dec (peer_offset p) @ [CHR 0x0A]) = (of_nat (peer_offset p), Some [CHR 0x0A])"
    using stream_dec [OF assms nd(2)] by (simp add: stream_blank)
  ultimately have "load_state (Some (state_text p)) = (peer_inode p, peer_offset p)"
    using unat_of_nat_u64 [OF assms] by (simp add: load_state_def)
  then show ?thesis by (cases outcome) (simp add: save_def)
qed

theorem restart_resumes_witness: "load_state (save (True, True) ex_peer Map.empty (state_file ex_peer)) = (9, length (log_bytes (take 1 ex_toks)))"
proof -
  have "peer_offset ex_peer < 2 ^ 64" using ex_peer_at(1) place_le [of 1 ex_toks] ex_toks_ok(3) by (simp add: kMaxBatchBytes_def)
  then show ?thesis using restart_resumes [of ex_peer "(True, True)" Map.empty] ex_peer_at(1,2) by simp
qed

end
