(* ===== verification/Received.thy ===== *)
theory Received
  imports Dispatch
begin

text \<open>
  The receiving end of replication: what a node holds after it has executed a replicated update. A version is \<open>known\<close> to a
  node when the node would ignore an update with it: its record or tombstone is as new, or the version is not above the watermark. Every
  positive reply means that the version is known, and nothing that follows makes a node forget one.
\<close>

section \<open>In a room\<close>

definition knows :: "string \<Rightarrow> cell \<Rightarrow> string \<Rightarrow> version \<Rightarrow> bool" where
  "knows name c key v \<longleftrightarrow> v_ts v \<le> watermark (snd c) \<or> stale name key (view c key) v (snd c)"

text \<open>An update as this program sends it: a normalised version, and an expiry that is not in the past.\<close>

definition op_fine :: "int \<Rightarrow> crdt_op \<Rightarrow> bool" where
  "op_fine now x \<longleftrightarrow> hlc_normalize (v_ts (op_ver x)) = v_ts (op_ver x) \<and>
     (case x of Merge key val v ex \<Rightarrow> 0 \<le> ex \<and> ex \<le> LLONG_MAX \<and> (ex = 0 \<or> now \<le> ex) | Delete key v \<Rightarrow> True)"

fun handle_op :: "string \<Rightarrow> crdt_op \<Rightarrow> cell \<Rightarrow> string \<times> cell" where
  "handle_op name (Merge key val v ex) = handle_crdtmerge name (op_args (Merge key val v ex))"
| "handle_op name (Delete key v) = handle_crdtdel name (op_args (Delete key v))"

definition learns :: "string \<Rightarrow> cell \<Rightarrow> cell \<Rightarrow> bool" where
  "learns name c c' \<longleftrightarrow> handled name c c' \<and> nested_ok (tombstones (snd c')) \<and> (\<forall>k v. knows name c k v \<longrightarrow> knows name c' k v) \<and>
     (\<forall>n k. n \<noteq> name \<longrightarrow> find_tomb n k (snd c') = find_tomb n k (snd c))"

lemma learns_refl: "ready name c \<Longrightarrow> learns name c c"
  by (simp add: learns_def ready_def handled_refl)

lemma learns_trans: "learns name a b \<Longrightarrow> learns name b c \<Longrightarrow> learns name a c"
  unfolding learns_def using handled_trans [of name a b c] by auto

lemma learns_same:
  assumes "handled name c c'" and "nested_ok (tombstones (snd c'))" and "view c' = view c" and "\<And>n k. find_tomb n k (snd c') = find_tomb n k (snd c)"
  shows "learns name c c'"
  using assms handledD(5) [OF assms(1)] by (simp add: learns_def knows_def stale_def split: option.split)

lemma stale_same_tombs: "watermark d' = watermark d \<Longrightarrow> find_tomb n k d' = find_tomb n k d \<Longrightarrow> stale n k r v d' = stale n k r v d"
  by (simp add: stale_def split: option.split)

text \<open>An update that is not stale is newer than whatever was.\<close>

lemma stale_below:
  "stale name key r u d \<Longrightarrow> \<not> stale name key r v d \<Longrightarrow> u \<le> v \<or> v_ts u \<le> watermark d"
  by (auto simp: stale_def not_le split: option.splits dest: order_trans less_imp_le)

lemma find_tomb_set_any:
  "find_tomb n k (set_tomb name key v d) =
     (if peer_count d = 0 \<or> v_ts v \<le> watermark d then find_tomb n k d
      else if n = name \<and> k = key then Some (case find_tomb name key d of None \<Rightarrow> v | Some t \<Rightarrow> max t v)
      else find_tomb n k d)"
  by (auto simp: set_tomb_def find_tomb_def count_tomb_def split: option.splits)

lemma find_tomb_clear_other: "nested_ok (tombstones d) \<Longrightarrow> n \<noteq> name \<Longrightarrow> find_tomb n k (clear_tomb name key d) = find_tomb n k d"
  by (simp add: clear_tomb_def find_tomb_def count_tomb_def)

lemma tombstones_access [simp]:
  "tombstones (snd (insert_rec key c)) = tombstones (snd c)" "tombstones (snd (assign key rc val ex ts node c)) = tombstones (snd c)"
  by (simp_all add: insert_rec_def emplace_def assign_def set_value_def update_rec_def db_charge_def count_key_def charge_def case_prod_unfold)

lemma write_other:
  assumes "ensure_rec name key r c = (rc, c2)" and "nested_ok (tombstones (snd c))" and "n \<noteq> name"
  shows "find_tomb n k (snd (assign key rc val ex ts node c2)) = find_tomb n k (snd c)"
proof -
  have "find_tomb n k (snd c2) = find_tomb n k (snd c)"
    using assms find_tomb_clear_other [of "snd (insert_rec key c)" n name k key]
    by (auto simp: ensure_rec_def find_tomb_def split: option.splits)
  then show ?thesis by (simp add: find_tomb_def)
qed

lemma incoming_sent:
  assumes "hlc_normalize (v_ts v) = v_ts v"
  shows "incoming_version (dec (unat (v_ts v))) (dec (unat (v_node v))) d =
    (if uint (physical_ms (v_ts v)) > now_ms d + max_clock_offset_ms d
     then (Inl (err ''timestamp too far in the future (SOMNIUM_MAX_CLOCK_OFFSET_MS)''), d)
     else (Inr v, d\<lparr>clock := clock_observe (clock d) (v_ts v)\<rparr>))"
proof -
  obtain nd :: u64 where nd: "parse_u64 (dec (unat (v_node v))) = Some nd" "unat nd = unat (v_node v)"
    using unat_u32_less [of "v_node v"] parse_u64_dec [of "unat (v_node v)"] unat_of_nat_u64 [of "unat (v_node v)"] by simp
  have "\<not> unat (v_node v) > 4294967295" using unat_u32_less [of "v_node v"] by simp
  then show ?thesis using assms nd by (cases v) (simp add: incoming_version_def Let_def)
qed

text \<open>What both handlers start with: the clock is advanced and the key is looked up; nothing is forgotten.\<close>

lemma look_learns:
  assumes rdy: "ready name c" and run: "lookup name key (on_db (\<lambda>d. d\<lparr>clock := t\<rparr>) c) = (r, c1)"
  shows "learns name c c1" "ready name c1" "r = view c1 key"
    "\<And>rc. r = Some rc \<Longrightarrow> map_of (room_keys (fst c1)) key = Some rc"
    "r = None \<Longrightarrow> map_of (room_keys (fst c1)) key = None \<and> nget (cold_index (db_eviction (snd c1))) name key = None"
proof -
  let ?c0 = "on_db (\<lambda>d. d\<lparr>clock := t\<rparr>) c"
  note q = quiet_step [OF quiet_basic(3) [of t] readyD(1) [OF rdy]]
  have rd0: "reads_ok (snd ?c0)" using handledD(2) [OF q(1) readyD(2) [OF rdy]] .
  note f = find_step [OF handledD(1) [OF q(1)] rd0 run]
  have view0: "view ?c0 = view c" using q(2) by (simp add: fun_eq_iff view_stored)
  have h: "handled name c c1" by (rule handled_trans [OF q(1) f(1)])
  have tb: "nested_ok (tombstones (snd c1))" using f(7) readyD(3) [OF rdy] by simp
  show "learns name c c1" by (rule learns_same [OF h tb]) (use f(3,8) view0 in simp_all)
  show "ready name c1" by (rule ready_handled [OF rdy h tb])
  show "r = view c1 key" using f(2,3) by simp
  show "\<And>rc. r = Some rc \<Longrightarrow> map_of (room_keys (fst c1)) key = Some rc"
    "r = None \<Longrightarrow> map_of (room_keys (fst c1)) key = None \<and> nget (cold_index (db_eviction (snd c1))) name key = None"
    using f(5,6) by auto
qed

definition op_replies :: "string list" where
  "op_replies = [''-ERR timestamp too far in the future (SOMNIUM_MAX_CLOCK_OFFSET_MS)'' @ CRLF, ''+OK (Ignored Stale Write)'' @ CRLF,
     ''+OK (Deleted)'' @ CRLF, ''+OK (State Converged)'' @ CRLF]"

lemma merge_learns:
  assumes rdy: "ready name c" and fine: "op_fine (now_ms (snd c)) (Merge key val v ex)" and run: "handle_op name (Merge key val v ex) c = (reply, c')"
  shows "learns name c c' \<and> reply \<in> set op_replies \<and> (hd reply = CHR ''+'' \<longrightarrow> knows name c' key v)"
proof -
  obtain room d where c: "c = (room, d)" by fastforce
  let ?r = "\<lparr>rec_value = val, expire_at = ex, timestamp_ms = v_ts v, node_id = v_node v\<rparr>"
  have ex: "i64 ex" "merge_expire (op_args (Merge key val v ex)) = Some ex" "\<not> expired ?r (now_ms (snd c))"
    using fine by (auto simp: op_fine_def i64_iff merge_expire_def parse_i64_to_string expired_def)
  note iv = incoming_sent [of v d]
  show ?thesis
  proof (cases "uint (physical_ms (v_ts v)) > now_ms d + max_clock_offset_ms d")
    case True
    then have "reply = hd op_replies" "c' = c" using run ex(2) iv fine by (simp_all add: c handle_crdtmerge_def op_fine_def op_replies_def err_def)
    then show ?thesis using learns_refl [OF rdy] by (simp add: op_replies_def)
  next
    case False
    let ?f = "\<lambda>d. d\<lparr>clock := clock_observe (clock (snd c)) (v_ts v)\<rparr>"
    have iv': "incoming_version (dec (unat (v_ts v))) (dec (unat (v_node v))) d = (Inr v, ?f d)" using iv fine False by (simp add: op_fine_def c)
    obtain r c1 where lk: "lookup name key (on_db ?f c) = (r, c1)" by (meson surj_pair)
    note l = look_learns [OF rdy lk]
    obtain rec c2 where ens: "ensure_rec name key r c1 = (rec, c2)" by (meson surj_pair)
    let ?c3 = "assign key rec val ex (v_ts v) (v_node v) c2"
    let ?g = "\<lambda>d. aof_append name (op_args (Merge key val v ex)) ex (v_ts v) (v_node v) (access_key key d)"
    have lk': "lookup name key (room, ?f d) = (r, c1)" using lk by (simp add: on_db_def c)
    have out: "(reply, c') = (if stale name key r v (snd c1) then (''+OK (Ignored Stale Write)'' @ CRLF, c1) else (''+OK (State Converged)'' @ CRLF, on_db ?g ?c3))"
      using run ex(2) iv' lk' ens by (auto simp: handle_crdtmerge_def c Let_def)
    show ?thesis
    proof (cases "stale name key r v (snd c1)")
      case True
      then show ?thesis using out l(1,3) by (simp add: op_replies_def knows_def)
    next
      case new: False
      note w = write_step [OF readyD(1) [OF l(2)] l(4,5) ens ex(1) readyD(3) [OF l(2)], where val = val and ts = "v_ts v" and node = "v_node v"]
      have "quiet ?g" by (rule quiet_comp [OF quiet_basic(1,2)])
      note q = quiet_step [OF this handledD(1) [OF w(1)]]
      have h: "handled name c1 (on_db ?g ?c3)" by (rule handled_trans [OF w(1) q(1)])
      have now: "now_ms (snd c1) = now_ms (snd c)" using handledD(3) [of name c c1] l(1) by (simp add: learns_def)
      have vw: "view (on_db ?g ?c3) k = (if k = key then Some ?r else view c1 k)" for k
        using view_upd [OF h trans [OF q(2) w(2)], of k] ex(3) now by simp
      have ft: "find_tomb name k (snd (on_db ?g ?c3)) = (if r = None \<and> k = key then None else find_tomb name k (snd c1))" for k using w(3) [of k] by simp
      have wm: "watermark (snd (on_db ?g ?c3)) = watermark (snd c1)" using handledD(5) [OF h] .
      have rv: "rec_version ?r = v" by (cases v) (simp add: rec_version_def)
      have kv: "knows name (on_db ?g ?c3) key v" unfolding knows_def vw stale_def by (simp add: rv)
      have "knows name (on_db ?g ?c3) k u" if "knows name c1 k u" for k u
      proof (cases "k = key")
        case True
        have "v_ts u \<le> watermark (snd c1) \<or> u \<le> v"
          using that stale_below [OF _ new, of u] l(3) unfolding True knows_def by auto
        then show ?thesis unfolding True knows_def vw wm stale_def by (auto simp: rv)
      next
        case False
        then show ?thesis using that ft [of k] unfolding knows_def vw wm stale_def by (simp split: option.splits)
      qed
      moreover have "find_tomb n k (snd (on_db ?g ?c3)) = find_tomb n k (snd c1)" if "n \<noteq> name" for n k
        using write_other [OF ens readyD(3) [OF l(2)] that] by simp
      ultimately have "learns name c1 (on_db ?g ?c3)" using h w(4) by (simp add: learns_def)
      then show ?thesis using learns_trans [OF l(1)] out new kv by (simp add: op_replies_def)
    qed
  qed
qed

lemma delete_learns:
  assumes rdy: "ready name c" and peers: "peer_count (snd c) \<noteq> 0" and fine: "op_fine (now_ms (snd c)) (Delete key v)"
    and run: "handle_op name (Delete key v) c = (reply, c')"
  shows "learns name c c' \<and> reply \<in> set op_replies \<and> (hd reply = CHR ''+'' \<longrightarrow> knows name c' key v)"
proof -
  obtain room d where c: "c = (room, d)" by fastforce
  note iv = incoming_sent [of v d]
  show ?thesis
  proof (cases "uint (physical_ms (v_ts v)) > now_ms d + max_clock_offset_ms d")
    case True
    then have "reply = hd op_replies" "c' = c" using run iv fine by (simp_all add: c handle_crdtdel_def op_fine_def op_replies_def err_def)
    then show ?thesis using learns_refl [OF rdy] by (simp add: op_replies_def)
  next
    case False
    let ?f = "\<lambda>d. d\<lparr>clock := clock_observe (clock (snd c)) (v_ts v)\<rparr>"
    have iv': "incoming_version (dec (unat (v_ts v))) (dec (unat (v_node v))) d = (Inr v, ?f d)" using iv fine False by (simp add: op_fine_def c)
    obtain r c1 where lk: "lookup name key (on_db ?f c) = (r, c1)" by (meson surj_pair)
    note l = look_learns [OF rdy lk]
    define c2 where "c2 = (case r of Some x \<Rightarrow> erase key x c1 | None \<Rightarrow> c1)"
    let ?g = "\<lambda>d. aof_append name (op_args (Delete key v)) 0 (v_ts v) (v_node v) (set_tomb name key v d)"
    have lk': "lookup name key (room, ?f d) = (r, c1)" using lk by (simp add: on_db_def c)
    have out: "(reply, c') = (if stale name key r v (snd c1) then (''+OK (Ignored Stale Write)'' @ CRLF, c1) else (''+OK (Deleted)'' @ CRLF, on_db ?g c2))"
      using run iv' lk' by (auto simp: handle_crdtdel_def c Let_def c2_def)
    show ?thesis
    proof (cases "stale name key r v (snd c1)")
      case True
      then show ?thesis using out l(1,3) by (simp add: op_replies_def knows_def)
    next
      case new: False
      have er: "evolves name c1 c2 \<and> stored_of c2 = (stored_of c1)(key := None)"
      proof (cases r)
        case None
        have "stored_of c1 key = None" using l(5) [OF None] cell_okD(2) [of name "fst c1" "snd c1"] readyD(1) [OF l(2)]
          by (simp add: stored_of_def stored_def cold_get_def case_prod_unfold)
        then show ?thesis using None evolves_refl [OF readyD(1) [OF l(2)]] by (simp add: c2_def fun_upd_idem)
      next
        case (Some x)
        have "cell_ok name (fst c1, snd c1)" using readyD(1) [OF l(2)] by simp
        from erase_step [OF this l(4) [OF Some]] show ?thesis by (simp add: c2_def Some)
      qed
      have "quiet ?g" by (rule quiet_comp [OF quiet_basic(1) quiet_tombs(1)])
      note q = quiet_step [OF this evolves_ok [OF conjunct1 [OF er]]]
      have h2: "handled name c1 c2" using er evolves_handled by blast
      have h: "handled name c1 (on_db ?g c2)" by (rule handled_trans [OF h2 q(1)])
      have vw: "view (on_db ?g c2) k = (if k = key then None else view c1 k)" for k
        using view_upd [OF h trans [OF q(2) conjunct2 [OF er]], of k] by simp
      have tm: "find_tomb n k (snd c2) = find_tomb n k (snd c1)" "tombstones (snd c2) = tombstones (snd c1)" for n k
        using find_tomb_evolves [OF conjunct1 [OF er]] by blast+
      have h0: "handled name c c1" using l(1) by (simp add: learns_def)
      have fr: "watermark (snd c2) = watermark (snd c1)" "peer_count (snd c2) \<noteq> 0" using handledD(5,6) [OF h2] handledD(6) [OF h0] peers by simp_all
      have wm: "watermark (snd (on_db ?g c2)) = watermark (snd c1)" using handledD(5) [OF h] .
      have ft: "find_tomb n k (snd (on_db ?g c2)) =
          (if v_ts v \<le> watermark (snd c1) then find_tomb n k (snd c1)
           else if n = name \<and> k = key then Some (case find_tomb name key (snd c1) of None \<Rightarrow> v | Some t \<Rightarrow> max t v)
           else find_tomb n k (snd c1))" for n k
        using fr by (simp add: find_tomb_set_any tm(1))
      have low: "knows name (on_db ?g c2) key u" if "u \<le> v" for u
      proof (cases "v_ts v \<le> watermark (snd c1)")
        case True
        then show ?thesis using version_le_ts [OF that] unfolding knows_def wm by auto
      next
        case False
        then show ?thesis using that unfolding knows_def vw wm stale_def ft by (auto simp: le_max_iff_disj split: option.splits)
      qed
      have "knows name (on_db ?g c2) k u" if "knows name c1 k u" for k u
      proof (cases "k = key")
        case True
        have "v_ts u \<le> watermark (snd c1) \<or> u \<le> v"
          using that stale_below [OF _ new, of u] l(3) unfolding True knows_def by auto
        then show ?thesis using low wm unfolding True by (auto simp: knows_def)
      next
        case False
        then show ?thesis using that unfolding knows_def vw wm stale_def ft by (simp split: option.splits)
      qed
      moreover have "nested_ok (tombstones (snd (on_db ?g c2)))"
        using nested_ok_tombs(1) [of "snd c2" name key v] readyD(3) [OF l(2)] tm(2) by simp
      ultimately have "learns name c1 (on_db ?g c2)" using h ft by (simp add: learns_def)
      then show ?thesis using learns_trans [OF l(1)] out new low by (simp add: op_replies_def)
    qed
  qed
qed

lemma handle_op_learns:
  assumes "ready name c" and "peer_count (snd c) \<noteq> 0" and "op_fine (now_ms (snd c)) x" and "handle_op name x c = (reply, c')"
  shows "learns name c c'" "reply \<in> set op_replies" "hd reply = CHR ''+'' \<Longrightarrow> knows name c' (op_key x) (op_ver x)"
  using merge_learns [OF assms(1)] delete_learns [OF assms(1,2)] assms(3,4) by (cases x; auto)+

section \<open>In the database\<close>

definition known :: "database \<Rightarrow> string \<Rightarrow> string \<Rightarrow> version \<Rightarrow> bool" where
  "known d name key v \<longleftrightarrow> v_ts v \<le> watermark d \<or> stale name key (live (now_ms d) (logical d name key)) v d"

definition remembers :: "database \<Rightarrow> database \<Rightarrow> bool" where
  "remembers d d' \<longleftrightarrow> registry_ok d' \<and> now_ms d' = now_ms d \<and> peer_count d' = peer_count d \<and> db_pubsub d' = db_pubsub d \<and>
     (\<forall>n k v. known d n k v \<longrightarrow> known d' n k v)"

lemma remembers_trans: "remembers a b \<Longrightarrow> remembers b c \<Longrightarrow> remembers a c"
  by (simp add: remembers_def)

lemma known_cong:
  assumes "watermark d' = watermark d" and "tombstones d' = tombstones d" and "live (now_ms d') (logical d' n k) = live (now_ms d) (logical d n k)"
  shows "known d' n k v = known d n k v"
  using assms stale_same_tombs [OF assms(1), of n k] by (simp add: known_def find_tomb_def)

lemma remembers_same:
  assumes "registry_ok d'" and "now_ms d' = now_ms d" and "peer_count d' = peer_count d" and "db_pubsub d' = db_pubsub d"
    and "watermark d' = watermark d" and "tombstones d' = tombstones d" and "\<And>n. agree (now_ms d) (logical d' n) (logical d n)"
  shows "remembers d d'"
  using assms known_cong [of d' d] by (simp add: remembers_def agree_def)

lemma remembers_store:
  assumes "same_store d d'" and "registry_ok d" and "peer_count d' = peer_count d" and "db_pubsub d' = db_pubsub d" and "watermark d' = watermark d"
  shows "remembers d d'"
  using assms same_store_keeps(1,2) [OF assms(1)] by (intro remembers_same) (simp_all add: same_store_def)

lemma tend_fields: "watermark (tend_rewrite d) = watermark d" "peer_count (tend_rewrite d) = peer_count d"
proof -
  have f: "watermark (finish_background_rewrite d) = watermark d" "peer_count (finish_background_rewrite d) = peer_count d" for d
    by (simp_all add: finish_background_rewrite_def Let_def split: option.splits prod.splits)
  have s: "watermark (snd (start_background_rewrite d)) = watermark d" "peer_count (snd (start_background_rewrite d)) = peer_count d" for d
    by (simp_all add: start_background_rewrite_def discard_active_snapshots_def Let_def split: prod.splits)
  show "watermark (tend_rewrite d) = watermark d" "peer_count (tend_rewrite d) = peer_count d" by (simp_all add: tend_rewrite_def Let_def f s)
qed

lemma activate_fields: "watermark (snd (snd (activate ob c))) = watermark (snd c)" "peer_count (snd (snd (activate ob c))) = peer_count (snd c)"
  by (cases c; simp add: activate_def db_charge_def charge_def count_key_def Let_def split: prod.splits)+

lemma evict_fields: "watermark (snd (evict_cell c)) = watermark (snd c)" "peer_count (snd (evict_cell c)) = peer_count (snd c)"
  by (simp_all add: evict_cell_def split: prod.splits)

lemma put_fields [simp]: "watermark (put_room c) = watermark (snd c)" "peer_count (put_room c) = peer_count (snd c)" "tombstones (put_room c) = tombstones (snd c)"
  "now_ms (put_room c) = now_ms (snd c)" "db_pubsub (put_room c) = db_pubsub (snd c)" "client_rooms (put_room c) = client_rooms (snd c)"
  by (simp_all add: put_room_def case_prod_unfold)

lemma find_room_fields:
  "find_room name create d = (res, d1) \<Longrightarrow> watermark d1 = watermark d \<and> peer_count d1 = peer_count d \<and> tombstones d1 = tombstones d \<and>
    now_ms d1 = now_ms d \<and> db_pubsub d1 = db_pubsub d \<and> client_rooms d1 = client_rooms d"
  by (auto simp: find_room_def split: option.splits if_splits)

lemma key_command_op: "key_command name (upper (op_args x ! 0)) (op_args x) c = handle_op name x c"
  by (cases x) (simp_all add: key_command_def key_table_def upper_def toupper_def)

text \<open>Waking a room changes nothing that is known.\<close>

lemma activate_remembers:
  assumes reg: "registry_ok d" and env: "env_ok d" and old: "map_of (rooms d) name = Some room" and run: "activate False (room, d) = (ok, c)"
  shows "remembers d (put_room c)" "client_rooms (put_room c) = client_rooms d"
proof -
  note a = activate_step [OF registry_at_rest [OF reg old] run] and db = activate_db_step [OF reg env old run]
  have f: "watermark (snd c) = watermark d" "peer_count (snd c) = peer_count d" using activate_fields [of False "(room, d)"] run by simp_all
  show "remembers d (put_room c)"
    by (rule remembers_same) (use a db f in \<open>simp_all add: db_step_def\<close>)
  show "client_rooms (put_room c) = client_rooms d" using a by simp
qed

lemma room_op_learns:
  assumes reg: "registry_ok d" and env: "env_ok d" and peers: "peer_count d \<noteq> 0" and fine: "op_fine (now_ms d) x"
    and run: "execute_in_room name (upper (op_args x ! 0)) (op_args x) d = (reply, d')"
  shows "remembers d d'" "reply \<in> set (ROOMS_FULL # op_replies)" "hd reply = CHR ''+'' \<Longrightarrow> known d' name (op_key x) (op_ver x)"
    "client_rooms d' = client_rooms d"
proof -
  obtain res d1 where f: "find_room name True d = (res, d1)" by (meson surj_pair)
  note fs = find_room_step [OF reg f] and ff = find_room_fields [OF f] and fl = find_room_logical [OF reg f]
  obtain room where room: "res = Some room" "map_of (rooms d1) name = Some room" using fs by auto
  have reg1: "registry_ok d1" and env1: "env_ok d1" using fs env by (auto simp: db_step_def)
  have r1: "remembers d d1" by (rule remembers_same [OF reg1]) (use ff fl in simp_all)
  obtain ok c where a: "activate False (room, d1) = (ok, c)" by (meson surj_pair)
  note as = activate_step [OF registry_at_rest [OF reg1 room(2)] a]
  have "remembers d d' \<and> reply \<in> set (ROOMS_FULL # op_replies) \<and> (hd reply = CHR ''+'' \<longrightarrow> known d' name (op_key x) (op_ver x)) \<and>
    client_rooms d' = client_rooms d"
  proof (cases ok)
    case False
    then have "d' = put_room c" "reply = ROOMS_FULL" using run f room a by (simp_all add: execute_in_room_def)
    then show ?thesis using remembers_trans [OF r1] activate_remembers [OF reg1 env1 room(2) a] ff by (simp add: ROOMS_FULL_def)
  next
    case True
    obtain c1 where h: "handle_op name x c = (reply, c1)" "d' = put_room (evict_cell c1)"
      using run f room a True by (auto simp: execute_in_room_def run_in_room_def key_command_op split: prod.splits)
    have act: "room_state (fst c) = Active" using as True by simp
    have rdy: "ready name c" using as env1 registry_okD(3) [OF reg1] by (simp add: ready_def room_step_def env_ok_def reads_ok_def)
    have fr: "now_ms (snd c) = now_ms d" "watermark (snd c) = watermark d" "peer_count (snd c) = peer_count d"
      using as ff activate_fields [of False "(room, d1)"] a by simp_all
    have "peer_count (snd c) \<noteq> 0" "op_fine (now_ms (snd c)) x" using fr peers fine by simp_all
    note l = handle_op_learns [OF rdy this h(1)]
    have hn: "handled name c c1" using l(1) by (simp add: learns_def)
    note e = evict_cell_step [OF handledD(1) [OF hn]]
    have act1: "room_state (fst (evict_cell c1)) = Active" using e(8) hn act by (simp add: handled_def)
    have st: "room_step name (room, d1) (evict_cell c1)"
      using as room_step_trans [OF room_step_trans [OF _ handled_room_step [OF hn act]] evict_room_step [OF handledD(1) [OF hn]]] hn act l(1)
      by (auto simp: handled_def learns_def)
    have lg: "logical d' n = (if n = name then stored_of c1 else logical d n)" for n
      using logical_put [OF st room(2)] held_active [OF e(1) act1] e(2) fl h(2) by simp
    have lc: "logical d name = stored_of c"
      using as env1 fl logical_held [OF room(2)] held_active [OF readyD(1) [OF rdy] act] by (simp add: env_ok_def)
    have now: "now_ms d' = now_ms d" "watermark d' = watermark d" "peer_count d' = peer_count d" "tombstones d' = tombstones (snd c1)"
      using h(2) e(4,6) evict_fields [of c1] handledD(3,5,6) [OF hn] fr by simp_all
    have w1: "now_ms (snd c1) = now_ms d" "watermark (snd c1) = watermark d" using fr handledD(3,5) [OF hn] by simp_all
    have tb: "find_tomb n k d' = find_tomb n k (snd c1)" "find_tomb n k (snd c) = find_tomb n k d" for n k
      using now(4) as ff by (simp_all add: find_tomb_def)
    have here: "known d' name k v = knows name c1 k v" "known d name k v = knows name c k v" for k v
      using now fr w1 stale_same_tombs [of d' "snd c1" name k] stale_same_tombs [of "snd c" d name k] tb
      by (simp_all add: known_def knows_def lg lc view_stored)
    have "known d' n k v" if "known d n k v" for n k v
    proof (cases "n = name")
      case True
      then show ?thesis using that here l(1) by (simp add: learns_def)
    next
      case False
      then have "find_tomb n k d' = find_tomb n k d" using l(1) tb by (simp add: learns_def)
      then show ?thesis using that False now lg stale_same_tombs [of d' d n k] by (simp add: known_def)
    qed
    moreover have "registry_ok d'" using registry_put [OF reg1 room(2), of "fst (evict_cell c1)" "snd (evict_cell c1)"] st h(2) by simp
    moreover have "db_pubsub d' = db_pubsub d" "client_rooms d' = client_rooms d" using h(2) e(12) hn as ff by (simp_all add: handled_def)
    ultimately show ?thesis using l(2,3) here now by (simp add: remembers_def)
  qed
  then show "remembers d d'" "reply \<in> set (ROOMS_FULL # op_replies)" "hd reply = CHR ''+'' \<Longrightarrow> known d' name (op_key x) (op_ver x)"
    "client_rooms d' = client_rooms d" by blast+
qed

section \<open>The commands of a caravan\<close>

datatype caravan_cmd = Select string | Update crdt_op | Frontier u32 u64 | Probe

fun words_of :: "caravan_cmd \<Rightarrow> string list" where
  "words_of (Select room) = [''ROOM'', room]"
| "words_of (Update x) = op_args x"
| "words_of (Frontier node f) = [''REPLFRONTIER'', dec (unat node), dec (unat f)]"
| "words_of Probe = [''PING'']"

fun cmd_fine :: "int \<Rightarrow> caravan_cmd \<Rightarrow> bool" where
  "cmd_fine now (Update x) = op_fine now x"
| "cmd_fine now _ = True"

definition caravan_replies :: "string list" where
  "caravan_replies = ROOMS_FULL # op_replies @ [''+OK'' @ CRLF, ''+PONG'' @ CRLF, err ''invalid room name'', err ''too many rooms'']"

definition client_room :: "int \<Rightarrow> database \<Rightarrow> string" where
  "client_room fd d = fst (get_client_room fd d)"

text \<open>What a positive reply to a command says.\<close>

fun granted :: "int \<Rightarrow> caravan_cmd \<Rightarrow> database \<Rightarrow> database \<Rightarrow> bool" where
  "granted fd (Select room) d d' = (client_room fd d' = room)"
| "granted fd (Update x) d d' = (client_room fd d' = client_room fd d \<and> known d' (client_room fd d) (op_key x) (op_ver x))"
| "granted fd _ d d' = (client_room fd d' = client_room fd d)"

lemma wake_room_remembers:
  assumes reg: "registry_ok d" and env: "env_ok d" and run: "wake_room name d = (e, d')"
  shows "remembers d d'" "client_rooms d' = client_rooms d"
    "e \<noteq> None \<Longrightarrow> the e \<in> set (caravan_replies) \<and> hd (the e) \<noteq> CHR ''+''"
proof -
  have self: "remembers d d" using reg by (simp add: remembers_def)
  have "remembers d d' \<and> client_rooms d' = client_rooms d"
  proof (cases "map_of (rooms d) name")
    case (Some room)
    obtain ok c where a: "activate False (room, d) = (ok, c)" by (meson surj_pair)
    have "d' = d \<or> d' = put_room c" using run Some a by (auto simp: wake_room_def find_room_def split: if_splits)
    then show ?thesis using self activate_remembers [OF reg env Some a] by auto
  next
    case None
    obtain res1 d1 where f: "find_room name True d = (res1, d1)" by (meson surj_pair)
    note fs = find_room_step [OF reg f] and ff = find_room_fields [OF f]
    obtain room where room: "res1 = Some room" "map_of (rooms d1) name = Some room" using fs by auto
    have reg1: "registry_ok d1" and env1: "env_ok d1" using fs env by (auto simp: db_step_def)
    obtain ok c where a: "activate False (room, d1) = (ok, c)" by (meson surj_pair)
    have "remembers d d1" by (rule remembers_same [OF reg1]) (use ff find_room_logical [OF reg f] in simp_all)
    moreover have "find_room name False d = (None, d)" using None by (simp add: find_room_def)
    then have "d' = d \<or> d' = put_room c" using run f room a by (auto simp: wake_room_def split: if_splits)
    ultimately show ?thesis using self remembers_trans [of d d1 "put_room c"] activate_remembers [OF reg1 env1 room(2) a] ff by auto
  qed
  then show "remembers d d'" "client_rooms d' = client_rooms d" by blast+
  have "fst (wake_room name d) \<in> {None, Some ROOMS_FULL, Some (err ''invalid room name''), Some (err ''too many rooms'')}"
    unfolding wake_room_def find_room_def by (simp split: option.split prod.split)
  then have "e \<in> {None, Some ROOMS_FULL, Some (err ''invalid room name''), Some (err ''too many rooms'')}" using run by simp
  then show "e \<noteq> None \<Longrightarrow> the e \<in> set (caravan_replies) \<and> hd (the e) \<noteq> CHR ''+''"
    by (auto simp: caravan_replies_def) (simp_all add: ROOMS_FULL_def err_def)
qed

lemma frontier_remembers:
  assumes reg: "registry_ok d" and run: "handle_replfrontier (words_of (Frontier node f)) d = (reply, d')"
  shows "remembers d d'" "reply = ''+OK'' @ CRLF" "client_rooms d' = client_rooms d"
proof -
  have p: "parse_u64 (dec (unat node)) = Some (of_nat (unat node))" "parse_u64 (dec (unat f)) = Some f" "unat (of_nat (unat node) :: u64) = unat node"
    using parse_u64_dec [of "unat node"] parse_u64_dec [of "unat f"] unat_of_nat_u64 [of "unat node"] unat_u32_less [of node] unat_u64_less [of f] by simp_all
  have small: "\<not> unat node > 4294967295" using unat_u32_less [of node] by simp
  obtain d0 where out: "reply = ''+OK'' @ CRLF" "d' = collect_tombstones d0" and d0: "watermark d0 = watermark d" "tombstones d0 = tombstones d" "peer_count d0 = peer_count d"
    using run p small by (auto simp: handle_replfrontier_def next_version_def Let_def)
  show "reply = ''+OK'' @ CRLF" by (rule out(1))
  note ef = replfrontier_effect [OF reg, of "words_of (Frontier node f)", unfolded run snd_conv]
  show "client_rooms d' = client_rooms d" using ef(2) by simp
  have reg': "registry_ok d'" "now_ms d' = now_ms d" "\<And>n. agree (now_ms d) (logical d' n) (logical d n)"
    using ef(1) by (simp_all add: effect_def of_room_def)
  have pc: "peer_count d' = peer_count d"
    using out(2) d0(3) by (simp add: collect_tombstones_def count_tomb_def Let_def split: prod.splits)
  have nok: "nested_ok (tombstones d0)" using registry_okD(3) [OF reg] d0(2) by simp
  note cases = collect_cases [OF out(2) [symmetric]]
  have "watermark d \<le> watermark d'" using cases d0(1) by auto
  moreover have "stale n k r v d \<Longrightarrow> stale n k r v d' \<or> v_ts v \<le> watermark d'" for n k r v
  proof -
    assume st: "stale n k r v d"
    have s0: "stale n k r v d0" using stale_same_tombs [of d0 d n k] st d0 by (simp add: find_tomb_def)
    from cases show ?thesis
    proof
      assume "d' = d0"
      then show ?thesis using s0 by simp
    next
      assume "\<exists>low. watermark d0 < low \<and> watermark d' = low \<and> tombstones d' = drop_tombs low (tombstones d0) \<and>
        (\<forall>(node, f) \<in> set (frontiers d0). node \<noteq> local_node_id d0 \<longrightarrow> low \<le> f)"
      then obtain low where low: "watermark d0 < low" "watermark d' = low" "tombstones d' = drop_tombs low (tombstones d0)" by blast
      have ft: "find_tomb n k d' = (case find_tomb n k d0 of Some t \<Rightarrow> if v_ts t > low then Some t else None | None \<Rightarrow> None)"
        using drop_tombs_get [OF nok] by (simp add: find_tomb_def low(3))
      show ?thesis using s0 low version_le_ts [of v] by (auto simp: stale_def ft not_less split: option.splits dest: order_trans)
    qed
  qed
  ultimately have "known d n k v \<Longrightarrow> known d' n k v" for n k v using reg'(2,3) by (force simp: known_def agree_def)
  then show "remembers d d'" using reg' pc ef(2) by (simp add: remembers_def)
qed

text \<open>Every command of a caravan: its reply is one line, nothing known is forgotten, and a positive reply is kept.\<close>

lemma execute_learns:
  assumes reg: "registry_ok d" and env: "env_ok d" and peers: "peer_count d \<noteq> 0" and nosub: "\<not> is_subscribed fd (db_pubsub d)"
    and fine: "cmd_fine (now_ms d) x" and run: "execute ie fd (words_of x) False d = (reply, sent, d')"
  shows "remembers d d' \<and> reply \<in> set caravan_replies \<and> (hd reply = CHR ''+'' \<longrightarrow> granted fd x d d')"
proof -
  let ?d0 = "d\<lparr>resp3 := False\<rparr>"
  let ?d1 = "tend_rewrite ?d0"
  have s0: "same_store d ?d0" by (rule same_store_refl) simp_all
  note t = tend_same [OF same_store_keeps(2) [OF s0 reg]]
  obtain room d2 where g: "get_client_room fd ?d1 = (room, d2)" by fastforce
  note gs = get_client_room_same [OF g]
  have s2: "same_store d d2" using same_store_trans [OF same_store_trans [OF s0 t(1)]] gs by blast
  have room: "room = client_room fd d" using gs t(2) by (simp add: client_room_def get_client_room_def split: option.splits)
  have room2: "client_room fd d2 = room" using g by (auto simp: client_room_def get_client_room_def set_client_room_def update_conv' split: option.splits)
  have f2: "watermark d2 = watermark d" "peer_count d2 = peer_count d" "db_pubsub d2 = db_pubsub d"
    using g tend_fields [of ?d0] gs t(3) by (auto simp: get_client_room_def set_client_room_def split: option.splits)
  let ?d3 = "\<lambda>pc :: bool. if pc then d2 else d2\<lparr>total_commands := Suc (total_commands d2)\<rparr>"
  have s3: "same_store d (?d3 pc)" for pc using same_store_trans [OF s2 same_store_refl, of "?d3 pc"] s2 by simp
  have r3: "remembers d (?d3 pc)" for pc by (rule remembers_store [OF s3 reg]) (simp_all add: f2)
  have reg3: "registry_ok (?d3 pc)" and env3: "env_ok (?d3 pc)" for pc using same_store_keeps(2) [OF s3 reg] env_same [OF s3] env by simp_all
  have cr: "client_room fd (?d3 pc) = room" for pc using room2 by (cases pc) (simp_all add: client_room_def get_client_room_def split: option.splits)
  have keep: "client_room fd d' = room" if "client_rooms d' = client_rooms (?d3 pc)" for pc
    using room2 that by (cases pc) (auto simp: client_room_def get_client_room_def split: option.splits)
  have words: "words_of x \<noteq> []" by (cases x rule: words_of.cases; cases "case x of Update y \<Rightarrow> y" rule: op_args.cases) simp_all
  have ex: "execute ie fd (words_of x) False d =
      (case entry_of (upper (words_of x ! 0)) of (sc, pc) \<Rightarrow>
         (case sc of InRoom \<Rightarrow> silent (execute_in_room room (upper (words_of x ! 0)) (words_of x) (?d3 pc))
          | Connection \<Rightarrow> conn_command ie fd (upper (words_of x ! 0)) (words_of x) (?d3 pc)))"
    using g nosub f2(3) using words by (auto simp: execute_def Let_def split: prod.splits)
  show ?thesis
  proof (cases x)
    case (Update y)
    have e: "entry_of (upper (words_of x ! 0)) = (InRoom, False)"
      unfolding Update by (cases y) (simp_all add: entry_of_def kCommands_def command_key_def upper_def toupper_def)
    obtain rep d4 where rr: "execute_in_room room (upper (op_args y ! 0)) (op_args y) (?d3 False) = (rep, d4)" by fastforce
    then have out: "reply = rep" "d' = d4" using run unfolding ex e by (simp_all add: Update silent_def)
    have pf: "peer_count (?d3 False) \<noteq> 0" "op_fine (now_ms (?d3 False)) y" using peers f2 fine r3 [of False] by (simp_all add: Update remembers_def)
    note l = room_op_learns [OF reg3 env3 pf rr]
    show ?thesis using remembers_trans [OF r3 l(1)] l(2,3) out keep [of False] l(4) room by (auto simp: Update caravan_replies_def)
  next
    case (Select name)
    have e: "entry_of (upper (words_of x ! 0)) = (Connection, False)"
      by (simp add: Select entry_of_def kCommands_def command_key_def upper_def toupper_def)
    obtain er d4 where w: "wake_room name (?d3 False) = (er, d4)" by fastforce
    have out: "(reply, d') = (case er of Some m \<Rightarrow> (m, d4) | None \<Rightarrow> (''+OK'' @ CRLF, set_client_room fd name d4))"
      using run w unfolding ex e by (auto simp: Select conn_command_def command_key_def upper_def toupper_def silent_def handle_room_def split: option.splits)
    note l = wake_room_remembers [OF reg3 env3 w]
    have "remembers d4 (set_client_room fd name d4)"
      by (rule remembers_store [OF same_store_refl]) (use l(1) in \<open>simp_all add: set_client_room_def remembers_def\<close>)
    moreover have "client_room fd (set_client_room fd name d4) = name"
      by (simp add: client_room_def get_client_room_def set_client_room_def update_conv')
    ultimately show ?thesis using out remembers_trans [OF r3 l(1)] remembers_trans l(3)
      by (cases er) (auto simp: Select caravan_replies_def)
  next
    case (Frontier node f)
    have e: "entry_of (upper (words_of x ! 0)) = (Connection, False)"
      by (simp add: Frontier entry_of_def kCommands_def command_key_def upper_def toupper_def)
    obtain rep d4 where h: "handle_replfrontier (words_of (Frontier node f)) (?d3 False) = (rep, d4)" by fastforce
    have out: "reply = rep" "d' = d4"
      using run h unfolding ex e by (simp_all add: Frontier conn_command_def command_key_def upper_def toupper_def silent_def)
    note l = frontier_remembers [OF reg3 h]
    show ?thesis using remembers_trans [OF r3 l(1)] l(2,3) out keep [of False] room by (simp add: Frontier caravan_replies_def)
  next
    case Probe
    have e: "entry_of (upper (words_of x ! 0)) = (Connection, True)"
      by (simp add: Probe entry_of_def kCommands_def command_key_def upper_def toupper_def)
    have out: "reply = ''+PONG'' @ CRLF" "d' = ?d3 True"
      using run nosub f2(3) unfolding ex e by (simp_all add: Probe conn_command_def command_key_def upper_def toupper_def handle_ping_def)
    show ?thesis using r3 [of True] out keep [of True] room by (simp add: Probe caravan_replies_def)
  qed
qed

section \<open>A batch\<close>

text \<open>The commands of a batch are executed in their order; the replies are in the same order.\<close>

fun serve_all :: "info_env \<Rightarrow> int \<Rightarrow> string list list \<Rightarrow> database \<Rightarrow> string list \<times> database" where
  "serve_all ie fd [] d = ([], d)"
| "serve_all ie fd (args # rest) d =
     (case execute ie fd args False d of (reply, _, d1) \<Rightarrow> (case serve_all ie fd rest d1 of (replies, d2) \<Rightarrow> (reply # replies, d2)))"

text \<open>Reads of cold storage and of snapshots succeed while the batch runs.\<close>

fun calm :: "info_env \<Rightarrow> int \<Rightarrow> string list list \<Rightarrow> database \<Rightarrow> bool" where
  "calm ie fd [] d = True"
| "calm ie fd (args # rest) d = (env_ok d \<and> (case execute ie fd args False d of (_, _, d1) \<Rightarrow> calm ie fd rest d1))"

fun room_at :: "string \<Rightarrow> caravan_cmd list \<Rightarrow> string" where
  "room_at room [] = room"
| "room_at room (Select r # xs) = room_at r xs"
| "room_at room (_ # xs) = room_at room xs"

lemma batch_known:
  assumes "registry_ok d" and "peer_count d \<noteq> 0" and "\<not> is_subscribed fd (db_pubsub d)" and "\<forall>x \<in> set xs. cmd_fine (now_ms d) x"
    and "calm ie fd (map words_of xs) d" and "serve_all ie fd (map words_of xs) d = (replies, d')"
  shows "remembers d d' \<and> length replies = length xs \<and> set replies \<subseteq> set caravan_replies \<and>
    (\<forall>i y. i < length xs \<and> xs ! i = Update y \<and> (\<forall>j \<le> i. hd (replies ! j) = CHR ''+'') \<longrightarrow>
       known d' (room_at (client_room fd d) (take i xs)) (op_key y) (op_ver y))"
  using assms
proof (induction xs arbitrary: d replies)
  case Nil
  then show ?case by (simp add: remembers_def)
next
  case (Cons x xs)
  obtain reply sent d1 where ex: "execute ie fd (words_of x) False d = (reply, sent, d1)" by (metis prod_cases3)
  obtain rs d2 where sv: "serve_all ie fd (map words_of xs) d1 = (rs, d2)" by fastforce
  have out: "replies = reply # rs" "d' = d2" using Cons.prems(6) ex sv by simp_all
  have env: "env_ok d" "calm ie fd (map words_of xs) d1" "cmd_fine (now_ms d) x" using Cons.prems(4,5) ex by simp_all
  note l = execute_learns [OF Cons.prems(1) env(1) Cons.prems(2,3) env(3) ex]
  then have d1: "registry_ok d1" "peer_count d1 \<noteq> 0" "\<not> is_subscribed fd (db_pubsub d1)" "\<forall>x \<in> set xs. cmd_fine (now_ms d1) x"
    using Cons.prems(2-4) by (simp_all add: remembers_def)
  note IH = Cons.IH [OF d1 env(2) sv [folded out(2)], unfolded out(2)]
  have "known d2 (room_at (client_room fd d) (take i (x # xs))) (op_key y) (op_ver y)"
    if i: "i < length (x # xs)" "(x # xs) ! i = Update y" "\<forall>j \<le> i. hd (replies ! j) = CHR ''+''" for i y
  proof -
    have "hd reply = CHR ''+''" using i(3) out(1) by (metis le0 nth_Cons_0)
    then have gr: "granted fd x d d1" using l by blast
    show ?thesis
    proof (cases i)
      case 0
      then have "known d1 (client_room fd d) (op_key y) (op_ver y)" using gr i(2) by simp
      then show ?thesis using IH 0 by (simp add: remembers_def)
    next
      case (Suc m)
      have "\<forall>j \<le> m. hd (rs ! j) = CHR ''+''" using i(3) out(1) Suc by (metis Suc_le_mono nth_Cons_Suc)
      then have k: "known d2 (room_at (client_room fd d1) (take m xs)) (op_key y) (op_ver y)" using IH i Suc by simp
      have "room_at (client_room fd d) (x # take m xs) = room_at (client_room fd d1) (take m xs)" using gr by (cases x) auto
      then show ?thesis using k Suc by simp
    qed
  qed
  moreover have "remembers d d2" using l IH remembers_trans [of d d1 d2] by blast
  ultimately show ?case using IH l out by auto
qed

end
