(* ===== verification/Caravan.thy ===== *)
theory Caravan
  imports Replicator Received
begin

text \<open>
  What replication achieves at the other end: the trust in a peer before anything is sent to it, and what the
  database of the peer holds after it has confirmed a batch. Here the replicator (\<^verbatim>\<open>storage/replicator.cpp\<close>) of one node meets the parser
  (\<^verbatim>\<open>core/resp.h\<close>), the dispatcher (\<^verbatim>\<open>core/database.cpp\<close>) and the merges (\<^verbatim>\<open>core/crdt.cpp\<close>) of another.
\<close>

section \<open>What a peer is sent\<close>

text \<open>Everything handed to the connection in one caravan, the password of a new connection included.\<close>

definition handed :: "u32 \<Rightarrow> string \<Rightarrow> ship_env \<Rightarrow> peer \<Rightarrow> (string \<Rightarrow> string option) \<Rightarrow> wire list" where
  "handed self pw env p dk =
     (if \<not> se_open env \<or> \<not> se_fstat env then []
      else
        (case ship self pw env p dk of
           (_, sent, _) \<Rightarrow>
             fst (connect_step pw env (realign env p)) @
             (if sent = [] then [] else [hand (connect_peer pw env (realign env p)) sent])))"

fun transcript :: "u32 \<Rightarrow> string \<Rightarrow> peer \<Rightarrow> (string \<Rightarrow> string option) \<Rightarrow> ship_env list \<Rightarrow> wire list list" where
  "transcript self pw p dk [] = []"
| "transcript self pw p dk (env # envs) =
     handed self pw env p dk # (case ship self pw env p dk of (_, _, p', dk') \<Rightarrow> transcript self pw p' dk' envs)"

definition vouched :: "string \<Rightarrow> ship_env \<Rightarrow> bool" where
  "vouched own env \<longleftrightarrow> hs_connect (se_handshake env) \<and> hs_theirs (se_handshake env) = Some own"

lemma connect_trust:
  assumes "se_tls env = Some own" and "peer_fd p \<longrightarrow> peer_ssl p"
  shows "peer_fd (connect_peer pw env p) \<longrightarrow> peer_ssl (connect_peer pw env p) \<and> (peer_fd p \<or> vouched own env)"
    "fst (connect_step pw env p) \<noteq> [] \<longrightarrow> vouched own env" "set (fst (connect_step pw env p)) \<subseteq> range Sealed"
proof -
  let ?p1 = "p\<lparr>peer_fd := True, peer_room := []\<rparr>"
  define ok where "ok \<longleftrightarrow> hs_new (se_handshake env) \<and> hs_set_fd (se_handshake env) \<and> hs_connect (se_handshake env) \<and> hs_theirs (se_handshake env) = Some own"
  define p2 where "p2 = ?p1\<lparr>peer_ssl := hs_new (se_handshake env)\<rparr>"
  have sec: "secure (se_tls env) (se_handshake env) ?p1 = (ok, p2)" using assms(1) by (simp add: secure_def ok_def p2_def)
  have p2: "ok \<longrightarrow> peer_ssl p2 \<and> vouched own env" by (simp add: ok_def p2_def vouched_def)
  consider (old) "peer_fd p" | (none) "\<not> peer_fd p" "fst (connect_to (se_connect env) (se_fds env)) = None"
    | (new) y where "\<not> peer_fd p" "fst (connect_to (se_connect env) (se_fds env)) = Some y" by blast
  then have "(peer_fd (connect_peer pw env p) \<longrightarrow> peer_ssl (connect_peer pw env p) \<and> (peer_fd p \<or> vouched own env)) \<and>
    (fst (connect_step pw env p) \<noteq> [] \<longrightarrow> vouched own env) \<and> set (fst (connect_step pw env p)) \<subseteq> range Sealed"
  proof cases
    case old
    then show ?thesis using assms(2) by (simp add: connect_peer_def connect_step_def)
  next
    case none
    then show ?thesis by (simp add: connect_peer_def connect_step_def)
  next
    case new
    then have run: "connect_step pw env p =
        (if ok then (if pw = [] then [] else [hand p2 (encode [''AUTH'', pw])], if peer_authenticate pw (se_auth env) p2 then p2 else disconnect p2)
         else ([], disconnect p2))"
      using sec by (simp add: connect_step_def Let_def)
    show ?thesis using p2 unfolding connect_peer_def run by (cases ok) (auto simp: disconnect_def hand_def)
  qed
  then show "peer_fd (connect_peer pw env p) \<longrightarrow> peer_ssl (connect_peer pw env p) \<and> (peer_fd p \<or> vouched own env)"
    "fst (connect_step pw env p) \<noteq> [] \<longrightarrow> vouched own env" "set (fst (connect_step pw env p)) \<subseteq> range Sealed" by blast+
qed

lemma ship_trust:
  assumes tls: "se_tls env = Some own" "peer_fd p \<longrightarrow> peer_ssl p" and run: "ship self pw env p dk = (alive, sent, p', dk')"
  shows "peer_fd p' \<longrightarrow> peer_ssl p' \<and> (peer_fd p \<or> vouched own env)"
    "handed self pw env p dk \<noteq> [] \<longrightarrow> peer_fd p \<or> vouched own env" "set (handed self pw env p dk) \<subseteq> range Sealed"
proof -
  let ?p1 = "connect_peer pw env (realign env p)"
  have r: "peer_fd (realign env p) = peer_fd p" "peer_ssl (realign env p) = peer_ssl p" by (simp_all add: realign_def Let_def)
  note c = connect_trust [OF tls(1), of "realign env p" pw, unfolded r, OF tls(2)]
  have p': "p' = p \<or> (peer_fd p' \<longrightarrow> peer_fd ?p1 \<and> peer_ssl p' = peer_ssl ?p1)"
    using run by (auto simp: ship_def disconnect_def Let_def split: if_splits prod.splits)
  have sent: "sent \<noteq> [] \<longrightarrow> peer_fd ?p1" using run by (auto simp: ship_def Let_def split: if_splits prod.splits)
  show "peer_fd p' \<longrightarrow> peer_ssl p' \<and> (peer_fd p \<or> vouched own env)" using p' c(1) tls(2) by auto
  show "handed self pw env p dk \<noteq> [] \<longrightarrow> peer_fd p \<or> vouched own env" "set (handed self pw env p dk) \<subseteq> range Sealed"
    using sent c run by (auto simp: handed_def hand_def split: if_splits)
qed

text \<open>
  The connection a caravan uses was opened by a vouched handshake, in this caravan or in an earlier one after which
  it stayed open.
\<close>

definition held_open :: "u32 \<Rightarrow> string \<Rightarrow> peer \<Rightarrow> (string \<Rightarrow> string option) \<Rightarrow> ship_env list \<Rightarrow> nat \<Rightarrow> nat \<Rightarrow> bool" where
  "held_open self pw p dk envs j i \<longleftrightarrow> (\<forall>m \<in> {j<..i}. peer_fd (caravans self pw p dk (take m envs)))"

lemma held_open_Suc:
  assumes "ship self pw env p dk = (alive, sent, p', dk')"
  shows "held_open self pw p dk (env # envs) (Suc j) (Suc i) \<longleftrightarrow> held_open self pw p' dk' envs j i"
    "held_open self pw p dk (env # envs) 0 (Suc i) \<longleftrightarrow> peer_fd p' \<and> held_open self pw p' dk' envs 0 i"
proof -
  have c: "caravans self pw p dk (take (Suc m) (env # envs)) = caravans self pw p' dk' (take m envs)" for m using assms by simp
  have sets: "{Suc j<..Suc i} = Suc ` {j<..i}" "{0<..Suc i} = insert (Suc 0) (Suc ` {0<..i})"
    by (simp_all only: atLeastSucAtMost_greaterThanAtMost [symmetric] image_Suc_atLeastAtMost) auto
  show "held_open self pw p dk (env # envs) (Suc j) (Suc i) \<longleftrightarrow> held_open self pw p' dk' envs j i"
    unfolding held_open_def sets(1) ball_simps c by simp
  have "peer_fd (caravans self pw p dk (take (Suc 0) (env # envs))) \<longleftrightarrow> peer_fd p'" using c [of 0] by simp
  then show "held_open self pw p dk (env # envs) 0 (Suc i) \<longleftrightarrow> peer_fd p' \<and> held_open self pw p' dk' envs 0 i"
    unfolding held_open_def sets(2) ball_simps c by simp
qed

lemma transcript_trust:
  "\<forall>env \<in> set envs. se_tls env = Some own \<Longrightarrow> peer_fd p \<longrightarrow> peer_ssl p \<Longrightarrow> i < length envs \<Longrightarrow>
    set (transcript self pw p dk envs ! i) \<subseteq> range Sealed \<and>
    (transcript self pw p dk envs ! i \<noteq> [] \<longrightarrow>
       peer_fd p \<and> held_open self pw p dk envs 0 i \<or> (\<exists>j \<le> i. vouched own (envs ! j) \<and> held_open self pw p dk envs j i))"
proof (induction envs arbitrary: i p dk)
  case (Cons env envs)
  obtain alive sent p' dk' where run: "ship self pw env p dk = (alive, sent, p', dk')" by (metis prod_cases4)
  have tls: "se_tls env = Some own" "\<forall>env \<in> set envs. se_tls env = Some own" using Cons.prems(1) by auto
  note s = ship_trust [OF tls(1) Cons.prems(2) run]
  show ?case
  proof (cases i)
    case 0
    then show ?thesis using s(2,3) by (auto simp: held_open_def)
  next
    case (Suc m)
    have p': "peer_fd p' \<longrightarrow> peer_ssl p'" using s(1) by blast
    have m: "m < length envs" using Suc Cons.prems(3) by simp
    note IH = Cons.IH [OF tls(2) p' m, of dk'] and op = held_open_Suc [OF run]
    have tr: "transcript self pw p dk (env # envs) ! i = transcript self pw p' dk' envs ! m" using Suc run by simp
    have "peer_fd p \<and> held_open self pw p dk (env # envs) 0 i \<or> (\<exists>j \<le> i. vouched own ((env # envs) ! j) \<and> held_open self pw p dk (env # envs) j i)"
      if sent: "transcript self pw p' dk' envs ! m \<noteq> []"
    proof (cases "peer_fd p' \<and> held_open self pw p' dk' envs 0 m")
      case True
      then have "held_open self pw p dk (env # envs) 0 i" using Suc op(2) by simp
      moreover have "peer_fd p \<or> vouched own ((env # envs) ! 0)" using s(1) True by simp
      ultimately show ?thesis by blast
    next
      case False
      then obtain j where j: "j \<le> m" "vouched own (envs ! j)" "held_open self pw p' dk' envs j m" using mp [OF conjunct2 [OF IH] sent] by auto
      then have "held_open self pw p dk (env # envs) (Suc j) i" using Suc op(1) by simp
      moreover have "Suc j \<le> i" "vouched own ((env # envs) ! Suc j)" using j Suc by simp_all
      ultimately show ?thesis by blast
    qed
    then show ?thesis using IH tr by simp
  qed
qed simp

section \<open>A batch as typed commands\<close>

text \<open>The updates of a record of this node.\<close>

definition op_of :: "AofRecord \<Rightarrow> string \<times> Record option \<Rightarrow> crdt_op" where
  "op_of r = (\<lambda>(key, x).
     case x of Some rc \<Rightarrow> Merge key (rec_value rc) (rec_version rc) (expire_at rc) | None \<Rightarrow> Delete key (Version (ar_timestamp_ms r) (ar_node_id r)))"

definition ops_of :: "u32 \<Rightarrow> string list \<Rightarrow> crdt_op list" where
  "ops_of self t =
     (if translate self t = [] then [] else case build_record V3 t of None \<Rightarrow> [] | Some r \<Rightarrow> map (op_of r) (changes r))"

text \<open>
  A record as it is in the log: one that is not sent, or a write of this node into a named room whose expiry, if it has one, is not in the
  past for the peer.
\<close>

definition sendable :: "u32 \<Rightarrow> int \<Rightarrow> string list \<Rightarrow> bool" where
  "sendable self now t \<longleftrightarrow> translate self t = [] \<or>
     (\<exists>r. t = record_tokens r \<and> aofrec_ok r \<and> own_record self r \<and> ar_room r \<noteq> [] \<and> 0 \<le> ar_expire_at r \<and> (ar_expire_at r = 0 \<or> now \<le> ar_expire_at r))"

lemma pair_changes_made: "(k, x) \<in> set (pair_changes mk ys) \<Longrightarrow> x \<in> range (Some \<circ> mk)"
  by (induction mk ys rule: pair_changes.induct) auto

lemma own_changes:
  assumes "own_record self r" and "(key, x) \<in> set (changes r)"
  shows "op_ver (op_of r (key, x)) = Version (ar_timestamp_ms r) (ar_node_id r)" "op_key (op_of r (key, x)) = key"
    "op_args (op_of r (key, x)) = change_command r (key, x)" "i64 (ar_expire_at r) \<Longrightarrow> 0 \<le> ar_expire_at r \<Longrightarrow> ar_expire_at r = 0 \<or> now \<le> ar_expire_at r \<Longrightarrow> op_fine now (op_of r (key, x))"
proof -
  let ?mk = "\<lambda>val. \<lparr>rec_value = val, expire_at = ar_expire_at r, timestamp_ms = ar_timestamp_ms r, node_id = ar_node_id r\<rparr>"
  have own: "ar_node_id r = self" "hlc_normalize (ar_timestamp_ms r) = ar_timestamp_ms r" using assms(1) by (simp_all add: own_record_def)
  obtain c kvs where a: "ar_args r = c # kvs" using assms(1) by (cases "ar_args r") (simp_all add: own_record_def)
  have cmd: "(upper c = ''SET'' \<and> 2 \<le> length kvs) \<or> (upper c = ''MSET'' \<and> kvs \<noteq> [] \<and> even (length kvs)) \<or> (upper c = ''DEL'' \<and> length kvs = 1)"
    using assms(1) by (simp add: own_record_def a)
  have "x = None \<or> x \<in> range (Some \<circ> ?mk)"
    using assms(2) cmd own(2) pair_changes_made [of key x ?mk kvs] by (auto simp: changes_def a)
  then have x: "x = None \<or> (\<exists>v. x = Some (?mk v))" by auto
  then show "op_ver (op_of r (key, x)) = Version (ar_timestamp_ms r) (ar_node_id r)" "op_key (op_of r (key, x)) = key"
    "op_args (op_of r (key, x)) = change_command r (key, x)"
    by (auto simp: op_of_def rec_version_def change_command_def)
  show "i64 (ar_expire_at r) \<Longrightarrow> 0 \<le> ar_expire_at r \<Longrightarrow> ar_expire_at r = 0 \<or> now \<le> ar_expire_at r \<Longrightarrow> op_fine now (op_of r (key, x))"
    using x own(2) by (auto simp: op_of_def op_fine_def rec_version_def i64_iff)
qed

lemma ops_of_own:
  assumes "aofrec_ok r" and "own_record self r"
  shows "ops_of self (record_tokens r) = map (op_of r) (changes r)" "translate self (record_tokens r) = map op_args (ops_of self (record_tokens r))"
proof -
  note tr = translate_own [OF assms(2)]
  show ops: "ops_of self (record_tokens r) = map (op_of r) (changes r)"
    using build_record_tokens [OF assms(1)] tr by (simp add: ops_of_def)
  show "translate self (record_tokens r) = map op_args (ops_of self (record_tokens r))"
    unfolding tr ops using own_changes(3) [OF assms(2)] by auto
qed

lemma sendable_ops:
  assumes "sendable self now t"
  shows "translate self t = map op_args (ops_of self t)" "\<forall>x \<in> set (ops_of self t). op_fine now x" "ops_of self t \<noteq> [] \<Longrightarrow> t ! 0 \<noteq> []"
proof -
  have "translate self t = map op_args (ops_of self t) \<and> (\<forall>x \<in> set (ops_of self t). op_fine now x) \<and> (ops_of self t \<noteq> [] \<longrightarrow> t ! 0 \<noteq> [])"
  proof (cases "translate self t = []")
    case True
    then show ?thesis by (simp add: ops_of_def)
  next
    case False
    then obtain r where r: "t = record_tokens r" "aofrec_ok r" "own_record self r" "ar_room r \<noteq> []" "0 \<le> ar_expire_at r" "ar_expire_at r = 0 \<or> now \<le> ar_expire_at r"
      using assms by (auto simp: sendable_def)
    have "i64 (ar_expire_at r)" using r(2) by (simp add: aofrec_ok_def)
    then have "\<forall>x \<in> set (ops_of self t). op_fine now x" using ops_of_own(1) [OF r(2,3)] own_changes(4) [OF r(3)] r(1,5,6) by auto
    moreover have "t ! 0 \<noteq> []" using r(1,4) by (simp add: record_tokens_def)
    ultimately show ?thesis using ops_of_own(2) [OF r(2,3)] r(1) by simp
  qed
  then show "translate self t = map op_args (ops_of self t)" "\<forall>x \<in> set (ops_of self t). op_fine now x" "ops_of self t \<noteq> [] \<Longrightarrow> t ! 0 \<noteq> []" by blast+
qed

definition typed_row :: "string \<Rightarrow> string list \<Rightarrow> crdt_op list \<Rightarrow> caravan_cmd list" where
  "typed_row room t ops = (if ops = [] then [] else (if t ! 0 \<noteq> room then [Select (t ! 0)] else []) @ map Update ops)"

fun typed_plan :: "u32 \<Rightarrow> string \<Rightarrow> string list list \<Rightarrow> caravan_cmd list list" where
  "typed_plan self room [] = []"
| "typed_plan self room (t # ts) =
     typed_row room t (ops_of self t) # typed_plan self (if ops_of self t = [] then room else t ! 0) ts"

lemma plan_typed:
  "\<forall>t \<in> set us. sendable self now t \<Longrightarrow> fst (plan self room us) = map (map words_of) (typed_plan self room us)"
proof (induction us arbitrary: room)
  case (Cons t us)
  have "map words_of (map Update ops) = map op_args ops" for ops by simp
  then show ?case using Cons.IH Cons.prems sendable_ops(1) [of self now t] by (auto simp: typed_row_def split: prod.splits) (metis fst_conv)+
qed simp

lemma typed_fine: "\<forall>t \<in> set us. sendable self now t \<Longrightarrow> \<forall>x \<in> set (concat (typed_plan self room us)). cmd_fine now x"
proof (induction us arbitrary: room)
  case (Cons t us)
  have "\<forall>x \<in> set (typed_row room t (ops_of self t)). cmd_fine now x" using sendable_ops(2) [of self now t] Cons.prems by (auto simp: typed_row_def)
  then show ?case using Cons by auto
qed simp

lemma room_at_append: "room_at room (xs @ ys) = room_at (room_at room xs) ys"
  by (induction room xs rule: room_at.induct) simp_all

lemma room_at_updates [simp]: "room_at room (map Update ops) = room"
  by (induction ops) simp_all

lemma room_at_row:
  assumes "ops \<noteq> []" and "cur = room \<or> room = []" and "t ! 0 \<noteq> []"
  shows "room_at cur ((if t ! 0 \<noteq> room then [Select (t ! 0)] else []) @ map Update (take j ops)) = t ! 0"
  using assms by auto

text \<open>Where the updates of a record are in the batch, and which room is selected there.\<close>

lemma typed_at:
  assumes "\<forall>t \<in> set us. sendable self now t" and "cur = room \<or> room = []" and "i < length us" and "j < length (ops_of self (us ! i))"
  shows "\<exists>n < length (concat (take (Suc i) (typed_plan self room us))).
    concat (typed_plan self room us) ! n = Update (ops_of self (us ! i) ! j) \<and> room_at cur (take n (concat (typed_plan self room us))) = us ! i ! 0"
  using assms
proof (induction us arbitrary: room cur i)
  case (Cons t us)
  let ?ops = "ops_of self t" and ?row = "typed_row room t (ops_of self t)"
  let ?room = "if ?ops = [] then room else t ! 0"
  have named: "?ops \<noteq> [] \<Longrightarrow> t ! 0 \<noteq> []" using sendable_ops(3) [of self now t] Cons.prems(1) by simp
  show ?case
  proof (cases i)
    case 0
    then have j: "j < length ?ops" "?ops \<noteq> []" using Cons.prems(4) by auto
    let ?sel = "if t ! 0 \<noteq> room then [Select (t ! 0)] else []"
    let ?n = "length ?sel + j"
    have row: "?row = ?sel @ map Update ?ops" using j(2) by (simp add: typed_row_def)
    have "?n < length ?row" using j(1) unfolding row by simp
    moreover have "?row ! ?n = Update (?ops ! j)" using j(1) unfolding row by (simp add: nth_append)
    moreover have "take ?n ?row = ?sel @ map Update (take j ?ops)" unfolding row by (simp add: take_map)
    ultimately show ?thesis using room_at_row [OF j(2) Cons.prems(2) named [OF j(2)], of j] 0
      by (intro exI [of _ ?n]) (simp add: nth_append)
  next
    case (Suc m)
    have cur: "room_at cur ?row = ?room \<or> ?room = []"
      using room_at_row [OF _ Cons.prems(2) named, where j = "length ?ops"] Cons.prems(2) named by (cases "?ops = []") (auto simp: typed_row_def)
    have us: "\<forall>t \<in> set us. sendable self now t" "m < length us" "j < length (ops_of self (us ! m))" using Cons.prems Suc by simp_all
    obtain n where n: "n < length (concat (take (Suc m) (typed_plan self ?room us)))"
      "concat (typed_plan self ?room us) ! n = Update (ops_of self (us ! m) ! j)"
      "room_at (room_at cur ?row) (take n (concat (typed_plan self ?room us))) = us ! m ! 0"
      using Cons.IH [OF us(1) cur us(2,3)] by blast
    show ?thesis using n Suc by (intro exI [of _ "length ?row + n"]) (simp add: nth_append room_at_append)
  qed
qed simp

section \<open>What the peer reads\<close>

text \<open>The parser of the peer on the bytes it was sent.\<close>

function received :: "string \<Rightarrow> nat \<Rightarrow> string list list" where
  "received buf pos = (case parse_request buf pos of Complete e args \<Rightarrow> args # received buf e | _ \<Rightarrow> [])"
  by pat_completeness auto
termination
  by (relation "measure (\<lambda>(buf, pos). length buf - pos)") (auto dest: parse_request_Complete)

declare received.simps [simp del]

lemma received_encoded: "toks_ok cmds \<Longrightarrow> received (pre @ log_bytes cmds) (length pre) = cmds"
proof (induction cmds arbitrary: pre)
  case Nil
  have "parse_request pre (length pre) = NeedMore" by (simp add: parse_request_def parse_def header_def)
  then show ?case by (simp add: received.simps [of pre])
next
  case (Cons c cmds)
  have ok: "length c \<le> kMaxArgs" "\<forall>a \<in> set c. length a \<le> kMaxBulk" "toks_ok cmds" using Cons.prems by (simp_all add: toks_ok_def)
  have "parse_request (pre @ resp_encode c @ log_bytes cmds) (length pre) = parse (pre @ resp_encode c @ log_bytes cmds) (length pre)"
    by (simp add: parse_request_def resp_encode_def nth_append)
  then have "parse_request (pre @ resp_encode c @ log_bytes cmds) (length pre) = Complete (length pre + length (resp_encode c)) c"
    using parse_encoded [OF ok(1,2)] by simp
  then show ?case using Cons.IH [OF ok(3), of "pre @ resp_encode c"] by (simp add: received.simps [of "pre @ resp_encode c @ log_bytes cmds"])
qed

lemma sent_bytes: "concat (map encode cmds) = log_bytes cmds"
  by (simp add: encode_resp log_bytes_def)

lemma pair_starts_bound: "i \<in> set (pair_starts j e) \<Longrightarrow> Suc i < e"
proof (induction j e rule: pair_starts.induct)
  case (1 j e)
  then show ?case by (cases "Suc j < e") (auto simp: pair_starts.simps [of j e])
qed

lemma translate_words:
  assumes "c \<in> set (translate self t)"
  shows "length c \<le> 6" "set c \<subseteq> set t \<union> {''CRDTMERGE'', ''CRDTDEL''}"
proof -
  have n: "7 \<le> length t" using assms by (auto simp: translate_def Let_def split: if_splits)
  then have m: "t ! i \<in> set t" if "i < length t" for i using that by simp
  have "length c \<le> 6 \<and> set c \<subseteq> set t \<union> {''CRDTMERGE'', ''CRDTDEL''}"
    using assms n m by (auto simp: translate_def Let_def split: if_splits dest!: pair_starts_bound)
  then show "length c \<le> 6" "set c \<subseteq> set t \<union> {''CRDTMERGE'', ''CRDTDEL''}" by blast+
qed

lemma plan_words: "toks_ok us \<Longrightarrow> toks_ok (concat (fst (plan self room us)))"
proof (induction us arbitrary: room)
  case (Cons t us)
  have t: "\<forall>a \<in> set t. length a \<le> kMaxBulk" "toks_ok us" using Cons.prems by (simp_all add: toks_ok_def)
  have lim: "6 \<le> kMaxArgs" "12 \<le> kMaxBulk" by (simp_all add: kMaxArgs_def kMaxBulk_def)
  have tr: "toks_ok (translate self t)"
    using translate_words [of _ self t] t(1) lim by (fastforce simp: toks_ok_def)
  have rm: "translate self t \<noteq> [] \<Longrightarrow> toks_ok [[''ROOM'', t ! 0]]"
  proof -
    assume "translate self t \<noteq> []"
    then have "7 \<le> length t" by (auto simp: translate_def Let_def split: if_splits)
    then have "t ! 0 \<in> set t" by (intro nth_mem) linarith
    then show "toks_ok [[''ROOM'', t ! 0]]" using t(1) lim by (simp add: toks_ok_def)
  qed
  have ap: "toks_ok (xs @ ys) \<longleftrightarrow> toks_ok xs \<and> toks_ok ys" for xs ys by (auto simp: toks_ok_def)
  show ?case
  proof (cases "translate self t = []")
    case True
    then show ?thesis using Cons.IH [OF t(2), of room] by (simp add: case_prod_unfold)
  next
    case False
    then show ?thesis using Cons.IH [OF t(2), of "t ! 0"] tr rm by (simp add: ap case_prod_unfold) (simp add: toks_ok_def)
  qed
qed (simp add: toks_ok_def)

section \<open>What the replies tell\<close>

definition line_of :: "string \<Rightarrow> string" where
  "line_of reply = take (length reply - 2) reply"

lemma reply_lines: "reply \<in> set caravan_replies \<Longrightarrow> CR \<notin> set (line_of reply) \<and> reply = line_of reply @ CRLF \<and> (positive (line_of reply) \<longleftrightarrow> hd reply = CHR ''+'')"
  by (auto simp: caravan_replies_def op_replies_def ROOMS_FULL_def err_def line_of_def positive_def)

lemma lines_of_replies: "set replies \<subseteq> set caravan_replies \<Longrightarrow> lines_of (concat replies) = map line_of replies"
proof (induction replies)
  case Nil
  then show ?case by (simp add: lines_of.simps)
next
  case (Cons r rs)
  have r: "CR \<notin> set (line_of r)" "r = line_of r @ CRLF" using Cons.prems reply_lines [of r] by simp_all
  have e: "concat (r # rs) = line_of r @ CRLF @ concat rs" by (subst r(2)) simp
  have "find_crlf (line_of r @ CRLF @ concat rs) = Some (length (line_of r))" by (rule find_crlf_found [OF r(1)])
  then have "lines_of (line_of r @ CRLF @ concat rs) = line_of r # lines_of (concat rs)" by (subst lines_of.simps) simp
  then show ?case using Cons unfolding e by simp
qed

section \<open>What a confirmed offset means\<close>

lemma confirmed_take:
  assumes "i < confirmed a cs"
  shows "length (concat (take (Suc i) cs)) \<le> a"
proof -
  let ?n = "confirmed a cs"
  have "take ?n cs = take (Suc i) cs @ drop (Suc i) (take ?n cs)" using assms
    by (metis append_take_drop_id min.absorb1 Suc_leI take_take)
  then have "length (concat (take (Suc i) cs)) \<le> length (concat (take ?n cs))" by (metis concat_append length_append le_add1)
  then show ?thesis using confirmed_bound [of a cs] by linarith
qed

lemma place_strict:
  assumes "place ts (Suc i) \<le> place ts m" and "i < length ts"
  shows "i < m"
proof (rule ccontr)
  assume "\<not> i < m"
  then have "place ts m \<le> place ts i" using place_le [of m "take i ts"] by simp
  moreover have "place ts (Suc i) = place ts i + length (resp_encode (ts ! i))" using assms(2) by (simp add: take_Suc_conv_app_nth)
  moreover have "0 < length (resp_encode (ts ! i))" by (simp add: resp_encode_def)
  ultimately show False using assms(1) by linarith
qed

lemma leading_positive:
  assumes "n < length (takeWhile positive (map line_of replies))" and "set replies \<subseteq> set caravan_replies"
  shows "hd (replies ! n) = CHR ''+''"
proof -
  have n: "n < length replies" using assms(1) length_takeWhile_le [of positive "map line_of replies"] by simp
  have "positive (map line_of replies ! n)" using assms(1) by (metis nth_mem set_takeWhileD takeWhile_nth)
  then show ?thesis using reply_lines [of "replies ! n"] n assms(2) by (metis nth_map nth_mem subsetD)
qed

lemma leading_take: "length (takeWhile P (take n xs)) \<le> length (takeWhile P xs)"
proof (induction xs arbitrary: n)
  case (Cons x xs)
  then show ?case by (cases n) simp_all
qed simp

text \<open>The closing command of a batch.\<close>

lemma closing_typed:
  assumes "extra = [] \<or> extra = [[''PING'']] \<or> extra = [[''REPLFRONTIER'', dec (unat (self :: u32)), dec (unat (f :: u64))]] \<and> q"
  shows "\<exists>ext. extra = map words_of ext \<and> (\<forall>x \<in> set ext. cmd_fine now x)" "toks_ok extra"
proof -
  show "\<exists>ext. extra = map words_of ext \<and> (\<forall>x \<in> set ext. cmd_fine now x)"
    using assms by (auto intro: exI [of _ "[]"] exI [of _ "[Probe]"] exI [of _ "[Frontier self f]"])
  show "toks_ok extra" using assms length_dec_u32 [of self] length_dec_u64 [of f] by (auto simp: toks_ok_def kMaxArgs_def kMaxBulk_def)
qed

text \<open>A batch that was sent, as the peer reads and executes it.\<close>

lemma batch_received:
  assumes us: "toks_ok us" "\<forall>t \<in> set us. sendable self now t" and extra: "extra = map words_of ext" "\<forall>x \<in> set ext. cmd_fine now x" "toks_ok extra"
    and sent: "sent = concat (map encode (concat (fst (plan self room us)) @ extra))"
  shows "received sent 0 = map words_of (concat (typed_plan self room us) @ ext)" "\<forall>x \<in> set (concat (typed_plan self room us) @ ext). cmd_fine now x"
proof -
  have "toks_ok (concat (fst (plan self room us)) @ extra)" using plan_words [OF us(1), of self room] extra(3) by (auto simp: toks_ok_def)
  from received_encoded [OF this, of "[]"] show "received sent 0 = map words_of (concat (typed_plan self room us) @ ext)"
    unfolding sent sent_bytes by (simp add: plan_typed [OF us(2)] extra(1) map_concat)
  show "\<forall>x \<in> set (concat (typed_plan self room us) @ ext). cmd_fine now x" using typed_fine [OF us(2), of room] extra(2) by auto
qed

lemma batch_served:
  assumes us: "\<forall>t \<in> set us. sendable self now t" and room: "room = [] \<or> room = cur" and upd: "i < length us" "x \<in> set (ops_of self (us ! i))"
    and pos: "length (concat (take (Suc i) (fst (plan self room us)))) \<le> length (takeWhile positive (map line_of replies))"
    and replies: "set replies \<subseteq> set caravan_replies"
  shows "\<exists>n. n < length (concat (typed_plan self room us) @ ext) \<and> (concat (typed_plan self room us) @ ext) ! n = Update x \<and> (\<forall>j \<le> n. hd (replies ! j) = CHR ''+'') \<and>
    room_at cur (take n (concat (typed_plan self room us) @ ext)) = us ! i ! 0"
proof -
  let ?tp = "typed_plan self room us"
  obtain j where j: "j < length (ops_of self (us ! i))" "x = ops_of self (us ! i) ! j" using upd(2) by (metis in_set_conv_nth)
  obtain n where n: "n < length (concat (take (Suc i) ?tp))" "concat ?tp ! n = Update x" "room_at cur (take n (concat ?tp)) = us ! i ! 0"
    using typed_at [OF us _ upd(1) j(1), of cur room] room j(2) by auto
  have "concat ?tp = concat (take (Suc i) ?tp) @ concat (drop (Suc i) ?tp)" by (metis append_take_drop_id concat_append)
  then have nx: "n < length (concat ?tp)" using n(1) by (metis length_append trans_less_add1)
  have "length (concat (take (Suc i) (fst (plan self room us)))) = length (concat (take (Suc i) ?tp))"
    unfolding plan_typed [OF us] take_map map_concat [symmetric] by simp
  then have "n < length (takeWhile positive (map line_of replies))" using pos n(1) by linarith
  then have "\<forall>j \<le> n. hd (replies ! j) = CHR ''+''" using leading_positive [OF _ replies] by simp
  then show ?thesis using nx n(2,3) by (intro exI [of _ n]) (simp add: nth_append)
qed

section \<open>A concrete exchange\<close>

text \<open>The peer already has the key at the version that is sent: the caravan repeats an update.\<close>

definition ex_remote :: database where
  "ex_remote = ex_logged\<lparr>db_aof := (db_aof ex_logged)\<lparr>rewrite_min := 100000\<rparr>\<rparr>"

lemma ex_log_short: "length (log_image [set_record ''default'' ''k'' ex_kept]) < 100000"
  by (simp add: log_image_def set_record_def kAofHeader_def encode_record_resp resp_encode_def bulk_string_def record_tokens_def kMetaToken_def ex_kept_def dec_int_def dec.simps)

lemma ex_remote_same: "same_store ex_logged ex_remote" by (rule same_store_refl) (simp_all add: ex_remote_def)

lemma ex_remote_ok: "registry_ok ex_remote" "env_ok ex_remote" "peer_count ex_remote = 1" "now_ms ex_remote = 3000000000" "watermark ex_remote = 0"
  "\<not> is_subscribed fd (db_pubsub ex_remote)" "client_room fd ex_remote = ''default''" "tend_rewrite (ex_remote\<lparr>resp3 := False\<rparr>) = ex_remote\<lparr>resp3 := False\<rparr>"
  "find_tomb n k ex_remote = None"
proof -
  have "registry_ok ex_logged" using ex_logged_dumpable(1) by (simp add: dumpable_def)
  then show "registry_ok ex_remote" by (rule same_store_keeps(2) [OF ex_remote_same])
  show "env_ok ex_remote" using env_same [OF ex_remote_same] ex_server(2) by simp
  show "peer_count ex_remote = 1" "watermark ex_remote = 0" by (simp_all add: ex_remote_def ex_logged_def ex_db_def database_init_def)
  show "now_ms ex_remote = 3000000000" by (simp add: ex_remote_def ex_logged_durable(2))
  show "\<not> is_subscribed fd (db_pubsub ex_remote)" using ex_server(5) by (simp add: ex_remote_def)
  show "client_room fd ex_remote = ''default''" by (simp add: client_room_def get_client_room_def ex_remote_def ex_logged_def ex_db_def database_init_def)
  have "\<not> rewrite_due (db_aof ex_remote)" using ex_log_short
    by (simp add: ex_remote_def ex_logged_def rewrite_due_def word_le_nat_alt unat_of_nat_u64)
  moreover have "\<not> rewrite_child ex_remote" by (simp add: ex_remote_def ex_logged_def ex_db_def database_init_def)
  ultimately show "tend_rewrite (ex_remote\<lparr>resp3 := False\<rparr>) = ex_remote\<lparr>resp3 := False\<rparr>"
    by (simp add: tend_rewrite_def finish_background_rewrite_def)
  show "find_tomb n k ex_remote = None" by (simp add: find_tomb_def ex_remote_def ex_logged_def ex_db_def database_init_def nget_def inner_def)
qed

text \<open>A merge of a version that the room already holds.\<close>

lemma merge_again:
  assumes room: "map_of (rooms d) name = Some room" "room_state room = Active" "map_of (room_keys room) key = Some rc" "expire_at rc = 0" "v \<le> rec_version rc"
    and v: "hlc_normalize (v_ts v) = v_ts v" "uint (physical_ms (v_ts v)) \<le> now_ms d + max_clock_offset_ms d"
    and roomy: "max_bytes (db_eviction d) = 0" "length (room_keys room) \<le> max_keys_per_room (db_eviction d)"
  shows "\<exists>d'. execute_in_room name ''CRDTMERGE'' (op_args (Merge key val v 0)) d = (''+OK (Ignored Stale Write)'' @ CRLF, d') \<and>
    db_eviction d' = db_eviction d \<and> io d' = io d \<and> now_ms d' = now_ms d"
proof -
  let ?room = "room\<lparr>last_access_time := now_ms d\<rparr>"
  let ?d1 = "bump_hits (d\<lparr>clock := clock_observe (clock d) (v_ts v)\<rparr>)"
  have me: "merge_expire (op_args (Merge key val v 0)) = Some 0" by (simp add: merge_expire_def parse_i64_to_string i64_def)
  have lk: "lookup name key (?room, d\<lparr>clock := clock_observe (clock d) (v_ts v)\<rparr>) = (Some rc, ?room, ?d1)"
    using room(3,4) by (simp add: lookup_def expired_def)
  have st: "stale name key (Some rc) v ?d1" using room(5) by (simp add: stale_def)
  have run: "handle_crdtmerge name (op_args (Merge key val v 0)) (?room, d) = (''+OK (Ignored Stale Write)'' @ CRLF, ?room, ?d1)"
    using me incoming_sent [OF v(1), of d] v(2) lk st by (simp add: handle_crdtmerge_def)
  have "evict_loop env 0 ?room (db_metrics ?d1) (db_eviction ?d1) = (?room, db_metrics ?d1, db_eviction ?d1)" for env
    using roomy by (simp add: evict_loop.simps over_limits_def fits_def bump_hits_def)
  then show ?thesis using room(1,2) run
    by (simp add: execute_in_room_def find_room_def activate_def run_in_room_def key_command_def key_table_def evict_cell_def evict_despised_keys_def put_room_def bump_hits_def)
qed

text \<open>A peer that can be reached.\<close>

definition ex_join :: ship_env where
  "ex_join = ex_ship\<lparr>se_connect := \<lparr>ce_resolved = Some [\<lparr>ca_socket = True, ca_connect = Connect_ok, ca_poll = 1, ca_getsockopt = True, ca_so_error = 0\<rparr>], ce_fcntl = True, ce_rcvtimeo = True, ce_sndtimeo = True\<rparr>\<rparr>"

lemma env_ok_fields: "env_ok d \<Longrightarrow> db_eviction d' = db_eviction d \<Longrightarrow> io d' = io d \<Longrightarrow> now_ms d' = now_ms d \<Longrightarrow> env_ok d'"
  by (simp add: env_ok_def reads_ok_def)

abbreviation "ex_version \<equiv> Version 196608000000000 7"

lemma ex_merge_runs:
  "\<exists>d1. execute ex_info 5 (op_args (Merge ''k'' ''v'' ex_version 0)) False ex_remote = (''+OK (Ignored Stale Write)'' @ CRLF, [], d1) \<and> env_ok d1 \<and>
    registry_ok d1 \<and> \<not> is_subscribed 5 (db_pubsub d1)"
proof -
  let ?d = "(set_client_room 5 ''default'' (ex_remote\<lparr>resp3 := False\<rparr>))\<lparr>total_commands := Suc (total_commands ex_remote)\<rparr>"
  let ?room = "(new_room ''default'')\<lparr>room_state := Active, room_keys := [(''k'', ex_kept)], room_bytes := record_cost ''k'' ex_kept\<rparr>"
  have f: "rooms ?d = [(''default'', ?room)]" "db_eviction ?d = eviction_init True 100 0" "now_ms ?d = 3000000000" "max_clock_offset_ms ?d = 500"
    by (simp_all add: set_client_room_def ex_remote_def ex_logged_def ex_db_def database_init_def)
  have v: "hlc_normalize (v_ts ex_version) = v_ts ex_version" "uint (physical_ms (v_ts ex_version)) \<le> now_ms ?d + max_clock_offset_ms ?d"
    unfolding f(3,4) by (simp_all add: hlc_normalize_def kLegacyLimit_def physical_ms_def)
  obtain d1 where d1: "execute_in_room ''default'' ''CRDTMERGE'' (op_args (Merge ''k'' ''v'' ex_version 0)) ?d = (''+OK (Ignored Stale Write)'' @ CRLF, d1)"
    "db_eviction d1 = db_eviction ?d" "io d1 = io ?d" "now_ms d1 = now_ms ?d"
    using merge_again [of ?d "''default''" ?room "''k''" ex_kept ex_version] v f(1,2)
    by (auto simp: ex_kept_def rec_version_def eviction_init_def)
  have g: "get_client_room 5 (ex_remote\<lparr>resp3 := False\<rparr>) = (''default'', set_client_room 5 ''default'' (ex_remote\<lparr>resp3 := False\<rparr>))"
    by (simp add: get_client_room_def ex_remote_def ex_logged_def ex_db_def database_init_def)
  have s: "\<not> is_subscribed 5 (db_pubsub (set_client_room 5 ''default'' (ex_remote\<lparr>resp3 := False\<rparr>)))" using ex_remote_ok(6) by (simp add: set_client_room_def)
  have run: "execute ex_info 5 (op_args (Merge ''k'' ''v'' ex_version 0)) False ex_remote = (''+OK (Ignored Stale Write)'' @ CRLF, [], d1)"
    using d1(1) g s by (simp add: execute_def ex_remote_ok(8) entry_of_def kCommands_def command_key_def upper_def toupper_def silent_def set_client_room_def)
  have "env_ok ?d" using ex_remote_ok(2) by (simp add: env_ok_def reads_ok_def set_client_room_def)
  then have "env_ok d1" using d1 env_ok_fields [of ?d d1] by blast
  moreover have "registry_ok d1 \<and> \<not> is_subscribed 5 (db_pubsub d1)"
    using execute_learns [OF ex_remote_ok(1,2) _ ex_remote_ok(6), of "Update (Merge ''k'' ''v'' ex_version 0)"] run v(1) ex_remote_ok(3,4,6)
    by (simp add: remembers_def op_fine_def)
  ultimately show ?thesis using run by blast
qed

lemma frontier_runs:
  assumes reg: "registry_ok d" and nosub: "\<not> is_subscribed fd (db_pubsub d)"
  shows "fst (execute ie fd (words_of (Frontier node f)) False d) = ''+OK'' @ CRLF"
proof -
  let ?d0 = "d\<lparr>resp3 := False\<rparr>"
  have reg0: "registry_ok ?d0" by (rule same_store_keeps(2) [OF same_store_refl reg]) simp_all
  obtain room d2 where g: "get_client_room fd (tend_rewrite ?d0) = (room, d2)" by fastforce
  have sub: "\<not> is_subscribed fd (db_pubsub d2)"
    using g tend_same(3) [OF reg0] nosub by (auto simp: get_client_room_def set_client_room_def split: option.splits)
  have reply: "fst (handle_replfrontier (words_of (Frontier node f)) d') = ''+OK'' @ CRLF" for d'
    using node_token [of node] parse_u64_dec [of "unat f"] unat_u64_less [of f] unat_u32_less [of node]
    by (simp add: handle_replfrontier_def next_version_def Let_def)
  then show ?thesis using g sub reply [of "d2\<lparr>total_commands := Suc (total_commands d2)\<rparr>"]
    by (simp add: execute_def entry_of_def kCommands_def command_key_def upper_def toupper_def conn_command_def silent_def case_prod_unfold)
qed

lemma ex_exchange:
  "\<exists>p' dk'. ship 7 [] ex_ship ex_peer Map.empty =
     (True, concat (map encode [op_args (Merge ''k'' ''v'' ex_version 0), words_of (Frontier 7 0)]), p', dk') \<and> peer_offset p' = place ex_toks 2"
proof -
  let ?p = "connect_peer [] ex_ship (realign ex_ship ex_peer)"
  obtain alive sent p' dk' where run: "ship 7 [] ex_ship ex_peer Map.empty = (alive, sent, p', dk')" by (metis prod_cases4)
  have k: "1 \<le> length ex_toks" "length ex_toks = 2" by (simp_all add: ex_toks_def)
  obtain k' where k': "k' \<le> 2" "peer_offset p' = place ex_toks k'" "1 < k'"
    using ship_heard [OF ex_toks_ok(1) k(1) ex_peer_at(1) ex_heard run] k(2) by auto
  have al: "alive" and got: "fst (read_batch 7 ex_ship ?p)" using ex_heard run by auto
  have r: "realign ex_ship ex_peer = ex_peer\<lparr>peer_lag := length (log_bytes ex_toks) - place ex_toks 1\<rparr>"
    using ex_peer_at(1,2) place_le [of 1 ex_toks] by (simp add: realign_def)
  have p: "peer_offset ?p = place ex_toks 1" "peer_fd ?p" "peer_room ?p = ''default''"
    unfolding r by (simp_all add: connect_peer_def connect_step_def ex_peer_at)
  obtain b where rb: "read_batch 7 ex_ship ?p = (True, b)" using got by (metis prod.collapse)
  obtain j where "j \<le> length ex_toks - 1" "b = batch_of 7 ?p (take j (drop 1 ex_toks))" "0 < j"
    using read_batch_prefix [OF ex_toks_ok(1) ex_ship_fields(4) k(1) p(1) rb] k(2) by auto
  then have b: "b = batch_of 7 ?p [record_tokens ex_own]" using k(2) by (simp add: ex_toks_def numeral_2_eq_2 le_Suc_eq)
  have pl: "plan 7 (peer_room ?p) [record_tokens ex_own] = ([[op_args (Merge ''k'' ''v'' ex_version 0)]], ''default'')"
    using ex_commands(2) p(3) by (simp add: record_tokens_def ex_own_def)
  have whole: "length (se_file ex_ship) = place ex_toks 1 + length (resp_encode (record_tokens ex_own))" by (simp add: ex_toks_def)
  have cl: "closing 7 ex_ship True (peer_offset ?p) b = (concat (map encode [op_args (Merge ''k'' ''v'' ex_version 0), words_of (Frontier 7 0)]), 2)"
    unfolding b batch_of_def pl using whole p(1) by (simp add: closing_def ex_ship_def Let_def)
  have "b_misaligned b = False" by (simp add: b batch_of_def pl)
  then have "sent = concat (map encode [op_args (Merge ''k'' ''v'' ex_version 0), words_of (Frontier 7 0)])"
    using run p(2) rb cl by (auto simp: ship_def Let_def split: prod.splits)
  moreover have "k' = 2" using k' by simp
  ultimately show ?thesis using run al k'(2) by (intro exI [of _ p'] exI [of _ dk']) simp
qed

lemma ex_sendable: "sendable 7 (now_ms ex_remote) (record_tokens ex_own)" "aofrec_ok ex_own" "own_record 7 ex_own" "changes ex_own = [(''k'', Some ex_kept)]"
proof -
  have n: "hlc_normalize 196608000000000 = 196608000000000" by (simp add: hlc_normalize_def kLegacyLimit_def)
  show own: "own_record 7 ex_own" using n by (simp add: own_record_def ex_own_def upper_def toupper_def)
  show ok: "aofrec_ok ex_own" by (simp add: aofrec_ok_def ex_own_def kMaxArgs_def kMaxBulk_def i64_def)
  have "ar_room ex_own \<noteq> []" "ar_expire_at ex_own = 0" by (simp_all add: ex_own_def)
  then show "sendable 7 (now_ms ex_remote) (record_tokens ex_own)" using own ok unfolding sendable_def by auto
  show "changes ex_own = [(''k'', Some ex_kept)]" using n by (simp add: changes_def ex_own_def upper_def toupper_def ex_kept_def)
qed

section \<open>Properties\<close>

text \<open>
  C5. Confirmed means known, from the log of one node to the database of another: when a caravan over a log of this
  node ends with the peer answering, and the peer did what its parser, its dispatcher and its merges do with the bytes it was sent, then for every
  record that the offset has passed, every key the record changes is known at its version to the peer, in the record's room: the
  peer has a record or a tombstone at least as new, or its watermark is above the version.
\<close>

theorem confirmed_is_known:
  assumes log: "toks_ok ts" "se_file env = log_bytes ts" "k \<le> length ts" "peer_offset p = length (log_bytes (take k ts))" "se_inode env = peer_inode p"
    and sent: "\<forall>t \<in> set (drop k ts). sendable self (now_ms d) t" "ship self pw env p dk = (True, out, p', dk')"
    and peer: "registry_ok d" "peer_count d \<noteq> 0" "\<not> is_subscribed fd (db_pubsub d)"
      "peer_room (connect_peer pw env (realign env p)) = [] \<or> peer_room (connect_peer pw env (realign env p)) = client_room fd d"
    and served: "calm ie fd (received out 0) d" "serve_all ie fd (received out 0) d = (replies, d')" "concat (le_recv (se_link env)) = concat replies"
    and passed: "k \<le> i" "i < length ts" "length (log_bytes (take (Suc i) ts)) \<le> peer_offset p'"
    and r: "ts ! i = record_tokens r" "aofrec_ok r" "own_record self r" "(key, x) \<in> set (changes r)"
  shows "known d' (ar_room r) key (Version (ar_timestamp_ms r) (ar_node_id r))"
proof -
  let ?room = "peer_room (connect_peer pw env (realign env p))"
  obtain j ls cs extra where s: "j \<le> length ts - k" "fst (plan self ?room (take j (drop k ts))) = cs"
    "peer_offset p' = place ts (k + confirmed (length (takeWhile positive ls)) cs)"
    "out = concat (map encode (concat cs @ extra))" "length ls = length (concat cs @ extra)" "ls = take (length ls) (lines_of (concat replies))"
    "extra = [] \<or> extra = [[''PING'']] \<or> (extra = [[''REPLFRONTIER'', dec (unat self), dec (unat (se_frontier env))]] \<and> k + j = length ts)"
    using ship_session [OF log sent(2), unfolded if_True served(3)] by blast
  let ?us = "take j (drop k ts)"
  have us: "toks_ok ?us" "\<forall>t \<in> set ?us. sendable self (now_ms d) t"
    using log(1) sent(1) by (auto simp: toks_ok_def dest: in_set_takeD in_set_dropD)
  obtain ext where ext: "extra = map words_of ext" "\<forall>x \<in> set ext. cmd_fine (now_ms d) x" using closing_typed(1) [OF s(7)] by blast
  have tok: "toks_ok extra" by (rule closing_typed(2) [OF s(7)])
  have out: "out = concat (map encode (concat (fst (plan self ?room ?us)) @ extra))" using s(2,4) by simp
  note rc = batch_received [OF us ext tok out]
  note b = batch_known [OF peer(1-3) rc(2) served(1,2) [unfolded rc(1)]]
  have len: "length cs = j" using plan_length [of self ?room ?us] s(1,2) log(3) by simp
  have pos: "i < k + confirmed (length (takeWhile positive ls)) cs" using place_strict passed s(3) by simp
  then have m: "i - k < confirmed (length (takeWhile positive ls)) cs" "i - k < j"
    using passed(1) conjunct1 [OF confirmed_bound [of "length (takeWhile positive ls)" cs]] len by linarith+
  have at: "?us ! (i - k) = record_tokens r" "i - k < length ?us" using m(2) passed r(1) by simp_all
  have op: "op_of r (key, x) \<in> set (ops_of self (?us ! (i - k)))" using r(4) unfolding at(1) ops_of_own(1) [OF r(2,3)] by force
  have rs: "set replies \<subseteq> set caravan_replies" using b by blast
  then have "lines_of (concat replies) = map line_of replies" by (rule lines_of_replies)
  then have "length (takeWhile positive ls) \<le> length (takeWhile positive (map line_of replies))"
    using s(6) leading_take [of positive "length ls" "lines_of (concat replies)"] by metis
  then have "length (concat (take (Suc (i - k)) (fst (plan self ?room ?us)))) \<le> length (takeWhile positive (map line_of replies))"
    using confirmed_take [OF m(1)] s(2) by simp
  from batch_served [OF us(2) peer(4) at(2) op this rs, of ext] obtain n where
    "n < length (concat (typed_plan self ?room ?us) @ ext)" "(concat (typed_plan self ?room ?us) @ ext) ! n = Update (op_of r (key, x))"
    "\<forall>j \<le> n. hd (replies ! j) = CHR ''+''" "room_at (client_room fd d) (take n (concat (typed_plan self ?room ?us) @ ext)) = ?us ! (i - k) ! 0" by blast
  then have "known d' (?us ! (i - k) ! 0) (op_key (op_of r (key, x))) (op_ver (op_of r (key, x)))" using b by metis
  then show ?thesis using own_changes(1,2) [OF r(3,4)] unfolding at(1) by (simp add: record_tokens_def)
qed

theorem confirmed_is_known_witness:
  "known (snd (serve_all ex_info 5 (received (fst (snd (ship 7 [] ex_ship ex_peer Map.empty))) 0) ex_remote)) ''default'' ''k'' ex_version"
proof -
  let ?w = "op_args (Merge ''k'' ''v'' ex_version 0)" and ?f = "words_of (Frontier 7 0)"
  obtain out p' dk' where run: "ship 7 [] ex_ship ex_peer Map.empty = (True, out, p', dk')" and out: "out = concat (map encode [?w, ?f])"
    and at: "peer_offset p' = place ex_toks 2" using ex_exchange by blast
  have "toks_ok [?w, ?f]" by (simp add: toks_ok_def kMaxArgs_def kMaxBulk_def dec_int_def dec.simps)
  from received_encoded [OF this, of "[]"] have rc: "received out 0 = [?w, ?f]" unfolding out sent_bytes by simp
  obtain d1 where d1: "execute ex_info 5 ?w False ex_remote = (''+OK (Ignored Stale Write)'' @ CRLF, [], d1)" "env_ok d1" "registry_ok d1" "\<not> is_subscribed 5 (db_pubsub d1)"
    using ex_merge_runs by blast
  obtain s2 d2 where d2: "execute ex_info 5 ?f False d1 = (''+OK'' @ CRLF, s2, d2)"
    using frontier_runs [OF d1(3,4), of ex_info 7 0] by (metis prod.collapse)
  have calm: "calm ex_info 5 (received out 0) ex_remote" unfolding rc using d1(1,2) d2 ex_remote_ok(2) by simp
  have serve: "serve_all ex_info 5 (received out 0) ex_remote = ([''+OK (Ignored Stale Write)'' @ CRLF, ''+OK'' @ CRLF], d2)" unfolding rc using d1(1) d2 by simp
  have heard: "concat (le_recv (se_link ex_ship)) = concat [''+OK (Ignored Stale Write)'' @ CRLF, ''+OK'' @ CRLF]" by (simp add: ex_ship_def Let_def)
  have k: "1 \<le> length ex_toks" "1 < length ex_toks" "drop 1 ex_toks = [record_tokens ex_own]" "ex_toks ! 1 = record_tokens ex_own" by (simp_all add: ex_toks_def)
  have all: "\<forall>t \<in> set (drop 1 ex_toks). sendable 7 (now_ms ex_remote) t" using k(3) ex_sendable(1) by simp
  have ino: "se_inode ex_ship = peer_inode ex_peer" by (simp add: ex_peer_at)
  have room: "peer_room (connect_peer [] ex_ship (realign ex_ship ex_peer)) = client_room 5 ex_remote"
    by (simp add: ex_remote_ok(7) connect_peer_def connect_step_def realign_def Let_def ex_peer_at)
  have pc: "peer_count ex_remote \<noteq> 0" by (simp add: ex_remote_ok(3))
  have "known d2 (ar_room ex_own) ''k'' (Version (ar_timestamp_ms ex_own) (ar_node_id ex_own))"
    by (rule confirmed_is_known [OF ex_toks_ok(1) ex_ship_fields(4) k(1) ex_peer_at(1) ino all run ex_remote_ok(1) pc ex_remote_ok(6) disjI2 [OF room] calm serve heard order_refl k(2) _ k(4) ex_sendable(2,3), where x = "Some ex_kept"])
      (use at ex_sendable(4) in \<open>simp_all add: numeral_2_eq_2\<close>)
  then show ?thesis unfolding run fst_conv snd_conv serve by (simp add: ex_own_def)
qed

text \<open>
  C14. With TLS, nothing is sent to a peer that has not shown this cluster's certificate: for any sequence of
  caravans that starts without a connection, whatever the network and the peers do, everything handed to the connection (the password of the node included)
  goes through the session, and only over a connection whose handshake succeeded with a certificate equal to this node's own, in the same caravan or
  in an earlier one since which the connection was never closed.
\<close>

theorem cluster_certificate_first:
  assumes "\<forall>env \<in> set envs. se_tls env = Some own" and "\<not> peer_fd p" and "i < length envs"
  shows "set (transcript self pw p dk envs ! i) \<subseteq> range Sealed \<and>
    (transcript self pw p dk envs ! i \<noteq> [] \<longrightarrow>
       (\<exists>j \<le> i. hs_connect (se_handshake (envs ! j)) \<and> hs_theirs (se_handshake (envs ! j)) = Some own \<and>
          (\<forall>m \<in> {j<..i}. peer_fd (caravans self pw p dk (take m envs)))))"
  using transcript_trust [OF assms(1) _ assms(3), of p self pw dk] assms(2) unfolding vouched_def held_open_def by auto

theorem cluster_certificate_first_witness:
  "transcript 7 ''pw'' (disconnect ex_peer) Map.empty [ex_join\<lparr>se_tls := Some ''other''\<rparr>] ! 0 = []"
proof -
  let ?env = "ex_join\<lparr>se_tls := Some ''other''\<rparr>"
  have "\<forall>env \<in> set [?env]. se_tls env = Some ''other''" "\<not> peer_fd (disconnect ex_peer)" "0 < length [?env]" by (simp_all add: disconnect_def)
  moreover have "hs_theirs (se_handshake ?env) \<noteq> Some ''other''" by (simp add: ex_join_def ex_ship_def Let_def)
  ultimately show ?thesis using cluster_certificate_first [of "[?env]" "''other''" "disconnect ex_peer" 0 7 "''pw''" Map.empty] by auto
qed

text \<open>
  C40. A write that is refused once can be lost for good. A batch that reaches the end of the log ends with the frontier, whatever
  became of its merges: when the peer refuses a merge because its timestamp is too far in the future, the frontier that follows in the same batch is
  accepted all the same, and raises the watermark (here of a node with one peer) over the refused version. When the same merge is sent again at a
  time at which the timestamp is fine, it is answered with a positive line as stale, and the key is still absent: the sender moves on.
\<close>

theorem refused_write_forgotten:
  assumes absent: "map_of (room_keys room) key = None" "nget (cold_index (db_eviction d)) name key = None" "find_tomb name key d = None" "nested_ok (tombstones d)"
    and peers: "peer_count d = 1" "frontiers d = []" "node \<noteq> local_node_id d" "watermark d < f" "v_ts v \<le> f"
    and op: "hlc_normalize (v_ts v) = v_ts v" "0 \<le> ex" "ex \<le> LLONG_MAX"
    and early: "now_ms d + max_clock_offset_ms d < uint (physical_ms (v_ts v))" and later: "uint (physical_ms (v_ts v)) \<le> t + max_clock_offset_ms d"
  shows "\<exists>d1 d2.
    handle_crdtmerge name (op_args (Merge key val v ex)) (room, d) = (''-ERR timestamp too far in the future (SOMNIUM_MAX_CLOCK_OFFSET_MS)'' @ CRLF, room, d) \<and>
    handle_replfrontier [''REPLFRONTIER'', dec (unat node), dec (unat f)] d = (''+OK'' @ CRLF, d1) \<and>
    handle_crdtmerge name (op_args (Merge key val v ex)) (room, d1\<lparr>now_ms := t\<rparr>) = (''+OK (Ignored Stale Write)'' @ CRLF, room, d2) \<and>
    nget (cold_index (db_eviction d2)) name key = None"
proof -
  have me: "merge_expire (op_args (Merge key val v ex)) = Some ex" using op(2,3) by (simp add: merge_expire_def parse_i64_to_string i64_iff)
  have first: "handle_crdtmerge name (op_args (Merge key val v ex)) (room, d) = (''-ERR timestamp too far in the future (SOMNIUM_MAX_CLOCK_OFFSET_MS)'' @ CRLF, room, d)"
    using me incoming_sent [OF op(1), of d] early by (simp add: handle_crdtmerge_def err_def)
  have low: "\<not> f \<le> watermark d" using peers(4) by simp
  have top: "min UINT64_MAX f = f" using unat_u64_less [of f] by (intro min_absorb2) (simp add: word_le_nat_alt)
  define d1 where "d1 = snd (handle_replfrontier [''REPLFRONTIER'', dec (unat node), dec (unat f)] d)"
  have fr: "handle_replfrontier [''REPLFRONTIER'', dec (unat node), dec (unat f)] d = (''+OK'' @ CRLF, d1)"
    and d1: "watermark d1 = f" "tombstones d1 = drop_tombs f (tombstones d)" "db_eviction d1 = db_eviction d" "max_clock_offset_ms d1 = max_clock_offset_ms d"
    using node_token [of node] parse_u64_dec [of "unat f"] unat_u64_less [of f] unat_u32_less [of node] peers(1-3) top low
    by (simp_all add: d1_def handle_replfrontier_def next_version_def Let_def collect_tombstones_def low_frontier_def count_tomb_def)
  have ft: "find_tomb name key d1 = None" using absent(3) drop_tombs_get [OF absent(4), of f name key] by (simp add: find_tomb_def d1(2))
  let ?d = "d1\<lparr>now_ms := t, clock := clock_observe (clock d1) (v_ts v)\<rparr>"
  have iv: "incoming_version (dec (unat (v_ts v))) (dec (unat (v_node v))) (d1\<lparr>now_ms := t\<rparr>) = (Inr v, ?d)"
    using incoming_sent [OF op(1), of "d1\<lparr>now_ms := t\<rparr>"] later d1(4) by simp
  obtain d2 where lk: "lookup name key (room, ?d) = (None, room, d2)" "db_eviction d2 = db_eviction d" "watermark d2 = f" "tombstones d2 = tombstones d1"
    using absent(1,2) d1 by (simp add: lookup_def bump_misses_def Let_def cold_take_def)
  have "stale name key None v d2" using ft lk(3,4) peers(5) by (simp add: stale_def find_tomb_def)
  then have "handle_crdtmerge name (op_args (Merge key val v ex)) (room, d1\<lparr>now_ms := t\<rparr>) = (''+OK (Ignored Stale Write)'' @ CRLF, room, d2)"
    using me iv lk(1) by (simp add: handle_crdtmerge_def)
  then show ?thesis using first fr lk(2) absent(2) by auto
qed

theorem refused_write_forgotten_witness:
  "\<exists>d1 d2.
    handle_crdtmerge ''default'' (op_args (Merge ''k'' ''v'' (Version 196608065536000 8) 0)) (new_room ''default'', ex_db) =
      (''-ERR timestamp too far in the future (SOMNIUM_MAX_CLOCK_OFFSET_MS)'' @ CRLF, new_room ''default'', ex_db) \<and>
    handle_replfrontier [''REPLFRONTIER'', dec 8, dec 196608065536000] ex_db = (''+OK'' @ CRLF, d1) \<and>
    handle_crdtmerge ''default'' (op_args (Merge ''k'' ''v'' (Version 196608065536000 8) 0)) (new_room ''default'', d1\<lparr>now_ms := 3000001000\<rparr>) =
      (''+OK (Ignored Stale Write)'' @ CRLF, new_room ''default'', d2)"
proof -
  have f: "nget (cold_index (db_eviction ex_db)) ''default'' ''k'' = None" "find_tomb ''default'' ''k'' ex_db = None" "nested_ok (tombstones ex_db)" "peer_count ex_db = 1"
    "frontiers ex_db = []" "(8 :: u32) \<noteq> local_node_id ex_db" "watermark ex_db = 0" "now_ms ex_db = 3000000000" "max_clock_offset_ms ex_db = 500"
    by (simp_all add: ex_db_def database_init_def eviction_init_def find_tomb_def nget_def inner_def)
  show ?thesis
    using refused_write_forgotten [of "new_room ''default''" "''k''" ex_db "''default''" 8 196608065536000 "Version 196608065536000 8" 0 3000001000 "''v''"] f
    by (fastforce simp: new_room_def hlc_normalize_def kLegacyLimit_def physical_ms_def)
qed

end
