(* ===== verification/Sync_Worker.thy ===== *)
theory Sync_Worker
  imports Metrics
begin

text \<open>
  The sync thread of the log and its end, \<^verbatim>\<open>src/src/storage/aof_manager.cpp\<close>: what the thread decides each time it holds the
  lock, how it records an attempt, the gauges it publishes, and the destructor that stops it. What holds while appends and
  rewrites run between the two halves of an attempt is in \<open>Aof\<close>; here the thread is followed from one
  attempt to the next.

  The steady clock is in microseconds, the wall clock in milliseconds; their readings are arguments.
\<close>

section \<open>Gauges\<close>

definition publish_sizes :: "aof \<Rightarrow> gauges \<Rightarrow> gauges" where
  "publish_sizes a g = g\<lparr>g_aof_bytes := of_nat (aof_size a), g_aof_base_bytes := of_nat (base_size a)\<rparr>"

definition publish_sync_locked :: "int \<Rightarrow> aof \<Rightarrow> gauges \<Rightarrow> gauges" where
  "publish_sync_locked last_sync_epoch_ms a g =
     g\<lparr>g_aof_synced_bytes := of_nat (synced a),
       g_aof_pending_bytes := (if aof_size a > synced a then of_nat (aof_size a - synced a) else 0),
       g_aof_generation := of_nat (generation a), g_aof_last_sync_epoch_ms := of_int (max 0 last_sync_epoch_ms)\<rparr>"

definition note_append_wait :: "int \<Rightarrow> gauges \<Rightarrow> gauges" where
  "note_append_wait us g =
     (let g1 = g\<lparr>g_aof_append_lock_wait_us := of_int (if us < 0 then 0 else us)\<rparr> in
      if us \<ge> 50000 then g1\<lparr>g_aof_append_lock_waits_slow := g_aof_append_lock_waits_slow g1 + 1\<rparr> else g1)"

section \<open>The thread\<close>

text \<open>An interrupted call is repeated; the end of the outcomes stands for a call that fails.\<close>

fun sync_fd_delayed :: "sysret list \<Rightarrow> bool" where
  "sync_fd_delayed [] = False"
| "sync_fd_delayed (Ret n # rs) = True"
| "sync_fd_delayed (Eintr # rs) = sync_fd_delayed rs"
| "sync_fd_delayed (Fail # rs) = False"

record worker =
  wk_aof :: aof
  wk_stop :: bool
  wk_interval_ms :: int
  wk_next_attempt :: int
  wk_last_sync_epoch_ms :: int
  wk_gauges :: gauges

datatype worker_action = Leave | Wait_for_bytes | Wait_until int | Attempt

definition worker_action :: "int \<Rightarrow> worker \<Rightarrow> worker_action" where
  "worker_action now w =
     (if \<not> aof_fd (wk_aof w) \<or> aof_size (wk_aof w) \<le> synced (wk_aof w) then (if wk_stop w then Leave else Wait_for_bytes)
      else if \<not> wk_stop w \<and> now < wk_next_attempt w then Wait_until (wk_next_attempt w)
      else Attempt)"

text \<open>
  An attempt: whether the descriptor could be duplicated, what \<^verbatim>\<open>fdatasync\<close> answered, and the clocks, which are read before the lock is
  released, after the sync, and at the end.
\<close>

record attempt =
  at_started :: int
  at_dup :: bool
  at_sync :: "sysret list"
  at_done :: int
  at_epoch_ms :: int
  at_finished :: int

definition attempt_ok :: "attempt \<Rightarrow> bool" where
  "attempt_ok t \<longleftrightarrow> at_dup t \<and> sync_fd_delayed (at_sync t)"

definition record_attempt :: "sync_job \<Rightarrow> attempt \<Rightarrow> worker \<Rightarrow> worker" where
  "record_attempt job t w =
     (let a = wk_aof w; dur_us = at_done t - at_started t;
          a1 = (if at_dup t then sync_finish (attempt_ok t) job a else a);
          moved = (at_dup t \<and> job_generation job = generation a \<and> attempt_ok t \<and> job_offset job > synced a);
          epoch = (if moved then at_epoch_ms t else wk_last_sync_epoch_ms w);
          g1 = (wk_gauges w)\<lparr>g_aof_sync_inflight := 0, g_aof_sync_duration_us := of_int (if dur_us < 0 then 0 else dur_us)\<rparr>;
          g2 = (if dur_us > wk_interval_ms w * 1000 then g1\<lparr>g_aof_sync_overruns := g_aof_sync_overruns g1 + 1\<rparr> else g1);
          due = at_started t + wk_interval_ms w * 1000 in
      w\<lparr>wk_aof := a1, wk_last_sync_epoch_ms := epoch, wk_gauges := publish_sync_locked epoch a1 g2,
        wk_next_attempt := (if due < at_finished t then at_finished t else due)\<rparr>)"

text \<open>The loop of a thread that has been told to stop, when nobody else uses the log any more; \<open>None\<close>: it is still running.\<close>

fun drain :: "attempt list \<Rightarrow> worker \<Rightarrow> worker option" where
  "drain ts w =
     (case sync_capture 0 (wk_aof w) of
        None \<Rightarrow> Some w
      | Some job \<Rightarrow> (case ts of [] \<Rightarrow> None | t # rest \<Rightarrow> drain rest (record_attempt job t w)))"

declare drain.simps [simp del]

definition stop_sync_worker :: "attempt list \<Rightarrow> worker \<Rightarrow> worker option" where
  "stop_sync_worker ts w =
     (let w1 = w\<lparr>wk_stop := True\<rparr> in if sync_policy (wk_aof w) = Everysec then drain ts w1 else Some w1)"

text \<open>
  The destructor; the second component is the prefix of the log that has been synced, by the count of the program or by the last
  sync; that this count never passes what is on stable storage is \<open>synced_is_durable\<close> of \<open>Aof\<close>.
\<close>

definition aof_destroy :: "attempt list \<Rightarrow> bool \<Rightarrow> worker \<Rightarrow> (aof \<times> nat) option" where
  "aof_destroy ts sync_ok w =
     (case stop_sync_worker ts w of
        None \<Rightarrow> None
      | Some w1 \<Rightarrow>
          (let a = wk_aof w1;
               flushed = (if aof_fd a \<and> sync_policy a \<noteq> Off \<and> aof_size a > synced a \<and> sync_ok then aof_size a else synced a);
               a1 = a\<lparr>aof_fd := False\<rparr>;
               a2 = (if rewrite_fd a1 then a1\<lparr>rewrite_fd := False, aof_tmp := None\<rparr> else a1) in
           Some (a2, flushed)))"

section \<open>Lemmas\<close>

text \<open>The loop that is told to stop leaves exactly when the decision of the thread is to leave.\<close>

lemma capture_action:
  "wk_stop w \<Longrightarrow> sync_capture n (wk_aof w) = None \<longleftrightarrow> worker_action now w = Leave"
  "wk_stop w \<Longrightarrow> sync_capture n (wk_aof w) \<noteq> None \<longleftrightarrow> worker_action now w = Attempt"
  by (auto simp: sync_capture_def worker_action_def)

lemma record_attempt_fields:
  "generation (wk_aof (record_attempt job t w)) = generation (wk_aof w)" "aof_size (wk_aof (record_attempt job t w)) = aof_size (wk_aof w)"
  "aof_fd (wk_aof (record_attempt job t w)) = aof_fd (wk_aof w)" "aof_file (wk_aof (record_attempt job t w)) = aof_file (wk_aof w)"
  "rewrite_fd (wk_aof (record_attempt job t w)) = rewrite_fd (wk_aof w)" "sync_policy (wk_aof (record_attempt job t w)) = sync_policy (wk_aof w)"
  "wk_interval_ms (record_attempt job t w) = wk_interval_ms w" "wk_stop (record_attempt job t w) = wk_stop w"
  by (simp_all add: record_attempt_def sync_finish_def Let_def)

lemma record_attempt_synced:
  assumes "sync_capture n (wk_aof w) = Some job"
  shows "synced (wk_aof (record_attempt job t w)) = (if attempt_ok t then aof_size (wk_aof w) else synced (wk_aof w))"
  using assms by (auto simp: sync_capture_def record_attempt_def sync_finish_def attempt_ok_def Let_def split: if_splits)

text \<open>Attempts that are started when they are due do not overlap and are an interval apart.\<close>

fun attempts :: "attempt list \<Rightarrow> worker \<Rightarrow> bool" where
  "attempts [] w = True"
| "attempts (t # ts) w =
     (case sync_capture 0 (wk_aof w) of
        None \<Rightarrow> False
      | Some job \<Rightarrow> worker_action (at_started t) w = Attempt \<and> attempts ts (record_attempt job t w))"

lemma next_attempt_due:
  "wk_next_attempt (record_attempt job t w) = max (at_started t + wk_interval_ms w * 1000) (at_finished t)"
  by (simp add: record_attempt_def Let_def max_def)

lemma attempts_spaced:
  "attempts ts w \<Longrightarrow> \<not> wk_stop w \<Longrightarrow> Suc i < length ts \<Longrightarrow>
    at_started (ts ! Suc i) \<ge> at_started (ts ! i) + wk_interval_ms w * 1000 \<and> at_started (ts ! Suc i) \<ge> at_finished (ts ! i)"
proof (induction ts arbitrary: w i)
  case (Cons t ts)
  obtain job where job: "sync_capture 0 (wk_aof w) = Some job" using Cons.prems(1) by (auto split: option.splits)
  let ?w = "record_attempt job t w"
  have rest: "attempts ts ?w" "\<not> wk_stop ?w" using Cons.prems(1,2) job by (simp_all add: record_attempt_fields)
  show ?case
  proof (cases i)
    case 0
    then obtain u us where ts: "ts = u # us" using Cons.prems(3) by (cases ts) auto
    have "worker_action (at_started u) ?w = Attempt" using rest(1) by (auto simp: ts split: option.splits)
    then have "wk_next_attempt ?w \<le> at_started u" using rest(2) by (auto simp: worker_action_def split: if_splits)
    then show ?thesis using 0 ts by (simp add: next_attempt_due)
  next
    case (Suc m)
    then show ?thesis using Cons.IH [OF rest, of m] Cons.prems(3) by (simp add: record_attempt_fields)
  qed
qed simp

text \<open>The gauge of pending bytes is exact.\<close>

lemma pending_exact:
  "aof_size a < 2 ^ 64 \<Longrightarrow> unat (g_aof_pending_bytes (publish_sync_locked t a g)) = aof_size a - synced a"
  using unat_of_nat_u64 [of "aof_size a - synced a"] by (simp add: publish_sync_locked_def del: of_nat_diff)

text \<open>What the thread leaves behind when it is told to stop: the log as it was, with nothing pending.\<close>

definition drained :: "worker \<Rightarrow> worker \<Rightarrow> bool" where
  "drained w w' \<longleftrightarrow> sync_capture 0 (wk_aof w') = None \<and> aof_file (wk_aof w') = aof_file (wk_aof w) \<and>
     aof_size (wk_aof w') = aof_size (wk_aof w) \<and> aof_fd (wk_aof w') = aof_fd (wk_aof w)"

lemma drain_drained: "drain ts w = Some w' \<Longrightarrow> drained w w'"
proof (induction ts arbitrary: w)
  case Nil
  then show ?case by (auto simp: drain.simps [of "[]"] drained_def split: option.splits)
next
  case (Cons t ts)
  show ?case
  proof (cases "sync_capture 0 (wk_aof w)")
    case None
    then show ?thesis using Cons.prems by (simp add: drain.simps [of "t # ts"] drained_def)
  next
    case (Some job)
    then have "drained (record_attempt job t w) w'" using Cons.prems by (intro Cons.IH) (simp add: drain.simps [of "t # ts"])
    then show ?thesis by (simp add: drained_def record_attempt_fields)
  qed
qed

lemma drain_ends: "drain ts w \<noteq> None \<longleftrightarrow> sync_capture 0 (wk_aof w) = None \<or> list_ex attempt_ok ts"
proof (induction ts arbitrary: w)
  case Nil
  show ?case by (simp add: drain.simps [of "[]"] split: option.split)
next
  case (Cons t ts)
  show ?case
  proof (cases "sync_capture 0 (wk_aof w)")
    case None
    then show ?thesis by (simp add: drain.simps [of "t # ts"])
  next
    case (Some job)
    let ?w = "record_attempt job t w"
    have d: "drain (t # ts) w = drain ts ?w" using Some by (simp add: drain.simps [of "t # ts"])
    have "sync_capture 0 (wk_aof ?w) = None \<longleftrightarrow> attempt_ok t"
      using record_attempt_synced [OF Some, of t] Some by (auto simp: sync_capture_def record_attempt_fields split: if_splits)
    then show ?thesis using Cons.IH [of ?w] Some unfolding d by simp
  qed
qed

section \<open>A concrete worker\<close>

definition ex_worker :: worker where
  "ex_worker = \<lparr>wk_aof = ex_aof\<lparr>sync_policy := Everysec, aof_size := 40, synced := 7\<rparr>, wk_stop = False, wk_interval_ms = 1000, wk_next_attempt = 0,
     wk_last_sync_epoch_ms = 0, wk_gauges = \<lparr>g_aof_bytes = 0, g_aof_base_bytes = 0, g_aof_synced_bytes = 0, g_aof_pending_bytes = 0,
     g_aof_generation = 0, g_aof_sync_inflight = 0, g_aof_last_sync_epoch_ms = 0, g_aof_sync_duration_us = 0,
     g_aof_sync_overruns = 0, g_aof_append_lock_wait_us = 0, g_aof_append_lock_waits_slow = 0\<rparr>\<rparr>"

definition ex_attempt :: "sysret \<Rightarrow> attempt" where
  "ex_attempt r = \<lparr>at_started = 0, at_dup = True, at_sync = [Eintr, r], at_done = 10, at_epoch_ms = 5, at_finished = 20\<rparr>"

section \<open>Properties\<close>

text \<open>
  C25. Closing the log leaves nothing behind that was not flushed. With the policy everysec, the destructor returns exactly when nothing is pending
  or some attempt to sync succeeds; then every byte of the log is on stable storage, its contents are those before and no descriptor is
  open. So as long as every attempt fails, the destructor does not return: the thread that is told
  to stop retries until a sync succeeds.
\<close>

theorem shutdown_flushes:
  assumes "sync_policy (wk_aof w) = Everysec" and "aof_fd (wk_aof w)" and "synced (wk_aof w) \<le> aof_size (wk_aof w)"
  shows "(aof_destroy ts sync_ok w = None \<longleftrightarrow> synced (wk_aof w) < aof_size (wk_aof w) \<and> \<not> list_ex attempt_ok ts) \<and>
    (case aof_destroy ts sync_ok w of
       None \<Rightarrow> True
     | Some (a', flushed) \<Rightarrow> flushed \<ge> aof_size (wk_aof w) \<and> aof_file a' = aof_file (wk_aof w) \<and> \<not> aof_fd a' \<and> \<not> rewrite_fd a')"
proof -
  let ?w = "w\<lparr>wk_stop := True\<rparr>"
  have st: "stop_sync_worker ts w = drain ts ?w" using assms(1) by (simp add: stop_sync_worker_def)
  have cap: "sync_capture 0 (wk_aof ?w) = None \<longleftrightarrow> \<not> synced (wk_aof w) < aof_size (wk_aof w)"
    using assms(2,3) by (simp add: sync_capture_def)
  show ?thesis
  proof (cases "drain ts ?w")
    case None
    then show ?thesis using drain_ends [of ts ?w] cap by (auto simp: aof_destroy_def st)
  next
    case (Some w')
    then have d: "drained ?w w'" by (rule drain_drained)
    then have "aof_size (wk_aof w) \<le> synced (wk_aof w')" "aof_file (wk_aof w') = aof_file (wk_aof w)"
      using assms(2) by (simp_all add: drained_def sync_capture_def split: if_splits)
    then show ?thesis using drain_ends [of ts ?w] Some cap by (simp add: aof_destroy_def st Let_def)
  qed
qed

theorem shutdown_flushes_witness:
  "aof_destroy [ex_attempt Fail, ex_attempt (Ret 0)] True ex_worker \<noteq> None \<and> aof_destroy [ex_attempt Fail, ex_attempt Fail] True ex_worker = None"
proof -
  have w: "sync_policy (wk_aof ex_worker) = Everysec" "aof_fd (wk_aof ex_worker)" "synced (wk_aof ex_worker) \<le> aof_size (wk_aof ex_worker)"
    "aof_size (wk_aof ex_worker) \<noteq> synced (wk_aof ex_worker)"
    by (simp_all add: ex_worker_def ex_aof_def aof_init_def)
  have t: "attempt_ok (ex_attempt (Ret 0))" "\<not> attempt_ok (ex_attempt Fail)" by (simp_all add: attempt_ok_def ex_attempt_def)
  have "aof_destroy [ex_attempt Fail, ex_attempt (Ret 0)] True ex_worker \<noteq> None"
    using conjunct1 [OF shutdown_flushes [OF w(1-3), of "[ex_attempt Fail, ex_attempt (Ret 0)]" True]] t by simp
  moreover have "aof_destroy [ex_attempt Fail, ex_attempt Fail] True ex_worker = None"
    using conjunct1 [OF shutdown_flushes [OF w(1-3), of "[ex_attempt Fail, ex_attempt Fail]" True]] t w(3,4) by simp
  ultimately show ?thesis ..
qed

end
