(* ===== verification/Exporter.thy ===== *)
theory Exporter
  imports Metrics Config
begin

text \<open>
  The thread of the Prometheus exporter, \<^verbatim>\<open>prometheus_thread\<close> and \<^verbatim>\<open>start_prometheus_exporter\<close> of \<^verbatim>\<open>src/src/server/metrics.cpp\<close>: it binds one
  address, then answers every connection with the report and closes it, whatever the client sends.

  The loop has no end; a run is the list of what \<^verbatim>\<open>accept\<close> and the calls on the accepted socket answer, together with
  the values the report reads at that moment.
\<close>

section \<open>Listening\<close>

record listen_env =
  ln_bind :: bool
  ln_listen :: bool

datatype exporter_state = Bind_failed | Listen_failed | Listening

definition exporter_listen :: "string \<Rightarrow> listen_env \<Rightarrow> exporter_state" where
  "exporter_listen bind_ip env =
     (if inet_pton4 bind_ip = None \<or> \<not> ln_bind env then Bind_failed
      else if \<not> ln_listen env then Listen_failed
      else Listening)"

section \<open>Serving\<close>

record 'f scrape =
  sp_accept :: bool
  sp_read :: "string option"
  sp_metrics :: metrics
  sp_gauges :: gauges
  sp_now_ms :: int
  sp_steady_ms :: int
  sp_peers :: "(string \<times> 'f peer_state) list"
  sp_write :: sysret

text \<open>The report of a scrape, and what of it is written: one \<^verbatim>\<open>write\<close>, whose result is not looked at. \<open>None\<close>: there was no client.\<close>

definition scrape_body :: "'f :: linordered_field libm \<Rightarrow> 'f scrape \<Rightarrow> string" where
  "scrape_body lm s = exporter_body (sp_metrics s) (sp_gauges s) (sp_now_ms s) (peers_report lm (sp_steady_ms s) True (sp_peers s))"

definition serve_scrape :: "'f :: linordered_field libm \<Rightarrow> 'f scrape \<Rightarrow> string option" where
  "serve_scrape lm s =
     (if \<not> sp_accept s then None
      else Some (case sp_write s of Ret n \<Rightarrow> take n (exporter_response (scrape_body lm s)) | _ \<Rightarrow> []))"

definition prometheus_thread :: "'f :: linordered_field libm \<Rightarrow> string \<Rightarrow> listen_env \<Rightarrow> 'f scrape list \<Rightarrow> string option list" where
  "prometheus_thread lm bind_ip env scrapes =
     (if exporter_listen bind_ip env = Listening then map (serve_scrape lm) scrapes else [])"

section \<open>The report\<close>

text \<open>
  What a client reads back from a response: the declared length and the rest after the blank line. The declared length is exact, so a
  client that waits for it is served by a complete write.
\<close>

definition response_head :: "string \<Rightarrow> string" where
  "response_head body =
     ''HTTP/1.1 200 OK'' @ CRLF @ ''Content-Type: text/plain'' @ CRLF @
     ''Content-Length: '' @ dec (length body) @ CRLF @ ''Connection: close'' @ CRLF @ CRLF"

lemma response_split: "exporter_response body = response_head body @ body"
  by (simp add: exporter_response_def response_head_def)

text \<open>Every client is answered with the values of its own moment; nothing a client sends, or fails to read, reaches another one.\<close>

lemma scrapes_independent:
  assumes "i < length scrapes" and "exporter_listen bind_ip env = Listening"
  shows "prometheus_thread lm bind_ip env scrapes ! i = serve_scrape lm (scrapes ! i)"
    "prometheus_thread lm bind_ip env (scrapes[i := (scrapes ! i)\<lparr>sp_read := x\<rparr>]) = prometheus_thread lm bind_ip env scrapes"
proof -
  have "scrape_body lm (s\<lparr>sp_read := x\<rparr>) = scrape_body lm s" for s by (simp add: scrape_body_def)
  then have "serve_scrape lm (s\<lparr>sp_read := x\<rparr>) = serve_scrape lm s" for s by (simp add: serve_scrape_def split: sysret.split)
  then show "prometheus_thread lm bind_ip env (scrapes[i := (scrapes ! i)\<lparr>sp_read := x\<rparr>]) = prometheus_thread lm bind_ip env scrapes"
    using assms by (simp add: prometheus_thread_def map_update list_update_same_conv)
  show "prometheus_thread lm bind_ip env scrapes ! i = serve_scrape lm (scrapes ! i)" using assms by (simp add: prometheus_thread_def)
qed

lemma scrape_complete:
  assumes "sp_accept s" and "sp_write s = Ret n" and "length (exporter_response (scrape_body lm s)) \<le> n"
  shows "serve_scrape lm s = Some (response_head (scrape_body lm s) @ scrape_body lm s)"
  using assms by (simp add: serve_scrape_def response_split)

end
