(* ===== verification/Pool_Allocator.thy ===== *)
theory Pool_Allocator
  imports Prelude
begin

text \<open>
  The pool of records, \<^verbatim>\<open>src/src/core/pool_allocator.h\<close>: fixed-size nodes carved out of blocks, the free ones linked through their
  own storage. A node is the \<^verbatim>\<open>union\<close> of the code: a link while it is free, an object while it is in use. The
  address of a block comes from \<^verbatim>\<open>operator new\<close> and is an argument; that a new block overlaps none the pool has is what
  \<^verbatim>\<open>operator new\<close> promises. Requests for other than one object go to \<^verbatim>\<open>operator new\<close> too (the result \<open>None\<close>). The mutex
  makes every operation one step.
\<close>

section \<open>The pool\<close>

datatype 'a node = Next "nat option" | Data 'a

record 'a pool =
  pool_head :: "nat option"
  pool_blocks :: "nat list"
  pool_mem :: "nat \<Rightarrow> 'a node option"

definition BlockSize :: nat where "BlockSize = 1024"

definition empty_pool :: "'a pool" where
  "empty_pool = \<lparr>pool_head = None, pool_blocks = [], pool_mem = (\<lambda>_. None)\<rparr>"

definition allocate_block :: "nat \<Rightarrow> nat \<Rightarrow> 'a pool \<Rightarrow> 'a pool" where
  "allocate_block bs new_block p =
     (let linked = foldl (\<lambda>m i. m(new_block + i \<mapsto> Next (Some (new_block + (i + 1))))) (pool_mem p) [0..<bs - 1] in
      p\<lparr>pool_blocks := pool_blocks p @ [new_block], pool_mem := linked(new_block + (bs - 1) \<mapsto> Next None), pool_head := Some new_block\<rparr>)"

text \<open>What a free node's storage holds; a node that is not free is never read.\<close>

fun next_of :: "'a node option \<Rightarrow> nat option" where
  "next_of (Some (Next n)) = n"
| "next_of _ = None"

definition allocate :: "nat \<Rightarrow> nat \<Rightarrow> nat \<Rightarrow> 'a pool \<Rightarrow> nat option \<times> 'a pool" where
  "allocate bs new_block n p =
     (if n \<noteq> 1 then (None, p)
      else
        (let p1 = (if pool_head p = None then allocate_block bs new_block p else p) in
         (pool_head p1, p1\<lparr>pool_head := next_of (pool_mem p1 (the (pool_head p1)))\<rparr>)))"

definition deallocate :: "nat option \<Rightarrow> nat \<Rightarrow> 'a pool \<Rightarrow> 'a pool" where
  "deallocate ptr n p =
     (case ptr of
        None \<Rightarrow> p
      | Some a \<Rightarrow> if n \<noteq> 1 then p else p\<lparr>pool_mem := (pool_mem p)(a \<mapsto> Next (pool_head p)), pool_head := Some a\<rparr>)"

definition construct :: "nat \<Rightarrow> nat \<Rightarrow> 'a \<Rightarrow> 'a pool \<Rightarrow> nat option \<times> 'a pool" where
  "construct bs new_block v p =
     (case allocate bs new_block 1 p of (ptr, p1) \<Rightarrow> (ptr, p1\<lparr>pool_mem := (pool_mem p1)(the ptr \<mapsto> Data v)\<rparr>))"

definition destroy :: "nat option \<Rightarrow> 'a pool \<Rightarrow> 'a pool" where
  "destroy ptr p = (if ptr = None then p else deallocate ptr 1 p)"

section \<open>What the pool represents\<close>

text \<open>The free list, followed from its head.\<close>

fun chain :: "(nat \<Rightarrow> 'a node option) \<Rightarrow> nat option \<Rightarrow> nat list \<Rightarrow> bool" where
  "chain m h [] = (h = None)"
| "chain m h (x # xs) = (h = Some x \<and> (\<exists>n. m x = Some (Next n) \<and> chain m n xs))"

definition nodes :: "nat \<Rightarrow> 'a pool \<Rightarrow> nat set" where
  "nodes bs p = (\<Union>b \<in> set (pool_blocks p). {b..<b + bs})"

definition fresh_block :: "nat \<Rightarrow> nat \<Rightarrow> 'a pool \<Rightarrow> bool" where
  "fresh_block bs b p \<longleftrightarrow> {b..<b + bs} \<inter> nodes bs p = {}"

text \<open>
  The objects in use are those of the map, each where the pool put it; the other nodes of the blocks are the free list, each
  once, so nothing is lost and nothing is handed out twice.
\<close>

definition pool_rep :: "nat \<Rightarrow> 'a pool \<Rightarrow> (nat \<rightharpoonup> 'a) \<Rightarrow> bool" where
  "pool_rep bs p m \<longleftrightarrow>
     (\<exists>free. chain (pool_mem p) (pool_head p) free \<and> distinct free \<and> set free \<inter> dom m = {} \<and> set free \<union> dom m = nodes bs p) \<and>
     (\<forall>a v. m a = Some v \<longrightarrow> pool_mem p a = Some (Data v)) \<and> card (nodes bs p) = bs * length (pool_blocks p)"

lemma chain_cong: "chain m h xs \<Longrightarrow> (\<And>x. x \<in> set xs \<Longrightarrow> m' x = m x) \<Longrightarrow> chain m' h xs"
  by (induction xs arbitrary: h) auto

lemma chain_upto:
  assumes "\<And>i. i < n \<Longrightarrow> m (b + i) = Some (Next (if Suc i < n then Some (b + Suc i) else None))"
  shows "chain m (if 0 < n then Some b else None) [b..<b + n]"
  using assms
proof (induction n arbitrary: b)
  case (Suc n)
  have "m b = Some (Next (if 0 < n then Some (Suc b) else None))" using Suc.prems [of 0] by simp
  moreover have "chain m (if 0 < n then Some (Suc b) else None) [Suc b..<Suc b + n]"
    using Suc.prems [of "Suc _"] by (intro Suc.IH) simp
  moreover have "[b..<b + Suc n] = b # [Suc b..<Suc b + n]" by (simp add: upt_conv_Cons)
  ultimately show ?case by simp
qed simp

lemma link_loop:
  "foldl (\<lambda>m i. m(b + i \<mapsto> Next (Some (b + (i + 1))))) m [0..<n] a =
     (if b \<le> a \<and> a < b + n then Some (Next (Some (Suc a))) else m a)"
  by (induction n) auto

lemma block_mem:
  assumes "0 < bs"
  shows "pool_mem (allocate_block bs b p) a =
    (if b \<le> a \<and> a < b + bs then Some (Next (if Suc a < b + bs then Some (Suc a) else None)) else pool_mem p a)"
proof -
  have m: "pool_mem (allocate_block bs b p) = (foldl (\<lambda>m i. m(b + i \<mapsto> Next (Some (b + (i + 1))))) (pool_mem p) [0..<bs - 1])(b + (bs - 1) \<mapsto> Next None)"
    by (simp add: allocate_block_def Let_def)
  show ?thesis unfolding m fun_upd_apply link_loop using assms by auto
qed

lemma block_rep:
  assumes rep: "pool_rep bs p m" and "pool_head p = None" and fresh: "fresh_block bs b p" and bs: "0 < bs"
  shows "pool_rep bs (allocate_block bs b p) m \<and> pool_head (allocate_block bs b p) = Some b"
proof -
  let ?p = "allocate_block bs b p"
  obtain free where f: "chain (pool_mem p) (pool_head p) free" "set free \<union> dom m = nodes bs p" using rep by (auto simp: pool_rep_def)
  have "free = []" using f(1) assms(2) by (cases free) auto
  then have dm: "dom m = nodes bs p" using f(2) by simp
  have n: "nodes bs ?p = {b..<b + bs} \<union> nodes bs p" by (auto simp: nodes_def allocate_block_def Let_def)
  have "chain (pool_mem ?p) (if 0 < bs then Some b else None) [b..<b + bs]"
    by (rule chain_upto) (simp add: block_mem [OF bs])
  then have c: "chain (pool_mem ?p) (pool_head ?p) [b..<b + bs]" using bs by (simp add: allocate_block_def Let_def)
  have "pool_mem ?p a = Some (Data v)" if "m a = Some v" for a v
  proof -
    have "a \<in> nodes bs p" using that dm by blast
    then have "\<not> (b \<le> a \<and> a < b + bs)" using fresh by (auto simp: fresh_block_def)
    then show ?thesis using rep that by (simp add: block_mem [OF bs] pool_rep_def)
  qed
  moreover have "set [b..<b + bs] \<inter> dom m = {} \<and> set [b..<b + bs] \<union> dom m = nodes bs ?p"
    using fresh dm n by (simp add: fresh_block_def)
  moreover have "card (nodes bs ?p) = bs * length (pool_blocks ?p)"
  proof -
    have "finite (nodes bs p)" by (simp add: nodes_def)
    then have "card (nodes bs ?p) = bs + card (nodes bs p)" using fresh unfolding n by (subst card_Un_disjoint) (simp_all add: fresh_block_def)
    then show ?thesis using rep by (simp add: pool_rep_def allocate_block_def Let_def)
  qed
  ultimately have "pool_rep bs ?p m" unfolding pool_rep_def using c distinct_upt by blast
  then show ?thesis by (simp add: allocate_block_def Let_def)
qed

lemma construct_rep:
  assumes rep: "pool_rep bs p m" and fresh: "fresh_block bs b p" and bs: "0 < bs" and run: "construct bs b v p = (ptr, p')"
  shows "\<exists>a. ptr = Some a \<and> m a = None \<and> pool_rep bs p' (m(a \<mapsto> v))"
proof -
  define p1 where "p1 = (if pool_head p = None then allocate_block bs b p else p)"
  have r1: "pool_rep bs p1 m" "pool_head p1 \<noteq> None" using rep block_rep [OF rep _ fresh bs] by (auto simp: p1_def)
  then obtain a where a: "pool_head p1 = Some a" by blast
  obtain free where f: "chain (pool_mem p1) (pool_head p1) free" "distinct free" "set free \<inter> dom m = {}" "set free \<union> dom m = nodes bs p1"
    using r1(1) by (auto simp: pool_rep_def)
  obtain rest n where fr: "free = a # rest" "pool_mem p1 a = Some (Next n)" "chain (pool_mem p1) n rest" using f(1) a by (cases free) auto
  have p': "ptr = Some a" "p' = p1\<lparr>pool_head := n, pool_mem := (pool_mem p1)(a \<mapsto> Data v)\<rparr>"
    using run a fr(2) by (auto simp: construct_def allocate_def Let_def p1_def split: if_splits)
  have nd: "nodes bs p' = nodes bs p1" by (simp add: p'(2) nodes_def)
  have "chain (pool_mem p') (pool_head p') rest"
    unfolding p'(2) using f(2) fr(1) by simp (rule chain_cong [OF fr(3)], auto)
  moreover have "distinct rest" "set rest \<inter> dom (m(a \<mapsto> v)) = {}" "set rest \<union> dom (m(a \<mapsto> v)) = nodes bs p'" using f fr(1) nd by auto
  moreover have "m a = None" using f(3) fr(1) by auto
  moreover have "pool_mem p' x = Some (Data u)" if "(m(a \<mapsto> v)) x = Some u" for x u
    using that r1(1) by (auto simp: p'(2) pool_rep_def split: if_splits)
  moreover have "card (nodes bs p') = bs * length (pool_blocks p')" using r1(1) nd by (simp add: pool_rep_def p'(2))
  ultimately show ?thesis using p'(1) unfolding pool_rep_def by blast
qed

lemma destroy_rep:
  assumes rep: "pool_rep bs p m" and a: "m a = Some v"
  shows "pool_rep bs (destroy (Some a) p) (m(a := None))"
proof -
  let ?p = "destroy (Some a) p"
  have p': "pool_head ?p = Some a" "pool_mem ?p = (pool_mem p)(a \<mapsto> Next (pool_head p))" "pool_blocks ?p = pool_blocks p"
    by (simp_all add: destroy_def deallocate_def)
  obtain free where f: "chain (pool_mem p) (pool_head p) free" "distinct free" "set free \<inter> dom m = {}" "set free \<union> dom m = nodes bs p"
    using rep by (auto simp: pool_rep_def)
  have na: "a \<notin> set free" using f(3) a by auto
  have "chain (pool_mem ?p) (pool_head p) free" by (rule chain_cong [OF f(1)]) (use na in \<open>auto simp: p'(2)\<close>)
  then have "chain (pool_mem ?p) (pool_head ?p) (a # free)" by (simp add: p')
  moreover have "distinct (a # free)" "set (a # free) \<inter> dom (m(a := None)) = {}" "set (a # free) \<union> dom (m(a := None)) = nodes bs ?p"
    using f na a by (auto simp: nodes_def p'(3))
  moreover have "pool_mem ?p x = Some (Data u)" if "(m(a := None)) x = Some u" for x u
    using that rep by (auto simp: p'(2) pool_rep_def split: if_splits)
  moreover have "card (nodes bs ?p) = bs * length (pool_blocks ?p)" using rep by (simp add: pool_rep_def nodes_def p'(3))
  ultimately show ?thesis unfolding pool_rep_def by blast
qed

section \<open>Stores of objects\<close>

text \<open>The contract of an object store, and what its clients get from it.\<close>

locale object_store =
  fixes make :: "'e \<Rightarrow> 'v \<Rightarrow> 's \<Rightarrow> 'p option \<times> 's"
    and release :: "'p option \<Rightarrow> 's \<Rightarrow> 's"
    and rep :: "'s \<Rightarrow> ('p \<rightharpoonup> 'v) \<Rightarrow> bool"
    and fresh :: "'e \<Rightarrow> 's \<Rightarrow> bool"
  assumes make_rep: "rep s m \<Longrightarrow> fresh e s \<Longrightarrow> make e v s = (ptr, s') \<Longrightarrow> \<exists>a. ptr = Some a \<and> m a = None \<and> rep s' (m(a \<mapsto> v))"
    and release_rep: "rep s m \<Longrightarrow> m a = Some v \<Longrightarrow> rep (release (Some a) s) (m(a := None))"
begin

lemma make_release:
  assumes "rep s m" "fresh e s" "make e v s = (ptr, s')"
  shows "rep (release ptr s') m"
proof -
  obtain a where a: "ptr = Some a" "m a = None" "rep s' (m(a \<mapsto> v))" using make_rep [OF assms] by blast
  have "rep (release (Some a) s') ((m(a \<mapsto> v))(a := None))" by (rule release_rep [OF a(3)]) simp
  moreover have "(m(a \<mapsto> v))(a := None) = m" using a(2) by auto
  ultimately show ?thesis using a(1) by simp
qed

lemma release_all:
  assumes "rep s m" "distinct xs" "set xs \<subseteq> dom m"
  shows "rep (foldl (\<lambda>s a. release (Some a) s) s xs) (m |` (- set xs))"
  using assms
proof (induction xs arbitrary: s m)
  case (Cons x xs)
  obtain v where "m x = Some v" using Cons.prems(3) by auto
  then have r: "rep (release (Some x) s) (m(x := None))" by (rule release_rep [OF Cons.prems(1)])
  have "rep (foldl (\<lambda>s a. release (Some a) s) (release (Some x) s) xs) ((m(x := None)) |` (- set xs))"
    by (rule Cons.IH [OF r]) (use Cons.prems(2,3) in auto)
  moreover have "(m(x := None)) |` (- set xs) = m |` (- set (x # xs))" by (auto simp: restrict_map_def)
  ultimately show ?case by simp
qed (simp add: restrict_map_def)

end

interpretation record_pool: object_store "construct BlockSize" destroy "pool_rep BlockSize" "fresh_block BlockSize"
  by unfold_locales (auto simp: BlockSize_def intro: construct_rep destroy_rep)

section \<open>Properties\<close>

text \<open>
  C37. The pool implements a store of objects. From a state in which it holds the objects of a map, constructing one gives an
  address at which no object lives and adds exactly that object; destroying one removes exactly it, and the next object
  is put in its place without a new block; all other objects keep their addresses and contents, the free list
  never holds a node twice or a node in use, and free nodes and objects together are all the nodes of the blocks. The
  blocks are of any positive size; the server's pool of records uses 1024.
\<close>

theorem pool_refines_store:
  assumes "pool_rep bs p m" "fresh_block bs b p" "0 < bs" "construct bs b v p = (ptr, p')"
  shows "\<exists>a. ptr = Some a \<and> m a = None \<and> pool_rep bs p' (m(a \<mapsto> v)) \<and> pool_rep bs (destroy ptr p') m \<and>
    construct bs b' u (destroy ptr p') = (ptr, (destroy ptr p')\<lparr>pool_head := pool_head p', pool_mem := (pool_mem (destroy ptr p'))(a \<mapsto> Data u)\<rparr>)"
proof -
  obtain a where a: "ptr = Some a" "m a = None" "pool_rep bs p' (m(a \<mapsto> v))" using construct_rep [OF assms] by blast
  have "pool_rep bs (destroy (Some a) p') ((m(a \<mapsto> v))(a := None))" by (rule destroy_rep [OF a(3)]) simp
  moreover have "(m(a \<mapsto> v))(a := None) = m" using a(2) by auto
  moreover have "construct bs b' u (destroy (Some a) p') =
      (Some a, (destroy (Some a) p')\<lparr>pool_head := pool_head p', pool_mem := (pool_mem (destroy (Some a) p'))(a \<mapsto> Data u)\<rparr>)"
    by (simp add: construct_def allocate_def destroy_def deallocate_def Let_def)
  ultimately show ?thesis using a by simp
qed

theorem pool_refines_store_witness:
  "\<exists>a. fst (construct 2 10 (7 :: nat) empty_pool) = Some a \<and> pool_rep 2 (snd (construct 2 10 (7 :: nat) empty_pool)) [a \<mapsto> 7]"
proof -
  have r: "pool_rep 2 empty_pool (\<lambda>_. None :: nat option)"
    unfolding pool_rep_def by (auto simp: empty_pool_def nodes_def intro!: exI [of _ "[]"])
  have f: "fresh_block 2 10 (empty_pool :: nat pool)" by (simp add: fresh_block_def nodes_def empty_pool_def)
  obtain ptr p' where c: "construct 2 10 (7 :: nat) empty_pool = (ptr, p')" by fastforce
  obtain a where "ptr = Some a" "pool_rep 2 p' [a \<mapsto> 7]" using pool_refines_store [OF r f _ c, of 0 0] by auto
  then show ?thesis unfolding c by simp
qed

end
