(* ===== verification/Spec2Isabelle.thy ===== *)
theory Spec2Isabelle
  imports Streams Budget Watchdog Startup Caravan Sync_Worker Exporter Pool_Allocator
begin

text \<open>
  SomniumDB: a verification library.

  SomniumDB (\<^verbatim>\<open>src/main.cpp\<close>, \<^verbatim>\<open>src/src/\<close>) is a key-value server that speaks the Redis protocol. Keys live in rooms; a room is in
  memory, partly evicted to a cold-storage file, or hibernated in a snapshot. Every write is recorded in an append-only file
  from which the store is rebuilt at the start, and from which a replicator ships the writes to peers, where they are merged by
  version. One thread runs an event loop on io_uring; a watchdog thread expires keys and hibernates rooms; a sync thread
  flushes the log.

  \<^bold>\<open>How the program is modelled.\<close> Every function of the code is a HOL function over explicit state: objects are records, enumerations
  are datatypes, \<^verbatim>\<open>uint64_t\<close> and \<^verbatim>\<open>uint32_t\<close> are words that wrap, \<^verbatim>\<open>long long\<close> is an integer with the range
  predicate \<open>i64\<close>, bytes are characters, hash tables are association lists with distinct keys whose order stands for
  the unspecified iteration order. What the operating system answers is data: a record or a list of outcomes (partial
  writes, interrupts, errors, failed renames, a full ring) that the function consumes, so the theorems quantify over all
  of them. Code that is not in the repository (OpenSSL, the resolver, the kernel's choice of descriptors and addresses, the
  mathematical functions of the C library and the printing of their results, the random source) is an argument, with what is relied on written as a hypothesis.
  A mutex makes the section it guards one step.

  \<^bold>\<open>The theories\<close>, in the order in which the code calls them:

  \<^item> \<open>Prelude\<close>: types, ranges, bytes of fixed-width integers, association lists and sums over them. \<open>Codec\<close>: readers over byte
    strings, as used by the file formats.
  \<^item> \<open>Fs_Util\<close> (\<^verbatim>\<open>storage/fs_util.h\<close>): \<^verbatim>\<open>write_all\<close>, \<^verbatim>\<open>pwrite_all\<close>, \<^verbatim>\<open>pread_all\<close>, strict number parsing, decimal printing.
  \<^item> \<open>Hlc\<close> (\<^verbatim>\<open>core/hlc.h\<close>): the hybrid logical clock and the order of versions. \<open>Resp\<close> (\<^verbatim>\<open>core/resp.h\<close>): the request parser, arrays
    and inline commands. \<open>Room\<close> (\<^verbatim>\<open>core/record.h\<close>, \<^verbatim>\<open>core/room.h\<close>): records, rooms, byte accounting.
  \<^item> \<open>Count_Min_Sketch\<close> (\<^verbatim>\<open>utils/count_min_sketch.h\<close>), \<open>Eviction\<close> (\<^verbatim>\<open>storage/eviction_manager.cpp\<close>): choice of victims, cold storage,
    compaction. \<open>Snapshot\<close> (\<^verbatim>\<open>storage/snapshot_manager.cpp\<close>): hibernation and waking. \<open>Aof\<close> (\<^verbatim>\<open>storage/aof_manager.cpp\<close>): encoding,
    append, recovery, rewrite, the sync protocol; \<open>Sync_Worker\<close> is the sync thread with its clock, its gauges and its shutdown. \<open>Pubsub\<close> (\<^verbatim>\<open>core/pubsub.cpp\<close>). \<open>Pool_Allocator\<close> (\<^verbatim>\<open>core/pool_allocator.h\<close>).
  \<^item> \<open>Database\<close> (\<^verbatim>\<open>core/database.h\<close>, \<^verbatim>\<open>database.cpp\<close>): the state, lookup through both tiers, insertion, erasure. \<open>Crdt\<close> (\<^verbatim>\<open>core/crdt.cpp\<close>):
    merges, tombstones and their collection. \<open>Commands\<close> (\<^verbatim>\<open>core/commands.cpp\<close>): the handlers. \<open>Rooms\<close> (\<^verbatim>\<open>core/rooms.cpp\<close>): the registry,
    activation, hibernation, expiry. \<open>Persistence\<close> and \<open>Rewrite\<close> (\<^verbatim>\<open>core/persistence.cpp\<close>): dump, rewrite at the start and in a child, replay,
    construction. \<open>Metrics\<close> (\<^verbatim>\<open>server/metrics.*\<close>): gauges, the suspicion level of a peer, reports; \<open>Exporter\<close>: the thread that serves them. \<open>Dispatch\<close> (\<^verbatim>\<open>database.cpp\<close>): the command table and \<^verbatim>\<open>execute\<close>.
    \<open>Sessions\<close>: what the network side relies on.
  \<^item> \<open>Peer_Link\<close> (\<^verbatim>\<open>connect_to\<close> of \<^verbatim>\<open>storage/replicator.cpp\<close>): the addresses of a peer and the descriptors. \<open>Replicator\<close> (the rest of the file):
    certificates, translation of records, batches, acknowledgements, offsets, back-off, heartbeats, start and stop. \<open>Received\<close>: what a database
    knows after the commands of a batch. \<open>Caravan\<close>: the two ends together, from the log of one node through the bytes sent, the parser, the dispatcher and the merges of another, and
    back through the replies.
  \<^item> \<open>Config\<close> (\<^verbatim>\<open>config.cpp\<close>, \<^verbatim>\<open>fit_fd_limit\<close> of \<^verbatim>\<open>main.cpp\<close>), \<open>Startup\<close> (\<^verbatim>\<open>main\<close> up to its loop), \<open>Connection\<close> (\<^verbatim>\<open>net/connection.cpp\<close>,
    \<^verbatim>\<open>net/auth.cpp\<close>), \<open>Event_Loop\<close> (\<^verbatim>\<open>main.cpp\<close>), with \<open>Streams\<close> and \<open>Budget\<close> for what holds of its runs, \<open>Watchdog\<close>
    (\<^verbatim>\<open>server/watchdog.cpp\<close>).

  \<^bold>\<open>Interfaces.\<close> Where one component relies on another, the contract is a locale, proved for the model by an interpretation:
  self-delimiting codecs (\<open>self_delimiting\<close>), the clock (\<open>logical_clock\<close>), stores that keep the highest version (\<open>lww_store\<close>), record writers for the dump (the synchronous rewrite and the child's file, \<open>dump_sink\<close>), the commands that tell the log all they change (\<open>journaled\<close>),
  the subscription relation of publish/subscribe (\<open>pubsub_service\<close>), the database as the network sees it (\<open>database_service\<close>), whoever
  delivers published messages (\<open>delivery\<close>), properties kept through one client's turn (\<open>turn\<close>, \<open>whole_turn\<close>, interpreted for the loop
  invariant, the order of output, the gate before the database and the buffer budget), and stores of objects (\<open>object_store\<close>).

  \<^bold>\<open>What is shown.\<close>

  \<^item> \<^emph>\<open>Durability.\<close> Commands tell the log every change they make; the log replays to the store after a cut at any byte; an
    acknowledged append of a record within the limits of the parser survives a restart; the migration of an old or corrupt log at the start
    keeps the store, whether it succeeds or fails (\<open>migration_keeps_store\<close>); a rewrite in a child, with commands running meanwhile, leaves a log
    that stands for the same store, unless a replay left a tombstone of a live key; a crash and a restart show the store as it was, from memory, cold storage and snapshots; the synced offset
    never passes what is durable; closing the log under the policy \<open>Everysec\<close> leaves nothing unflushed (\<open>shutdown_flushes\<close>).
  \<^item> \<^emph>\<open>Commands.\<close> Each handler on every branch: reply, new store, version, log record; \<open>MSET\<close> is atomic; reads change nothing;
    every command keeps the invariant of the whole database and touches no room but its own.
  \<^item> \<^emph>\<open>Tiers.\<close> Eviction and compaction keep every record and the accounting, and reach the limits; hibernation is all or nothing and waking
    restores it; over any run of commands, waking, hibernation, sweeps and expiry the rooms change by exactly the records the run logged
    (\<open>room_lifecycle\<close>); maintenance by the watchdog loses nothing.
  \<^item> \<^emph>\<open>Replication.\<close> Replicas that received the same updates agree; collected tombstones do not let stale writes back in; the
    replication offset passes only what the peer has confirmed, and reaches the end of the log; what is confirmed is known to the database of the
    peer (\<open>confirmed_is_known\<close>); nothing is sent to a peer without the certificate of the cluster (\<open>cluster_certificate_first\<close>).
  \<^item> \<^emph>\<open>The server.\<close> A start is safe or touches nothing; no client is forgotten by the loop and its tables agree; nobody reaches the database
    without the password; output is sent in order; the buffers stay within their limit; deferred input runs out;
    messages go to exactly the subscribers.
  \<^item> \<^emph>\<open>Where the code falls short.\<close> A key deleted and set again before a restart is lost when the log is rewritten after the restart
    (\<open>rewrite_after_replay_loses\<close>); a snapshot that cannot be read is overwritten (\<open>unreadable_snapshot_lost\<close>); a command of
    more than \<open>kMaxArgs - 5\<close> words makes the rest of the log unreadable (\<open>oversized_record_stops_replay\<close>); a write refused by a peer for its timestamp may never reach
    it (\<open>refused_write_forgotten\<close>); timestamps may be normalised
    twice (\<open>normalize_exact\<close>).

  \<^bold>\<open>Bounds and termination.\<close> No definition has fuel: loops over input recurse on the input or have a measure, loops over system calls recurse on the
  list of their outcomes, whose end stands for the call that ends the loop (nothing more to read, a full socket). The
  loop of one client's turn has the budget of the code, \<open>MAX_COMMANDS_PER_TURN\<close>; that what it leaves over runs out is
  \<open>deferred_input_shrinks\<close>. The event loop itself does not end and is a step relation.

  \<^bold>\<open>Not modelled.\<close> Log and trace lines; the reading of the system clock; what a mutex or a condition variable does beyond making a section one step; the names of
  temporary files and their permissions; the memory of the C++ program outside the record pool; rounding: the floating-point numbers of the suspicion level are elements of an
  ordered field. The buffer limit is proved without TLS only, for a reason given in \<open>Budget\<close>. What is known to a peer
  is shown while its reads of cold storage and snapshots succeed (\<open>calm\<close>), and while it has peers of its own: without any it keeps no tombstones.
\<close>

end
